(* ===== verification/Kernel_Prelude.thy ===== *)
theory Kernel_Prelude
  imports Main "HOL-Library.Word"
begin

text \<open>
  Prelude of the development: the C types of the kernel as words, the failures a kernel
  routine can end in, counted loops, and the generic facts on words that the component
  theories share.

  A C integer type of width w is a \<open>w word\<close>, so arithmetic wraps where C's unsigned
  arithmetic wraps. A routine that can end in a \<^verbatim>\<open>panic\<close>, a fault or undefined behaviour
  returns \<open>kerr + 'a\<close>, with \<open>Inl\<close> for the failure.
\<close>

unbundle bit_operations_syntax

section \<open>Types\<close>

type_synonym byte = "8 word"
type_synonym u8 = "8 word"
type_synonym u16 = "16 word"
type_synonym u32 = "32 word"
type_synonym u64 = "64 word"
type_synonym addr = u64

text \<open>The failures: \<^verbatim>\<open>panic\<close> of sys/panic.h (which halts for ever), a fault on an invalid
  pointer, an array index out of range and a signed overflow (undefined behaviour in C).\<close>

datatype kerr =
    Panic string
  | Null_deref
  | Out_of_bounds
  | Int_overflow
  | Bad_va_arg

type_synonym 'a kres = "kerr + 'a"

definition kbind :: "'a kres \<Rightarrow> ('a \<Rightarrow> 'b kres) \<Rightarrow> 'b kres" where
  "kbind x f = (case x of Inl e \<Rightarrow> Inl e | Inr a \<Rightarrow> f a)"

text \<open>Sequencing of routines that may not return (\<open>None\<close>) or fail.\<close>

definition obind :: "'a kres option \<Rightarrow> ('a \<Rightarrow> 'b kres option) \<Rightarrow> 'b kres option" where
  "obind x f = (case x of None \<Rightarrow> None | Some (Inl e) \<Rightarrow> Some (Inl e) | Some (Inr a) \<Rightarrow> f a)"

section \<open>Counted loops\<close>

text \<open>
  \<^verbatim>\<open>for (size_t i = 0; i < n; i++) body\<close> where the body does not change \<open>i\<close> or \<open>n\<close>:
  the body runs for \<open>i = 0, \<dots>, n - 1\<close>, and the counter never wraps.
\<close>

primrec for_nat :: "nat \<Rightarrow> (u64 \<Rightarrow> 's \<Rightarrow> 's) \<Rightarrow> 's \<Rightarrow> 's" where
  "for_nat 0 f s = s"
| "for_nat (Suc n) f s = f (of_nat n) (for_nat n f s)"

definition for_u64 :: "u64 \<Rightarrow> (u64 \<Rightarrow> 's \<Rightarrow> 's) \<Rightarrow> 's \<Rightarrow> 's" where
  "for_u64 n f s = for_nat (unat n) f s"

text \<open>The same loop with a body that can fail: the first failure ends it.\<close>

primrec for_natE :: "nat \<Rightarrow> (u64 \<Rightarrow> 's \<Rightarrow> 's kres) \<Rightarrow> 's \<Rightarrow> 's kres" where
  "for_natE 0 f s = Inr s"
| "for_natE (Suc n) f s = kbind (for_natE n f s) (f (of_nat n))"

definition for_u64E :: "u64 \<Rightarrow> (u64 \<Rightarrow> 's \<Rightarrow> 's kres) \<Rightarrow> 's \<Rightarrow> 's kres" where
  "for_u64E n f s = for_natE (unat n) f s"

section \<open>Address arithmetic of sys/misc.h\<close>

definition ALIGN_DOWN :: "u64 \<Rightarrow> u64 \<Rightarrow> u64" where
  "ALIGN_DOWN a align = a AND NOT (align - 1)"

definition ALIGN_UP :: "u64 \<Rightarrow> u64 \<Rightarrow> u64" where
  "ALIGN_UP a align = (a + align - 1) AND NOT (align - 1)"

definition MIN_u64 :: "u64 \<Rightarrow> u64 \<Rightarrow> u64" where
  "MIN_u64 a b = (if a < b then a else b)"

definition MAX_u64 :: "u64 \<Rightarrow> u64 \<Rightarrow> u64" where
  "MAX_u64 a b = (if a > b then a else b)"

definition KiB :: u64 where "KiB = push_bit 10 1"
definition MiB :: u64 where "MiB = push_bit 20 1"

text \<open>\<^verbatim>\<open>PAGE_SIZE\<close>, \<^verbatim>\<open>VA_END\<close>, \<^verbatim>\<open>VA_HHDM\<close>, \<^verbatim>\<open>V2P\<close> and \<^verbatim>\<open>P2V\<close> of mm/mem.h.\<close>

definition PAGE_SIZE :: u64 where "PAGE_SIZE = 4 * KiB"
definition VA_END :: u64 where "VA_END = 0xffffffffffffffff"
definition VA_HHDM :: u64 where "VA_HHDM = 0xffff800000000000"
definition V2P :: "u64 \<Rightarrow> u64" where "V2P vaddr = vaddr - VA_HHDM"
definition P2V :: "u64 \<Rightarrow> u64" where "P2V paddr = paddr + VA_HHDM"

section \<open>Collections\<close>

named_theorems kernel_consts \<open>values of the kernel's numeric constants\<close>
named_theorems step_simps \<open>one-step evaluation rules of the operations\<close>

section \<open>Generic lemmas\<close>

lemma kbind_simps [simp]:
  "kbind (Inl e) f = Inl e"
  "kbind (Inr a) f = f a"
  by (simp_all add: kbind_def)

lemma obind_simps [simp]:
  "obind None f = None" "obind (Some (Inl e)) f = Some (Inl e)" "obind (Some (Inr a)) f = f a"
  by (simp_all add: obind_def)

lemma kbind_eq_Inr: "kbind x f = Inr b \<longleftrightarrow> (\<exists>a. x = Inr a \<and> f a = Inr b)"
  by (auto simp: kbind_def split: sum.splits)

lemma kbind_InrE:
  assumes "kbind x f = Inr b"
  obtains a where "x = Inr a" "f a = Inr b"
  using assms by (auto simp: kbind_eq_Inr)

lemma unat_u64_bound: "unat (x :: u64) < 2 ^ 64"
  using unsigned_less[of x] by simp

lemma unat_max_u64: "unat (- 1 :: u64) = 2 ^ 64 - 1"
  by (simp add: unsigned_minus_1_eq_mask mask_eq_exp_minus_1)

lemma unat_of_nat_small [simp]:
  "i < 2 ^ LENGTH('a) \<Longrightarrow> unat (of_nat i :: 'a::len word) = i"
  by (simp add: unat_of_nat take_bit_nat_eq_self)

lemma unat_of_nat_u64: "i < 2 ^ 64 \<Longrightarrow> unat (of_nat i :: u64) = i"
  by simp

lemma of_nat_unat_diff: "of_nat (unat (x - a)) = (x - a :: 'a::len word)"
  by simp

lemma first_is_Least:
  fixes i :: nat
  assumes "a \<le> i" "P i" "\<forall>s. a \<le> s \<and> s < i \<longrightarrow> \<not> P s"
  shows "i = (LEAST s. a \<le> s \<and> P s)"
proof (rule Least_equality[symmetric])
  show "i \<le> y" if "a \<le> y \<and> P y" for y
    using assms(3) that by (cases "y < i") auto
qed (use assms in simp)

lemma add_mod_inj:
  fixes a n k m :: nat
  assumes "(a + n) mod m = (a + k) mod m" "n < m" "k < m"
  shows "n = k"
proof (rule ccontr)
  have less: "\<not> n < k" if "(a + n) mod m = (a + k) mod m" "k < m" for n k
  proof
    assume "n < k"
    then have "m dvd (a + k) - (a + n)" using that by (subst mod_eq_dvd_iff_nat[symmetric]) auto
    then have "m \<le> k - n" using \<open>n < k\<close> by (intro dvd_imp_le) auto
    then show False using \<open>k < m\<close> \<open>n < k\<close> by linarith
  qed
  assume "n \<noteq> k"
  then show False using less[of n k] less[of k n] assms by linarith
qed

text \<open>Invariant rule for counted loops.\<close>

lemma for_nat_invariant:
  assumes "P 0 s" and "\<And>i s. i < n \<Longrightarrow> P i s \<Longrightarrow> P (Suc i) (f (of_nat i) s)"
  shows "P n (for_nat n f s)"
  using assms by (induction n) auto

lemma for_u64_invariant:
  assumes "P 0 s" and "\<And>i s. i < unat n \<Longrightarrow> P i s \<Longrightarrow> P (Suc i) (f (of_nat i) s)"
  shows "P (unat n) (for_u64 n f s)"
  unfolding for_u64_def by (rule for_nat_invariant) (use assms in auto)

lemma for_natE_invariant:
  assumes "for_natE n f s = Inr s'" "P 0 s"
    and "\<And>i s s'. i < n \<Longrightarrow> P i s \<Longrightarrow> f (of_nat i) s = Inr s' \<Longrightarrow> P (Suc i) s'"
  shows "P n s'"
  using assms
proof (induction n arbitrary: s')
  case (Suc n)
  then obtain t where "for_natE n f s = Inr t" "f (of_nat n) t = Inr s'"
    by (auto elim: kbind_InrE)
  with Suc show ?case by auto
qed simp

lemma for_u64_0 [simp]: "for_u64 0 f s = s"
  by (simp add: for_u64_def)

lemma for_u64_1 [simp]: "for_u64 1 f s = f 0 s"
  by (simp add: for_u64_def)

text \<open>Values of the constants.\<close>

lemma KiB_eq [kernel_consts]: "KiB = 0x400"
  by (simp add: KiB_def push_bit_eq_mult)

lemma MiB_eq [kernel_consts]: "MiB = 0x100000"
  by (simp add: MiB_def push_bit_eq_mult)

lemma PAGE_SIZE_eq [kernel_consts]: "PAGE_SIZE = 0x1000"
  by (simp add: PAGE_SIZE_def KiB_eq)

text \<open>Rounding down to a power of two clears the low bits.\<close>

lemma and_not_mask_eq: "a AND NOT (mask n) = a - take_bit n (a :: 'a::len word)"
proof -
  have "(a AND NOT (mask n)) + take_bit n a = (a AND NOT (mask n)) OR take_bit n a"
    by (rule disjunctive_add_eq_or) (simp add: take_bit_eq_mask and.left_commute and.assoc)
  also have "\<dots> = a"
    by (rule bit_word_eqI) (auto simp: bit_simps)
  finally show ?thesis by (simp add: eq_diff_eq)
qed

lemma unat_take_bit: "unat (take_bit n a) = unat (a :: 'a::len word) mod 2 ^ n"
  by (subst unsigned_take_bit_eq) (rule take_bit_eq_mod)

lemma unat_and_not_mask:
  fixes a :: "'a::len word"
  shows "unat (a AND NOT (mask n)) = unat a - unat a mod 2 ^ n"
proof -
  have "take_bit n a \<le> a"
    by (simp add: word_le_nat_alt unat_take_bit del: take_bit_eq_mod)
  then show ?thesis
    by (simp only: and_not_mask_eq unat_sub unat_take_bit)
qed

lemma mask_words [kernel_consts]:
  "(7 :: u64) = mask 3" "(0xfff :: u64) = mask 12"
  by (simp_all add: mask_eq_exp_minus_1)

lemma unat_ALIGN_DOWN_page: "unat (ALIGN_DOWN a PAGE_SIZE) = unat a - unat a mod 4096"
  using unat_and_not_mask[of a 12] by (simp add: ALIGN_DOWN_def PAGE_SIZE_eq mask_eq_exp_minus_1)

lemma unat_ALIGN_UP_8:
  assumes "unat a + 7 < 2 ^ 64"
  shows "unat (ALIGN_UP a 8) = (unat a + 7) div 8 * 8"
proof -
  have "unat (a + 7) = unat a + 7"
    using assms by (subst unat_add_lem[THEN iffD1]) auto
  then show ?thesis
    using unat_and_not_mask[of "a + 7" 3]
    by (simp add: ALIGN_UP_def mask_eq_exp_minus_1 add.commute minus_mod_eq_div_mult)
qed

end
