(* ===== verification/Kernel_Memory.thy ===== *)
theory Kernel_Memory
  imports Kernel_Prelude
begin

text \<open>
  The memory the kernel works on: a byte for every 64-bit address, little-endian words in
  it, and the part of the machine state every routine can touch (the memory and the log).

  Addresses are those the CPU issues. The kernel reaches page tables and the bitmaps of the
  physical memory manager through the identity map it runs on, and the heap at the top of
  the address space, so one flat memory holds them all; translation itself is the subject
  of the theory Paging. A region \<open>[a, a + n)\<close> is the set of addresses \<open>x\<close> with
  \<open>unat (x - a) < n\<close>, which also describes a region that ends at the last address.
\<close>

type_synonym mem = "addr \<Rightarrow> byte"

section \<open>Little-endian loads and stores\<close>

primrec le_word :: "byte list \<Rightarrow> 'a::len word" where
  "le_word [] = 0"
| "le_word (b # bs) = push_bit 8 (le_word bs) OR ucast b"

definition load :: "nat \<Rightarrow> mem \<Rightarrow> addr \<Rightarrow> 'a::len word" where
  "load n m a = le_word (map (\<lambda>i. m (a + of_nat i)) [0..<n])"

definition store :: "nat \<Rightarrow> mem \<Rightarrow> addr \<Rightarrow> 'a::len word \<Rightarrow> mem" where
  "store n m a v =
     (\<lambda>x. if unat (x - a) < n then ucast (drop_bit (8 * unat (x - a)) v) else m x)"

abbreviation read64 :: "mem \<Rightarrow> addr \<Rightarrow> u64" where "read64 \<equiv> load 8"
abbreviation write64 :: "mem \<Rightarrow> addr \<Rightarrow> u64 \<Rightarrow> mem" where "write64 \<equiv> store 8"

definition in_region :: "addr \<Rightarrow> nat \<Rightarrow> addr \<Rightarrow> bool" where
  "in_region a n x \<longleftrightarrow> unat (x - a) < n"

text \<open>Two non-empty regions are apart when neither starts inside the other.\<close>

definition apart :: "addr \<Rightarrow> nat \<Rightarrow> addr \<Rightarrow> nat \<Rightarrow> bool" where
  "apart a n b k \<longleftrightarrow> n \<le> unat (b - a) \<and> k \<le> unat (a - b)"

section \<open>The state every routine shares\<close>

text \<open>\<^verbatim>\<open>log_level_t\<close> of log/log.h.\<close>

datatype log_level_t = INFO | TODO | ERROR | WARNING | NONE

text \<open>
  \<open>klog\<close> records the calls of the macros \<^verbatim>\<open>info\<close>, \<^verbatim>\<open>error\<close>, \<^verbatim>\<open>warning\<close> and \<^verbatim>\<open>log\<close>, level and
  message without its arguments, in order; how a message is printed is the subject of the
  theory Logging. The record is extended by each component that keeps state of its own.
\<close>

record kstate =
  kmem :: mem
  klog :: "(log_level_t \<times> string) list"

definition log_msg :: "log_level_t \<Rightarrow> string \<Rightarrow> 'a kstate_scheme \<Rightarrow> 'a kstate_scheme" where
  "log_msg level msg st = st\<lparr>klog := klog st @ [(level, msg)]\<rparr>"

section \<open>Lemmas\<close>

lemma kmem_log_msg [simp]: "kmem (log_msg l s st) = kmem st"
  by (simp add: log_msg_def)

lemma bit_le_word:
  "bit (le_word bs :: 'a::len word) n \<longleftrightarrow>
     n < LENGTH('a) \<and> n div 8 < length bs \<and> bit (bs ! (n div 8)) (n mod 8)"
proof (induction bs arbitrary: n)
  case Nil
  then show ?case by simp
next
  case (Cons b bs)
  show ?case
  proof (cases "n < 8")
    case True
    then show ?thesis by (auto simp: bit_simps)
  next
    case False
    then have "n div 8 = Suc ((n - 8) div 8)" "n mod 8 = (n - 8) mod 8"
      by (auto simp: le_div_geq le_mod_geq)
    then show ?thesis using False Cons.IH[of "n - 8"]
      by (auto simp: bit_simps dest: bit_imp_le_length)
  qed
qed

lemma bit_load:
  "bit (load n m a :: 'a::len word) k \<longleftrightarrow>
     k < LENGTH('a) \<and> k div 8 < n \<and> bit (m (a + of_nat (k div 8))) (k mod 8)"
  by (auto simp: load_def bit_le_word)

lemma load_store_same:
  assumes "8 * n = LENGTH('a)" "n < 2 ^ 64"
  shows "load n (store n m a v) a = (v :: 'a::len word)"
proof (rule bit_word_eqI)
  fix k assume k: "k < LENGTH('a)"
  then have kn: "k div 8 < n" using assms by auto
  with assms have "unat (of_nat (k div 8) :: u64) = k div 8" by simp
  with k kn show "bit (load n (store n m a v) a :: 'a word) k \<longleftrightarrow> bit v k"
    by (simp add: bit_load store_def bit_simps)
qed

lemma read64_write64_same [simp]: "read64 (write64 m a v) a = v"
  by (rule load_store_same) auto

lemma offset_eq_iff:
  assumes "n < 2 ^ 64"
  shows "a + of_nat n = x \<longleftrightarrow> unat (x - a :: u64) = n"
proof -
  have "a + of_nat n = x \<longleftrightarrow> x - a = of_nat n" by (auto simp: algebra_simps)
  with assms show ?thesis by (simp add: word_unat_eq_iff)
qed

lemma in_region_0 [simp]: "\<not> in_region a 0 x"
  by (simp add: in_region_def)

lemma in_region_Suc:
  assumes "n < 2 ^ 64"
  shows "in_region a (Suc n) x \<longleftrightarrow> a + of_nat n = x \<or> in_region a n x"
  using offset_eq_iff[OF assms, of a x] by (auto simp: in_region_def less_Suc_eq)

lemma apart_commute: "apart a n b k \<longleftrightarrow> apart b k a n"
  by (auto simp: apart_def)

lemma unat_diff_sum_le: "unat (a - b) + unat (b - a) \<le> (2 :: nat) ^ 64" for a b :: u64
  using unat_u64_bound[of a] unat_u64_bound[of b] by (auto simp: unat_sub_if')

lemma apartD:
  assumes "apart a n b k" "in_region b k x"
  shows "\<not> in_region a n x"
proof -
  have "unat (x - b) < k" "n \<le> unat (b - a)" "k \<le> unat (a - b)"
    using assms by (auto simp: apart_def in_region_def)
  moreover from this have "unat (x - b) + unat (b - a) < 2 ^ 64"
    using unat_diff_sum_le[of a b] by linarith
  then have "unat ((x - b) + (b - a)) = unat (x - b) + unat (b - a)"
    by (subst unat_add_lem[THEN iffD1]) auto
  ultimately show ?thesis by (simp add: in_region_def)
qed

lemma load_cong:
  assumes "\<And>x. in_region a n x \<Longrightarrow> m' x = m x" "n \<le> 2 ^ 64"
  shows "load n m' a = load n m a"
proof -
  have "m' (a + of_nat i) = m (a + of_nat i)" if "i < n" for i
    using that assms by (intro assms(1)) (simp add: in_region_def)
  then have "map (\<lambda>i. m' (a + of_nat i)) [0..<n] = map (\<lambda>i. m (a + of_nat i)) [0..<n]"
    by simp
  then show ?thesis unfolding load_def by (rule arg_cong)
qed

lemma store_outside: "\<not> in_region a n x \<Longrightarrow> store n m a v x = m x"
  by (simp add: store_def in_region_def)

lemma load_store_apart:
  assumes "apart a k b n" "n \<le> 2 ^ 64"
  shows "load n (store k m a v) b = load n m b"
  using assms by (intro load_cong) (auto intro!: store_outside dest: apartD)

lemma aligned_apart:
  assumes "unat a mod 8 = 0" "unat b mod 8 = 0" "a \<noteq> b"
  shows "apart a 8 b 8"
proof -
  have "unat a \<noteq> unat b" using assms by (simp add: word_unat_eq_iff)
  then show ?thesis
    using assms unat_u64_bound[of a] unat_u64_bound[of b]
    by (auto simp: apart_def unat_sub_if' dvd_def mod_eq_0_iff_dvd)
qed

lemma read64_write64_aligned:
  assumes "unat a mod 8 = 0" "unat b mod 8 = 0"
  shows "read64 (write64 m a v) b = (if a = b then v else read64 m b)"
  using assms by (cases "a = b") (simp_all add: load_store_apart aligned_apart)

end
