(* ===== verification/LibMem.thy ===== *)
theory LibMem
  imports Kernel_Memory
begin

text \<open>
  The memory and string routines of lib/mem/mem.c. Each routine takes the memory and
  returns the new one, next to the C function's result. The loops that run up to a count
  are \<^const>\<open>for_u64\<close>; the loop of \<open>strlen\<close> ends only at a NUL and may therefore
  not return (\<open>None\<close>); the \<^verbatim>\<open>int\<close> index of \<open>strcpy\<close> overflows after 2^31 characters.
\<close>

section \<open>Definitions\<close>

definition memcpy :: "mem \<Rightarrow> addr \<Rightarrow> addr \<Rightarrow> u64 \<Rightarrow> addr \<times> mem" where
  "memcpy m dest src num =
     (dest, for_u64 num (\<lambda>i m. m(dest + i := m (src + i))) m)"

text \<open>\<open>temp\<close> is the variable-length array on the stack; its initial content is
  indeterminate and never read, so any start value does.\<close>

definition memmove :: "mem \<Rightarrow> addr \<Rightarrow> addr \<Rightarrow> u64 \<Rightarrow> addr \<times> mem" where
  "memmove m dest src num =
     (let temp = for_u64 num (\<lambda>i t. t(i := m (src + i))) (\<lambda>_. 0)
      in (dest, for_u64 num (\<lambda>i m. m(dest + i := temp i)) m))"

text \<open>The fill value is an \<^verbatim>\<open>int\<close> that is cut down to a \<^verbatim>\<open>char\<close>.\<close>

definition memset :: "mem \<Rightarrow> addr \<Rightarrow> u32 \<Rightarrow> u64 \<Rightarrow> mem" where
  "memset m buf c n = for_u64 n (\<lambda>i m. m(buf + i := ucast c)) m"

function strncmp :: "mem \<Rightarrow> addr \<Rightarrow> addr \<Rightarrow> u64 \<Rightarrow> int" where
  "strncmp m str1 str2 num =
     (if num \<noteq> 0 \<and> m str1 \<noteq> 0 \<and> m str1 = m str2
      then strncmp m (str1 + 1) (str2 + 1) (num - 1)
      else if num = 0 then 0
      else uint (m str1) - uint (m str2))"
  by pat_completeness auto
termination
  by (relation "measure (\<lambda>(m, str1, str2, num). unat num)") (auto intro: measure_unat)

declare strncmp.simps [simp del]

definition memcmp :: "mem \<Rightarrow> addr \<Rightarrow> addr \<Rightarrow> u64 \<Rightarrow> int" where
  "memcmp m buf1 buf2 num = strncmp m buf1 buf2 num"

function strcpy_loop :: "addr \<Rightarrow> addr \<Rightarrow> nat \<Rightarrow> mem \<Rightarrow> (nat \<times> mem) kres" where
  "strcpy_loop dest src i m =
     (if m (src + of_nat i) \<noteq> 0 then
        (let m' = m(dest + of_nat i := m (src + of_nat i))
         in if 2 ^ 31 \<le> i + 1 then Inl Int_overflow
            else strcpy_loop dest src (i + 1) m')
      else Inr (i, m))"
  by pat_completeness auto
termination
  by (relation "measure (\<lambda>(dest, src, i, m). 2 ^ 31 - i)") auto

declare strcpy_loop.simps [simp del]

definition strcpy :: "mem \<Rightarrow> addr \<Rightarrow> addr \<Rightarrow> (addr \<times> mem) kres" where
  "strcpy m dest src =
     kbind (strcpy_loop dest src 0 m) (\<lambda>(i, m'). Inr (dest, m'(dest + of_nat i := 0)))"

partial_function (option) strlen_loop :: "mem \<Rightarrow> addr \<Rightarrow> u64 \<Rightarrow> u64 option" where
  "strlen_loop m src len =
     (if m (src + len) \<noteq> 0 then strlen_loop m src (len + 1) else Some len)"

definition strlen :: "mem \<Rightarrow> addr \<Rightarrow> u64 option" where
  "strlen m src = strlen_loop m src 0"

section \<open>Copying and filling\<close>

text \<open>A loop that writes \<open>g i\<close> at offset \<open>i\<close> fills exactly the region.\<close>

lemma for_nat_fill:
  assumes "n \<le> 2 ^ 64"
  shows "for_nat n (\<lambda>i m. m(d + i := g i)) m x = (if in_region d n x then g (x - d) else m x)"
  using assms
proof (induction n)
  case 0
  then show ?case by (simp add: in_region_def)
next
  case (Suc n)
  then show ?case using in_region_Suc[of n d x] by auto
qed

lemma for_u64_fill:
  "for_u64 n (\<lambda>i m. m(d + i := g i)) m x = (if in_region d (unat n) x then g (x - d) else m x)"
  unfolding for_u64_def by (rule for_nat_fill) (use unat_u64_bound[of n] in simp)

lemma memset_apply:
  "memset m buf c n x = (if in_region buf (unat n) x then ucast c else m x)"
  by (simp add: memset_def for_u64_fill)

lemma memmove_apply:
  "snd (memmove m dest src num) x =
     (if in_region dest (unat num) x then m (src + (x - dest)) else m x)"
proof -
  have "for_u64 num (\<lambda>i t. t(i := m (src + i))) (\<lambda>_. 0) (x - dest) = m (src + (x - dest))"
    if "in_region dest (unat num) x"
    using that for_u64_fill[where d = 0 and g = "\<lambda>i. m (src + i)"]
    by (simp add: in_region_def)
  then show ?thesis by (simp add: memmove_def Let_def for_u64_fill)
qed

text \<open>Copying upwards reads every source byte before it is overwritten unless the
  destination starts strictly inside the source region.\<close>

lemma forward_copy_reads_original:
  assumes "dest = src \<or> N \<le> unat (dest - src)" "n < N" "n < 2 ^ 64"
  shows "\<not> in_region dest n (src + of_nat n)"
proof (cases "dest = src")
  case True
  then show ?thesis using assms by (simp add: in_region_def)
next
  case False
  then have "unat (dest - src) + unat (src - dest) = 2 ^ 64"
    using unat_u64_bound[of dest] unat_u64_bound[of src]
    by (auto simp: unat_sub_if' word_unat_eq_iff)
  moreover have eq: "src + of_nat n - dest = (src - dest) + of_nat n" by simp
  moreover have "unat ((src - dest) + of_nat n) = unat (src - dest) + n"
    using calculation(1) assms False by (subst unat_add_lem[THEN iffD1]) auto
  ultimately show ?thesis by (simp only: in_region_def)
qed

lemma memcpy_apply:
  assumes "dest = src \<or> unat num \<le> unat (dest - src)"
  shows "snd (memcpy m dest src num) x =
    (if in_region dest (unat num) x then m (src + (x - dest)) else m x)"
proof -
  let ?f = "\<lambda>i m. m(dest + i := m (src + i)) :: mem"
  have "n \<le> unat num \<Longrightarrow> for_nat n ?f m = for_nat n (\<lambda>i m'. m'(dest + i := m (src + i))) m" for n
  proof (induction n)
    case (Suc n)
    then have n: "n < 2 ^ 64" and "n < unat num" using unat_u64_bound[of num] by linarith+
    then have "for_nat n (\<lambda>i m'. m'(dest + i := m (src + i))) m (src + of_nat n) = m (src + of_nat n)"
      using forward_copy_reads_original[OF assms] by (simp add: for_nat_fill)
    with Suc show ?case by (simp del: fun_upd_apply)
  qed simp
  from this[of "unat num"] show ?thesis
    using for_u64_fill[where d = dest and g = "\<lambda>i. m (src + i)"]
    by (simp add: memcpy_def for_u64_def)
qed

section \<open>Comparing\<close>

text \<open>Where the common run of equal non-NUL bytes ends decides the result.\<close>

lemma strncmp_stop:
  assumes "k < unat num" "\<And>i. i < k \<Longrightarrow> m (s1 + of_nat i) \<noteq> 0 \<and> m (s1 + of_nat i) = m (s2 + of_nat i)"
    and "m (s1 + of_nat k) = 0 \<or> m (s1 + of_nat k) \<noteq> m (s2 + of_nat k)"
  shows "strncmp m s1 s2 num = uint (m (s1 + of_nat k)) - uint (m (s2 + of_nat k))"
  using assms
proof (induction k arbitrary: s1 s2 num)
  case 0
  then show ?case by (subst strncmp.simps) auto
next
  case (Suc k)
  have ne: "num \<noteq> 0" using Suc.prems(1) by auto
  have "strncmp m s1 s2 num = strncmp m (s1 + 1) (s2 + 1) (num - 1)"
    using Suc.prems(2)[of 0] ne by (subst strncmp.simps) auto
  also have "\<dots> = uint (m (s1 + 1 + of_nat k)) - uint (m (s2 + 1 + of_nat k))"
  proof (rule Suc.IH)
    show "k < unat (num - 1)" using Suc.prems(1) ne by (simp add: unat_minus_one)
    show "m (s1 + 1 + of_nat i) \<noteq> 0 \<and> m (s1 + 1 + of_nat i) = m (s2 + 1 + of_nat i)" if "i < k" for i
      using Suc.prems(2)[of "Suc i"] that by (auto simp: add.assoc)
    show "m (s1 + 1 + of_nat k) = 0 \<or> m (s1 + 1 + of_nat k) \<noteq> m (s2 + 1 + of_nat k)"
      using Suc.prems(3) by (simp add: add.assoc)
  qed
  finally show ?case by (simp add: add.assoc)
qed

lemma strncmp_full:
  assumes "\<And>i. i < unat num \<Longrightarrow> m (s1 + of_nat i) \<noteq> 0 \<and> m (s1 + of_nat i) = m (s2 + of_nat i)"
  shows "strncmp m s1 s2 num = 0"
  using assms
proof (induction "unat num" arbitrary: s1 s2 num)
  case 0
  then have "num = 0" by (simp add: unat_eq_zero)
  then show ?case by (subst strncmp.simps) simp
next
  case (Suc k)
  have ne: "num \<noteq> 0" using Suc.hyps(2) by auto
  then have k: "k = unat (num - 1)" using Suc.hyps(2) by (simp add: unat_minus_one)
  have "strncmp m s1 s2 num = strncmp m (s1 + 1) (s2 + 1) (num - 1)"
    using Suc.prems[of 0] Suc.hyps(2) ne by (subst strncmp.simps) auto
  also have "\<dots> = 0"
  proof (rule Suc.hyps(1)[OF k])
    fix i assume "i < unat (num - 1)"
    then show "m (s1 + 1 + of_nat i) \<noteq> 0 \<and> m (s1 + 1 + of_nat i) = m (s2 + 1 + of_nat i)"
      using Suc.hyps(2) k Suc.prems[of "Suc i"] by (auto simp: add.assoc)
  qed
  finally show ?case .
qed

lemma memcmp_zero_iff:
  "memcmp m b1 b2 num = 0 \<longleftrightarrow>
     (\<exists>k \<le> unat num.
        (\<forall>i<k. m (b1 + of_nat i) \<noteq> 0 \<and> m (b1 + of_nat i) = m (b2 + of_nat i)) \<and>
        (k = unat num \<or> m (b1 + of_nat k) = 0 \<and> m (b2 + of_nat k) = 0))"
  (is "_ \<longleftrightarrow> (\<exists>k \<le> unat num. ?run k \<and> ?end k)")
proof (cases "?run (unat num)")
  case True
  then have "memcmp m b1 b2 num = 0"
    unfolding memcmp_def by (intro strncmp_full) blast
  with True show ?thesis by blast
next
  case False
  define bad where "bad i \<longleftrightarrow> m (b1 + of_nat i) = 0 \<or> m (b1 + of_nat i) \<noteq> m (b2 + of_nat i)" for i
  from False have "\<exists>i<unat num. bad i" by (auto simp: bad_def)
  then obtain k where k: "k < unat num" "bad k" "\<And>i. i < k \<Longrightarrow> \<not> bad i"
    using exists_least_iff[of "\<lambda>i. i < unat num \<and> bad i"] by (auto dest: less_trans)
  have run: "?run k" using k(3) unfolding bad_def by blast
  then have eq: "memcmp m b1 b2 num = uint (m (b1 + of_nat k)) - uint (m (b2 + of_nat k))"
    using strncmp_stop[OF k(1), of m b1 b2] k(2) unfolding memcmp_def bad_def by blast
  have uniq: "j = k" if "j \<le> unat num" "?run j" "?end j" for j
  proof (rule linorder_cases[of j k])
    assume "j < k"
    then show ?thesis using that(1,3) k(1) k(3)[of j] by (auto simp: bad_def)
  next
    assume "k < j"
    then show ?thesis using that(2) k(2) by (auto simp: bad_def)
  qed
  show ?thesis (is "_ = ?rhs")
  proof
    assume "memcmp m b1 b2 num = 0"
    then have "m (b1 + of_nat k) = m (b2 + of_nat k)" using eq by (simp add: word_uint_eq_iff)
    with run k(2) have "?run k \<and> ?end k" by (auto simp: bad_def)
    with less_imp_le[OF k(1)] show ?rhs by blast
  next
    assume ?rhs
    with uniq have "?end k" by blast
    with eq k(1) show "memcmp m b1 b2 num = 0" by simp
  qed
qed

section \<open>Strings\<close>

lemma strlen_loop_Some:
  assumes "m (src + len + of_nat n) = 0" "\<And>i. i < n \<Longrightarrow> m (src + len + of_nat i) \<noteq> 0"
  shows "strlen_loop m src len = Some (len + of_nat n)"
  using assms
proof (induction n arbitrary: len)
  case 0
  then show ?case by (subst strlen_loop.simps) simp
next
  case (Suc n)
  have "strlen_loop m src len = strlen_loop m src (len + 1)"
    using Suc.prems(2)[of 0] by (subst strlen_loop.simps) simp
  also have "\<dots> = Some (len + 1 + of_nat n)"
    using Suc.prems(1) Suc.prems(2)[of "Suc i" for i] by (intro Suc.IH) (auto simp: add_ac)
  finally show ?case by (simp add: add_ac)
qed

text \<open>The memory after \<open>strcpy\<close> has copied \<open>j\<close> characters.\<close>

definition copied :: "mem \<Rightarrow> addr \<Rightarrow> addr \<Rightarrow> nat \<Rightarrow> mem" where
  "copied m dest src j = (\<lambda>x. if in_region dest j x then m (src + (x - dest)) else m x)"

lemma copied_Suc:
  assumes "j < 2 ^ 64"
  shows "(copied m dest src j)(dest + of_nat j := m (src + of_nat j)) = copied m dest src (Suc j)"
proof
  fix x
  show "((copied m dest src j)(dest + of_nat j := m (src + of_nat j))) x = copied m dest src (Suc j) x"
    using in_region_Suc[OF assms, of dest x] by (auto simp: copied_def)
qed

lemma copied_source:
  assumes "apart dest k src k" "i < k" "j \<le> k" "k \<le> 2 ^ 64"
  shows "copied m dest src j (src + of_nat i) = m (src + of_nat i)"
proof -
  have "in_region src k (src + of_nat i)" using assms by (simp add: in_region_def)
  with assms(1) have "\<not> in_region dest k (src + of_nat i)" by (rule apartD)
  with assms(3) show ?thesis by (simp add: copied_def in_region_def)
qed

lemma strcpy_loop_copies:
  assumes "apart dest (Suc n) src (Suc n)" "n < 2 ^ 31" "m (src + of_nat n) = 0"
    and "\<And>i. i < n \<Longrightarrow> m (src + of_nat i) \<noteq> 0" and "j \<le> n"
  shows "strcpy_loop dest src j (copied m dest src j) = Inr (n, copied m dest src n)"
  using \<open>j \<le> n\<close>
proof (induction rule: inc_induct)
  case base
  then show ?case
    using assms(3) copied_source[OF assms(1), of n n] assms(2) by (subst strcpy_loop.simps) simp
next
  case (step j)
  have "copied m dest src j (src + of_nat j) = m (src + of_nat j)"
    using copied_source[OF assms(1), of j j] step.hyps assms(2) by simp
  then show ?case
    using step assms(2,4) copied_Suc[of j m dest src]
    by (subst strcpy_loop.simps) (simp del: fun_upd_apply)
qed

section \<open>Properties\<close>

text \<open>\<open>memmove\<close> copies for every overlap of the two buffers: each destination byte is the
  source byte the buffer held before the call, every byte outside the destination is
  unchanged, and the destination pointer is returned.\<close>

theorem memmove_correct:
  "memmove m dest src num =
     (dest, \<lambda>x. if in_region dest (unat num) x then m (src + (x - dest)) else m x)"
  by (rule prod_eqI) (auto simp: memmove_apply, simp add: memmove_def Let_def)

text \<open>\<open>memcpy\<close> agrees with \<open>memmove\<close> whenever the destination does not start strictly
  inside the source buffer (so also when the destination lies below an overlapping
  source).\<close>

theorem memcpy_eq_memmove:
  assumes "dest = src \<or> unat num \<le> unat (dest - src)"
  shows "memcpy m dest src num = memmove m dest src num"
proof (rule prod_eqI)
  show "fst (memcpy m dest src num) = fst (memmove m dest src num)"
    by (simp add: memcpy_def memmove_def Let_def)
  show "snd (memcpy m dest src num) = snd (memmove m dest src num)"
    using memcpy_apply[OF assms] memmove_apply by (intro ext) simp
qed

theorem memcpy_eq_memmove_witness:
  "memcpy (\<lambda>x. ucast x) 16 18 4 = memmove (\<lambda>x. ucast x) 16 18 4"
  by (rule memcpy_eq_memmove) simp

text \<open>On buffers whose first one holds no NUL byte, \<open>memcmp\<close> returns 0 exactly when the
  two buffers are equal.\<close>

theorem memcmp_equal_iff:
  assumes "\<forall>i<unat num. m (b1 + of_nat i) \<noteq> 0"
  shows "memcmp m b1 b2 num = 0 \<longleftrightarrow> (\<forall>i<unat num. m (b1 + of_nat i) = m (b2 + of_nat i))"
proof -
  have "k = unat num" if "k \<le> unat num" "k = unat num \<or> m (b1 + of_nat k) = 0" for k
    using assms that by (cases "k = unat num") auto
  then show ?thesis unfolding memcmp_zero_iff using assms by blast
qed

theorem memcmp_equal_iff_witness:
  "memcmp (\<lambda>_. 1) 0 8 4 = 0 \<longleftrightarrow> (\<forall>i<unat (4 :: u64). (1 :: byte) = 1)"
  using memcmp_equal_iff[where m = "\<lambda>_. 1" and ?b1.0 = 0 and ?b2.0 = 8 and num = 4] by simp

text \<open>C39. \<open>memcmp\<close> is \<open>strncmp\<close>, so it stops at the first NUL: two buffers that agree up to a
  common NUL byte compare equal whatever follows it, and there are buffers that differ and
  for which it returns 0.\<close>

theorem memcmp_blind_after_nul:
  "(\<forall>m b1 b2 num k. k < unat num \<and>
      (\<forall>i<k. m (b1 + of_nat i) \<noteq> 0 \<and> m (b1 + of_nat i) = m (b2 + of_nat i)) \<and>
      m (b1 + of_nat k) = 0 \<and> m (b2 + of_nat k) = 0 \<longrightarrow> memcmp m b1 b2 num = 0) \<and>
   (\<exists>m b1 b2. memcmp m b1 b2 2 = 0 \<and> m (b1 + 1) \<noteq> m (b2 + 1))"
proof
  have "memcmp (\<lambda>x. if x = 1 then 1 else 0) 0 8 2 = 0"
    by (simp add: memcmp_def strncmp.simps)
  then show "\<exists>m b1 b2. memcmp m b1 b2 2 = 0 \<and> m (b1 + 1) \<noteq> m (b2 + 1)"
    by (intro exI[of _ "\<lambda>x. if x = 1 then 1 else 0"] exI[of _ 0] exI[of _ 8]) simp
qed (use less_imp_le in \<open>unfold memcmp_zero_iff, blast\<close>)

theorem memcmp_blind_after_nul_witness:
  "memcmp (\<lambda>x. if x = 2 then 9 else 0) 0 16 3 = 0 \<and>
   (\<exists>m b1 b2. memcmp m b1 b2 2 = 0 \<and> m (b1 + 1) \<noteq> m (b2 + 1))"
proof
  show "memcmp (\<lambda>x. if x = 2 then 9 else 0) 0 16 3 = 0"
    by (rule memcmp_blind_after_nul[THEN conjunct1, rule_format, where k = 0]) simp
qed (rule memcmp_blind_after_nul[THEN conjunct2])

text \<open>\<open>strlen\<close> returns the offset of the first NUL byte of the string, and it does return
  when there is one.\<close>

theorem strlen_correct:
  assumes "n < 2 ^ 64" "m (src + of_nat n) = 0" "\<forall>i<n. m (src + of_nat i) \<noteq> 0"
  shows "\<exists>r. strlen m src = Some r \<and> unat r = n"
  using strlen_loop_Some[of m src 0 n] assms by (simp add: strlen_def)

theorem strlen_correct_witness:
  "\<exists>r. strlen (\<lambda>x. if x = 7 then 0 else 65) 4 = Some r \<and> unat r = 3"
proof -
  have "\<forall>i<3. (if (4 :: u64) + of_nat i = 7 then 0 else 65 :: byte) \<noteq> 0"
    by (auto simp: numeral_3_eq_3 less_Suc_eq)
  then show ?thesis
    using strlen_correct[of 3 "\<lambda>x. if x = 7 then 0 else 65" 4] by simp
qed

text \<open>\<open>strcpy\<close> copies a string shorter than 2^31 characters, its NUL included, into a
  buffer that does not overlap it, and changes nothing else.\<close>

theorem strcpy_correct:
  assumes "n < 2 ^ 31" "m (src + of_nat n) = 0" "\<forall>i<n. m (src + of_nat i) \<noteq> 0"
    and "apart dest (Suc n) src (Suc n)"
  shows "strcpy m dest src =
    Inr (dest, \<lambda>x. if in_region dest (Suc n) x then m (src + (x - dest)) else m x)"
proof -
  have "strcpy_loop dest src 0 m = Inr (n, copied m dest src n)"
    using strcpy_loop_copies[OF assms(4,1), where m = m and j = 0] assms(2,3) by (simp add: copied_def)
  moreover have "(copied m dest src n)(dest + of_nat n := 0) = copied m dest src (Suc n)"
    using copied_Suc[of n m dest src] assms(1,2) by simp
  ultimately show ?thesis by (simp add: strcpy_def copied_def)
qed

theorem strcpy_correct_witness:
  "\<exists>m'. strcpy (\<lambda>x. if x = 1 then 0 else 65) 16 0 = Inr (16, m') \<and> m' 16 = 65 \<and> m' 17 = 0"
  using strcpy_correct[of 1 "\<lambda>x. if x = 1 then 0 else 65" 0 16]
  by (simp add: apart_def in_region_def)

end
