(* ===== verification/Bitmap.thy ===== *)
theory Bitmap
  imports LibMem
begin

text \<open>
  The bitmaps of lib/ds/bitmap.c and lib/include/ds/bitmap.h, which live in memory at
  \<open>data\<close>, one bit per page frame. The locale \<open>bit_array\<close> is the interface the physical
  memory manager relies on: reading after setting and after clearing a bit. The range
  operations and what they leave alone are proved from it once.
\<close>

section \<open>Definitions\<close>

record bitmap_t =
  size_bits :: u64
  data :: addr

definition get_byte_index :: "u64 \<Rightarrow> u64" where
  "get_byte_index b = b div 8"

definition get_bit_index :: "u64 \<Rightarrow> u64" where
  "get_bit_index b = b mod 8"

definition bit_mask :: "u64 \<Rightarrow> byte" where
  "bit_mask b = push_bit (unat (get_bit_index b)) 1"

definition bitmap_set :: "bitmap_t \<Rightarrow> mem \<Rightarrow> u64 \<Rightarrow> mem" where
  "bitmap_set bitmap m b =
     (let i = data bitmap + get_byte_index b in m(i := m i OR bit_mask b))"

definition bitmap_clear :: "bitmap_t \<Rightarrow> mem \<Rightarrow> u64 \<Rightarrow> mem" where
  "bitmap_clear bitmap m b =
     (let i = data bitmap + get_byte_index b in m(i := m i AND NOT (bit_mask b)))"

definition bitmap_get :: "bitmap_t \<Rightarrow> mem \<Rightarrow> u64 \<Rightarrow> bool" where
  "bitmap_get bitmap m b \<longleftrightarrow> m (data bitmap + get_byte_index b) AND bit_mask b \<noteq> 0"

definition bitmap_set_range :: "bitmap_t \<Rightarrow> mem \<Rightarrow> u64 \<Rightarrow> u64 \<Rightarrow> mem" where
  "bitmap_set_range bitmap m b num_bits = for_u64 num_bits (\<lambda>i m. bitmap_set bitmap m (b + i)) m"

definition bitmap_clear_range :: "bitmap_t \<Rightarrow> mem \<Rightarrow> u64 \<Rightarrow> u64 \<Rightarrow> mem" where
  "bitmap_clear_range bitmap m b num_bits = for_u64 num_bits (\<lambda>i m. bitmap_clear bitmap m (b + i)) m"

definition bitmap_size_bytes :: "bitmap_t \<Rightarrow> u64" where
  "bitmap_size_bytes bitmap =
     size_bits bitmap div 8 + (if size_bits bitmap mod 8 \<noteq> 0 then 1 else 0)"

text \<open>The scanning loop of \<^verbatim>\<open>bitmap_find_range\<close>: \<open>found_length\<close> counts the current run and
  \<open>found_idx\<close> is where it started, \<open>- 1\<close> being \<^verbatim>\<open>(size_t) -1\<close>.\<close>

function bitmap_find_loop ::
  "bitmap_t \<Rightarrow> mem \<Rightarrow> bool \<Rightarrow> u64 \<Rightarrow> u64 \<Rightarrow> u64 \<Rightarrow> u64 \<Rightarrow> u64" where
  "bitmap_find_loop bitmap m b len idx found_length found_idx =
     (if idx < size_bits bitmap then
        (let (found_length', found_idx') =
               (if bitmap_get bitmap m idx = b
                then (found_length + 1, if found_length = 0 then idx else found_idx)
                else (0, - 1))
         in if found_length' = len then found_idx'
            else bitmap_find_loop bitmap m b len (idx + 1) found_length' found_idx')
      else - 1)"
  by pat_completeness auto
termination
proof (relation "measure (\<lambda>(bitmap, m, b, len, idx, fl, fi). unat (size_bits bitmap) - unat idx)",
       goal_cases)
  case (2 bitmap m b len idx fl fi x fl' fi')
  then have "unat idx < unat (size_bits bitmap)" by (simp add: word_less_nat_alt)
  moreover from this have "unat (idx + 1) = unat idx + 1"
    using unat_u64_bound[of "size_bits bitmap"] by (subst unat_add_lem[THEN iffD1]) auto
  ultimately show ?case by simp
qed simp

declare bitmap_find_loop.simps [simp del]

definition bitmap_find_range :: "bitmap_t \<Rightarrow> mem \<Rightarrow> u64 \<Rightarrow> bool \<Rightarrow> u64 \<Rightarrow> u64" where
  "bitmap_find_range bitmap m first_idx b len =
     bitmap_find_loop bitmap m b len first_idx 0 (- 1)"

text \<open>Specification: \<open>n\<close> consecutive bits from \<open>s\<close> on, all inside the bitmap and all \<open>b\<close>.\<close>

definition bit_at :: "bitmap_t \<Rightarrow> mem \<Rightarrow> nat \<Rightarrow> bool" where
  "bit_at bitmap m n = bitmap_get bitmap m (of_nat n)"

definition is_run :: "bitmap_t \<Rightarrow> mem \<Rightarrow> bool \<Rightarrow> nat \<Rightarrow> nat \<Rightarrow> bool" where
  "is_run bitmap m b s n \<longleftrightarrow>
     s + n \<le> unat (size_bits bitmap) \<and> (\<forall>j<n. bit_at bitmap m (s + j) = b)"

section \<open>The interface\<close>

locale bit_array =
  fixes get :: "'s \<Rightarrow> u64 \<Rightarrow> bool"
    and set :: "'s \<Rightarrow> u64 \<Rightarrow> 's"
    and clear :: "'s \<Rightarrow> u64 \<Rightarrow> 's"
  assumes get_set: "get (set s i) j \<longleftrightarrow> i = j \<or> get s j"
    and get_clear: "get (clear s i) j \<longleftrightarrow> i \<noteq> j \<and> get s j"
begin

lemma get_set_range:
  "get (for_u64 n (\<lambda>i s. set s (b + i)) s) j \<longleftrightarrow> in_region b (unat n) j \<or> get s j"
  unfolding for_u64_def
proof (rule for_nat_invariant[where P = "\<lambda>k t. get t j \<longleftrightarrow> in_region b k j \<or> get s j"])
  fix i t assume "i < unat n" and "get t j \<longleftrightarrow> in_region b i j \<or> get s j"
  then show "get (set t (b + of_nat i)) j \<longleftrightarrow> in_region b (Suc i) j \<or> get s j"
    using in_region_Suc[of i b j] unat_u64_bound[of n] by (auto simp: get_set)
qed simp

lemma get_clear_range:
  "get (for_u64 n (\<lambda>i s. clear s (b + i)) s) j \<longleftrightarrow> \<not> in_region b (unat n) j \<and> get s j"
  unfolding for_u64_def
proof (rule for_nat_invariant[where P = "\<lambda>k t. get t j \<longleftrightarrow> \<not> in_region b k j \<and> get s j"])
  fix i t assume "i < unat n" and "get t j \<longleftrightarrow> \<not> in_region b i j \<and> get s j"
  then show "get (clear t (b + of_nat i)) j \<longleftrightarrow> \<not> in_region b (Suc i) j \<and> get s j"
    using in_region_Suc[of i b j] unat_u64_bound[of n] by (auto simp: get_clear)
qed simp

text \<open>Clearing a range that was clear before it was set brings every bit back.\<close>

lemma set_clear_range_restores:
  assumes "\<And>j. in_region b (unat n) j \<Longrightarrow> \<not> get s j"
  shows "get (for_u64 n (\<lambda>i s. clear s (b + i)) (for_u64 n (\<lambda>i s. set s (b + i)) s)) j = get s j"
  using assms[of j] by (auto simp: get_set_range get_clear_range)

end

section \<open>The bitmap implements the interface\<close>

lemma bit_bit_mask: "bit (bit_mask b) k \<longleftrightarrow> k = unat b mod 8"
proof -
  have "unat b mod 8 < 8" by simp
  then show ?thesis
    by (auto simp: bit_mask_def get_bit_index_def bit_simps unat_mod)
qed

lemma bitmap_get_iff_bit:
  "bitmap_get bitmap m b \<longleftrightarrow> bit (m (data bitmap + get_byte_index b)) (unat b mod 8)"
proof -
  have "y \<noteq> 0 \<longleftrightarrow> (\<exists>k. bit y k)" for y :: byte
    using bit_word_eqI[of y 0] by auto
  then show ?thesis by (simp add: bitmap_get_def bit_and_iff bit_bit_mask)
qed

lemma bit_number_split:
  "b = c \<longleftrightarrow> get_byte_index b = get_byte_index c \<and> unat b mod 8 = unat c mod 8"
  by (auto simp: get_byte_index_def word_unat_eq_iff unat_div) (metis div_mult_mod_eq)

interpretation bm: bit_array "bitmap_get bitmap" "bitmap_set bitmap" "bitmap_clear bitmap"
  for bitmap :: bitmap_t
proof unfold_locales
  fix m i j
  show "bitmap_get bitmap (bitmap_set bitmap m i) j \<longleftrightarrow> i = j \<or> bitmap_get bitmap m j"
    by (auto simp: bitmap_get_iff_bit bitmap_set_def Let_def
        bit_number_split[of i j] bit_or_iff bit_bit_mask)
  show "bitmap_get bitmap (bitmap_clear bitmap m i) j \<longleftrightarrow> i \<noteq> j \<and> bitmap_get bitmap m j"
    by (auto simp: bitmap_get_iff_bit bitmap_clear_def Let_def
        bit_number_split[of i j] bit_and_iff bit_not_iff bit_bit_mask dest: bit_imp_le_length)
qed

lemmas bitmap_get_set_range = bm.get_set_range[folded bitmap_set_range_def]
lemmas bitmap_get_clear_range = bm.get_clear_range[folded bitmap_clear_range_def]

section \<open>Searching for a run\<close>

lemma unat_Suc_below: "x < (y :: u64) \<Longrightarrow> unat (x + 1) = Suc (unat x)"
  using unat_u64_bound[of y] by (subst unat_add_lem[THEN iffD1]) (auto simp: word_less_nat_alt)

lemma bit_at_unat: "bit_at bitmap m (unat i) = bitmap_get bitmap m i"
  by (simp add: bit_at_def)

text \<open>What the scanning loop knows when it stands at bit \<open>i\<close> with the last \<open>f\<close> bits
  matching: no run of the wanted length starts before \<open>i - f\<close>.\<close>

definition scan_inv :: "bitmap_t \<Rightarrow> mem \<Rightarrow> bool \<Rightarrow> nat \<Rightarrow> nat \<Rightarrow> nat \<Rightarrow> nat \<Rightarrow> bool" where
  "scan_inv bitmap m b first L i f \<longleftrightarrow>
     first + f \<le> i \<and> f < L \<and>
     (\<forall>j<f. bit_at bitmap m (i - f + j) = b) \<and>
     (\<forall>s. first \<le> s \<and> s < i - f \<longrightarrow> \<not> is_run bitmap m b s L)"

lemma scan_inv_mismatch:
  assumes "scan_inv bitmap m b first L i f" "bit_at bitmap m i \<noteq> b"
  shows "scan_inv bitmap m b first L (Suc i) 0"
proof -
  have "\<not> is_run bitmap m b s L" if "first \<le> s" "s \<le> i" for s
  proof (cases "s < i - f")
    case True
    then show ?thesis using assms that by (auto simp: scan_inv_def)
  next
    case False
    then have "i - s < L" "s + (i - s) = i" using assms that by (auto simp: scan_inv_def)
    with assms(2) show ?thesis unfolding is_run_def by metis
  qed
  with assms show ?thesis by (auto simp: scan_inv_def)
qed

lemma scan_inv_match:
  assumes "scan_inv bitmap m b first L i f" "bit_at bitmap m i = b" "Suc f < L"
  shows "scan_inv bitmap m b first L (Suc i) (Suc f)"
  using assms by (auto simp: scan_inv_def less_Suc_eq)

lemma scan_inv_found:
  assumes "scan_inv bitmap m b first L i f" "bit_at bitmap m i = b" "Suc f = L"
    and "i < unat (size_bits bitmap)"
  shows "is_run bitmap m b (i - f) L"
  using assms by (auto simp: scan_inv_def is_run_def less_Suc_eq)

lemma scan_inv_end:
  assumes "scan_inv bitmap m b first L i f" "unat (size_bits bitmap) \<le> i" "first \<le> s"
  shows "\<not> is_run bitmap m b s L"
  using assms by (cases "s < i - f") (auto simp: scan_inv_def is_run_def)

definition first_run :: "bitmap_t \<Rightarrow> mem \<Rightarrow> bool \<Rightarrow> nat \<Rightarrow> nat \<Rightarrow> u64 \<Rightarrow> bool" where
  "first_run bitmap m b first L r \<longleftrightarrow>
     (if r = - 1 then \<forall>s\<ge>first. \<not> is_run bitmap m b s L
      else first \<le> unat r \<and> is_run bitmap m b (unat r) L \<and>
           (\<forall>s. first \<le> s \<and> s < unat r \<longrightarrow> \<not> is_run bitmap m b s L))"

lemma bitmap_find_loop_first_run:
  assumes "scan_inv bitmap m b first (unat len) (unat idx) (unat fl)"
    and "fl \<noteq> 0 \<Longrightarrow> unat fi = unat idx - unat fl"
  shows "first_run bitmap m b first (unat len) (bitmap_find_loop bitmap m b len idx fl fi)"
  using assms
proof (induction bitmap m b len idx fl fi rule: bitmap_find_loop.induct)
  case (1 bitmap m b len idx fl fi)
  note inv = "1.prems"(1)
  show ?case
  proof (cases "idx < size_bits bitmap")
    case False
    then have "unat (size_bits bitmap) \<le> unat idx" by (simp add: word_le_nat_alt not_less)
    then show ?thesis using scan_inv_end[OF inv] False
      by (subst bitmap_find_loop.simps) (simp add: first_run_def)
  next
    case True
    note idx1 = unat_Suc_below[OF True]
    have below: "unat idx < unat (size_bits bitmap)" using True by (simp add: word_less_nat_alt)
    show ?thesis
    proof (cases "bitmap_get bitmap m idx = b")
      case False
      have "len \<noteq> 0" using inv by (auto simp: scan_inv_def)
      moreover have "scan_inv bitmap m b first (unat len) (unat (idx + 1)) (unat (0 :: u64))"
        using scan_inv_mismatch[OF inv] False idx1 by (simp add: bit_at_unat)
      ultimately show ?thesis using True False "1.IH"[OF True refl]
        by (subst bitmap_find_loop.simps) simp
    next
      case match: True
      have fl1: "unat (fl + 1) = Suc (unat fl)"
        using inv by (intro unat_Suc_below[of fl len]) (simp add: scan_inv_def word_less_nat_alt)
      define fi' where "fi' = (if fl = 0 then idx else fi)"
      have fi': "unat fi' = unat idx - unat fl" using "1.prems"(2) by (auto simp: fi'_def)
      show ?thesis
      proof (cases "fl + 1 = len")
        case found: True
        then have L: "Suc (unat fl) = unat len" using fl1 by simp
        have "is_run bitmap m b (unat fi') (unat len)"
          using scan_inv_found[OF inv _ L below] match fi' by (simp add: bit_at_unat)
        moreover from this L have "fi' \<noteq> - 1"
          using unat_u64_bound[of "size_bits bitmap"] by (auto simp: is_run_def unat_max_u64)
        ultimately show ?thesis
          using True match found inv fi'
          by (subst bitmap_find_loop.simps) (auto simp: first_run_def scan_inv_def fi'_def[symmetric])
      next
        case more: False
        have "Suc (unat fl) < unat len"
          using inv fl1 more by (metis Suc_lessI scan_inv_def word_unat_eq_iff)
        then have "scan_inv bitmap m b first (unat len) (unat (idx + 1)) (unat (fl + 1))"
          using scan_inv_match[OF inv] match idx1 fl1 by (simp add: bit_at_unat)
        then show ?thesis
          using True match more "1.IH"[OF True refl] fi' fl1 idx1
          by (subst bitmap_find_loop.simps) (auto simp: fi'_def[symmetric])
      qed
    qed
  qed
qed

lemma bitmap_find_range_first_run:
  assumes "len \<noteq> 0"
  shows "first_run bitmap m b (unat first) (unat len) (bitmap_find_range bitmap m first b len)"
  unfolding bitmap_find_range_def
  by (rule bitmap_find_loop_first_run)
     (use assms in \<open>auto simp: scan_inv_def unat_gt_0\<close>)

section \<open>Footprint\<close>

lemma ceil_div_8: "(s + 7) div 8 = s div 8 + (if s mod 8 \<noteq> 0 then 1 else 0)" for s :: nat
proof -
  have "(s + 7) div 8 = (8 * (s div 8) + (s mod 8 + 7)) div 8" by simp
  also have "\<dots> = s div 8 + (s mod 8 + 7) div 8" by (subst div_mult_self4) simp_all
  also have "(s mod 8 + 7) div 8 = (if s mod 8 \<noteq> 0 then 1 else 0)"
  proof (cases "s mod 8 = 0")
    case False
    have "s mod 8 < 8" by simp
    with False have "s mod 8 + 7 = 8 + (s mod 8 - 1)" "s mod 8 - 1 < 8" by auto
    then have "(s mod 8 + 7) div 8 = 1" by simp
    with False show ?thesis by simp
  qed simp
  finally show ?thesis .
qed

lemma unat_bitmap_size_bytes:
  "unat (bitmap_size_bytes bitmap) = (unat (size_bits bitmap) + 7) div 8"
proof -
  let ?s = "unat (size_bits bitmap)"
  have "unat (size_bits bitmap div 8) = ?s div 8" "unat (size_bits bitmap mod 8) = ?s mod 8"
    by (simp_all add: unat_div unat_mod)
  moreover have "?s div 8 < 2 ^ 64 - 1"
    using unat_u64_bound[of "size_bits bitmap"] by simp
  moreover have "size_bits bitmap mod 8 \<noteq> 0 \<longleftrightarrow> ?s mod 8 \<noteq> 0"
    by (simp add: word_unat_eq_iff unat_mod)
  ultimately have "unat (bitmap_size_bytes bitmap) = ?s div 8 + (if ?s mod 8 \<noteq> 0 then 1 else 0)"
    by (simp add: bitmap_size_bytes_def unat_plus_if')
  then show ?thesis by (simp add: ceil_div_8)
qed

abbreviation bitmap_region :: "bitmap_t \<Rightarrow> addr \<Rightarrow> bool" where
  "bitmap_region bitmap \<equiv> in_region (data bitmap) (unat (bitmap_size_bytes bitmap))"

lemma bit_in_bitmap_region:
  assumes "unat b < unat (size_bits bitmap)"
  shows "bitmap_region bitmap (data bitmap + get_byte_index b)"
  using assms by (auto simp: in_region_def get_byte_index_def unat_bitmap_size_bytes unat_div)

lemma bitmap_write_outside:
  assumes "unat b < unat (size_bits bitmap)" "\<not> bitmap_region bitmap x"
  shows "bitmap_set bitmap m b x = m x" "bitmap_clear bitmap m b x = m x"
  using assms bit_in_bitmap_region[OF assms(1)]
  by (auto simp: bitmap_set_def bitmap_clear_def Let_def)

lemma unat_range_index:
  assumes "unat (b :: u64) + n \<le> unat (s :: u64)" "i < n"
  shows "unat (b + of_nat i) = unat b + i"
proof -
  have "unat b + i < 2 ^ 64" using assms unat_u64_bound[of s] by linarith
  then show ?thesis by (subst unat_add_lem[THEN iffD1]) auto
qed

lemma bitmap_range_outside:
  assumes "unat b + unat n \<le> unat (size_bits bitmap)" "\<not> bitmap_region bitmap x"
  shows "bitmap_set_range bitmap m b n x = m x" "bitmap_clear_range bitmap m b n x = m x"
  unfolding bitmap_set_range_def bitmap_clear_range_def
  by (rule for_u64_invariant[where P = "\<lambda>_ t. t x = m x"],
      use assms unat_range_index[OF assms(1)] in \<open>auto simp: bitmap_write_outside\<close>)+

text \<open>Reading a bit depends on the bitmap's own bytes only.\<close>

lemma bitmap_get_cong:
  assumes "unat b < unat (size_bits bitmap)" "\<And>x. bitmap_region bitmap x \<Longrightarrow> m' x = m x"
  shows "bitmap_get bitmap m' b = bitmap_get bitmap m b"
  using assms bit_in_bitmap_region[OF assms(1)] by (simp add: bitmap_get_def)

text \<open>Inside the bitmap a range of bit numbers does not wrap.\<close>

lemma in_region_index:
  assumes "unat b + n \<le> unat (s :: u64)"
  shows "in_region b n j \<longleftrightarrow> unat b \<le> unat j \<and> unat j < unat b + n"
  using assms unat_u64_bound[of s] unat_u64_bound[of j] by (auto simp: in_region_def unat_sub_if')

section \<open>Properties\<close>

text \<open>\<open>bitmap_find_range\<close> finds the first run: for a positive length it returns \<open>-1\<close>
  exactly when no run of that many equal bits starts at or after \<open>first_idx\<close> inside the bitmap,
  and otherwise the smallest index at which one starts.\<close>

theorem bitmap_find_range_correct:
  assumes "len \<noteq> 0"
  shows "let r = bitmap_find_range bm m first_idx b len in
    (r = - 1 \<longleftrightarrow> (\<forall>s\<ge>unat first_idx. \<not> is_run bm m b s (unat len))) \<and>
    (r \<noteq> - 1 \<longrightarrow> unat r = (LEAST s. unat first_idx \<le> s \<and> is_run bm m b s (unat len)))"
proof -
  let ?r = "bitmap_find_range bm m first_idx b len"
  have fr: "first_run bm m b (unat first_idx) (unat len) ?r"
    by (rule bitmap_find_range_first_run[OF assms])
  have "unat ?r = (LEAST s. unat first_idx \<le> s \<and> is_run bm m b s (unat len))" if "?r \<noteq> - 1"
    using fr that by (intro first_is_Least) (auto simp: first_run_def)
  moreover have "?r = - 1 \<longleftrightarrow> (\<forall>s\<ge>unat first_idx. \<not> is_run bm m b s (unat len))"
    using fr by (cases "?r = - 1") (auto simp: first_run_def)
  ultimately show ?thesis unfolding Let_def by blast
qed

theorem bitmap_find_range_correct_witness:
  "let r = bitmap_find_range \<lparr>size_bits = 8, data = 0\<rparr> (\<lambda>_. 0b01001101) 1 False 2 in
    (r = - 1 \<longleftrightarrow> (\<forall>s\<ge>unat (1 :: u64). \<not> is_run \<lparr>size_bits = 8, data = 0\<rparr> (\<lambda>_. 0b01001101) False s (unat (2 :: u64)))) \<and>
    (r \<noteq> - 1 \<longrightarrow> unat r = (LEAST s. unat (1 :: u64) \<le> s \<and>
       is_run \<lparr>size_bits = 8, data = 0\<rparr> (\<lambda>_. 0b01001101) False s (unat (2 :: u64))))"
  by (rule bitmap_find_range_correct) simp

text \<open>Setting and clearing a range of bits changes exactly the bits of the range: after
  \<open>bitmap_set_range\<close> they are set, after \<open>bitmap_clear_range\<close> they are clear, and clearing a
  range that was clear before it was set restores every bit of the bitmap.\<close>

theorem bitmap_range_correct:
  "(bitmap_get bm (bitmap_set_range bm m b n) j \<longleftrightarrow> in_region b (unat n) j \<or> bitmap_get bm m j) \<and>
   (bitmap_get bm (bitmap_clear_range bm m b n) j \<longleftrightarrow> \<not> in_region b (unat n) j \<and> bitmap_get bm m j) \<and>
   ((\<forall>i. in_region b (unat n) i \<longrightarrow> \<not> bitmap_get bm m i) \<longrightarrow>
      bitmap_get bm (bitmap_clear_range bm (bitmap_set_range bm m b n) b n) j = bitmap_get bm m j)"
  using bm.set_clear_range_restores[of b n bm m j, folded bitmap_set_range_def bitmap_clear_range_def]
  by (simp add: bitmap_get_set_range bitmap_get_clear_range)

theorem bitmap_range_correct_witness:
  "bitmap_get \<lparr>size_bits = 64, data = 0\<rparr>
     (bitmap_clear_range \<lparr>size_bits = 64, data = 0\<rparr>
        (bitmap_set_range \<lparr>size_bits = 64, data = 0\<rparr> (\<lambda>_. 0) 3 9) 3 9) 5 =
   bitmap_get \<lparr>size_bits = 64, data = 0\<rparr> (\<lambda>_. 0) 5"
  using bitmap_range_correct[of "\<lparr>size_bits = 64, data = 0\<rparr>" "\<lambda>_. 0" 3 9 5]
  by (simp add: bitmap_get_def)

end
