(* ===== verification/Pmm.thy ===== *)
theory Pmm
  imports Bitmap
begin

text \<open>
  The physical memory manager of kernel/mm/pmm.c: two zones of page frames, each with a
  bitmap (1 = used), byte counts and the index its next search starts from.

  The state extends \<^typ>\<open>kstate\<close> with the file's static variables: \<open>alloc_ptr\<close>, the bump
  pointer into \<^verbatim>\<open>alloc_area\<close>, \<open>mem_size\<close> and \<open>mem_zone\<close>. A zone number is an index into
  \<open>mem_zone\<close>; an index outside the array is \<^const>\<open>Out_of_bounds\<close>. The boot loader's memory
  map (a stivale2 structure) is an argument of \<open>pmm_init\<close>.
\<close>

section \<open>Definitions\<close>

type_synonym zone_e = nat

definition PMM_ZONE_DMA :: zone_e where "PMM_ZONE_DMA = 0"
definition PMM_ZONE_NORMAL :: zone_e where "PMM_ZONE_NORMAL = 1"
definition PMM_NUM_ZONES :: nat where "PMM_NUM_ZONES = 2"

definition PMM_FREE :: bool where "PMM_FREE = False"

record zone_t =
  mem_total :: u64
  mem_free :: u64
  mem_used :: u64
  offset :: addr
  bitmap :: bitmap_t
  first_free_idx :: u64
  zone :: zone_e

record pmm_state = kstate +
  alloc_ptr :: addr
  mem_size :: u64
  mem_zone :: "zone_t list"

text \<open>\<^verbatim>\<open>alloc_area\<close> is placed by the linker, so its address is an argument.\<close>

definition pmm_boot :: "addr \<Rightarrow> mem \<Rightarrow> pmm_state" where
  "pmm_boot alloc_area m =
     \<lparr>kmem = m, klog = [], alloc_ptr = alloc_area, mem_size = 0,
      mem_zone =
        [\<lparr>mem_total = - 1, mem_free = - 1, mem_used = - 1, offset = 0,
          bitmap = \<lparr>size_bits = - 1, data = 0\<rparr>, first_free_idx = - 1, zone = PMM_ZONE_DMA\<rparr>,
         \<lparr>mem_total = - 1, mem_free = - 1, mem_used = - 1, offset = 16 * MiB,
          bitmap = \<lparr>size_bits = - 1, data = 0\<rparr>, first_free_idx = - 1, zone = PMM_ZONE_NORMAL\<rparr>]\<rparr>"

definition pmm_area_alloc ::
  "'a pmm_state_scheme \<Rightarrow> u64 \<Rightarrow> u64 \<Rightarrow> addr \<times> 'a pmm_state_scheme" where
  "pmm_area_alloc st num align =
     (let ret = ALIGN_UP (alloc_ptr st) align
      in (ret, st\<lparr>kmem := memset (kmem st) ret 0 num, alloc_ptr := ret + num\<rparr>))"

definition update_zone ::
  "zone_e \<Rightarrow> (zone_t \<Rightarrow> zone_t) \<Rightarrow> 'a pmm_state_scheme \<Rightarrow> 'a pmm_state_scheme" where
  "update_zone z f st = st\<lparr>mem_zone := (mem_zone st)[z := f (mem_zone st ! z)]\<rparr>"

definition pmm_alloc ::
  "'a pmm_state_scheme \<Rightarrow> zone_e \<Rightarrow> u64 \<Rightarrow> (addr \<times> 'a pmm_state_scheme) kres" where
  "pmm_alloc st z num =
     (if length (mem_zone st) \<le> z then Inl Out_of_bounds
      else
        let zn = mem_zone st ! z;
            idx = bitmap_find_range (bitmap zn) (kmem st) (first_free_idx zn) PMM_FREE num
        in if idx = - 1 then Inl (Panic ''pmm_alloc could not find %lu of free pages.'')
           else
             let st1 = st\<lparr>kmem := bitmap_set_range (bitmap zn) (kmem st) idx num\<rparr>;
                 st2 = update_zone z (\<lambda>zn. zn\<lparr>mem_free := mem_free zn - num * PAGE_SIZE,
                                              mem_used := mem_used zn + num * PAGE_SIZE,
                                              first_free_idx := idx + num\<rparr>) st1
             in Inr (offset zn + PAGE_SIZE * idx, st2))"

text \<open>The zone search of \<^verbatim>\<open>pmm_free\<close>; the result is \<^const>\<open>PMM_NUM_ZONES\<close> when no zone holds
  the address.\<close>

function pmm_find_zone :: "'a pmm_state_scheme \<Rightarrow> addr \<Rightarrow> zone_e \<Rightarrow> zone_e kres" where
  "pmm_find_zone st a z =
     (if z < PMM_NUM_ZONES then
        if length (mem_zone st) \<le> z then Inl Out_of_bounds
        else if z + 1 = PMM_NUM_ZONES then
          (if a \<ge> offset (mem_zone st ! z) \<and> a < mem_size st then Inr z
           else pmm_find_zone st a (z + 1))
        else if length (mem_zone st) \<le> z + 1 then Inl Out_of_bounds
        else if a \<ge> offset (mem_zone st ! z) \<and> a < offset (mem_zone st ! (z + 1)) then Inr z
        else pmm_find_zone st a (z + 1)
      else Inr z)"
  by pat_completeness auto
termination
  by (relation "measure (\<lambda>(st, a, z). PMM_NUM_ZONES - z)") auto

declare pmm_find_zone.simps [simp del]

definition pmm_free :: "'a pmm_state_scheme \<Rightarrow> addr \<Rightarrow> u64 \<Rightarrow> 'a pmm_state_scheme kres" where
  "pmm_free st a num =
     kbind (pmm_find_zone st a 0) (\<lambda>z.
       if z = PMM_NUM_ZONES
       then Inl (Panic ''pmm_free could not identify the zone for addr %lx.'')
       else
         let zn = mem_zone st ! z;
             idx = (a - offset zn) div PAGE_SIZE;
             st1 = st\<lparr>kmem := bitmap_clear_range (bitmap zn) (kmem st) idx num\<rparr>
         in Inr (update_zone z (\<lambda>zn.
              zn\<lparr>mem_free := mem_free zn + num * PAGE_SIZE,
                 mem_used := mem_used zn - num * PAGE_SIZE,
                 first_free_idx := (if idx < first_free_idx zn then idx else first_free_idx zn)\<rparr>)
              st1))"

definition pmm_set_unused ::
  "'a pmm_state_scheme \<Rightarrow> zone_e \<Rightarrow> u64 \<Rightarrow> u64 \<Rightarrow> 'a pmm_state_scheme kres" where
  "pmm_set_unused st z b num =
     (if length (mem_zone st) \<le> z then Inl Out_of_bounds
      else Inr (st\<lparr>kmem := bitmap_clear_range (bitmap (mem_zone st ! z)) (kmem st) b num\<rparr>))"

subsection \<open>Initialisation from the boot loader's memory map\<close>

text \<open>An entry of the stivale2 memory map and \<^verbatim>\<open>MEM_USABLE\<close> of mm/memmap.h.\<close>

record mmap_entry =
  base :: u64
  len :: u64
  kind :: u32

definition MEM_USABLE :: u32 where "MEM_USABLE = 1"

definition get_mem_size :: "mmap_entry list \<Rightarrow> u64 kres" where
  "get_mem_size memmap =
     (if memmap = [] then Inl Out_of_bounds
      else Inr (base (last memmap) + len (last memmap)))"

text \<open>One pass of the loop that initialises the zone structures.\<close>

definition pmm_init_zone :: "zone_e \<Rightarrow> 'a pmm_state_scheme \<Rightarrow> 'a pmm_state_scheme" where
  "pmm_init_zone z st =
     (let zn = mem_zone st ! z;
          total = (if z = PMM_NUM_ZONES - 1 then mem_size st - offset zn
                   else offset (mem_zone st ! (z + 1)) - offset zn);
          bm = (bitmap zn)\<lparr>size_bits := total div PAGE_SIZE\<rparr>;
          (ptr, st1) = pmm_area_alloc st (bitmap_size_bytes bm) 8;
          bm' = bm\<lparr>data := ptr\<rparr>;
          st2 = update_zone z (\<lambda>zn. zn\<lparr>mem_total := total, mem_used := total, mem_free := 0,
                                       bitmap := bm'\<rparr>) st1
      in st2\<lparr>kmem := bitmap_set_range bm' (kmem st2) 0 (size_bits bm')\<rparr>)"

definition zone_start :: "'a pmm_state_scheme \<Rightarrow> zone_e \<Rightarrow> addr kres" where
  "zone_start st z =
     (if length (mem_zone st) \<le> z then Inl Out_of_bounds else Inr (offset (mem_zone st ! z)))"

definition zone_end :: "'a pmm_state_scheme \<Rightarrow> zone_e \<Rightarrow> addr kres" where
  "zone_end st z = (if z + 1 = PMM_NUM_ZONES then Inr (mem_size st) else zone_start st (z + 1))"

text \<open>\<^verbatim>\<open>while (curr_zone_end < entry_start)\<close>: move to the zone the entry starts in.\<close>

function pmm_seek_zone :: "'a pmm_state_scheme \<Rightarrow> zone_e \<Rightarrow> addr \<Rightarrow> (zone_e \<times> addr \<times> addr) kres" where
  "pmm_seek_zone st z entry_start =
     (if length (mem_zone st) \<le> z then Inl Out_of_bounds
      else
        kbind (zone_start st z) (\<lambda>zs.
        kbind (zone_end st z) (\<lambda>ze.
        if ze < entry_start then pmm_seek_zone st (z + 1) entry_start else Inr (z, zs, ze))))"
  by pat_completeness auto
termination
  by (relation "measure (\<lambda>(st, z, a). length (mem_zone st) - z)") auto

declare pmm_seek_zone.simps [simp del]

text \<open>The body of the \<^verbatim>\<open>while (true)\<close> loop up to its exit test: free \<open>num\<close> pages from
  page \<open>idx\<close> of the zone on and update the zone's bookkeeping.\<close>

definition pmm_free_chunk ::
  "'a pmm_state_scheme \<Rightarrow> zone_e \<Rightarrow> u64 \<Rightarrow> u64 \<Rightarrow> 'a pmm_state_scheme kres" where
  "pmm_free_chunk st z idx num =
     kbind (pmm_set_unused st z idx num) (\<lambda>st1.
       Inr (update_zone z (\<lambda>zn.
         zn\<lparr>mem_used := mem_used zn - num * PAGE_SIZE,
            mem_free := mem_free zn + num * PAGE_SIZE,
            first_free_idx := (if idx < first_free_idx zn then idx else first_free_idx zn)\<rparr>) st1))"

text \<open>The \<^verbatim>\<open>while (true)\<close> loop that frees the pages of one usable entry, zone by zone. The
  bounds of the next zone are read only once the loop goes on to it.\<close>

function pmm_free_entry ::
  "'a pmm_state_scheme \<Rightarrow> zone_e \<Rightarrow> addr \<Rightarrow> addr \<Rightarrow> addr \<Rightarrow> addr \<Rightarrow> (zone_e \<times> 'a pmm_state_scheme) kres" where
  "pmm_free_entry st z zs ze entry_start entry_end =
     (case pmm_free_chunk st z ((entry_start - zs) div PAGE_SIZE)
             ((MIN_u64 entry_end ze - entry_start) div PAGE_SIZE) of
        Inl e \<Rightarrow> Inl e
      | Inr st2 \<Rightarrow>
        if entry_end \<le> ze then Inr (z, st2)
        else pmm_free_entry st2 (z + 1)
               (if z + 1 + 1 > PMM_NUM_ZONES then mem_size st2 else offset (mem_zone st2 ! (z + 1)))
               (if z + 1 + 1 \<ge> PMM_NUM_ZONES then mem_size st2 else offset (mem_zone st2 ! (z + 1 + 1)))
               (MIN_u64 ze entry_end) entry_end)"
  by pat_completeness auto
termination
  by (relation "measure (\<lambda>(st, z, _). length (mem_zone st) - z)")
     (auto simp: pmm_free_chunk_def pmm_set_unused_def update_zone_def kbind_eq_Inr split: if_splits)

declare pmm_free_entry.simps [simp del]

definition pmm_init_entry ::
  "mmap_entry \<Rightarrow> zone_e \<times> 'a pmm_state_scheme \<Rightarrow> (zone_e \<times> 'a pmm_state_scheme) kres" where
  "pmm_init_entry entry = (\<lambda>(curr_zone, st).
     if kind entry = MEM_USABLE then
       let entry_start = ALIGN_UP (base entry) (4 * KiB);
           entry_end = ALIGN_DOWN (base entry + len entry) (4 * KiB)
       in kbind (pmm_seek_zone st curr_zone entry_start) (\<lambda>(z, zs, ze).
            pmm_free_entry st z zs ze entry_start entry_end)
     else Inr (curr_zone, st))"

primrec pmm_init_entries ::
  "mmap_entry list \<Rightarrow> zone_e \<times> 'a pmm_state_scheme \<Rightarrow> (zone_e \<times> 'a pmm_state_scheme) kres" where
  "pmm_init_entries [] s = Inr s"
| "pmm_init_entries (e # es) s = kbind (pmm_init_entry e s) (pmm_init_entries es)"

definition pmm_init ::
  "mmap_entry list option \<Rightarrow> 'a pmm_state_scheme \<Rightarrow> 'a pmm_state_scheme kres" where
  "pmm_init memmap_tag st =
     (case memmap_tag of
        None \<Rightarrow> Inl (Panic ''pmm_init could not find memory map from bootloader.'')
      | Some memmap \<Rightarrow>
        kbind (get_mem_size memmap) (\<lambda>sz.
          let st0 = st\<lparr>mem_size := sz\<rparr>
          in if mem_size st0 < 16 * MiB
             then Inl (Panic ''pmm_init found less than 16 MiB of memory.'')
             else
               let st2 = pmm_init_zone PMM_ZONE_NORMAL (pmm_init_zone PMM_ZONE_DMA st0)
               in kbind (pmm_init_entries memmap (PMM_ZONE_DMA, st2)) (\<lambda>(_, st3). Inr st3)))"

section \<open>Well-formed states\<close>

text \<open>Page \<open>i\<close> of a zone is used when its bit is set.\<close>

definition num_pages :: "'a pmm_state_scheme \<Rightarrow> zone_e \<Rightarrow> nat" where
  "num_pages st z = unat (size_bits (bitmap (mem_zone st ! z)))"

definition page_used :: "'a pmm_state_scheme \<Rightarrow> zone_e \<Rightarrow> nat \<Rightarrow> bool" where
  "page_used st z i = bit_at (bitmap (mem_zone st ! z)) (kmem st) i"

definition zone_base :: "'a pmm_state_scheme \<Rightarrow> zone_e \<Rightarrow> nat" where
  "zone_base st z = unat (offset (mem_zone st ! z))"

definition free_pages :: "'a pmm_state_scheme \<Rightarrow> zone_e \<Rightarrow> nat set" where
  "free_pages st z = {i. i < num_pages st z \<and> \<not> page_used st z i}"

text \<open>The zones lie one after the other in memory, page aligned, and their bitmaps do not
  overlap.\<close>

definition pmm_wf :: "'a pmm_state_scheme \<Rightarrow> bool" where
  "pmm_wf st \<longleftrightarrow>
     length (mem_zone st) = PMM_NUM_ZONES \<and>
     zone_base st 0 mod 4096 = 0 \<and> zone_base st 1 mod 4096 = 0 \<and>
     zone_base st 0 + 4096 * num_pages st 0 \<le> zone_base st 1 \<and>
     zone_base st 1 + 4096 * num_pages st 1 \<le> unat (mem_size st) \<and>
     (let b0 = bitmap (mem_zone st ! 0); b1 = bitmap (mem_zone st ! 1) in
        apart (data b0) (unat (bitmap_size_bytes b0)) (data b1) (unat (bitmap_size_bytes b1)))"

text \<open>The byte counts of a zone agree with its bitmap.\<close>

definition zone_accounts :: "'a pmm_state_scheme \<Rightarrow> zone_e \<Rightarrow> bool" where
  "zone_accounts st z \<longleftrightarrow>
     unat (mem_free (mem_zone st ! z)) = 4096 * card (free_pages st z) \<and>
     mem_used (mem_zone st ! z) = mem_total (mem_zone st ! z) - mem_free (mem_zone st ! z)"

lemmas pmm_view_defs = num_pages_def page_used_def zone_base_def free_pages_def

section \<open>Allocation\<close>

lemma two_zones: "z < PMM_NUM_ZONES \<longleftrightarrow> z = 0 \<or> z = 1"
  by (auto simp: PMM_NUM_ZONES_def)

lemma pmm_wf_length [simp]: "pmm_wf st \<Longrightarrow> length (mem_zone st) = PMM_NUM_ZONES"
  by (simp add: pmm_wf_def)

lemma pmm_wf_bound:
  assumes "pmm_wf st" "z < PMM_NUM_ZONES"
  shows "zone_base st z + 4096 * num_pages st z \<le> unat (mem_size st)"
  using assms by (auto simp: pmm_wf_def two_zones)

lemma pmm_wf_bound_u64:
  assumes "pmm_wf st" "z < PMM_NUM_ZONES"
  shows "zone_base st z + 4096 * num_pages st z < 2 ^ 64"
  using pmm_wf_bound[OF assms] unat_u64_bound[of "mem_size st"] by linarith

lemma pmm_wf_apart:
  assumes "pmm_wf st" "z < PMM_NUM_ZONES" "y < PMM_NUM_ZONES" "z \<noteq> y"
    and "bitmap_region (bitmap (mem_zone st ! y)) x"
  shows "\<not> bitmap_region (bitmap (mem_zone st ! z)) x"
proof -
  let ?b = "\<lambda>z. bitmap (mem_zone st ! z)"
  have "apart (data (?b z)) (unat (bitmap_size_bytes (?b z)))
              (data (?b y)) (unat (bitmap_size_bytes (?b y)))"
    using assms(1-4) apart_commute by (auto simp: pmm_wf_def two_zones Let_def)
  then show ?thesis using assms(5) by (rule apartD)
qed

text \<open>The effect of a zone update on the views.\<close>

lemma update_zone_nth [simp]:
  "z < length (mem_zone st) \<Longrightarrow>
   mem_zone (update_zone z f st) ! y = (if y = z then f (mem_zone st ! z) else mem_zone st ! y)"
  by (simp add: update_zone_def nth_list_update)

lemma update_zone_simps [simp]:
  "length (mem_zone (update_zone z f st)) = length (mem_zone st)"
  "kmem (update_zone z f st) = kmem st"
  "mem_size (update_zone z f st) = mem_size st"
  "klog (update_zone z f st) = klog st"
  "alloc_ptr (update_zone z f st) = alloc_ptr st"
  by (simp_all add: update_zone_def)

text \<open>Setting or clearing the bits of a range inside zone \<open>z\<close> changes the view of those pages
  only.\<close>

lemma bit_at_range:
  assumes "pmm_wf st" "z < PMM_NUM_ZONES" "y < PMM_NUM_ZONES" "k < num_pages st y"
    and "unat idx + unat num \<le> num_pages st z"
  shows "bit_at (bitmap (mem_zone st ! y)) (bitmap_set_range (bitmap (mem_zone st ! z)) (kmem st) idx num) k \<longleftrightarrow>
           page_used st y k \<or> y = z \<and> unat idx \<le> k \<and> k < unat idx + unat num"
    and "bit_at (bitmap (mem_zone st ! y)) (bitmap_clear_range (bitmap (mem_zone st ! z)) (kmem st) idx num) k \<longleftrightarrow>
           page_used st y k \<and> \<not> (y = z \<and> unat idx \<le> k \<and> k < unat idx + unat num)"
proof -
  have k: "k < 2 ^ 64" "unat (of_nat k :: u64) = k"
    using assms(4) unat_u64_bound[of "size_bits (bitmap (mem_zone st ! y))"] by (simp_all add: num_pages_def)
  have idx: "unat idx + unat num \<le> unat (size_bits (bitmap (mem_zone st ! z)))"
    using assms(5) by (simp add: num_pages_def)
  have ky: "unat (of_nat k :: u64) < unat (size_bits (bitmap (mem_zone st ! y)))"
    using assms(4) k by (simp add: num_pages_def)
  have reg: "in_region idx (unat num) (of_nat k) \<longleftrightarrow> unat idx \<le> k \<and> k < unat idx + unat num"
    using in_region_index[OF idx, of "of_nat k"] k by simp
  have other: "bitmap_get (bitmap (mem_zone st ! y)) m' (of_nat k) =
               bitmap_get (bitmap (mem_zone st ! y)) (kmem st) (of_nat k)"
    if "y \<noteq> z" "\<And>x. \<not> bitmap_region (bitmap (mem_zone st ! z)) x \<Longrightarrow> m' x = kmem st x" for m'
    using that pmm_wf_apart[OF assms(1,2,3)] by (intro bitmap_get_cong[OF ky]) auto
  show "bit_at (bitmap (mem_zone st ! y)) (bitmap_set_range (bitmap (mem_zone st ! z)) (kmem st) idx num) k \<longleftrightarrow>
           page_used st y k \<or> y = z \<and> unat idx \<le> k \<and> k < unat idx + unat num"
    using other[of "bitmap_set_range (bitmap (mem_zone st ! z)) (kmem st) idx num"] reg bitmap_range_outside(1)[OF idx]
    by (cases "y = z") (auto simp: page_used_def bit_at_def bitmap_get_set_range)
  show "bit_at (bitmap (mem_zone st ! y)) (bitmap_clear_range (bitmap (mem_zone st ! z)) (kmem st) idx num) k \<longleftrightarrow>
           page_used st y k \<and> \<not> (y = z \<and> unat idx \<le> k \<and> k < unat idx + unat num)"
    using other[of "bitmap_clear_range (bitmap (mem_zone st ! z)) (kmem st) idx num"] reg bitmap_range_outside(2)[OF idx]
    by (cases "y = z") (auto simp: page_used_def bit_at_def bitmap_get_clear_range)
qed

text \<open>A successful allocation, seen through the views.\<close>

lemma unat_frame_addr:
  assumes "pmm_wf st" "z < PMM_NUM_ZONES" "unat i < num_pages st z"
  shows "unat (offset (mem_zone st ! z) + PAGE_SIZE * i) = zone_base st z + 4096 * unat i"
proof -
  have "zone_base st z + 4096 * unat i < 2 ^ 64"
    using pmm_wf_bound_u64[OF assms(1,2)] assms(3) by linarith
  then show ?thesis
    by (simp add: zone_base_def PAGE_SIZE_eq unat_word_ariths)
qed

lemma pmm_alloc_cases:
  fixes num :: u64
  assumes "z < length (mem_zone st)"
  defines "zn \<equiv> mem_zone st ! z"
  defines "idx \<equiv> bitmap_find_range (bitmap zn) (kmem st) (first_free_idx zn) PMM_FREE num"
  shows "pmm_alloc st z num =
    (if idx = - 1 then Inl (Panic ''pmm_alloc could not find %lu of free pages.'')
     else Inr (offset zn + PAGE_SIZE * idx,
       update_zone z (\<lambda>zn. zn\<lparr>mem_free := mem_free zn - num * PAGE_SIZE,
                              mem_used := mem_used zn + num * PAGE_SIZE,
                              first_free_idx := idx + num\<rparr>)
         (st\<lparr>kmem := bitmap_set_range (bitmap zn) (kmem st) idx num\<rparr>)))"
  using assms(1) by (simp add: pmm_alloc_def Let_def zn_def idx_def)

lemma pmm_alloc_InrE:
  assumes "pmm_wf st" "z < PMM_NUM_ZONES" "num \<noteq> 0" "pmm_alloc st z num = Inr (pa, st')"
  obtains idx where
    "first_run (bitmap (mem_zone st ! z)) (kmem st) False (unat (first_free_idx (mem_zone st ! z))) (unat num) idx"
    "idx \<noteq> - 1"
    "unat idx + unat num \<le> num_pages st z"
    "pa = offset (mem_zone st ! z) + PAGE_SIZE * idx"
    "st' = update_zone z (\<lambda>zn. zn\<lparr>mem_free := mem_free zn - num * PAGE_SIZE,
                              mem_used := mem_used zn + num * PAGE_SIZE,
                              first_free_idx := idx + num\<rparr>)
         (st\<lparr>kmem := bitmap_set_range (bitmap (mem_zone st ! z)) (kmem st) idx num\<rparr>)"
proof -
  let ?zn = "mem_zone st ! z"
  define idx where "idx = bitmap_find_range (bitmap ?zn) (kmem st) (first_free_idx ?zn) PMM_FREE num"
  have fr: "first_run (bitmap ?zn) (kmem st) False (unat (first_free_idx ?zn)) (unat num) idx"
    using bitmap_find_range_first_run[OF assms(3)] by (simp add: idx_def PMM_FREE_def)
  have z: "z < length (mem_zone st)" using assms by simp
  from assms(4) have ne: "idx \<noteq> - 1"
    by (auto simp: pmm_alloc_cases[OF z] idx_def)
  with fr have "unat idx + unat num \<le> num_pages st z"
    by (simp add: first_run_def is_run_def num_pages_def)
  with fr ne assms(4) show thesis
    by (intro that[of idx]) (auto simp: pmm_alloc_cases[OF z] idx_def)
qed

lemma run_pages_free:
  assumes "is_run (bitmap (mem_zone st ! z)) (kmem st) False i n" "i \<le> k" "k < i + n"
  shows "\<not> page_used st z k"
  using assms by (auto simp: is_run_def page_used_def dest: spec[of _ "k - i"])

lemma pmm_alloc_views:
  assumes "pmm_wf st" "z < PMM_NUM_ZONES" "num \<noteq> 0" "pmm_alloc st z num = Inr (pa, st')"
  obtains i where
    "unat pa = zone_base st z + 4096 * i"
    "unat (first_free_idx (mem_zone st ! z)) \<le> i"
    "is_run (bitmap (mem_zone st ! z)) (kmem st) False i (unat num)"
    "\<forall>s. unat (first_free_idx (mem_zone st ! z)) \<le> s \<and> s < i \<longrightarrow>
        \<not> is_run (bitmap (mem_zone st ! z)) (kmem st) False s (unat num)"
    "i + unat num \<le> num_pages st z"
    "unat (first_free_idx (mem_zone st' ! z)) = i + unat num"
    "\<forall>y k. y < PMM_NUM_ZONES \<and> k < num_pages st y \<longrightarrow>
        (page_used st' y k \<longleftrightarrow> page_used st y k \<or> y = z \<and> i \<le> k \<and> k < i + unat num)"
proof -
  obtain idx where idx: 
    "first_run (bitmap (mem_zone st ! z)) (kmem st) False (unat (first_free_idx (mem_zone st ! z))) (unat num) idx"
    "idx \<noteq> - 1" "unat idx + unat num \<le> num_pages st z"
    "pa = offset (mem_zone st ! z) + PAGE_SIZE * idx"
    "st' = update_zone z (\<lambda>zn. zn\<lparr>mem_free := mem_free zn - num * PAGE_SIZE,
                              mem_used := mem_used zn + num * PAGE_SIZE,
                              first_free_idx := idx + num\<rparr>)
         (st\<lparr>kmem := bitmap_set_range (bitmap (mem_zone st ! z)) (kmem st) idx num\<rparr>)"
    by (rule pmm_alloc_InrE[OF assms])
  have "0 < unat num" using assms(3) by (simp add: unat_gt_0)
  have z: "z < length (mem_zone st)" using assms by simp
  show thesis
  proof (rule that[of "unat idx"])
    show "unat pa = zone_base st z + 4096 * unat idx"
      using unat_frame_addr[OF assms(1,2)] idx(3,4) \<open>0 < unat num\<close> by simp
    show "unat (first_free_idx (mem_zone st' ! z)) = unat idx + unat num"
      using idx(3,5) z unat_u64_bound[of "size_bits (bitmap (mem_zone st ! z))"]
      by (simp add: num_pages_def unat_plus_if')
    have "page_used st' y k \<longleftrightarrow> page_used st y k \<or> y = z \<and> unat idx \<le> k \<and> k < unat idx + unat num"
      if "y < PMM_NUM_ZONES" "k < num_pages st y" for y k
      using bit_at_range(1)[OF assms(1,2) that idx(3)] idx(5) z
      by (cases "y = z") (auto simp: page_used_def)
    then show "\<forall>y k. y < PMM_NUM_ZONES \<and> k < num_pages st y \<longrightarrow>
        (page_used st' y k \<longleftrightarrow> page_used st y k \<or> y = z \<and> unat idx \<le> k \<and> k < unat idx + unat num)"
      by blast
  qed (use idx in \<open>auto simp: first_run_def\<close>)
qed

lemma pmm_alloc_frame:
  assumes "pmm_wf st" "z < PMM_NUM_ZONES" "num \<noteq> 0" "pmm_alloc st z num = Inr (pa, st')"
  shows "pmm_wf st'" "num_pages st' y = num_pages st y" "zone_base st' y = zone_base st y"
    "mem_size st' = mem_size st" "bitmap (mem_zone st' ! y) = bitmap (mem_zone st ! y)"
    "y \<noteq> z \<Longrightarrow> mem_zone st' ! y = mem_zone st ! y" "length (mem_zone st') = PMM_NUM_ZONES"
    "offset (mem_zone st' ! y) = offset (mem_zone st ! y)"
proof -
  have z: "z < length (mem_zone st)" using assms by simp
  obtain idx where st': "st' = update_zone z (\<lambda>zn. zn\<lparr>mem_free := mem_free zn - num * PAGE_SIZE,
                              mem_used := mem_used zn + num * PAGE_SIZE,
                              first_free_idx := idx + num\<rparr>)
         (st\<lparr>kmem := bitmap_set_range (bitmap (mem_zone st ! z)) (kmem st) idx num\<rparr>)"
    by (rule pmm_alloc_InrE[OF assms])
  show np: "num_pages st' y = num_pages st y" and zb: "zone_base st' y = zone_base st y"
    and ms: "mem_size st' = mem_size st" and bm: "bitmap (mem_zone st' ! y) = bitmap (mem_zone st ! y)"
    and "y \<noteq> z \<Longrightarrow> mem_zone st' ! y = mem_zone st ! y"
    and len: "length (mem_zone st') = PMM_NUM_ZONES"
    and "offset (mem_zone st' ! y) = offset (mem_zone st ! y)" for y
    using assms(1) z by (cases "y = z"; simp add: st' zone_base_def num_pages_def)+
  show "pmm_wf st'" using assms(1) by (simp add: pmm_wf_def np zb ms bm len)
qed

text \<open>Only the bytes of the zone's own bitmap are written.\<close>

lemma pmm_alloc_mem_outside:
  assumes "pmm_wf st" "z < PMM_NUM_ZONES" "num \<noteq> 0" "pmm_alloc st z num = Inr (pa, st')"
    and "\<not> bitmap_region (bitmap (mem_zone st ! z)) x"
  shows "kmem st' x = kmem st x"
  using assms by (auto elim!: pmm_alloc_InrE simp: num_pages_def bitmap_range_outside)

lemma unat_num_pages_bytes:
  assumes "pmm_wf st" "z < PMM_NUM_ZONES" "unat num \<le> num_pages st z"
  shows "unat (num * PAGE_SIZE) = 4096 * unat num"
proof -
  have "4096 * unat num < 2 ^ 64" using pmm_wf_bound_u64[OF assms(1,2)] assms(3) by linarith
  then show ?thesis by (simp add: PAGE_SIZE_eq unat_word_ariths mult.commute)
qed

lemma finite_free_pages [simp]: "finite (free_pages st z)"
  by (simp add: free_pages_def)

lemma free_pages_alloc:
  assumes "pmm_wf st" "z < PMM_NUM_ZONES" "num \<noteq> 0" "pmm_alloc st z num = Inr (pa, st')" "y < PMM_NUM_ZONES"
  shows "card (free_pages st' y) = card (free_pages st y) - (if y = z then unat num else 0)"
    and "y = z \<Longrightarrow> unat num \<le> card (free_pages st z)"
proof -
  obtain i where i: "is_run (bitmap (mem_zone st ! z)) (kmem st) False i (unat num)"
    "i + unat num \<le> num_pages st z"
    "\<forall>y k. y < PMM_NUM_ZONES \<and> k < num_pages st y \<longrightarrow>
        (page_used st' y k \<longleftrightarrow> page_used st y k \<or> y = z \<and> i \<le> k \<and> k < i + unat num)"
    by (rule pmm_alloc_views[OF assms(1-4)]) (rule that)
  note free = run_pages_free[OF i(1)]
  have sub: "{i..<i + unat num} \<subseteq> free_pages st z"
    using i(2) free by (auto simp: free_pages_def)
  have "free_pages st' y = (if y = z then free_pages st z - {i..<i + unat num} else free_pages st y)"
    using i(3) assms(5) by (auto simp: free_pages_def pmm_alloc_frame[OF assms(1-4)])
  with sub show "card (free_pages st' y) = card (free_pages st y) - (if y = z then unat num else 0)"
    by (simp add: card_Diff_subset)
  from card_mono[OF finite_free_pages sub] show "y = z \<Longrightarrow> unat num \<le> card (free_pages st z)"
    by simp
qed

lemma pmm_alloc_accounts:
  assumes "pmm_wf st" "z < PMM_NUM_ZONES" "num \<noteq> 0" "pmm_alloc st z num = Inr (pa, st')"
    and "y < PMM_NUM_ZONES" "zone_accounts st y"
  shows "zone_accounts st' y"
proof (cases "y = z")
  case False
  with assms show ?thesis
    by (simp add: zone_accounts_def free_pages_alloc[OF assms(1-5)] pmm_alloc_frame[OF assms(1-4)])
next
  case True
  obtain idx where idx: "unat idx + unat num \<le> num_pages st z"
    "st' = update_zone z (\<lambda>zn. zn\<lparr>mem_free := mem_free zn - num * PAGE_SIZE,
                              mem_used := mem_used zn + num * PAGE_SIZE,
                              first_free_idx := idx + num\<rparr>)
         (st\<lparr>kmem := bitmap_set_range (bitmap (mem_zone st ! z)) (kmem st) idx num\<rparr>)"
    by (rule pmm_alloc_InrE[OF assms(1-4)])
  let ?zn = "mem_zone st ! z"
  have n: "unat (num * PAGE_SIZE) = 4096 * unat num"
    using idx(1) by (intro unat_num_pages_bytes[OF assms(1,2)]) simp
  have c: "unat num \<le> card (free_pages st z)"
    using free_pages_alloc(2)[OF assms(1-4)] assms(2) by blast
  have "unat (mem_free ?zn - num * PAGE_SIZE) = unat (mem_free ?zn) - unat (num * PAGE_SIZE)"
    using assms(6) True n c by (intro unat_sub) (simp add: word_le_nat_alt zone_accounts_def)
  moreover have "mem_free (mem_zone st' ! z) = mem_free ?zn - num * PAGE_SIZE"
    "mem_used (mem_zone st' ! z) = mem_used ?zn + num * PAGE_SIZE"
    "mem_total (mem_zone st' ! z) = mem_total ?zn"
    using assms(1,2) by (simp_all add: idx(2))
  moreover have "card (free_pages st' z) = card (free_pages st z) - unat num"
    using free_pages_alloc(1)[OF assms(1-5)] True by simp
  ultimately show ?thesis using assms(6) True n
    by (simp add: zone_accounts_def diff_mult_distrib2)
qed

section \<open>Freeing\<close>

text \<open>The zone search finds the zone of a frame.\<close>

lemma pmm_find_zone_frame:
  assumes "pmm_wf st" "z < PMM_NUM_ZONES" "i < num_pages st z"
    and "unat a = zone_base st z + 4096 * i"
  shows "pmm_find_zone st a 0 = Inr z"
proof -
  have len: "length (mem_zone st) = 2"
    and order: "zone_base st 0 + 4096 * num_pages st 0 \<le> zone_base st 1"
    "zone_base st 1 + 4096 * num_pages st 1 \<le> unat (mem_size st)"
    using assms(1) by (auto simp: pmm_wf_def PMM_NUM_ZONES_def)
  note unfold = zone_base_def word_le_nat_alt word_less_nat_alt PMM_NUM_ZONES_def len
  consider "z = 0" | "z = Suc 0" using assms(2) by (auto simp: two_zones)
  then show ?thesis
  proof cases
    case 1
    then have "zone_base st 0 \<le> unat a" "unat a < zone_base st 1"
      using assms(3,4) order by auto
    with 1 show ?thesis by (subst pmm_find_zone.simps) (simp add: unfold)
  next
    case 2
    then have "zone_base st 1 \<le> unat a" "unat a < unat (mem_size st)"
      using assms(3,4) order by auto
    with 2 show ?thesis
      by (subst pmm_find_zone.simps) (simp add: unfold pmm_find_zone.simps[of st a "Suc 0"])
  qed
qed

lemma frame_index:
  assumes "unat a = zone_base st z + 4096 * i" "i < 2 ^ 52"
  shows "unat ((a - offset (mem_zone st ! z)) div PAGE_SIZE) = i"
proof -
  have "unat (a - offset (mem_zone st ! z)) = 4096 * i"
    using assms(1) by (subst unat_sub) (auto simp: zone_base_def word_le_nat_alt)
  then show ?thesis by (simp add: unat_div PAGE_SIZE_eq)
qed

lemma num_pages_small:
  assumes "pmm_wf st" "z < PMM_NUM_ZONES"
  shows "num_pages st z < 2 ^ 52"
  using pmm_wf_bound_u64[OF assms] by simp

lemma pmm_free_eq:
  assumes "pmm_wf st" "z < PMM_NUM_ZONES" "i < num_pages st z"
    and "unat a = zone_base st z + 4096 * i"
  defines "idx \<equiv> (a - offset (mem_zone st ! z)) div PAGE_SIZE"
  shows "unat idx = i"
    and "pmm_free st a num =
      Inr (update_zone z (\<lambda>zn.
              zn\<lparr>mem_free := mem_free zn + num * PAGE_SIZE,
                 mem_used := mem_used zn - num * PAGE_SIZE,
                 first_free_idx := (if idx < first_free_idx zn then idx else first_free_idx zn)\<rparr>)
           (st\<lparr>kmem := bitmap_clear_range (bitmap (mem_zone st ! z)) (kmem st) idx num\<rparr>))"
  unfolding idx_def
  using frame_index[OF assms(4)] num_pages_small[OF assms(1,2)] assms(2,3)
  by (simp_all add: pmm_free_def pmm_find_zone_frame[OF assms(1-4)] Let_def)

lemma pmm_free_views:
  assumes "pmm_wf st" "z < PMM_NUM_ZONES" "num \<noteq> 0" "i + unat num \<le> num_pages st z"
    and "unat a = zone_base st z + 4096 * i"
  obtains st' where
    "pmm_free st a num = Inr st'" "pmm_wf st'"
    "\<forall>y. num_pages st' y = num_pages st y"
    "\<forall>y k. y < PMM_NUM_ZONES \<and> k < num_pages st y \<longrightarrow>
        (page_used st' y k \<longleftrightarrow> page_used st y k \<and> \<not> (y = z \<and> i \<le> k \<and> k < i + unat num))"
    "mem_free (mem_zone st' ! z) = mem_free (mem_zone st ! z) + num * PAGE_SIZE"
    "mem_used (mem_zone st' ! z) = mem_used (mem_zone st ! z) - num * PAGE_SIZE"
    "mem_total (mem_zone st' ! z) = mem_total (mem_zone st ! z)"
    "unat (first_free_idx (mem_zone st' ! z)) = min i (unat (first_free_idx (mem_zone st ! z)))"
    "\<forall>y. y \<noteq> z \<longrightarrow> mem_zone st' ! y = mem_zone st ! y"
proof -
  have "0 < unat num" using assms(3) by (simp add: unat_gt_0)
  then have i: "i < num_pages st z" using assms(4) by linarith
  have z: "z < length (mem_zone st)" using assms(1,2) by simp
  define idx where "idx = (a - offset (mem_zone st ! z)) div PAGE_SIZE"
  have idx: "unat idx = i" unfolding idx_def by (rule pmm_free_eq(1)[OF assms(1,2) i assms(5)])
  define st' where "st' = update_zone z (\<lambda>zn.
      zn\<lparr>mem_free := mem_free zn + num * PAGE_SIZE, mem_used := mem_used zn - num * PAGE_SIZE,
         first_free_idx := (if idx < first_free_idx zn then idx else first_free_idx zn)\<rparr>)
      (st\<lparr>kmem := bitmap_clear_range (bitmap (mem_zone st ! z)) (kmem st) idx num\<rparr>)"
  have np: "num_pages st' y = num_pages st y" and zb: "zone_base st' y = zone_base st y"
    and bm: "bitmap (mem_zone st' ! y) = bitmap (mem_zone st ! y)" for y
    using z by (cases "y = z"; simp add: st'_def zone_base_def num_pages_def)+
  have used: "page_used st' y k \<longleftrightarrow> page_used st y k \<and> \<not> (y = z \<and> i \<le> k \<and> k < i + unat num)"
    if "y < PMM_NUM_ZONES" "k < num_pages st y" for y k
    using bit_at_range(2)[OF assms(1,2) that, of idx num] assms(4) idx
    by (simp add: page_used_def bm) (simp add: st'_def)
  show thesis
  proof (rule that[of st'])
    show "pmm_free st a num = Inr st'"
      unfolding st'_def idx_def by (rule pmm_free_eq(2)[OF assms(1,2) i assms(5)])
    show "pmm_wf st'" using assms(1) by (simp add: pmm_wf_def np zb bm) (simp add: st'_def)
    show "unat (first_free_idx (mem_zone st' ! z)) = min i (unat (first_free_idx (mem_zone st ! z)))"
      using z idx by (auto simp: st'_def word_less_nat_alt)
  qed (use z np used in \<open>auto simp: st'_def\<close>)
qed

lemma card_free_pages_free:
  assumes "pmm_wf st" "z < PMM_NUM_ZONES" "num_pages st' z = num_pages st z" "i + n \<le> num_pages st z"
    and "\<forall>k < num_pages st z. page_used st' z k \<longleftrightarrow> page_used st z k \<and> \<not> (i \<le> k \<and> k < i + n)"
    and "\<forall>k. i \<le> k \<and> k < i + n \<longrightarrow> page_used st z k"
  shows "card (free_pages st' z) = card (free_pages st z) + n"
proof -
  have "free_pages st' z = free_pages st z \<union> {i..<i + n}"
    using assms(3-5) by (auto simp: free_pages_def)
  moreover have "free_pages st z \<inter> {i..<i + n} = {}"
    using assms(6) by (auto simp: free_pages_def)
  ultimately show ?thesis by (simp add: card_Un_disjoint)
qed

lemma pmm_free_accounts:
  assumes "pmm_wf st" "z < PMM_NUM_ZONES" "num \<noteq> 0" "i + unat num \<le> num_pages st z"
    and "\<forall>k. i \<le> k \<and> k < i + unat num \<longrightarrow> page_used st z k"
    and "unat a = zone_base st z + 4096 * i" "pmm_free st a num = Inr st'"
    and "y < PMM_NUM_ZONES" "zone_accounts st y"
  shows "zone_accounts st' y"
proof -
  obtain st2 where eq: "pmm_free st a num = Inr st2"
    and view: "\<forall>y. num_pages st2 y = num_pages st y"
    "\<forall>y k. y < PMM_NUM_ZONES \<and> k < num_pages st y \<longrightarrow>
        (page_used st2 y k \<longleftrightarrow> page_used st y k \<and> \<not> (y = z \<and> i \<le> k \<and> k < i + unat num))"
    and upd: "mem_free (mem_zone st2 ! z) = mem_free (mem_zone st ! z) + num * PAGE_SIZE"
    "mem_used (mem_zone st2 ! z) = mem_used (mem_zone st ! z) - num * PAGE_SIZE"
    "mem_total (mem_zone st2 ! z) = mem_total (mem_zone st ! z)"
    "\<forall>y. y \<noteq> z \<longrightarrow> mem_zone st2 ! y = mem_zone st ! y"
    by (rule pmm_free_views[OF assms(1-4,6)]) (rule that)
  have st': "st' = st2" using eq assms(7) by simp
  show ?thesis
  proof (cases "y = z")
    case False
    then have "free_pages st2 y = free_pages st y" using view assms(8) by (auto simp: free_pages_def)
    with False show ?thesis using assms(9) upd(4) by (simp add: zone_accounts_def st')
  next
    case True
    have c: "card (free_pages st2 z) = card (free_pages st z) + unat num"
      using view assms(2,4,5) by (intro card_free_pages_free[OF assms(1)]) auto
    have n: "unat (num * PAGE_SIZE) = 4096 * unat num"
      using assms(4) by (intro unat_num_pages_bytes[OF assms(1,2)]) simp
    have "card (free_pages st2 z) \<le> num_pages st z"
      using card_mono[of "{..<num_pages st z}" "free_pages st2 z"] view(1) by (auto simp: free_pages_def)
    then have "4096 * card (free_pages st z) + 4096 * unat num < 2 ^ 64"
      using c pmm_wf_bound_u64[OF assms(1,2)] by simp
    with assms(9) True n have "unat (mem_free (mem_zone st ! z) + num * PAGE_SIZE) =
        4096 * card (free_pages st z) + 4096 * unat num"
      by (simp add: zone_accounts_def unat_plus_if')
    then show ?thesis using assms(9) True c upd by (simp add: zone_accounts_def st')
  qed
qed

section \<open>The frame allocator as an interface\<close>

text \<open>
  What a client of the physical memory manager relies on when it allocates single frames:
  a frame it gets was free, is used from then on, and no other frame changes.
\<close>

primrec alloc_seq :: "('s \<Rightarrow> (addr \<times> 's) kres) \<Rightarrow> nat \<Rightarrow> 's \<Rightarrow> (addr list \<times> 's) kres" where
  "alloc_seq al 0 s = Inr ([], s)"
| "alloc_seq al (Suc n) s =
     kbind (al s) (\<lambda>(a, s'). kbind (alloc_seq al n s') (\<lambda>(as, s''). Inr (a # as, s'')))"

locale frame_allocator =
  fixes al :: "'s \<Rightarrow> (addr \<times> 's) kres"
    and used :: "'s \<Rightarrow> addr \<Rightarrow> bool"
    and wf :: "'s \<Rightarrow> bool"
  assumes alloc_wf: "wf s \<Longrightarrow> al s = Inr (a, s') \<Longrightarrow> wf s'"
    and alloc_was_free: "wf s \<Longrightarrow> al s = Inr (a, s') \<Longrightarrow> \<not> used s a"
    and alloc_used: "wf s \<Longrightarrow> al s = Inr (a, s') \<Longrightarrow> used s' b \<longleftrightarrow> used s b \<or> b = a"
begin

lemma alloc_seq_fresh:
  assumes "wf s" "alloc_seq al n s = Inr (as, s')"
  shows "wf s' \<and> length as = n \<and> distinct as \<and> (\<forall>a\<in>set as. \<not> used s a) \<and>
         (\<forall>b. used s' b \<longleftrightarrow> used s b \<or> b \<in> set as)"
  using assms
proof (induction n arbitrary: s as)
  case (Suc n)
  from Suc.prems(2) obtain a s1 as' where
    a: "al s = Inr (a, s1)" and as': "alloc_seq al n s1 = Inr (as', s')" "as = a # as'"
    by (auto simp: kbind_eq_Inr)
  have "wf s1" using alloc_wf[OF Suc.prems(1) a] .
  from Suc.IH[OF this as'(1)] show ?case
    using alloc_used[OF Suc.prems(1) a] alloc_was_free[OF Suc.prems(1) a] as'(2) by auto
qed simp

end

definition frame_used :: "'a pmm_state_scheme \<Rightarrow> addr \<Rightarrow> bool" where
  "frame_used st a \<longleftrightarrow>
     (\<exists>z < PMM_NUM_ZONES. \<exists>i < num_pages st z. unat a = zone_base st z + 4096 * i \<and> page_used st z i)"

text \<open>A frame address determines its zone and page.\<close>

lemma frame_unique:
  assumes "pmm_wf st" "z < PMM_NUM_ZONES" "y < PMM_NUM_ZONES" "i < num_pages st z" "k < num_pages st y"
    and "zone_base st z + 4096 * i = zone_base st y + 4096 * k"
  shows "z = y \<and> i = k"
proof -
  have "zone_base st 0 + 4096 * j < zone_base st 1" if "j < num_pages st 0" for j
    using assms(1) that unfolding pmm_wf_def by linarith
  with assms(2-) show ?thesis by (auto simp: two_zones) (metis leD le_add1)+
qed

interpretation pmm_frames: frame_allocator
  "\<lambda>st :: 'a pmm_state_scheme. pmm_alloc st z 1" frame_used
  "\<lambda>st. pmm_wf st \<and> z < PMM_NUM_ZONES" for z
proof unfold_locales
  fix s s' :: "'a pmm_state_scheme" and a b
  assume wf: "pmm_wf s \<and> z < PMM_NUM_ZONES" and al: "pmm_alloc s z 1 = Inr (a, s')"
  then have prem: "pmm_wf s" "z < PMM_NUM_ZONES" "(1 :: u64) \<noteq> 0" "pmm_alloc s z 1 = Inr (a, s')"
    by simp_all
  note frame = pmm_alloc_frame[OF prem]
  obtain i where i: "unat a = zone_base s z + 4096 * i" "i + unat (1 :: u64) \<le> num_pages s z"
    "is_run (bitmap (mem_zone s ! z)) (kmem s) False i (unat (1 :: u64))"
    "\<forall>y k. y < PMM_NUM_ZONES \<and> k < num_pages s y \<longrightarrow>
        (page_used s' y k \<longleftrightarrow> page_used s y k \<or> y = z \<and> i \<le> k \<and> k < i + unat (1 :: u64))"
    by (rule pmm_alloc_views[OF prem]) (rule that)
  have free: "\<not> page_used s z i" using i(3) by (auto simp: is_run_def page_used_def)
  show "pmm_wf s' \<and> z < PMM_NUM_ZONES" using frame prem by simp
  show "\<not> frame_used s a"
  proof
    assume "frame_used s a"
    then obtain y k where "y < PMM_NUM_ZONES" "k < num_pages s y" "page_used s y k"
      "zone_base s z + 4096 * i = zone_base s y + 4096 * k"
      using i(1) by (auto simp: frame_used_def)
    with frame_unique[OF prem(1,2), of y i k] i(2) free show False by simp
  qed
  show "frame_used s' b \<longleftrightarrow> frame_used s b \<or> b = a"
  proof
    assume "frame_used s' b"
    then obtain y k where y: "y < PMM_NUM_ZONES" "k < num_pages s y"
      "unat b = zone_base s y + 4096 * k" "page_used s' y k"
      by (auto simp: frame_used_def frame)
    with i(4) have "page_used s y k \<or> y = z \<and> k = i" by auto
    with y i(1) show "frame_used s b \<or> b = a" by (auto simp: frame_used_def word_unat_eq_iff)
  next
    assume "frame_used s b \<or> b = a"
    then show "frame_used s' b"
      using i(1,2,4) prem(2) by (fastforce simp: frame_used_def frame)
  qed
qed

section \<open>A small machine\<close>

text \<open>Two zones of four pages; pages 0 and 1 of the second zone are free and used, its pages 2
  and 3 free, and every page of the first zone is free.\<close>

definition demo_zone :: "addr \<Rightarrow> addr \<Rightarrow> u64 \<Rightarrow> zone_e \<Rightarrow> zone_t" where
  "demo_zone off bits free z =
     \<lparr>mem_total = 0x4000, mem_free = free, mem_used = 0x4000 - free, offset = off,
      bitmap = \<lparr>size_bits = 4, data = bits\<rparr>, first_free_idx = 0, zone = z\<rparr>"

definition demo_pmm :: pmm_state where
  "demo_pmm =
     \<lparr>kmem = (\<lambda>x. if x = 0x9008 then 0b0010 else 0), klog = [], alloc_ptr = 0x9009,
      mem_size = 0x1004000,
      mem_zone = [demo_zone 0 0x9000 0x4000 0, demo_zone 0x1000000 0x9008 0x3000 1]\<rparr>"

lemma demo_pmm_wf: "pmm_wf demo_pmm"
  by (simp add: pmm_wf_def demo_pmm_def demo_zone_def PMM_NUM_ZONES_def zone_base_def num_pages_def
      apart_def bitmap_size_bytes_def)

lemma PMM_ZONE_NORMAL_ok [simp]: "PMM_ZONE_NORMAL < PMM_NUM_ZONES"
  by (simp add: PMM_ZONE_NORMAL_def PMM_NUM_ZONES_def)

lemma demo_find:
  "bitmap_find_range \<lparr>size_bits = 4, data = 0x9008\<rparr> (\<lambda>x. if x = 0x9008 then 0b0010 else 0) 0 False 2 = 2"
  by (simp add: bitmap_find_range_def bitmap_find_loop.simps bitmap_get_def bit_mask_def
      get_bit_index_def get_byte_index_def)

lemma demo_alloc:
  "\<exists>st'. pmm_alloc demo_pmm PMM_ZONE_NORMAL 2 = Inr (0x1002000, st')"
  using demo_find
  by (simp add: pmm_alloc_cases demo_pmm_def demo_zone_def PMM_ZONE_NORMAL_def PMM_FREE_def PAGE_SIZE_eq)

lemma demo_free_pages: "free_pages demo_pmm 0 = {0, 1, 2, 3}" "free_pages demo_pmm 1 = {0, 2, 3}"
proof -
  have lt4: "i < 4 \<longleftrightarrow> i \<in> {0, 1, 2, 3}" for i :: nat by auto
  show "free_pages demo_pmm 0 = {0, 1, 2, 3}" "free_pages demo_pmm 1 = {0, 2, 3}"
    by (auto simp: free_pages_def num_pages_def page_used_def demo_pmm_def demo_zone_def bit_at_def
        bitmap_get_def bit_mask_def get_bit_index_def get_byte_index_def lt4)
qed

lemma demo_accounts: "\<forall>y < PMM_NUM_ZONES. zone_accounts demo_pmm y"
  using demo_free_pages by (simp add: zone_accounts_def two_zones demo_pmm_def demo_zone_def)

section \<open>Properties\<close>

text \<open>C10. A successful \<open>pmm_alloc\<close> hands out a run of pages of the zone that were all free, the
  first such run at or after \<open>first_free_idx\<close>; afterwards exactly these pages have become used,
  in every zone, and the state stays well formed.\<close>

theorem pmm_alloc_correct:
  assumes "pmm_wf st" "z < PMM_NUM_ZONES" "num \<noteq> 0" "pmm_alloc st z num = Inr (pa, st')"
  shows "pmm_wf st' \<and>
    (\<exists>i. unat pa = zone_base st z + 4096 * i \<and> i + unat num \<le> num_pages st z \<and>
       i = (LEAST s. unat (first_free_idx (mem_zone st ! z)) \<le> s \<and>
                     is_run (bitmap (mem_zone st ! z)) (kmem st) False s (unat num)) \<and>
       (\<forall>k. i \<le> k \<and> k < i + unat num \<longrightarrow> \<not> page_used st z k) \<and>
       (\<forall>y < PMM_NUM_ZONES. \<forall>k < num_pages st y.
          page_used st' y k \<longleftrightarrow> page_used st y k \<or> y = z \<and> i \<le> k \<and> k < i + unat num))"
proof -
  let ?ff = "unat (first_free_idx (mem_zone st ! z))"
  let ?run = "is_run (bitmap (mem_zone st ! z)) (kmem st) False"
  obtain i where i: "unat pa = zone_base st z + 4096 * i" "i + unat num \<le> num_pages st z"
    "?ff \<le> i" "?run i (unat num)" "\<forall>s. ?ff \<le> s \<and> s < i \<longrightarrow> \<not> ?run s (unat num)"
    "\<forall>y k. y < PMM_NUM_ZONES \<and> k < num_pages st y \<longrightarrow>
        (page_used st' y k \<longleftrightarrow> page_used st y k \<or> y = z \<and> i \<le> k \<and> k < i + unat num)"
    by (rule pmm_alloc_views[OF assms]) (rule that)
  have least: "i = (LEAST s. ?ff \<le> s \<and> ?run s (unat num))"
    using i(3-5) by (rule first_is_Least)
  have free: "\<forall>k. i \<le> k \<and> k < i + unat num \<longrightarrow> \<not> page_used st z k"
    using run_pages_free[OF i(4)] by blast
  show ?thesis
    by (intro conjI exI[of _ i] pmm_alloc_frame(1)[OF assms] i(1) i(2) least free) (use i(6) in blast)
qed

theorem pmm_alloc_correct_witness:
  "\<exists>st'. pmm_alloc demo_pmm PMM_ZONE_NORMAL 2 = Inr (0x1002000, st') \<and> pmm_wf st'"
proof -
  obtain st' where "pmm_alloc demo_pmm PMM_ZONE_NORMAL 2 = Inr (0x1002000, st')"
    using demo_alloc by blast
  then show ?thesis using pmm_alloc_correct[OF demo_pmm_wf PMM_ZONE_NORMAL_ok, of 2] by simp
qed

text \<open>C11. \<open>pmm_alloc\<close> never fails silently: for a positive request it panics exactly when no run
  of that many free pages starts at or after \<open>first_free_idx\<close>, and succeeds otherwise.\<close>

theorem pmm_alloc_panics_iff:
  assumes "pmm_wf st" "z < PMM_NUM_ZONES" "num \<noteq> 0"
  shows "((\<exists>msg. pmm_alloc st z num = Inl (Panic msg)) \<longleftrightarrow>
      (\<forall>s \<ge> unat (first_free_idx (mem_zone st ! z)).
          \<not> is_run (bitmap (mem_zone st ! z)) (kmem st) False s (unat num))) \<and>
    ((\<exists>msg. pmm_alloc st z num = Inl (Panic msg)) \<or> (\<exists>pa st'. pmm_alloc st z num = Inr (pa, st')))"
proof (rule conjI)
  let ?zn = "mem_zone st ! z"
  have "first_run (bitmap ?zn) (kmem st) False (unat (first_free_idx ?zn)) (unat num)
          (bitmap_find_range (bitmap ?zn) (kmem st) (first_free_idx ?zn) PMM_FREE num)"
    using bitmap_find_range_first_run[OF assms(3)] by (simp add: PMM_FREE_def)
  then show "(\<exists>msg. pmm_alloc st z num = Inl (Panic msg)) \<longleftrightarrow>
      (\<forall>s \<ge> unat (first_free_idx ?zn). \<not> is_run (bitmap ?zn) (kmem st) False s (unat num))"
    using assms(1,2) by (auto simp: pmm_alloc_cases first_run_def)
  show "(\<exists>msg. pmm_alloc st z num = Inl (Panic msg)) \<or> (\<exists>pa st'. pmm_alloc st z num = Inr (pa, st'))"
    using assms(1,2) by (auto simp: pmm_alloc_cases)
qed

theorem pmm_alloc_panics_iff_witness:
  "(\<exists>msg. pmm_alloc demo_pmm PMM_ZONE_NORMAL 3 = Inl (Panic msg)) \<or>
   (\<exists>pa st'. pmm_alloc demo_pmm PMM_ZONE_NORMAL 3 = Inr (pa, st'))"
  by (rule pmm_alloc_panics_iff[OF demo_pmm_wf PMM_ZONE_NORMAL_ok, THEN conjunct2]) simp

text \<open>C12. Frames handed out one after the other without a free in between are pairwise distinct,
  were all free at the start, and are the only frames whose status changed.\<close>

theorem pmm_alloc_seq_distinct:
  assumes "pmm_wf st" "z < PMM_NUM_ZONES" "alloc_seq (\<lambda>st. pmm_alloc st z 1) n st = Inr (frames, st')"
  shows "distinct frames \<and> length frames = n \<and> (\<forall>a\<in>set frames. \<not> frame_used st a) \<and>
     (\<forall>b. frame_used st' b \<longleftrightarrow> frame_used st b \<or> b \<in> set frames)"
  using pmm_frames.alloc_seq_fresh[of st z n frames st'] assms by simp

theorem pmm_alloc_seq_distinct_witness:
  "\<exists>st'. alloc_seq (\<lambda>st. pmm_alloc st 0 1) 2 demo_pmm = Inr ([0, 0x1000], st') \<and>
     \<not> frame_used demo_pmm 0x1000 \<and> frame_used st' 0x1000"
proof -
  have z: "(0 :: zone_e) < PMM_NUM_ZONES" by (simp add: PMM_NUM_ZONES_def)
  have "(case alloc_seq (\<lambda>st. pmm_alloc st 0 1) 2 demo_pmm of Inl _ \<Rightarrow> [] | Inr (fs, _) \<Rightarrow> fs) = [0, 0x1000]"
    by code_simp
  then obtain st' where "alloc_seq (\<lambda>st. pmm_alloc st 0 1) 2 demo_pmm = Inr ([0, 0x1000], st')"
    by (auto split: sum.splits)
  then show ?thesis using pmm_alloc_seq_distinct[OF demo_pmm_wf z] by auto
qed

text \<open>C13. The byte counts follow the bitmap: \<open>mem_free\<close> stays 4096 times the number of free pages
  and \<open>mem_used\<close> the rest of \<open>mem_total\<close>, in every zone, across an allocation and across the
  release of a run of used pages.\<close>

theorem pmm_accounts_invariant:
  assumes "pmm_wf st" "z < PMM_NUM_ZONES" "num \<noteq> 0" "\<forall>y < PMM_NUM_ZONES. zone_accounts st y"
    and step: "pmm_alloc st z num = Inr (pa, st') \<or>
      i + unat num \<le> num_pages st z \<and> (\<forall>k. i \<le> k \<and> k < i + unat num \<longrightarrow> page_used st z k) \<and>
      unat pa = zone_base st z + 4096 * i \<and> pmm_free st pa num = Inr st'"
  shows "\<forall>y < PMM_NUM_ZONES. zone_accounts st' y"
  using step
proof (elim disjE conjE)
  assume "pmm_alloc st z num = Inr (pa, st')"
  then show ?thesis using pmm_alloc_accounts[OF assms(1-3)] assms(4) by blast
next
  assume i: "i + unat num \<le> num_pages st z" "\<forall>k. i \<le> k \<and> k < i + unat num \<longrightarrow> page_used st z k"
    "unat pa = zone_base st z + 4096 * i" "pmm_free st pa num = Inr st'"
  show ?thesis using pmm_free_accounts[OF assms(1-3) i] assms(4) by blast
qed

theorem pmm_accounts_invariant_witness:
  "\<exists>pa st'. pmm_alloc demo_pmm PMM_ZONE_NORMAL 2 = Inr (pa, st') \<and> zone_accounts st' PMM_ZONE_NORMAL"
proof -
  obtain st' where "pmm_alloc demo_pmm PMM_ZONE_NORMAL 2 = Inr (0x1002000, st')"
    using demo_alloc by blast
  moreover from this have "\<forall>y < PMM_NUM_ZONES. zone_accounts st' y"
    by (intro pmm_accounts_invariant[OF demo_pmm_wf PMM_ZONE_NORMAL_ok _ demo_accounts, of 2] disjI1) auto
  ultimately show ?thesis by auto
qed

text \<open>Freeing what was just allocated brings back the status of every page of every zone and the
  zone's byte counts, and the search index does not end above its old value.\<close>

theorem pmm_alloc_free_roundtrip:
  assumes "pmm_wf st" "z < PMM_NUM_ZONES" "num \<noteq> 0" "pmm_alloc st z num = Inr (pa, st1)"
  shows "\<exists>st2. pmm_free st1 pa num = Inr st2 \<and> pmm_wf st2 \<and>
    (\<forall>y < PMM_NUM_ZONES. \<forall>k < num_pages st y. page_used st2 y k = page_used st y k) \<and>
    mem_free (mem_zone st2 ! z) = mem_free (mem_zone st ! z) \<and>
    mem_used (mem_zone st2 ! z) = mem_used (mem_zone st ! z)"
proof -
  obtain i where i: "unat pa = zone_base st z + 4096 * i" "i + unat num \<le> num_pages st z"
    "is_run (bitmap (mem_zone st ! z)) (kmem st) False i (unat num)"
    "\<forall>y k. y < PMM_NUM_ZONES \<and> k < num_pages st y \<longrightarrow>
        (page_used st1 y k \<longleftrightarrow> page_used st y k \<or> y = z \<and> i \<le> k \<and> k < i + unat num)"
    by (rule pmm_alloc_views[OF assms]) (rule that)
  note fr = pmm_alloc_frame[OF assms]
  have pre: "i + unat num \<le> num_pages st1 z" "unat pa = zone_base st1 z + 4096 * i"
    using i(1,2) by (simp_all add: fr)
  obtain st2 where st2: "pmm_free st1 pa num = Inr st2" "pmm_wf st2"
    "\<forall>y k. y < PMM_NUM_ZONES \<and> k < num_pages st1 y \<longrightarrow>
        (page_used st2 y k \<longleftrightarrow> page_used st1 y k \<and> \<not> (y = z \<and> i \<le> k \<and> k < i + unat num))"
    "mem_free (mem_zone st2 ! z) = mem_free (mem_zone st1 ! z) + num * PAGE_SIZE"
    "mem_used (mem_zone st2 ! z) = mem_used (mem_zone st1 ! z) - num * PAGE_SIZE"
    by (rule pmm_free_views[OF fr(1) assms(2,3) pre]) (rule that)
  have "mem_free (mem_zone st1 ! z) = mem_free (mem_zone st ! z) - num * PAGE_SIZE"
    "mem_used (mem_zone st1 ! z) = mem_used (mem_zone st ! z) + num * PAGE_SIZE"
    by (rule pmm_alloc_InrE[OF assms], use assms(1,2) in simp)+
  then show ?thesis using st2 i(4) run_pages_free[OF i(3)]
    by (intro exI[of _ st2]) (auto simp: fr)
qed

theorem pmm_alloc_free_roundtrip_witness:
  "\<exists>st1 st2. pmm_alloc demo_pmm PMM_ZONE_NORMAL 2 = Inr (0x1002000, st1) \<and>
     pmm_free st1 0x1002000 2 = Inr st2 \<and> mem_free (mem_zone st2 ! PMM_ZONE_NORMAL) = 0x3000"
proof -
  obtain st1 where "pmm_alloc demo_pmm PMM_ZONE_NORMAL 2 = Inr (0x1002000, st1)"
    using demo_alloc by blast
  then show ?thesis
    using pmm_alloc_free_roundtrip[OF demo_pmm_wf PMM_ZONE_NORMAL_ok, of 2 "0x1002000" st1]
    by (auto simp: demo_pmm_def demo_zone_def PMM_ZONE_NORMAL_def)
qed

text \<open>C14. The next search starts behind the pages just allocated, so free pages in front of them
  are out of reach until something below is freed: no later allocation in the zone returns a page
  before the end of the last one, and \<open>pmm_alloc\<close> panics in a state with a free page.\<close>

theorem pmm_alloc_skips_free_pages:
  "(\<forall>st :: pmm_state. \<forall>st1 st2 z n k pa pb. pmm_wf st \<and> z < PMM_NUM_ZONES \<and> n \<noteq> 0 \<and> k \<noteq> 0 \<and>
      pmm_alloc st z n = Inr (pa, st1) \<and> pmm_alloc st1 z k = Inr (pb, st2) \<longrightarrow>
      unat pa + 4096 * unat n \<le> unat pb) \<and>
   (\<exists>st :: pmm_state. \<exists>st1 pa. pmm_wf st \<and> pmm_alloc st PMM_ZONE_NORMAL 2 = Inr (pa, st1) \<and>
      0 \<in> free_pages st1 PMM_ZONE_NORMAL \<and> (\<exists>msg. pmm_alloc st1 PMM_ZONE_NORMAL 1 = Inl (Panic msg)))"
proof (intro conjI allI impI; (elim conjE)?)
  fix st :: pmm_state and st1 st2 z n k pa pb
  assume prem: "pmm_wf st" "z < PMM_NUM_ZONES" "n \<noteq> 0" "pmm_alloc st z n = Inr (pa, st1)"
    and k: "k \<noteq> 0" "pmm_alloc st1 z k = Inr (pb, st2)"
  note fr = pmm_alloc_frame[OF prem]
  obtain i where i: "unat pa = zone_base st z + 4096 * i"
    "unat (first_free_idx (mem_zone st1 ! z)) = i + unat n"
    by (rule pmm_alloc_views[OF prem]) (rule that)
  obtain j where j: "unat pb = zone_base st1 z + 4096 * j" "unat (first_free_idx (mem_zone st1 ! z)) \<le> j"
    by (rule pmm_alloc_views[OF fr(1) prem(2) k]) (rule that)
  show "unat pa + 4096 * unat n \<le> unat pb" using i j by (simp add: fr)
next
  obtain st1 where st1: "pmm_alloc demo_pmm PMM_ZONE_NORMAL 2 = Inr (0x1002000, st1)"
    using demo_alloc by blast
  have "(case pmm_alloc demo_pmm PMM_ZONE_NORMAL 2 of Inl _ \<Rightarrow> False | Inr (_, st1) \<Rightarrow>
      (case pmm_alloc st1 PMM_ZONE_NORMAL 1 of Inl (Panic _) \<Rightarrow> True | _ \<Rightarrow> False) \<and>
      \<not> page_used st1 PMM_ZONE_NORMAL 0 \<and> 0 < num_pages st1 PMM_ZONE_NORMAL)"
    by code_simp
  with st1 demo_pmm_wf
  show "\<exists>st :: pmm_state. \<exists>st1 pa. pmm_wf st \<and> pmm_alloc st PMM_ZONE_NORMAL 2 = Inr (pa, st1) \<and>
      0 \<in> free_pages st1 PMM_ZONE_NORMAL \<and> (\<exists>msg. pmm_alloc st1 PMM_ZONE_NORMAL 1 = Inl (Panic msg))"
    by (intro exI[of _ demo_pmm] exI[of _ st1] exI[of _ "0x1002000"])
       (auto simp: free_pages_def split: sum.splits kerr.splits)
qed

theorem pmm_alloc_skips_free_pages_witness:
  "\<exists>st :: pmm_state. \<exists>st1 pa. pmm_wf st \<and> pmm_alloc st PMM_ZONE_NORMAL 2 = Inr (pa, st1) \<and>
      0 \<in> free_pages st1 PMM_ZONE_NORMAL \<and> (\<exists>msg. pmm_alloc st1 PMM_ZONE_NORMAL 1 = Inl (Panic msg))"
  by (rule pmm_alloc_skips_free_pages[THEN conjunct2])

end
