(* ===== verification/Idt.thy ===== *)
theory Idt
  imports Kernel_Prelude
begin

text \<open>
  The interrupt descriptor table of kernel/intr/idt.c and the handler registration of
  kernel/intr/interrupt.c. The state holds the array of handler addresses
  \<^verbatim>\<open>isr_addr_table\<close> (defined in interrupt.S), the descriptors, \<^verbatim>\<open>idt_info\<close>, and the two pieces of
  CPU state that \<^verbatim>\<open>idt_load\<close> of idt.S changes: the register IDTR and the interrupt flag.

  What the processor does with a descriptor (offset, selector, gate type, privilege level and
  present bit of a 64-bit gate) is spelt out by the \<open>gate_\<close> functions.
\<close>

section \<open>Definitions\<close>

definition KERNEL_CS :: u16 where "KERNEL_CS = 0x08"
definition IDT_MAX_ENTRIES :: nat where "IDT_MAX_ENTRIES = 256"
definition INT_GATE :: u8 where "INT_GATE = 0x0E"
definition PL0 :: u8 where "PL0 = 0x00"
definition PL3 :: u8 where "PL3 = 0x60"
definition PRESENT :: u8 where "PRESENT = 0x80"

record idt_desc_t =
  isr_low :: u16
  seg_sel :: u16
  ist :: u8
  attributes :: u8
  isr_mid :: u16
  isr_high :: u32
  reserve2 :: u32

record idtr_t =
  idtr_size :: u16
  idtr_address :: u64

record intr_state =
  isr_addr_table :: "addr list"
  idt :: "idt_desc_t list"
  idt_info :: idtr_t
  idtr :: idtr_t
  int_flag :: bool

definition idt_set_descriptor :: "u8 \<Rightarrow> addr \<Rightarrow> u8 \<Rightarrow> 'a intr_state_scheme \<Rightarrow> 'a intr_state_scheme" where
  "idt_set_descriptor vector isr attrs st =
     st\<lparr>idt := (idt st)[unat vector :=
          \<lparr>isr_low = ucast (isr AND 0xFFFF),
           seg_sel = KERNEL_CS,
           ist = 0,
           attributes = attrs,
           isr_mid = ucast (drop_bit 16 isr AND 0xFFFF),
           isr_high = ucast (drop_bit 32 isr AND 0xFFFFFFFF),
           reserve2 = 0\<rparr>]\<rparr>"

text \<open>\<^verbatim>\<open>idt_load\<close>: \<^verbatim>\<open>lidt [idt_info]\<close> and \<^verbatim>\<open>sti\<close>.\<close>

definition idt_load :: "'a intr_state_scheme \<Rightarrow> 'a intr_state_scheme" where
  "idt_load st = st\<lparr>idtr := idt_info st, int_flag := True\<rparr>"

text \<open>The address of the array \<^verbatim>\<open>idt\<close> is chosen by the linker. A descriptor takes 16 bytes.\<close>

definition idt_init :: "addr \<Rightarrow> 'a intr_state_scheme \<Rightarrow> 'a intr_state_scheme kres" where
  "idt_init idt_addr st =
     kbind
       (for_natE IDT_MAX_ENTRIES (\<lambda>i st.
          if length (isr_addr_table st) \<le> unat i then Inl Out_of_bounds
          else Inr (idt_set_descriptor (ucast i) (isr_addr_table st ! unat i) (INT_GATE OR PL0 OR PRESENT) st))
          (st\<lparr>idt_info := \<lparr>idtr_size = of_nat (16 * IDT_MAX_ENTRIES - 1), idtr_address = idt_addr\<rparr>\<rparr>))
       (\<lambda>st. Inr (idt_load st))"

definition register_intr_handler :: "addr \<Rightarrow> u8 \<Rightarrow> 'a intr_state_scheme \<Rightarrow> 'a intr_state_scheme kres" where
  "register_intr_handler handler irq_num st =
     (if length (isr_addr_table st) \<le> unat irq_num then Inl Out_of_bounds
      else
        let st1 = st\<lparr>isr_addr_table := (isr_addr_table st)[unat irq_num := handler]\<rparr>
        in Inr (idt_set_descriptor irq_num (isr_addr_table st1 ! unat irq_num) (INT_GATE OR PL0 OR PRESENT) st1))"

section \<open>The processor's reading of a gate\<close>

definition gate_offset :: "idt_desc_t \<Rightarrow> addr" where
  "gate_offset d = ucast (isr_low d) OR push_bit 16 (ucast (isr_mid d)) OR push_bit 32 (ucast (isr_high d))"

definition gate_type :: "idt_desc_t \<Rightarrow> u8" where
  "gate_type d = attributes d AND 0x0F"

definition gate_dpl :: "idt_desc_t \<Rightarrow> u8" where
  "gate_dpl d = drop_bit 5 (attributes d) AND 3"

definition gate_present :: "idt_desc_t \<Rightarrow> bool" where
  "gate_present d = bit (attributes d) 7"

text \<open>A present kernel-mode 64-bit interrupt gate to the handler, on the current stack.\<close>

definition kernel_gate :: "addr \<Rightarrow> idt_desc_t \<Rightarrow> bool" where
  "kernel_gate handler d \<longleftrightarrow>
     gate_offset d = handler \<and> seg_sel d = KERNEL_CS \<and> ist d = 0 \<and>
     gate_type d = 0xE \<and> gate_dpl d = 0 \<and> gate_present d \<and> reserve2 d = 0"

definition intr_wf :: "'a intr_state_scheme \<Rightarrow> bool" where
  "intr_wf st \<longleftrightarrow> length (isr_addr_table st) = IDT_MAX_ENTRIES \<and> length (idt st) = IDT_MAX_ENTRIES"

section \<open>Lemmas\<close>

text \<open>Splitting an address into three fields and joining them again.\<close>

lemma split_address:
  fixes a :: u64
  shows "ucast (ucast (a AND 0xFFFF) :: u16) OR
     push_bit 16 (ucast (ucast (drop_bit 16 a AND 0xFFFF) :: u16)) OR
     push_bit 32 (ucast (ucast (drop_bit 32 a AND 0xFFFFFFFF) :: u32)) = a" (is "?l = a")
proof (rule bit_word_eqI)
  have m: "(0xFFFF :: u64) = mask 16" "(0xFFFFFFFF :: u64) = mask 32"
    by (simp_all add: mask_eq_exp_minus_1)
  fix n assume "n < LENGTH(64)"
  then show "bit ?l n \<longleftrightarrow> bit a n"
    unfolding m by (cases "n < 32") (auto simp: bit_simps)
qed

lemma kernel_gate_set:
  assumes "unat v < length (idt st)"
  shows "kernel_gate isr (idt (idt_set_descriptor v isr (INT_GATE OR PL0 OR PRESENT) st) ! unat v)"
proof -
  have a: "INT_GATE OR PL0 OR PRESENT = (0x8E :: u8)"
    by (simp add: INT_GATE_def PL0_def PRESENT_def)
  have "bit (0x8E :: u8) 7" "drop_bit 5 (0x8E :: u8) AND 3 = 0" "(0x8E :: u8) AND 0x0F = 0xE"
    by code_simp+
  then show ?thesis using assms split_address[of isr]
    by (simp add: a kernel_gate_def idt_set_descriptor_def gate_offset_def gate_type_def gate_dpl_def
        gate_present_def)
qed

lemma idt_set_other [simp]:
  "k \<noteq> unat v \<Longrightarrow> idt (idt_set_descriptor v isr a st) ! k = idt st ! k"
  by (simp add: idt_set_descriptor_def)

lemma idt_set_simps [simp]:
  "isr_addr_table (idt_set_descriptor v isr a st) = isr_addr_table st"
  "length (idt (idt_set_descriptor v isr a st)) = length (idt st)"
  "idt_info (idt_set_descriptor v isr a st) = idt_info st"
  by (simp_all add: idt_set_descriptor_def)

lemma unat_ucast_u8: "i < 256 \<Longrightarrow> unat (ucast (of_nat i :: u64) :: u8) = i"
  by (simp add: unsigned_ucast_eq take_bit_nat_eq_self)

text \<open>After \<open>n\<close> rounds of the loop the first \<open>n\<close> gates are set up.\<close>

lemma idt_init_loop:
  assumes "intr_wf st" "n \<le> IDT_MAX_ENTRIES"
  shows "\<exists>st'. for_natE n (\<lambda>i st.
          if length (isr_addr_table st) \<le> unat i then Inl Out_of_bounds
          else Inr (idt_set_descriptor (ucast i) (isr_addr_table st ! unat i) (INT_GATE OR PL0 OR PRESENT) st)) st
          = Inr st' \<and> intr_wf st' \<and> isr_addr_table st' = isr_addr_table st \<and> idt_info st' = idt_info st \<and>
         (\<forall>k < n. kernel_gate (isr_addr_table st ! k) (idt st' ! k))"
  using assms(2)
proof (induction n)
  case 0
  then show ?case using assms by simp
next
  case (Suc n)
  then obtain s where s: "for_natE n (\<lambda>i st.
          if length (isr_addr_table st) \<le> unat i then Inl Out_of_bounds
          else Inr (idt_set_descriptor (ucast i) (isr_addr_table st ! unat i) (INT_GATE OR PL0 OR PRESENT) st)) st
          = Inr s" "intr_wf s" "isr_addr_table s = isr_addr_table st" "idt_info s = idt_info st"
     "\<forall>k < n. kernel_gate (isr_addr_table st ! k) (idt s ! k)" by auto
  have n: "n < 256" using Suc.prems by (simp add: IDT_MAX_ENTRIES_def)
  note u = unat_ucast_u8[OF n]
  have len: "length (idt s) = 256" "length (isr_addr_table st) = 256"
    using s(2,3) by (auto simp: intr_wf_def IDT_MAX_ENTRIES_def)
  have u64: "unat (of_nat n :: u64) = n" using n by simp
  define s' where "s' = idt_set_descriptor (ucast (of_nat n :: u64)) (isr_addr_table s ! n) (INT_GATE OR PL0 OR PRESENT) s"
  have g: "kernel_gate (isr_addr_table st ! n) (idt s' ! n)"
    using kernel_gate_set[of "ucast (of_nat n :: u64)" s] n len u s(3) by (simp add: s'_def)
  have o: "k < n \<Longrightarrow> idt s' ! k = idt s ! k" for k using u by (simp add: s'_def)
  have "\<forall>k < Suc n. kernel_gate (isr_addr_table st ! k) (idt s' ! k)"
    using g o s(5) by (auto simp: less_Suc_eq)
  moreover have "intr_wf s'" "isr_addr_table s' = isr_addr_table st" "idt_info s' = idt_info st"
    using s by (simp_all add: s'_def intr_wf_def)
  ultimately show ?case using s(1,3) n len u64 by (simp add: s'_def)
qed

lemma idt_init_run:
  assumes "intr_wf st"
  shows "\<exists>st'. idt_init idt_addr st = Inr st' \<and>
    (\<forall>v :: u8. kernel_gate (isr_addr_table st ! unat v) (idt st' ! unat v)) \<and>
    idtr st' = \<lparr>idtr_size = 4095, idtr_address = idt_addr\<rparr> \<and> int_flag st' \<and>
    isr_addr_table st' = isr_addr_table st \<and> intr_wf st'"
proof -
  let ?st = "st\<lparr>idt_info := \<lparr>idtr_size = of_nat (16 * IDT_MAX_ENTRIES - 1), idtr_address = idt_addr\<rparr>\<rparr>"
  have "intr_wf ?st" using assms by (simp add: intr_wf_def)
  from idt_init_loop[OF this order.refl] obtain s where
    s: "idt_init idt_addr st = Inr (idt_load s)" "isr_addr_table s = isr_addr_table st"
       "idt_info s = idt_info ?st" "intr_wf s"
       "\<forall>k < IDT_MAX_ENTRIES. kernel_gate (isr_addr_table st ! k) (idt s ! k)"
    by (auto simp: idt_init_def)
  have v: "unat v < IDT_MAX_ENTRIES" for v :: u8
    using unsigned_less[of v] by (simp add: IDT_MAX_ENTRIES_def)
  show ?thesis using s v
    by (intro exI[of _ "idt_load s"]) (simp add: idt_load_def IDT_MAX_ENTRIES_def intr_wf_def)
qed

section \<open>Properties\<close>

text \<open>\<open>idt_init\<close> succeeds and points every one of the 256 vectors at its handler through a present
  kernel-mode interrupt gate, loads IDTR with the table's address and last byte, and enables
  interrupts.\<close>

theorem idt_init_correct:
  assumes "intr_wf st"
  shows "\<exists>st'. idt_init idt_addr st = Inr st' \<and>
    (\<forall>v :: u8. kernel_gate (isr_addr_table st ! unat v) (idt st' ! unat v)) \<and>
    idtr st' = \<lparr>idtr_size = 4095, idtr_address = idt_addr\<rparr> \<and> int_flag st' \<and>
    isr_addr_table st' = isr_addr_table st"
  using idt_init_run[OF assms] by blast

definition demo_intr :: intr_state where
  "demo_intr = \<lparr>isr_addr_table = map (\<lambda>i. 0xffffffff80001000 + 16 * of_nat i) [0..<256],
     idt = replicate 256 \<lparr>isr_low = 0, seg_sel = 0, ist = 0, attributes = 0, isr_mid = 0, isr_high = 0, reserve2 = 0\<rparr>,
     idt_info = \<lparr>idtr_size = 0, idtr_address = 0\<rparr>, idtr = \<lparr>idtr_size = 0, idtr_address = 0\<rparr>,
     int_flag = False\<rparr>"

lemma demo_intr_wf: "intr_wf demo_intr"
  by (simp add: intr_wf_def demo_intr_def IDT_MAX_ENTRIES_def)

theorem idt_init_correct_witness:
  "\<exists>st'. idt_init 0xffffffff80300000 demo_intr = Inr st' \<and>
     gate_offset (idt st' ! 14) = 0xffffffff800010e0 \<and> gate_present (idt st' ! 14)"
proof -
  obtain st' where st': "idt_init 0xffffffff80300000 demo_intr = Inr st'"
    "\<forall>v :: u8. kernel_gate (isr_addr_table demo_intr ! unat v) (idt st' ! unat v)"
    using idt_init_correct[OF demo_intr_wf, of "0xffffffff80300000"] by blast
  from st'(2)[rule_format, of 14] show ?thesis
    by (intro exI[of _ st'] conjI st'(1)) (simp_all add: kernel_gate_def demo_intr_def)
qed

text \<open>\<open>register_intr_handler\<close> redirects exactly the given vector, in the handler table and in the
  descriptor table, and keeps both tables' sizes.\<close>

theorem register_intr_handler_correct:
  assumes "intr_wf st"
  shows "\<exists>st'. register_intr_handler handler n st = Inr st' \<and> intr_wf st' \<and>
    isr_addr_table st' ! unat n = handler \<and> kernel_gate handler (idt st' ! unat n) \<and>
    (\<forall>k. k \<noteq> unat n \<longrightarrow> idt st' ! k = idt st ! k \<and> isr_addr_table st' ! k = isr_addr_table st ! k)"
proof -
  have n: "unat n < 256" using unsigned_less[of n] by simp
  let ?st = "st\<lparr>isr_addr_table := (isr_addr_table st)[unat n := handler]\<rparr>"
  have len: "length (isr_addr_table st) = 256" "length (idt st) = 256"
    using assms by (simp_all add: intr_wf_def IDT_MAX_ENTRIES_def)
  have "kernel_gate handler (idt (idt_set_descriptor n handler (INT_GATE OR PL0 OR PRESENT) ?st) ! unat n)"
    by (rule kernel_gate_set) (use n len in simp)
  then show ?thesis using n len
    by (auto simp: register_intr_handler_def intr_wf_def IDT_MAX_ENTRIES_def)
qed

theorem register_intr_handler_correct_witness:
  "\<exists>st'. register_intr_handler 0xffffffff80112233 14 demo_intr = Inr st' \<and>
     gate_offset (idt st' ! 14) = 0xffffffff80112233 \<and> idt st' ! 13 = idt demo_intr ! 13"
proof -
  obtain st' where "register_intr_handler 0xffffffff80112233 14 demo_intr = Inr st'"
    "kernel_gate 0xffffffff80112233 (idt st' ! unat (14 :: u8))"
    "\<forall>k. k \<noteq> unat (14 :: u8) \<longrightarrow> idt st' ! k = idt demo_intr ! k"
    using register_intr_handler_correct[OF demo_intr_wf, of "0xffffffff80112233" 14] by blast
  then show ?thesis by (intro exI[of _ st']) (simp add: kernel_gate_def)
qed

end
