(* ===== verification/Page_Tree.thy ===== *)
theory Page_Tree
  imports Kernel_Memory
begin

text \<open>
  The processor's view of four-level page tables, as a tree: the specification that the theory
  Paging implements. A table is a function from indices below 512 to entries; bit 0 of an entry
  says that it is present and bits 12 to 51 hold the address of the next table or of the page. A
  path is the list of indices from the root; a table sits at a path of length at most three, the
  entry of a page at a path of length four. In a \<open>tree\<close> no table is reached by two paths, so an
  update of one entry is felt by one page only.
\<close>

section \<open>Definitions\<close>

type_synonym ents = "addr \<Rightarrow> nat \<Rightarrow> u64"

definition addr_bits :: u64 where "addr_bits = push_bit 12 (mask 40)"

definition present :: "u64 \<Rightarrow> bool" where "present e = bit e 0"

definition next_table :: "u64 \<Rightarrow> addr" where "next_table e = e AND addr_bits"

text \<open>One step of the walk.\<close>

definition child :: "ents \<Rightarrow> addr \<Rightarrow> nat \<Rightarrow> addr option" where
  "child ent t i = (if present (ent t i) then Some (next_table (ent t i)) else None)"

primrec tab :: "ents \<Rightarrow> addr \<Rightarrow> nat list \<Rightarrow> addr option" where
  "tab ent r [] = Some r"
| "tab ent r (i # p) = Option.bind (child ent r i) (\<lambda>t. tab ent t p)"

text \<open>The entry at a path; 0 (not present) when there is no table to hold it.\<close>

definition leaf :: "ents \<Rightarrow> addr \<Rightarrow> nat list \<Rightarrow> u64" where
  "leaf ent r p = (case tab ent r (butlast p) of None \<Rightarrow> 0 | Some t \<Rightarrow> ent t (last p))"

definition paths :: "nat list set" where
  "paths = {p. length p \<le> 3 \<and> set p \<subseteq> {..<512}}"

definition page_paths :: "nat list set" where
  "page_paths = {p. length p = 4 \<and> set p \<subseteq> {..<512}}"

definition tables :: "ents \<Rightarrow> addr \<Rightarrow> addr set" where
  "tables ent r = {t. \<exists>p\<in>paths. tab ent r p = Some t}"

definition tree :: "ents \<Rightarrow> addr \<Rightarrow> bool" where
  "tree ent r \<longleftrightarrow> (\<forall>p\<in>paths. \<forall>q\<in>paths. \<forall>t. tab ent r p = Some t \<longrightarrow> tab ent r q = Some t \<longrightarrow> p = q)"

text \<open>The indices of a virtual address, from the root's down to the page's.\<close>

definition vidx :: "addr \<Rightarrow> nat \<Rightarrow> nat" where
  "vidx v level = unat (drop_bit (9 * level + 12) v) mod 512"

definition vpath :: "addr \<Rightarrow> nat list" where
  "vpath v = [vidx v 3, vidx v 2, vidx v 1, vidx v 0]"

text \<open>The page number of an address: its bits 12 to 47.\<close>

definition vpage :: "addr \<Rightarrow> nat" where
  "vpage v = unat v div 4096 mod 2 ^ 36"

definition translate :: "ents \<Rightarrow> addr \<Rightarrow> addr \<Rightarrow> addr option" where
  "translate ent r v =
     (let e = leaf ent r (vpath v)
      in if present e then Some (next_table e + take_bit 12 v) else None)"

section \<open>Lemmas\<close>

lemma tab_snoc: "tab ent r (p @ [i]) = Option.bind (tab ent r p) (\<lambda>t. child ent t i)"
  by (induction p arbitrary: r) (simp_all add: bind_assoc split: bind_splits)

lemma tab_append: "tab ent r (p @ q) = Option.bind (tab ent r p) (\<lambda>t. tab ent t q)"
  by (induction p arbitrary: r) (simp_all add: bind_assoc split: bind_splits)

lemma paths_Nil [simp]: "[] \<in> paths"
  by (simp add: paths_def)

lemma paths_snocD: "p @ [i] \<in> paths \<Longrightarrow> p \<in> paths \<and> i < 512 \<and> length p \<le> 2"
  by (auto simp: paths_def)

lemma tables_root [simp]: "r \<in> tables ent r"
  by (auto simp: tables_def intro: bexI[of _ "[]"])

lemma tablesI: "tab ent r p = Some t \<Longrightarrow> p \<in> paths \<Longrightarrow> t \<in> tables ent r"
  by (auto simp: tables_def)

lemma treeD: "tree ent r \<Longrightarrow> tab ent r p = Some t \<Longrightarrow> tab ent r q = Some t \<Longrightarrow> p \<in> paths \<Longrightarrow> q \<in> paths \<Longrightarrow> p = q"
  by (auto simp: tree_def)

lemma child_cong: "ent' t i = ent t i \<Longrightarrow> child ent' t i = child ent t i"
  by (simp add: child_def)

text \<open>A change to one entry of a table on the last level leaves every table in its place.\<close>

lemma tab_leaf_update:
  assumes tree: "tree ent r" and p0: "tab ent r p0 = Some t0" "p0 \<in> paths" "length p0 = 3"
    and same: "\<And>t i. t \<in> tables ent r \<Longrightarrow> i < 512 \<Longrightarrow> (t, i) \<noteq> (t0, i0) \<Longrightarrow> ent' t i = ent t i"
  shows "q \<in> paths \<Longrightarrow> tab ent' r q = tab ent r q"
proof (induction q rule: rev_induct)
  case (snoc i q)
  note q = paths_snocD[OF snoc.prems]
  have "child ent' t i = child ent t i" if t: "tab ent r q = Some t" for t
  proof (rule child_cong, rule same)
    show "t \<in> tables ent r" using t q by (blast intro: tablesI)
    show "(t, i) \<noteq> (t0, i0)" using treeD[OF tree t, of p0] p0 q by auto
  qed (use q in simp)
  then show ?case using snoc q by (auto simp: tab_snoc split: bind_splits)
qed simp

lemma leaf_update:
  assumes tree: "tree ent r" and p0: "tab ent r p0 = Some t0" "p0 \<in> paths" "length p0 = 3"
    and same: "\<And>t i. t \<in> tables ent r \<Longrightarrow> i < 512 \<Longrightarrow> (t, i) \<noteq> (t0, i0) \<Longrightarrow> ent' t i = ent t i"
    and q: "q \<in> page_paths"
  shows "leaf ent' r q = (if q = p0 @ [i0] then ent' t0 i0 else leaf ent r q)"
proof -
  have q3: "butlast q \<in> paths" "last q < 512"
    using q by (auto simp: page_paths_def paths_def dest: in_set_butlastD)
      (metis last_in_set lessThan_iff list.size(3) subsetD zero_neq_numeral)
  have qs: "q = butlast q @ [last q]" using q by (cases q rule: rev_cases) (auto simp: page_paths_def)
  note tab' = tab_leaf_update[OF tree p0 same q3(1)]
  show ?thesis
  proof (cases "tab ent r (butlast q)")
    case None
    then have "q \<noteq> p0 @ [i0]" using p0 by auto
    with None tab' show ?thesis by (simp add: leaf_def)
  next
    case (Some t)
    show ?thesis
    proof (cases "t = t0 \<and> last q = i0")
      case True
      then have "butlast q = p0" using treeD[OF tree Some, of p0] p0 q3 by simp
      then show ?thesis using qs tab' Some True by (auto simp: leaf_def)
    next
      case False
      then have "q \<noteq> p0 @ [i0]" using Some p0(1) by auto
      moreover have "ent' t (last q) = ent t (last q)"
        using same False Some q3 by (auto intro: tablesI)
      ultimately show ?thesis using tab' Some by (simp add: leaf_def)
    qed
  qed
qed

lemma tables_cong: "(\<And>q. q \<in> paths \<Longrightarrow> tab ent' r q = tab ent r q) \<Longrightarrow> tables ent' r = tables ent r"
  by (auto simp: tables_def)

lemma tree_cong: "(\<And>q. q \<in> paths \<Longrightarrow> tab ent' r q = tab ent r q) \<Longrightarrow> tree ent' r = tree ent r"
  by (auto simp: tree_def)

text \<open>Hanging an empty table into the tree where there was none adds that table only and keeps
  the entry of every page.\<close>

lemma tab_link:
  assumes tree: "tree ent r" and p0: "tab ent r p0 = Some t0" "p0 @ [i0] \<in> paths"
    and same: "\<And>t i. t \<in> tables ent r \<Longrightarrow> i < 512 \<Longrightarrow> (t, i) \<noteq> (t0, i0) \<Longrightarrow> ent' t i = ent t i"
    and old: "\<not> present (ent t0 i0)" and new: "present (ent' t0 i0)" "next_table (ent' t0 i0) = c"
    and empty: "\<And>i. i < 512 \<Longrightarrow> ent' c i = 0"
  shows "q \<in> paths \<Longrightarrow> tab ent' r q = (if q = p0 @ [i0] then Some c else tab ent r q)"
proof (induction q rule: rev_induct)
  case (snoc i q)
  note q = paths_snocD[OF snoc.prems] and p = paths_snocD[OF p0(2)]
  have none: "tab ent r (p0 @ [i0]) = None" using p0 old by (simp add: tab_snoc child_def)
  show ?case
  proof (cases "q = p0 @ [i0]")
    case True
    then have "tab ent' r q = Some c" "tab ent r q = None" using snoc q none by simp_all
    then show ?thesis using q empty by (subst (1 2) tab_snoc) (simp add: True child_def present_def)
  next
    case False
    then have IH: "tab ent' r q = tab ent r q" using snoc q by simp
    have "child ent' t i = (if q = p0 \<and> i = i0 then Some c else child ent t i)"
      if t: "tab ent r q = Some t" for t
    proof (cases "t = t0 \<and> i = i0")
      case True
      then have "q = p0" using treeD[OF tree t] p0 q p by auto
      then show ?thesis using True new by (simp add: child_def)
    next
      case False
      then have "\<not> (q = p0 \<and> i = i0)" using t p0(1) by auto
      moreover have "ent' t i = ent t i" using same False t q by (auto intro: tablesI)
      ultimately show ?thesis by (auto simp: child_def)
    qed
    then show ?thesis using IH p0(1) by (auto simp: tab_snoc split: bind_splits)
  qed
qed simp

lemma tree_link:
  assumes tree: "tree ent r" and c: "c \<notin> tables ent r"
    and tab': "\<And>q. q \<in> paths \<Longrightarrow> tab ent' r q = (if q = p1 then Some c else tab ent r q)"
    and p1: "p1 \<in> paths"
  shows "tree ent' r" "tables ent' r \<subseteq> insert c (tables ent r)"
  using assms by (auto simp: tree_def tables_def split: if_splits)

lemma leaf_link:
  assumes tree: "tree ent r" and p0: "tab ent r p0 = Some t0" "p0 @ [i0] \<in> paths"
    and same: "\<And>t i. t \<in> tables ent r \<Longrightarrow> i < 512 \<Longrightarrow> (t, i) \<noteq> (t0, i0) \<Longrightarrow> ent' t i = ent t i"
    and old: "\<not> present (ent t0 i0)"
    and tab': "\<And>q. q \<in> paths \<Longrightarrow> tab ent' r q = (if q = p0 @ [i0] then Some c else tab ent r q)"
    and empty: "\<And>i. i < 512 \<Longrightarrow> ent' c i = 0"
    and q: "q \<in> page_paths"
  shows "leaf ent' r q = leaf ent r q"
proof -
  have q3: "butlast q \<in> paths" "last q < 512" "length (butlast q) = 3"
    using q by (auto simp: page_paths_def paths_def dest: in_set_butlastD)
      (metis last_in_set lessThan_iff list.size(3) subsetD zero_neq_numeral)
  note p = paths_snocD[OF p0(2)]
  show ?thesis
  proof (cases "butlast q = p0 @ [i0]")
    case True
    then show ?thesis using tab'[OF q3(1)] p0 old empty q3 by (simp add: leaf_def tab_snoc child_def)
  next
    case False
    have "ent' t (last q) = ent t (last q)" if t: "tab ent r (butlast q) = Some t" for t
    proof (rule same)
      show "(t, last q) \<noteq> (t0, i0)" using treeD[OF tree t, of p0] p0 p q3 by auto
    qed (use t q3 in \<open>auto intro: tablesI\<close>)
    then show ?thesis using False tab'[OF q3(1)] by (auto simp: leaf_def split: option.splits)
  qed
qed

text \<open>Indices and page numbers.\<close>

lemma unat_drop_bit: "unat (drop_bit n v) = unat (v :: u64) div 2 ^ n"
  using unat_u64_bound[of v]
  by (subst unsigned_drop_bit_eq) (simp add: drop_bit_eq_div take_bit_nat_eq_self)

lemma vidx_less [simp]: "vidx v i < 512"
  by (simp add: vidx_def)

lemma vpath_in [simp]: "vpath v \<in> page_paths"
  by (simp add: vpath_def page_paths_def)

lemma take_vpath_in: "take n (vpath v) \<in> paths" if "n \<le> 3"
  using that by (auto simp: vpath_def paths_def dest!: in_set_takeD)

lemma vidx_eq:
  assumes "i \<le> 3"
  shows "vidx v i = vpage v div 512 ^ i mod 512"
proof -
  have "vidx v i = take_bit 9 (drop_bit (9 * i) (unat v div 4096))"
    unfolding vidx_def unat_drop_bit
    by (simp add: drop_bit_eq_div take_bit_eq_mod power_add div_mult2_eq[symmetric] mult.commute)
  also have "\<dots> = take_bit 9 (drop_bit (9 * i) (take_bit 36 (unat v div 4096)))"
    using assms by (simp add: drop_bit_take_bit)
  also have "\<dots> = vpage v div 512 ^ i mod 512"
    by (simp add: vpage_def drop_bit_eq_div take_bit_eq_mod power_mult)
  finally show ?thesis .
qed

lemma digits4:
  fixes n :: nat
  assumes "n < 512 ^ 4"
  shows "n = n mod 512 + 512 * (n div 512 mod 512 + 512 * (n div 512 ^ 2 mod 512 + 512 * (n div 512 ^ 3 mod 512)))"
proof -
  have "n div 512 div 512 div 512 < 512" using assms by (simp add: div_mult2_eq[symmetric])
  then have "n div 512 ^ 3 mod 512 = n div 512 div 512 div 512"
    by (simp add: div_mult2_eq[symmetric])
  moreover have "n div 512 ^ 2 = n div 512 div 512" by (simp add: div_mult2_eq[symmetric])
  ultimately show ?thesis by (simp add: mod_mult_div_eq)
qed

lemma vpath_eq_iff: "vpath v = vpath w \<longleftrightarrow> vpage v = vpage w"
proof
  assume "vpath v = vpath w"
  then have *: "vpage v div 512 ^ i mod 512 = vpage w div 512 ^ i mod 512" if "i \<le> 3" for i
    using vidx_eq[OF that] that by (auto simp: vpath_def le_Suc_eq numeral_3_eq_3 numeral_2_eq_2)
  have "vpage v < 512 ^ 4" "vpage w < 512 ^ 4" by (simp_all add: vpage_def)
  then show "vpage v = vpage w"
    using digits4[of "vpage v"] digits4[of "vpage w"] *[of 0] *[of 1] *[of 2] *[of 3] by simp
next
  assume "vpage v = vpage w"
  then show "vpath v = vpath w" by (simp add: vpath_def vidx_eq)
qed

text \<open>Entries.\<close>

lemma bit_addr_bits: "bit addr_bits n \<longleftrightarrow> 12 \<le> n \<and> n < 52"
  by (auto simp: addr_bits_def bit_simps)

lemma aligned_low_bits:
  assumes "unat (a :: u64) mod 4096 = 0" "bit a n"
  shows "12 \<le> n"
proof (rule ccontr)
  assume "\<not> 12 \<le> n"
  then have "bit (take_bit 12 (unat a)) n" using assms(2) by (simp add: bit_take_bit_iff bit_unsigned_iff)
  then show False using assms(1) by (simp add: take_bit_eq_mod)
qed

lemma bounded_high_bits:
  assumes "unat (a :: u64) < 2 ^ k" "bit a n"
  shows "n < k"
proof (rule ccontr)
  assume "\<not> n < k"
  have "take_bit k (unat a) = unat a" using assms(1) by (simp add: take_bit_nat_eq_self)
  moreover have "bit (unat a) n" using assms(2) by (simp add: bit_unsigned_iff)
  ultimately have "bit (take_bit k (unat a)) n" by simp
  with \<open>\<not> n < k\<close> show False by (simp add: bit_take_bit_iff)
qed

lemma and_addr_bits:
  assumes "unat (a :: u64) mod 4096 = 0" "unat a < 2 ^ 52"
  shows "a AND addr_bits = a"
  using aligned_low_bits[OF assms(1)] bounded_high_bits[OF assms(2)]
  by (intro bit_word_eqI) (auto simp: bit_simps bit_addr_bits)

end
