(* ===== verification/Paging.thy ===== *)
theory Paging
  imports Pmm Idt Page_Tree
begin

text \<open>
  Four-level paging of kernel/mm/paging.c: page-table entries, the walk through the tables,
  mapping and unmapping of pages, and the construction of the kernel's address space.

  A pointer to an entry is the address of its eight bytes; reading or writing through the null
  pointer is \<^const>\<open>Null_deref\<close>. The state extends \<^typ>\<open>pmm_state\<close> with the register CR3, the
  addresses given to \<^verbatim>\<open>invlpg\<close>, and the interrupt tables of the theory Idt. The boot loader's
  tags (stivale2 structures, whose declarations are not part of the kernel) are arguments of
  \<open>paging_init\<close>.
\<close>

section \<open>Definitions\<close>

definition PAGE_FAULT_IRQ_VEC :: u8 where "PAGE_FAULT_IRQ_VEC = 0xE"
definition PAGE_FAULT_P_MASK :: u64 where "PAGE_FAULT_P_MASK = push_bit 0 1"
definition PAGE_FAULT_WR_MASK :: u64 where "PAGE_FAULT_WR_MASK = push_bit 1 1"
definition PAGE_FAULT_US_MASK :: u64 where "PAGE_FAULT_US_MASK = push_bit 2 1"
definition PAGE_FAULT_RSVD_MASK :: u64 where "PAGE_FAULT_RSVD_MASK = push_bit 3 1"
definition PAGE_FAULT_IF_MASK :: u64 where "PAGE_FAULT_IF_MASK = push_bit 4 1"
definition PAGE_FAULT_PK_MASK :: u64 where "PAGE_FAULT_PK_MASK = push_bit 5 1"
definition PAGE_FAULT_SGX_MASK :: u64 where "PAGE_FAULT_SGX_MASK = push_bit 15 1"

definition PAGE_OFFSET_SIZE :: nat where "PAGE_OFFSET_SIZE = 12"
definition PAGE_IDX_SIZE :: nat where "PAGE_IDX_SIZE = 9"
definition PAGE_IDX_MASK :: u64 where "PAGE_IDX_MASK = 0x1ff"

definition PAGE_PRESENT :: u64 where "PAGE_PRESENT = 0x0000000000000001"
definition PAGE_WRITABLE :: u64 where "PAGE_WRITABLE = 0x0000000000000002"
definition PAGE_ADDR :: u64 where "PAGE_ADDR = 0x000ffffffffff000"

definition PML4 :: nat where "PML4 = 3"
definition PML1 :: nat where "PML1 = 0"

type_synonym pml_entry_t = u64

record paging_state = pmm_state +
  cr3 :: u64
  invalidated :: "addr list"
  intr :: intr_state

subsection \<open>Entries\<close>

definition deref :: "addr \<Rightarrow> 'a kstate_scheme \<Rightarrow> pml_entry_t kres" where
  "deref p st = (if p = 0 then Inl Null_deref else Inr (read64 (kmem st) p))"

definition assign :: "addr \<Rightarrow> pml_entry_t \<Rightarrow> 'a kstate_scheme \<Rightarrow> 'a kstate_scheme kres" where
  "assign p e st = (if p = 0 then Inl Null_deref else Inr (st\<lparr>kmem := write64 (kmem st) p e\<rparr>))"

definition paging_set_flags :: "addr \<Rightarrow> u64 \<Rightarrow> 'a kstate_scheme \<Rightarrow> 'a kstate_scheme kres" where
  "paging_set_flags pentry flags st =
     (if flags AND PAGE_ADDR \<noteq> 0 then
        Inr (log_msg WARNING ''[paging_set_flags] illegal set flag attempt on page entry physical address.'' st)
      else kbind (deref pentry st) (\<lambda>e. assign pentry (e OR flags) st))"

definition paging_clear_flags :: "addr \<Rightarrow> u64 \<Rightarrow> 'a kstate_scheme \<Rightarrow> 'a kstate_scheme kres" where
  "paging_clear_flags pentry flags st =
     (if flags AND PAGE_ADDR \<noteq> 0 then
        Inr (log_msg WARNING ''[paging_clear_flags] illegal clear flag attempt on page entry physical address.'' st)
      else kbind (deref pentry st) (\<lambda>e. assign pentry (e AND NOT flags) st))"

definition paging_check_flags :: "addr \<Rightarrow> u64 \<Rightarrow> 'a kstate_scheme \<Rightarrow> (bool \<times> 'a kstate_scheme) kres" where
  "paging_check_flags pentry flags st =
     (if flags AND PAGE_ADDR \<noteq> 0 then
        Inr (False, log_msg WARNING ''[paging_check_flags] illegal clear flag attempt on page entry physical address.'' st)
      else kbind (deref pentry st) (\<lambda>e. Inr (e AND flags = flags, st)))"

definition paging_set_paddr :: "addr \<Rightarrow> addr \<Rightarrow> 'a kstate_scheme \<Rightarrow> 'a kstate_scheme kres" where
  "paging_set_paddr pentry paddr st =
     (let (paddr, st) = (if paddr mod PAGE_SIZE \<noteq> 0
                         then (ALIGN_DOWN paddr PAGE_SIZE,
                               log_msg WARNING ''[paging_set_addr] paddr is not 4 KiB aligned, paddr: %lx'' st)
                         else (paddr, st))
      in kbind (deref pentry st) (\<lambda>e.
         kbind (assign pentry (e AND NOT PAGE_ADDR) st) (\<lambda>st.
         kbind (deref pentry st) (\<lambda>e.
         assign pentry (e OR (paddr AND PAGE_ADDR)) st))))"

definition paging_get_paddr :: "addr \<Rightarrow> 'a kstate_scheme \<Rightarrow> addr kres" where
  "paging_get_paddr pentry st = kbind (deref pentry st) (\<lambda>e. Inr (e AND PAGE_ADDR))"

subsection \<open>Tables\<close>

text \<open>\<^verbatim>\<open>sizeof(ptable)\<close> is the size of a pointer: eight bytes, the first entry of the table.\<close>

definition paging_create :: "'a pmm_state_scheme \<Rightarrow> (addr \<times> 'a pmm_state_scheme) kres" where
  "paging_create st =
     kbind (pmm_alloc st PMM_ZONE_NORMAL 1) (\<lambda>(ptable, st).
       Inr (ptable, st\<lparr>kmem := memset (kmem st) ptable 0 8\<rparr>))"

definition paging_destroy :: "addr \<Rightarrow> 'a pmm_state_scheme \<Rightarrow> 'a pmm_state_scheme kres" where
  "paging_destroy ptable st =
     (let (paddr, st) = (if ptable mod PAGE_SIZE \<noteq> 0
                         then (ALIGN_DOWN ptable PAGE_SIZE,
                               log_msg WARNING ''[paging_destroy] ptable is not 4KiB aligned.'' st)
                         else (ptable, st))
      in pmm_free st paddr 1)"

definition paging_vaddr_idx :: "addr \<Rightarrow> nat \<Rightarrow> u64" where
  "paging_vaddr_idx vaddr level = drop_bit (PAGE_IDX_SIZE * level + PAGE_OFFSET_SIZE) vaddr AND PAGE_IDX_MASK"

text \<open>The loop of \<^verbatim>\<open>paging_walk\<close> from level \<open>i\<close> down. It returns at \<open>i = level\<close>, so the counter
  (a \<^verbatim>\<open>uint8_t\<close>) never goes below 0. The result 0 is the null pointer.\<close>

function paging_walk_loop ::
  "addr \<Rightarrow> addr \<Rightarrow> nat \<Rightarrow> bool \<Rightarrow> nat \<Rightarrow> 'a pmm_state_scheme \<Rightarrow> (addr \<times> 'a pmm_state_scheme) kres" where
  "paging_walk_loop curr_table vaddr level create i st =
     (if i < level then
        Inr (0, log_msg ERROR ''[paging_walk] parsed entire page hiearchy and ended outside of loop.'' st)
      else
        let pentry = curr_table + 8 * paging_vaddr_idx vaddr i
        in if i = level then Inr (pentry, st)
           else
             kbind (paging_check_flags pentry PAGE_PRESENT st) (\<lambda>(present, st).
             if present then
               kbind (paging_get_paddr pentry st) (\<lambda>t. paging_walk_loop t vaddr level create (i - 1) st)
             else if create then
               kbind (paging_create st) (\<lambda>(child_table, st).
               kbind (paging_set_paddr pentry child_table st) (\<lambda>st.
               kbind (paging_set_flags pentry PAGE_PRESENT st) (\<lambda>st.
               paging_walk_loop child_table vaddr level create (i - 1) st)))
             else
               Inr (0, log_msg ERROR ''[paging_walk] A non-present entry was found at level %u for vaddr 0x%lx'' st)))"
  by pat_completeness auto
termination
  by (relation "measure (\<lambda>(t, v, l, c, i, st). i)") auto

declare paging_walk_loop.simps [simp del]

definition paging_walk ::
  "addr \<Rightarrow> addr \<Rightarrow> nat \<Rightarrow> bool \<Rightarrow> 'a pmm_state_scheme \<Rightarrow> (addr \<times> 'a pmm_state_scheme) kres" where
  "paging_walk pml4_table vaddr level create st =
     (if pml4_table = 0 then Inr (0, log_msg ERROR ''[paging_walk] pml4 table is null'' st)
      else
        let (vaddr, st) = (if vaddr mod PAGE_SIZE \<noteq> 0
                           then (ALIGN_DOWN vaddr PAGE_SIZE,
                                 log_msg WARNING ''[paging_walk] vaddr is not 4 KiB aligned, vaddr: %lx'' st)
                           else (vaddr, st))
        in paging_walk_loop pml4_table vaddr level create PML4 st)"

subsection \<open>Mapping and unmapping\<close>

text \<open>\<^verbatim>\<open>__paging_map\<close>, \<^verbatim>\<open>__paging_maps\<close>, \<^verbatim>\<open>__paging_unmap\<close> and \<^verbatim>\<open>__paging_unmaps\<close> work on a given
  table, the functions without underscores on the one in CR3.\<close>

text \<open>What \<^verbatim>\<open>__paging_map\<close> does with the entry it found.\<close>

definition paging_map_entry :: "addr \<Rightarrow> u64 \<Rightarrow> addr \<Rightarrow> 'a kstate_scheme \<Rightarrow> 'a kstate_scheme kres" where
  "paging_map_entry paddr flags pentry st =
     kbind (paging_check_flags pentry PAGE_PRESENT st) (\<lambda>(present, st).
     if present then
       kbind (paging_get_paddr pentry st) (\<lambda>old_paddr.
       Inr (log_msg ERROR ''[__paging_map] request to map vaddr 0x%lx to paddr 0x%lx but vaddr was already mapped to %0xlx.'' st))
     else
       kbind (paging_set_flags pentry flags st) (\<lambda>st.
       paging_set_paddr pentry paddr st))"

definition paging_map_in ::
  "addr \<Rightarrow> addr \<Rightarrow> addr \<Rightarrow> u64 \<Rightarrow> 'a pmm_state_scheme \<Rightarrow> 'a pmm_state_scheme kres" where
  "paging_map_in pml4_table vaddr paddr flags st =
     (if pml4_table = 0 then Inr (log_msg ERROR ''[__paging_map] pml4 table is null'' st)
      else
        let (vaddr, st) = (if vaddr mod PAGE_SIZE \<noteq> 0
                           then (ALIGN_DOWN vaddr PAGE_SIZE,
                                 log_msg WARNING ''[__paging_map] vaddr is not 4 KiB aligned, vaddr: %lx'' st)
                           else (vaddr, st));
            (paddr, st) = (if paddr mod PAGE_SIZE \<noteq> 0
                           then (ALIGN_DOWN paddr PAGE_SIZE,
                                 log_msg WARNING ''[__paging_map] paddr is not 4 KiB aligned, paddr: %lx'' st)
                           else (paddr, st))
        in kbind (paging_walk pml4_table vaddr PML1 True st) (\<lambda>(pentry, st).
           paging_map_entry paddr flags pentry st))"

definition paging_maps_in ::
  "addr \<Rightarrow> addr \<Rightarrow> addr \<Rightarrow> u64 \<Rightarrow> u64 \<Rightarrow> 'a pmm_state_scheme \<Rightarrow> 'a pmm_state_scheme kres" where
  "paging_maps_in pml4_table vaddr paddr num flags st =
     kbind (for_u64E num (\<lambda>i (vaddr, paddr, st).
              kbind (paging_map_in pml4_table vaddr paddr flags st) (\<lambda>st.
              Inr (vaddr + PAGE_SIZE, paddr + PAGE_SIZE, st))) (vaddr, paddr, st))
       (\<lambda>(_, _, st). Inr st)"

definition paging_unmap_in :: "addr \<Rightarrow> addr \<Rightarrow> 'a pmm_state_scheme \<Rightarrow> 'a pmm_state_scheme kres" where
  "paging_unmap_in pml4_table vaddr st =
     (if pml4_table = 0 then Inr (log_msg ERROR ''[__paging_unmap] pml4 table is null'' st)
      else
        let (vaddr, st) = (if vaddr mod PAGE_SIZE \<noteq> 0
                           then (ALIGN_DOWN vaddr PAGE_SIZE,
                                 log_msg WARNING ''[__paging_unmap] vaddr is not 4 KiB aligned, vaddr: %lx'' st)
                           else (vaddr, st))
        in kbind (paging_walk pml4_table vaddr PML1 False st) (\<lambda>(pentry, st).
           assign pentry 0 st))"

definition paging_unmaps_in :: "addr \<Rightarrow> addr \<Rightarrow> u64 \<Rightarrow> 'a pmm_state_scheme \<Rightarrow> 'a pmm_state_scheme kres" where
  "paging_unmaps_in pml4_table vaddr num st =
     kbind (for_u64E num (\<lambda>i (vaddr, st).
              kbind (paging_unmap_in pml4_table vaddr st) (\<lambda>st.
              Inr (vaddr + PAGE_SIZE, st))) (vaddr, st))
       (\<lambda>(_, st). Inr st)"

definition paging_cr3 :: "'a paging_state_scheme \<Rightarrow> addr" where
  "paging_cr3 st = ALIGN_DOWN (cr3 st) PAGE_SIZE"

definition paging_map :: "addr \<Rightarrow> addr \<Rightarrow> u64 \<Rightarrow> 'a paging_state_scheme \<Rightarrow> 'a paging_state_scheme kres" where
  "paging_map vaddr paddr flags st = paging_map_in (paging_cr3 st) vaddr paddr flags st"

definition paging_maps ::
  "addr \<Rightarrow> addr \<Rightarrow> u64 \<Rightarrow> u64 \<Rightarrow> 'a paging_state_scheme \<Rightarrow> 'a paging_state_scheme kres" where
  "paging_maps vaddr paddr num flags st =
     kbind (for_u64E num (\<lambda>i (vaddr, paddr, st).
              kbind (paging_map vaddr paddr flags st) (\<lambda>st.
              Inr (vaddr + PAGE_SIZE, paddr + PAGE_SIZE, st))) (vaddr, paddr, st))
       (\<lambda>(_, _, st). Inr st)"

definition invlpg :: "addr \<Rightarrow> 'a paging_state_scheme \<Rightarrow> 'a paging_state_scheme" where
  "invlpg vaddr st = st\<lparr>invalidated := invalidated st @ [vaddr]\<rparr>"

definition paging_unmap :: "addr \<Rightarrow> 'a paging_state_scheme \<Rightarrow> 'a paging_state_scheme kres" where
  "paging_unmap vaddr st =
     kbind (paging_unmap_in (paging_cr3 st) vaddr st) (\<lambda>st. Inr (invlpg vaddr st))"

definition paging_unmaps :: "addr \<Rightarrow> u64 \<Rightarrow> 'a paging_state_scheme \<Rightarrow> 'a paging_state_scheme kres" where
  "paging_unmaps vaddr num st =
     kbind (for_u64E num (\<lambda>i (vaddr, st).
              kbind (paging_unmap vaddr st) (\<lambda>st. Inr (vaddr + PAGE_SIZE, st))) (vaddr, st))
       (\<lambda>(_, st). Inr st)"

subsection \<open>The kernel's address space\<close>

text \<open>\<^verbatim>\<open>print_memmap\<close> of mm/memmap.h: what it prints for one entry, by the entry's type.\<close>

definition memmap_message :: "u32 \<Rightarrow> log_level_t \<times> string" where
  "memmap_message type =
     (if type = MEM_USABLE then (NONE, ''usable: 0x%lx - 0x%lx'')
      else if type = 2 then (NONE, ''reserved: 0x%lx - 0x%lx'')
      else if type = 3 then (NONE, ''acpi reclaimbale: 0x%lx - 0x%lx'')
      else if type = 4 then (NONE, ''acpi nvs: 0x%lx - 0x%lx'')
      else if type = 5 then (NONE, ''bad mem: 0x%lx - 0x%lx'')
      else if type = 0x1000 then (NONE, ''bootloader reclaimable: 0x%lx - 0x%lx'')
      else if type = 0x1001 then (NONE, ''kernel modules: 0x%lx - 0x%lx'')
      else if type = 0x1002 then (NONE, ''framebuffer: 0x%lx - 0x%lx'')
      else (ERROR, ''memmap has unregistered section''))"

definition print_memmap :: "mmap_entry list \<Rightarrow> 'a kstate_scheme \<Rightarrow> 'a kstate_scheme" where
  "print_memmap memmap st =
     fold (\<lambda>e st. let (level, msg) = memmap_message (kind e) in log_msg level msg (log_msg NONE ''%d: '' st))
       memmap (log_msg INFO ''Printing memory map ...'' st)"

text \<open>A protected memory range of the kernel image, as the boot loader reports it.\<close>

record pmr =
  pmr_base :: u64
  pmr_length :: u64
  pmr_permissions :: u64

text \<open>One round of the loop that maps the ranges of the kernel image. \<open>PMR_WRITABLE\<close> stands for
  \<^verbatim>\<open>STIVALE2_PMR_WRITABLE\<close>.\<close>

definition paging_map_pmr ::
  "u64 \<Rightarrow> addr \<Rightarrow> u64 \<Rightarrow> u64 \<Rightarrow> pmr \<Rightarrow> 'a pmm_state_scheme \<Rightarrow> 'a pmm_state_scheme kres" where
  "paging_map_pmr PMR_WRITABLE pml4_table pbase vbase entry st =
     (let st = (if pmr_length entry mod PAGE_SIZE \<noteq> 0
                then log_msg WARNING ''[paging_init] pmr with base: 0x%lx has length non multiple of page size: 0x%lx.'' st
                else st);
          ventry = pmr_base entry;
          pentry = pbase + (ventry - vbase);
          num = pmr_length entry div PAGE_SIZE;
          flags = (if pmr_permissions entry AND PMR_WRITABLE \<noteq> 0 then PAGE_PRESENT OR PAGE_WRITABLE
                   else PAGE_PRESENT)
      in paging_maps_in pml4_table ventry pentry num flags st)"

primrec paging_map_pmrs ::
  "u64 \<Rightarrow> addr \<Rightarrow> u64 \<Rightarrow> u64 \<Rightarrow> pmr list \<Rightarrow> 'a pmm_state_scheme \<Rightarrow> 'a pmm_state_scheme kres" where
  "paging_map_pmrs W t pbase vbase [] st = Inr st"
| "paging_map_pmrs W t pbase vbase (e # es) st =
     kbind (paging_map_pmr W t pbase vbase e st) (paging_map_pmrs W t pbase vbase es)"

text \<open>The direct maps: physical memory at itself and at \<^const>\<open>VA_HHDM\<close>, without the first page.\<close>

definition paging_direct_maps :: "addr \<Rightarrow> mmap_entry list \<Rightarrow> 'a pmm_state_scheme \<Rightarrow> 'a pmm_state_scheme kres" where
  "paging_direct_maps pml4_table memmap st =
     kbind (get_mem_size memmap) (\<lambda>mem_end.
       let mem_start = PAGE_SIZE;
           mem_length = mem_end - mem_start;
           st = (if mem_length mod PAGE_SIZE \<noteq> 0
                 then log_msg WARNING ''[paging_init] mem_length is not a multiple of page size: 0x%lx'' st
                 else st);
           num_pages = mem_length div PAGE_SIZE
       in kbind (paging_maps_in pml4_table mem_start mem_start num_pages (PAGE_PRESENT OR PAGE_WRITABLE) st)
            (paging_maps_in pml4_table (P2V mem_start) mem_start num_pages (PAGE_PRESENT OR PAGE_WRITABLE)))"

text \<open>What \<open>paging_init\<close> prints about the tags.\<close>

definition paging_log_tags :: "pmr list \<Rightarrow> 'a kstate_scheme \<Rightarrow> 'a kstate_scheme" where
  "paging_log_tags pmrs st =
     fold (\<lambda>_. log_msg NONE ''[paging_init] %lu : base = 0x%lx, length = 0x%lx, permissions = 0x%lx'') pmrs
       (log_msg NONE ''[paging_init] pmr entries: %lu''
       (log_msg NONE ''[paging_init] kernel physical base addr: 0x%lx, kernel virtual base address: 0x%lx''
       (log_msg NONE ''[paging_init] HHDM starting address: 0x%lx'' st)))"

definition paging_init ::
  "u64 \<Rightarrow> addr \<Rightarrow> (u64 \<times> u64) option \<Rightarrow> pmr list option \<Rightarrow> u64 option \<Rightarrow> mmap_entry list option \<Rightarrow>
   'a paging_state_scheme \<Rightarrow> 'a paging_state_scheme kres" where
  "paging_init PMR_WRITABLE wrapper_page_fault_intr_handler kernel_base pmrs hhdm_addr memmap st =
     (case kernel_base of
        None \<Rightarrow> Inl (Panic ''[paging_init] stivale2 kernel base tag was not found'')
      | Some (pbase, vbase) \<Rightarrow>
      case pmrs of
        None \<Rightarrow> Inl (Panic ''[paging_init] stivale2 pmrs tag was not found'')
      | Some pmrs \<Rightarrow>
      case hhdm_addr of
        None \<Rightarrow> Inl (Panic ''[paging_init] stivale2 hhdm addr tag was not found'')
      | Some _ \<Rightarrow>
      let st = paging_log_tags pmrs st in
      case memmap of
        None \<Rightarrow> Inl (Panic ''[paging_init] stivale2 memmap tag not found'')
      | Some memmap \<Rightarrow>
        let st = print_memmap memmap st in
        kbind (register_intr_handler wrapper_page_fault_intr_handler PAGE_FAULT_IRQ_VEC (intr st)) (\<lambda>intr'.
        kbind (paging_create (st\<lparr>intr := intr'\<rparr>)) (\<lambda>(pml4_table, st).
        let st = log_msg NONE ''[paging_init] pml4_table: 0x%lx'' st in
        kbind (paging_map_pmrs PMR_WRITABLE pml4_table pbase vbase pmrs st) (\<lambda>st.
        kbind (paging_direct_maps pml4_table memmap st) (\<lambda>st.
        Inr (st\<lparr>cr3 := pml4_table\<rparr>))))))"

text \<open>The handler reports the bits of the error code and then panics; the result is the state with the
  messages and the panic.\<close>

definition page_fault_report :: "u64 \<Rightarrow> string list" where
  "page_fault_report error_code =
     [if error_code AND PAGE_FAULT_P_MASK \<noteq> 0
      then ''[page_fault_intr_handler] fault caused by page-level protection violation.''
      else ''[page_fault_intr_handler] fault caused by non-present page.'',
      if error_code AND PAGE_FAULT_WR_MASK \<noteq> 0
      then ''[page_fault_intr_handler] access was a write.''
      else ''[page_fault_intr_handler] access was read.'',
      if error_code AND PAGE_FAULT_US_MASK \<noteq> 0
      then ''[page_fault_intr_handler] user-mode access caused fault.''
      else ''[page_fault_intr_handler] supervisor-mode access caused fault'',
      if error_code AND PAGE_FAULT_RSVD_MASK \<noteq> 0
      then ''[page_fault_intr_handler] fault was caused by a reserved bit set to 1 in some paging-structure entry.''
      else ''[page_fault_intr_handler] fault was not caused by reserved bit violation'',
      if error_code AND PAGE_FAULT_IF_MASK \<noteq> 0
      then ''[page_fault_intr_handler] fault was caused by instruction fetch.''
      else ''[page_fault_intr_handler] fault was not caused by instruction fetch.'',
      if error_code AND PAGE_FAULT_PK_MASK \<noteq> 0
      then ''[page_fault_intr_handler] fault was caused by protection key violation.''
      else ''[page_fault_intr_handler] fault was not caused by protection key violation.'',
      if error_code AND PAGE_FAULT_SGX_MASK \<noteq> 0
      then ''[page_fault_intr_handler] fault resulted from violation of SGX-specific access-control requirements.''
      else ''[page_fault_intr_handler] fault was not SGX-related.'']"

definition page_fault_intr_handler :: "u64 \<Rightarrow> 'a kstate_scheme \<Rightarrow> 'a kstate_scheme \<times> kerr" where
  "page_fault_intr_handler error_code st =
     (fold (log_msg NONE)
        ([''[page_fault_intr_handler] linear address that caused fault: 0x%lx'',
          ''[page_fault_intr_handler] error code: 0x%lx''] @ page_fault_report error_code) st,
      Panic ''[page_fault_intr_handler] A page fault occurred! Have fun debugging buddy.'')"

section \<open>Well-formed page tables\<close>

text \<open>The tables in memory, as the processor reads them.\<close>

definition mem_ents :: "mem \<Rightarrow> ents" where
  "mem_ents m t i = read64 m (t + 8 * of_nat i)"

text \<open>No bitmap of the physical memory manager reaches into the frame.\<close>

definition clear_frame :: "'a pmm_state_scheme \<Rightarrow> addr \<Rightarrow> bool" where
  "clear_frame st t \<longleftrightarrow>
     (\<forall>z < PMM_NUM_ZONES. \<forall>x. in_region t 4096 x \<longrightarrow> \<not> bitmap_region (bitmap (mem_zone st ! z)) x)"

definition free_frame :: "'a pmm_state_scheme \<Rightarrow> addr \<Rightarrow> bool" where
  "free_frame st f \<longleftrightarrow>
     (\<exists>k < num_pages st PMM_ZONE_NORMAL.
        unat f = zone_base st PMM_ZONE_NORMAL + 4096 * k \<and> \<not> page_used st PMM_ZONE_NORMAL k)"

text \<open>The number of free pages that the next searches for a single frame can still reach.\<close>

definition avail :: "'a pmm_state_scheme \<Rightarrow> nat" where
  "avail st = card {k \<in> free_pages st PMM_ZONE_NORMAL.
     unat (first_free_idx (mem_zone st ! PMM_ZONE_NORMAL)) \<le> k}"

text \<open>
  The frames from which new tables will be made can be tables: they hold zeros, their addresses fit
  an entry, and they are neither null nor in the way of a bitmap. Zeroed frames are an assumption
  on the machine, which \<open>paging_create\<close> does not establish.
\<close>

definition free_frames_ready :: "'a pmm_state_scheme \<Rightarrow> bool" where
  "free_frames_ready st \<longleftrightarrow>
     (\<forall>f. free_frame st f \<longrightarrow>
        f \<noteq> 0 \<and> unat f < 2 ^ 52 \<and> clear_frame st f \<and> (\<forall>i < 512. mem_ents (kmem st) f i = 0))"

text \<open>The tables below \<open>r\<close> form a tree of used frames.\<close>

definition pt_wf :: "'a pmm_state_scheme \<Rightarrow> addr \<Rightarrow> bool" where
  "pt_wf st r \<longleftrightarrow>
     pmm_wf st \<and> tree (mem_ents (kmem st)) r \<and>
     (\<forall>t\<in>tables (mem_ents (kmem st)) r. t \<noteq> 0 \<and> frame_used st t \<and> clear_frame st t) \<and>
     free_frames_ready st"

subsection \<open>Frames\<close>

lemma NORMAL_zone [simp]: "PMM_ZONE_NORMAL < PMM_NUM_ZONES"
  by (simp add: PMM_ZONE_NORMAL_def PMM_NUM_ZONES_def)

text \<open>The views of the physical memory manager do not see the log, and see the memory through the
  bitmaps only.\<close>

lemma pmm_views_log [simp]:
  "mem_zone (log_msg l s st) = mem_zone st" "mem_size (log_msg l s st) = mem_size st"
  "pmm_state.more (log_msg l s st) = pmm_state.more st"
  "num_pages (log_msg l s st) z = num_pages st z" "zone_base (log_msg l s st) z = zone_base st z"
  "page_used (log_msg l s st) z k = page_used st z k" "pmm_wf (log_msg l s st) = pmm_wf st"
  "frame_used (log_msg l s st) f = frame_used st f" "free_frame (log_msg l s st) f = free_frame st f"
  "clear_frame (log_msg l s st) f = clear_frame st f" "pt_wf (log_msg l s st) r = pt_wf st r"
  "avail (log_msg l s st) = avail st"
  by (simp_all add: avail_def free_pages_def log_msg_def num_pages_def zone_base_def page_used_def pmm_wf_def frame_used_def
      free_frame_def clear_frame_def free_frames_ready_def pt_wf_def)

lemma pmm_views_kmem [simp]:
  "num_pages (st\<lparr>kmem := m\<rparr>) z = num_pages st z" "zone_base (st\<lparr>kmem := m\<rparr>) z = zone_base st z"
  "pmm_wf (st\<lparr>kmem := m\<rparr>) = pmm_wf st" "clear_frame (st\<lparr>kmem := m\<rparr>) f = clear_frame st f"
  by (simp_all add: num_pages_def zone_base_def pmm_wf_def clear_frame_def)

lemma page_used_kmem:
  assumes "\<And>x. bitmap_region (bitmap (mem_zone st ! z)) x \<Longrightarrow> m x = kmem st x" "k < num_pages st z"
  shows "page_used (st\<lparr>kmem := m\<rparr>) z k = page_used st z k"
proof -
  have "unat (of_nat k :: u64) = k"
    using assms(2) unat_u64_bound[of "size_bits (bitmap (mem_zone st ! z))"] by (simp add: num_pages_def)
  then show ?thesis
    using assms bitmap_get_cong[of "of_nat k" "bitmap (mem_zone st ! z)" m "kmem st"]
      bit_at_unat[of "bitmap (mem_zone st ! z)" m "of_nat k"]
      bit_at_unat[of "bitmap (mem_zone st ! z)" "kmem st" "of_nat k"]
    by (simp add: page_used_def num_pages_def)
qed

text \<open>Writing inside a clear frame changes no frame's status.\<close>

lemma frame_status_kmem:
  assumes "clear_frame st t" "\<And>x. \<not> in_region t 4096 x \<Longrightarrow> m x = kmem st x"
  shows "frame_used (st\<lparr>kmem := m\<rparr>) f = frame_used st f" "free_frame (st\<lparr>kmem := m\<rparr>) f = free_frame st f"
    "avail (st\<lparr>kmem := m\<rparr>) = avail st"
proof -
  have "page_used (st\<lparr>kmem := m\<rparr>) z k = page_used st z k" if "z < PMM_NUM_ZONES" "k < num_pages st z" for z k
    using that assms by (intro page_used_kmem) (auto simp: clear_frame_def)
  then show "frame_used (st\<lparr>kmem := m\<rparr>) f = frame_used st f" "free_frame (st\<lparr>kmem := m\<rparr>) f = free_frame st f"
    "avail (st\<lparr>kmem := m\<rparr>) = avail st"
    by (auto simp: frame_used_def free_frame_def avail_def free_pages_def intro!: arg_cong[where f = card])
qed

lemma frame_aligned:
  assumes "pmm_wf st" "frame_used st f \<or> free_frame st f"
  shows "unat f mod 4096 = 0"
  using assms by (auto simp: frame_used_def free_frame_def pmm_wf_def two_zones PMM_ZONE_NORMAL_def
      mod_eq_0_iff_dvd)

lemma free_not_used:
  assumes "pmm_wf st" "free_frame st f"
  shows "\<not> frame_used st f"
proof
  assume "frame_used st f"
  then obtain z i k where "z < PMM_NUM_ZONES" "i < num_pages st z" "page_used st z i"
    "k < num_pages st PMM_ZONE_NORMAL" "\<not> page_used st PMM_ZONE_NORMAL k"
    "zone_base st z + 4096 * i = zone_base st PMM_ZONE_NORMAL + 4096 * k"
    using assms(2) by (auto simp: frame_used_def free_frame_def)
  with frame_unique[OF assms(1)] show False by (metis NORMAL_zone)
qed

lemma frames_disjoint:
  assumes "unat t mod 4096 = 0" "unat u mod 4096 = 0" "t \<noteq> u" "in_region t 4096 x"
  shows "\<not> in_region u 4096 x"
proof (rule apartD)
  have "unat t \<noteq> unat u" using assms by (simp add: word_unat_eq_iff)
  then show "apart u 4096 t 4096"
    using assms(1,2) unat_u64_bound[of t] unat_u64_bound[of u]
    by (auto simp: apart_def unat_sub_if' dvd_def mod_eq_0_iff_dvd)
qed (use assms in simp)

lemma entry_in_frame:
  assumes "i < 512" "in_region (t + 8 * of_nat i) 8 x"
  shows "in_region t 4096 x"
proof -
  have "unat (8 * of_nat i :: u64) = 8 * i" using assms(1) by (simp add: unat_word_ariths)
  moreover have "x - t = (x - (t + 8 * of_nat i)) + 8 * of_nat i" by simp
  ultimately have "unat (x - t) \<le> unat (x - (t + 8 * of_nat i)) + 8 * i"
    by (metis unat_plus_if' le_add1 le_refl diff_le_self)
  then show ?thesis using assms by (simp add: in_region_def)
qed

lemma mem_ents_cong:
  assumes "\<And>x. in_region t 4096 x \<Longrightarrow> m' x = m x" "i < 512"
  shows "mem_ents m' t i = mem_ents m t i"
  unfolding mem_ents_def using assms entry_in_frame by (intro load_cong) auto

lemma entry_aligned:
  assumes "unat (t :: u64) mod 4096 = 0" "i < 512"
  shows "unat (t + 8 * of_nat i) = unat t + 8 * i"
proof -
  have "unat (8 * of_nat i :: u64) = 8 * i" using assms(2) by (simp add: unat_word_ariths)
  moreover have "unat t + 8 * i < 2 ^ 64"
    using assms unat_u64_bound[of t] by (auto simp: mod_eq_0_iff_dvd dvd_def)
  ultimately show ?thesis by (subst unat_add_lem[THEN iffD1]) auto
qed

lemma table_index_unique:
  fixes t u i k :: nat
  assumes "t mod 4096 = 0" "u mod 4096 = 0" "i < 512" "k < 512"
  shows "(t + 8 * i = u + 8 * k) = (u = t \<and> k = i)"
proof -
  obtain a b where t: "t = 4096 * a" "u = 4096 * b" using assms(1,2) by (auto simp: mod_eq_0_iff_dvd dvd_def)
  have "t + 8 * i \<noteq> u + 8 * k" if "a \<noteq> b"
    using that assms(3,4) unfolding t by (cases a b rule: linorder_cases) linarith+
  then show ?thesis using t by (cases "a = b") auto
qed

lemma mem_ents_write:
  assumes "unat t mod 4096 = 0" "unat u mod 4096 = 0" "i < 512" "k < 512"
  shows "mem_ents (write64 m (t + 8 * of_nat i) e) u k = (if u = t \<and> k = i then e else mem_ents m u k)"
proof -
  have a: "unat (t + 8 * of_nat i) = unat t + 8 * i" "unat (u + 8 * of_nat k) = unat u + 8 * k"
    using assms by (simp_all add: entry_aligned)
  have "(t + 8 * of_nat i = u + 8 * of_nat k) = (u = t \<and> k = i)"
    unfolding word_unat_eq_iff a using assms by (intro table_index_unique)
  moreover have "(unat t + 8 * i) mod 8 = 0" "(unat u + 8 * k) mod 8 = 0"
    using assms(1,2) by (auto simp: mod_eq_0_iff_dvd dvd_def)
  ultimately show ?thesis using a by (simp add: mem_ents_def read64_write64_aligned)
qed

lemma write_in_frame: "i < 512 \<Longrightarrow> \<not> in_region t 4096 x \<Longrightarrow> write64 m (t + 8 * of_nat i) e x = m x"
  using entry_in_frame by (blast intro: store_outside)

subsection \<open>Creating a table\<close>

lemma one_page_run:
  "k < num_pages st z \<Longrightarrow> \<not> page_used st z k \<Longrightarrow>
   is_run (bitmap (mem_zone st ! z)) (kmem st) False k (unat (1 :: u64))"
  by (simp add: is_run_def page_used_def num_pages_def)

lemma pmm_alloc_none:
  assumes "pmm_wf st" "pmm_alloc st PMM_ZONE_NORMAL 1 = Inl e"
  shows "(\<exists>msg. e = Panic msg) \<and> avail st = 0"
proof -
  let ?zn = "mem_zone st ! PMM_ZONE_NORMAL"
  let ?idx = "bitmap_find_range (bitmap ?zn) (kmem st) (first_free_idx ?zn) PMM_FREE 1"
  have len: "\<not> length (mem_zone st) \<le> PMM_ZONE_NORMAL" using assms(1) by (simp add: not_le)
  then have e: "(\<exists>msg. e = Panic msg) \<and> ?idx = - 1"
    using assms(2) by (auto simp: pmm_alloc_def Let_def split: if_splits)
  have "first_run (bitmap ?zn) (kmem st) False (unat (first_free_idx ?zn)) (unat (1 :: u64)) ?idx"
    using bitmap_find_range_first_run[of 1 "bitmap ?zn" "kmem st" False] by (simp add: PMM_FREE_def)
  then have none: "{k \<in> free_pages st PMM_ZONE_NORMAL. unat (first_free_idx ?zn) \<le> k} = {}"
    using e one_page_run[of _ st PMM_ZONE_NORMAL] by (auto simp: first_run_def free_pages_def)
  then have "avail st = 0" unfolding avail_def none by simp
  with e show ?thesis by blast
qed

lemma pmm_alloc_one:
  assumes "pmm_wf st" "pmm_alloc st PMM_ZONE_NORMAL 1 = Inr (c, st')"
  shows "free_frame st c" "free_frame st' f \<longleftrightarrow> free_frame st f \<and> f \<noteq> c"
    "clear_frame st' f = clear_frame st f"
    "clear_frame st u \<Longrightarrow> in_region u 4096 x \<Longrightarrow> kmem st' x = kmem st x"
    "avail st = Suc (avail st')"
proof -
  note prem = assms(1) NORMAL_zone one_neq_zero assms(2)
  note fr = pmm_alloc_frame[OF prem]
  obtain i where i: "unat c = zone_base st PMM_ZONE_NORMAL + 4096 * i"
    "i + unat (1 :: u64) \<le> num_pages st PMM_ZONE_NORMAL"
    "is_run (bitmap (mem_zone st ! PMM_ZONE_NORMAL)) (kmem st) False i (unat (1 :: u64))"
    "unat (first_free_idx (mem_zone st ! PMM_ZONE_NORMAL)) \<le> i"
    "\<forall>s. unat (first_free_idx (mem_zone st ! PMM_ZONE_NORMAL)) \<le> s \<and> s < i \<longrightarrow>
        \<not> is_run (bitmap (mem_zone st ! PMM_ZONE_NORMAL)) (kmem st) False s (unat (1 :: u64))"
    "unat (first_free_idx (mem_zone st' ! PMM_ZONE_NORMAL)) = i + unat (1 :: u64)"
    "\<forall>y k. y < PMM_NUM_ZONES \<and> k < num_pages st y \<longrightarrow>
        (page_used st' y k \<longleftrightarrow> page_used st y k \<or> y = PMM_ZONE_NORMAL \<and> i \<le> k \<and> k < i + unat (1 :: u64))"
    by (rule pmm_alloc_views[OF prem]) (rule that)
  have free: "\<not> page_used st PMM_ZONE_NORMAL i" by (rule run_pages_free[OF i(3)]) simp_all
  with i(1,2) show "free_frame st c" by (auto simp: free_frame_def)
  have used: "page_used st' PMM_ZONE_NORMAL k \<longleftrightarrow> page_used st PMM_ZONE_NORMAL k \<or> k = i"
    if "k < num_pages st PMM_ZONE_NORMAL" for k using i(7) that by auto
  have skip: "i \<le> k" if "k \<in> free_pages st PMM_ZONE_NORMAL"
    "unat (first_free_idx (mem_zone st ! PMM_ZONE_NORMAL)) \<le> k" for k
  proof (rule ccontr)
    assume "\<not> i \<le> k"
    then show False using i(5) that one_page_run[of k st PMM_ZONE_NORMAL] by (auto simp: free_pages_def)
  qed
  have "{k \<in> free_pages st PMM_ZONE_NORMAL. unat (first_free_idx (mem_zone st ! PMM_ZONE_NORMAL)) \<le> k} =
      insert i {k \<in> free_pages st' PMM_ZONE_NORMAL. unat (first_free_idx (mem_zone st' ! PMM_ZONE_NORMAL)) \<le> k}"
    using skip used free i(2,4,6) by (fastforce simp: free_pages_def fr)
  then show "avail st = Suc (avail st')" using i(6) by (simp add: avail_def)
  show "free_frame st' f \<longleftrightarrow> free_frame st f \<and> f \<noteq> c"
    using i(1) used by (auto simp: free_frame_def fr word_unat_eq_iff)
  show "clear_frame st' f = clear_frame st f" by (simp add: clear_frame_def fr)
  show "clear_frame st u \<Longrightarrow> in_region u 4096 x \<Longrightarrow> kmem st' x = kmem st x"
    by (rule pmm_alloc_mem_outside[OF prem]) (auto simp: clear_frame_def)
qed

lemma memset_write64: "memset m a 0 8 = write64 m a 0"
  by (rule ext) (simp add: memset_apply store_def in_region_def)

lemma in_region_mono: "in_region a n x \<Longrightarrow> n \<le> k \<Longrightarrow> in_region a k x"
  by (simp add: in_region_def)

lemma paging_create_facts:
  assumes pwf: "pmm_wf st" and ready: "free_frames_ready st" and create: "paging_create st = Inr (c, st')"
  shows "pmm_wf st'" "free_frame st c" "free_frame st' f \<longleftrightarrow> free_frame st f \<and> f \<noteq> c"
    "frame_used st' f \<longleftrightarrow> frame_used st f \<or> f = c" "clear_frame st' f = clear_frame st f"
    "clear_frame st u \<Longrightarrow> unat u mod 4096 = 0 \<Longrightarrow> i < 512 \<Longrightarrow> mem_ents (kmem st') u i = mem_ents (kmem st) u i"
    "avail st = Suc (avail st')"
proof -
  obtain s where s: "pmm_alloc st PMM_ZONE_NORMAL 1 = Inr (c, s)" "st' = s\<lparr>kmem := write64 (kmem s) c 0\<rparr>"
    using create by (auto simp: paging_create_def kbind_eq_Inr memset_write64)
  note one = pmm_alloc_one[OF pwf s(1)]
  have c: "clear_frame st c" "unat c mod 4096 = 0" "\<forall>i<512. mem_ents (kmem st) c i = 0"
    using one(1) ready frame_aligned[OF pwf] by (auto simp: free_frames_ready_def)
  have st': "frame_used st' f = frame_used s f" "free_frame st' f = free_frame s f" "avail st' = avail s" for f
    using frame_status_kmem[of s c "write64 (kmem s) c 0"] c(1) one(3) write_in_frame[of 0 c _ "kmem s" 0]
    by (simp_all add: s(2))
  have s_wf: "pmm_wf s" using pmm_alloc_frame(1)[OF pwf NORMAL_zone one_neq_zero s(1)] .
  then show "pmm_wf st'" by (simp add: s(2))
  show "free_frame st c" by (rule one(1))
  show "avail st = Suc (avail st')" using one(5) st'(3) by simp
  show "free_frame st' f \<longleftrightarrow> free_frame st f \<and> f \<noteq> c" using one(2) st' by simp
  show "frame_used st' f \<longleftrightarrow> frame_used st f \<or> f = c"
    using pmm_frames.alloc_used[OF _ s(1), of f] pwf st' by simp
  show "clear_frame st' f = clear_frame st f" using one(3) by (simp add: s(2))
  assume u: "clear_frame st u" "unat u mod 4096 = 0" "i < 512"
  have "mem_ents (kmem s) u i = mem_ents (kmem st) u i"
    using one(4)[OF u(1)] u(3) by (rule mem_ents_cong)
  moreover have "mem_ents (kmem st') u i = (if u = c \<and> i = 0 then 0 else mem_ents (kmem s) u i)"
    using mem_ents_write[of c u 0 i "kmem s" 0] c(2) u by (simp add: s(2))
  ultimately show "mem_ents (kmem st') u i = mem_ents (kmem st) u i" using c(3) u(3) by auto
qed

lemma paging_create_panics:
  assumes "pmm_wf st" "paging_create st = Inl e"
  shows "(\<exists>msg. e = Panic msg) \<and> avail st = 0"
  using assms pmm_alloc_none[OF assms(1)]
  by (auto simp: paging_create_def kbind_def split: sum.splits)

subsection \<open>Entries\<close>

lemma PAGE_ADDR_eq: "PAGE_ADDR = addr_bits"
  by (simp add: PAGE_ADDR_def addr_bits_def mask_eq_exp_minus_1 push_bit_eq_mult)

lemma store_store_same: "store n (store n m a v) a w = store n m a w"
  by (rule ext) (simp add: store_def)

lemma present_and: "e AND PAGE_PRESENT = PAGE_PRESENT \<longleftrightarrow> present e"
  by (simp add: PAGE_PRESENT_def present_def and_one_eq bit_0 odd_iff_mod_2_eq_one)

lemma PAGE_PRESENT_no_addr [simp]: "PAGE_PRESENT AND addr_bits = 0"
  by (simp add: PAGE_PRESENT_def PAGE_ADDR_eq[symmetric] PAGE_ADDR_def)

lemma paging_entry_ops [step_simps]:
  assumes "p \<noteq> 0"
  shows "paging_check_flags p PAGE_PRESENT st = Inr (present (read64 (kmem st) p), st)"
    "paging_get_paddr p st = Inr (next_table (read64 (kmem st) p))"
    "flags AND PAGE_ADDR = 0 \<Longrightarrow>
       paging_set_flags p flags st = Inr (st\<lparr>kmem := write64 (kmem st) p (read64 (kmem st) p OR flags)\<rparr>)"
    "paddr mod PAGE_SIZE = 0 \<Longrightarrow>
       paging_set_paddr p paddr st =
         Inr (st\<lparr>kmem := write64 (kmem st) p ((read64 (kmem st) p AND NOT addr_bits) OR (paddr AND addr_bits))\<rparr>)"
  using assms
  by (simp_all add: paging_check_flags_def deref_def present_and paging_get_paddr_def next_table_def
      PAGE_ADDR_eq paging_set_flags_def assign_def paging_set_paddr_def store_store_same)

text \<open>The entry that links a table or maps a page.\<close>

lemma entry_fields:
  assumes "unat c mod 4096 = 0" "unat c < 2 ^ 52" "flags AND addr_bits = 0"
  shows "next_table ((e AND NOT addr_bits) OR (c AND addr_bits) OR flags) = c"
    "next_table (((e OR flags) AND NOT addr_bits) OR (c AND addr_bits)) = c"
    "present ((e AND NOT addr_bits) OR (c AND addr_bits) OR flags) = (present e \<or> present flags)"
    "present (((e OR flags) AND NOT addr_bits) OR (c AND addr_bits)) = (present e \<or> present flags)"
proof -
  have fl: "\<not> (bit flags n \<and> bit addr_bits n)" for n
    using assms(3) by (metis bit_0_eq bit_and_iff bot_apply bot_bool_def)
  have c: "c AND addr_bits = c" using assms(1,2) by (rule and_addr_bits)
  have cb: "bit c n \<Longrightarrow> bit addr_bits n" for n using c by (metis bit_and_iff)
  have c0: "\<not> bit c 0" "\<not> bit addr_bits 0"
    using aligned_low_bits[OF assms(1), of 0] by (auto simp: bit_addr_bits)
  show "next_table ((e AND NOT addr_bits) OR (c AND addr_bits) OR flags) = c"
    "next_table (((e OR flags) AND NOT addr_bits) OR (c AND addr_bits)) = c"
    using fl cb by (auto intro!: bit_word_eqI simp: next_table_def bit_simps)
  show "present ((e AND NOT addr_bits) OR (c AND addr_bits) OR flags) = (present e \<or> present flags)"
    "present (((e OR flags) AND NOT addr_bits) OR (c AND addr_bits)) = (present e \<or> present flags)"
    using c0 by (auto simp: present_def bit_simps)
qed

subsection \<open>Writing into the tree\<close>

abbreviation st_tab :: "'a kstate_scheme \<Rightarrow> addr \<Rightarrow> nat list \<Rightarrow> addr option" where
  "st_tab st \<equiv> tab (mem_ents (kmem st))"

abbreviation st_leaf :: "'a kstate_scheme \<Rightarrow> addr \<Rightarrow> nat list \<Rightarrow> u64" where
  "st_leaf st \<equiv> leaf (mem_ents (kmem st))"

lemma pt_wf_table:
  assumes "pt_wf st r" "t \<in> tables (mem_ents (kmem st)) r"
  shows "t \<noteq> 0" "unat t mod 4096 = 0" "frame_used st t" "clear_frame st t"
  using assms frame_aligned[of st t] by (auto simp: pt_wf_def)

text \<open>A new table is the root of an empty tree.\<close>

lemma pt_wf_create:
  assumes pwf: "pmm_wf st" and ready: "free_frames_ready st" and create: "paging_create st = Inr (c, st')"
  shows "pt_wf st' c" "q \<in> page_paths \<Longrightarrow> st_leaf st' c q = 0"
proof -
  note cf = paging_create_facts[OF pwf ready create]
  have c: "unat c mod 4096 = 0" "c \<noteq> 0" "clear_frame st c" "\<forall>k<512. mem_ents (kmem st) c k = 0"
    using cf(2) ready frame_aligned[OF pwf] by (auto simp: free_frames_ready_def)
  have empty: "mem_ents (kmem st') c k = 0" if "k < 512" for k using cf(6)[OF c(3,1) that] c(4) that by simp
  have tab': "p = [] \<and> t = c" if "p \<in> paths" "st_tab st' c p = Some t" for p t
    using that empty by (cases p) (auto simp: child_def present_def paths_def)
  have "unat f mod 4096 = 0" if "free_frame st f" for f using frame_aligned[OF pwf] that by blast
  then have "free_frames_ready st'" using ready cf(3,5,6) by (simp add: free_frames_ready_def)
  then show "pt_wf st' c" using cf(1,4,5) c(2,3) tab' by (auto simp: pt_wf_def tree_def tables_def dest: tab')
  assume q: "q \<in> page_paths"
  then have b: "butlast q \<in> paths" "length (butlast q) = 3"
    by (auto simp: page_paths_def paths_def dest: in_set_butlastD)
  have "butlast q \<noteq> []" using b(2) by (metis list.size(3) zero_neq_numeral)
  then have "st_tab st' c (butlast q) = None" using tab'[OF b(1)] by (cases "st_tab st' c (butlast q)") auto
  then show "st_leaf st' c q = 0" by (simp add: leaf_def)
qed

lemma entry_not_null:
  assumes "pt_wf st r" "t \<in> tables (mem_ents (kmem st)) r" "i < 512"
  shows "t + 8 * of_nat i \<noteq> 0"
  using entry_aligned[OF pt_wf_table(2)[OF assms(1,2)] assms(3)] pt_wf_table(1)[OF assms(1,2)]
  by (auto simp: word_unat_eq_iff)

text \<open>Writing an entry in a clear, used frame touches no free frame.\<close>

lemma free_frames_write:
  fixes e :: u64
  assumes "pmm_wf st" "frame_used st t" "clear_frame st t" "i < 512" "free_frames_ready st"
  defines "st' \<equiv> st\<lparr>kmem := write64 (kmem st) (t + 8 * of_nat i) e\<rparr>"
  shows "free_frames_ready st'" "frame_used st' f = frame_used st f" "avail st' = avail st"
proof -
  have t: "unat t mod 4096 = 0" using frame_aligned assms(1,2) by blast
  have stat: "frame_used st' f = frame_used st f" "free_frame st' f = free_frame st f" "avail st' = avail st" for f
    unfolding st'_def using assms(3,4) write_in_frame by (intro frame_status_kmem; blast)+
  show "frame_used st' f = frame_used st f" "avail st' = avail st" by (rule stat)+
  have "f \<noteq> 0 \<and> unat f < 2 ^ 52 \<and> clear_frame st' f \<and> (\<forall>k < 512. mem_ents (kmem st') f k = 0)"
    if f: "free_frame st f" for f
  proof -
    have "f \<noteq> t" using free_not_used[OF assms(1) f] assms(2) by auto
    moreover have "unat f mod 4096 = 0" using frame_aligned assms(1) f by blast
    ultimately show ?thesis
      using assms(5) f t assms(4) by (simp add: st'_def mem_ents_write free_frames_ready_def)
  qed
  then show "free_frames_ready st'" by (simp add: free_frames_ready_def stat)
qed

lemma pt_wf_write_leaf:
  fixes e :: u64
  assumes wf: "pt_wf st r" and p0: "st_tab st r p0 = Some t" "p0 \<in> paths" "length p0 = 3" and i: "i < 512"
  defines "st' \<equiv> st\<lparr>kmem := write64 (kmem st) (t + 8 * of_nat i) e\<rparr>"
  shows "pt_wf st' r" "q \<in> page_paths \<Longrightarrow> st_leaf st' r q = (if q = p0 @ [i] then e else st_leaf st r q)"
    "avail st' = avail st"
proof -
  let ?m = "mem_ents (kmem st)" and ?m' = "mem_ents (kmem st')"
  have tr: "tree ?m r" and pwf: "pmm_wf st" using wf by (simp_all add: pt_wf_def)
  have tin: "t \<in> tables ?m r" using p0 by (blast intro: tablesI)
  note t = pt_wf_table[OF wf tin]
  have ents: "?m' u k = (if u = t \<and> k = i then e else ?m u k)" if "u \<in> tables ?m r" "k < 512" for u k
    using that i t pt_wf_table[OF wf that(1)] by (simp add: st'_def mem_ents_write)
  have same: "?m' u k = ?m u k" if "u \<in> tables ?m r" "k < 512" "(u, k) \<noteq> (t, i)" for u k
    using ents[OF that(1,2)] that(3) by auto
  have tab': "st_tab st' r q = st_tab st r q" if "q \<in> paths" for q
    by (rule tab_leaf_update[OF tr p0 _ that]) (rule same)
  have "st_leaf st' r q = (if q = p0 @ [i] then ?m' t i else st_leaf st r q)" if "q \<in> page_paths" for q
    by (rule leaf_update[OF tr p0 _ that]) (rule same)
  then show "q \<in> page_paths \<Longrightarrow> st_leaf st' r q = (if q = p0 @ [i] then e else st_leaf st r q)"
    using ents[OF tin i] by simp
  have "free_frames_ready st" using wf by (simp add: pt_wf_def)
  note free = free_frames_write[OF pwf t(3,4) i this, of e, folded st'_def]
  show "avail st' = avail st" by (rule free(3))
  have "tables ?m' r = tables ?m r" using tab' by (rule tables_cong)
  then have "\<forall>u\<in>tables ?m' r. u \<noteq> 0 \<and> frame_used st' u \<and> clear_frame st' u"
    using pt_wf_table[OF wf] free(2) by (simp add: st'_def)
  moreover have "pmm_wf st'" using pwf by (simp add: st'_def)
  ultimately show "pt_wf st' r"
    using tr tree_cong[of ?m' r ?m, OF tab'] free(1) wf by (auto simp: pt_wf_def)
qed

lemma pt_wf_link:
  fixes e :: u64
  assumes wf: "pt_wf st r" and p0: "st_tab st r p0 = Some t" "p0 @ [i] \<in> paths"
    and old: "\<not> present (mem_ents (kmem st) t i)" and create: "paging_create st = Inr (c, st1)"
    and e: "present e" "next_table e = c"
  defines "st' \<equiv> st1\<lparr>kmem := write64 (kmem st1) (t + 8 * of_nat i) e\<rparr>"
  shows "pt_wf st' r" "st_tab st' r (p0 @ [i]) = Some c"
    "q \<in> page_paths \<Longrightarrow> st_leaf st' r q = st_leaf st r q" "avail st = Suc (avail st')"
proof -
  let ?m = "mem_ents (kmem st)" and ?m' = "mem_ents (kmem st')"
  have tr: "tree ?m r" and pwf: "pmm_wf st" and ready: "free_frames_ready st" using wf by (simp_all add: pt_wf_def)
  note cf = paging_create_facts[OF pwf ready create] and p = paths_snocD[OF p0(2)]
  have tin: "t \<in> tables ?m r" using p0 p by (blast intro: tablesI)
  note t = pt_wf_table[OF wf tin]
  have c: "unat c mod 4096 = 0" "c \<noteq> 0" "clear_frame st c" "\<forall>k<512. ?m c k = 0" "c \<noteq> t"
    using cf(2) wf frame_aligned[OF pwf] free_not_used[OF pwf] t(3)
    by (auto simp: pt_wf_def free_frames_ready_def)
  have ents: "?m' u k = (if u = t \<and> k = i then e else ?m u k)" if "u \<in> tables ?m r \<or> u = c" "k < 512" for u k
  proof -
    have "clear_frame st u" "unat u mod 4096 = 0" using that c pt_wf_table[OF wf] by auto
    then show ?thesis using cf(6) that p t(2) by (simp add: st'_def mem_ents_write)
  qed
  have same: "?m' u k = ?m u k" if "u \<in> tables ?m r" "k < 512" "(u, k) \<noteq> (t, i)" for u k
    using ents[of u k] that by auto
  have e': "?m' t i = e" using ents[of t i] tin p by simp
  have empty: "?m' c k = 0" if "k < 512" for k using ents[of c k] that c(4,5) by simp
  have tab': "st_tab st' r q = (if q = p0 @ [i] then Some c else st_tab st r q)" if "q \<in> paths" for q
    by (rule tab_link[where ent' = ?m', OF tr p0 _ old e[folded e'] _ that]) (rule same empty; assumption)+
  have new: "c \<notin> tables ?m r" using free_not_used[OF pwf cf(2)] pt_wf_table[OF wf] by blast
  note link = tree_link[OF tr new tab' p0(2)]
  show "st_tab st' r (p0 @ [i]) = Some c" using tab'[OF p0(2)] by simp
  show "q \<in> page_paths \<Longrightarrow> st_leaf st' r q = st_leaf st r q"
    by (rule leaf_link[OF tr p0 _ old tab' empty]) (rule same)
  have used1: "frame_used st1 t" "clear_frame st1 t" using cf(4,5) t by simp_all
  have "unat f mod 4096 = 0" if "free_frame st f" for f using frame_aligned[OF pwf] that by blast
  then have free1: "free_frames_ready st1"
    using wf cf(3,5,6) by (simp add: free_frames_ready_def pt_wf_def)
  have p_i: "i < 512" using p by simp
  note fw = free_frames_write[OF cf(1) used1 p_i free1, of e, folded st'_def]
  show "avail st = Suc (avail st')" using cf(7) fw(3) by simp
  have "u \<noteq> 0 \<and> frame_used st' u \<and> clear_frame st' u" if "u \<in> tables ?m' r" for u
  proof (cases "u = c")
    case True
    then show ?thesis using c fw(2) cf(4,5) by (simp add: st'_def)
  next
    case False
    then have "u \<in> tables ?m r" using that link(2) by blast
    from pt_wf_table[OF wf this] show ?thesis using fw(2) cf(4,5) by (simp add: st'_def)
  qed
  moreover have "pmm_wf st'" using cf(1) by (simp add: st'_def)
  ultimately show "pt_wf st' r" using link(1) fw(1) by (auto simp: pt_wf_def)
qed

subsection \<open>What paging leaves alone\<close>

text \<open>Memory above the physical memory the manager knows about, outside the bitmaps, and every
  component of the state beyond the manager's own.\<close>

definition above_phys :: "'a pmm_state_scheme \<Rightarrow> addr \<Rightarrow> bool" where
  "above_phys st x \<longleftrightarrow>
     unat (mem_size st) \<le> unat x \<and> (\<forall>z < PMM_NUM_ZONES. \<not> bitmap_region (bitmap (mem_zone st ! z)) x)"

definition phys_step :: "'a pmm_state_scheme \<Rightarrow> 'a pmm_state_scheme \<Rightarrow> bool" where
  "phys_step st st' \<longleftrightarrow>
     pmm_state.more st' = pmm_state.more st \<and> above_phys st' = above_phys st \<and>
     (\<forall>x. above_phys st x \<longrightarrow> kmem st' x = kmem st x)"

lemma phys_step_refl [simp]: "phys_step st st"
  by (simp add: phys_step_def)

lemma phys_step_trans: "phys_step a b \<Longrightarrow> phys_step b c \<Longrightarrow> phys_step a c"
  by (simp add: phys_step_def)

lemma above_phys_log [simp]: "above_phys (log_msg l s st) = above_phys st"
  by (simp add: above_phys_def fun_eq_iff)

lemma above_phys_kmem [simp]: "above_phys (st\<lparr>kmem := m\<rparr>) = above_phys st"
  by (simp add: above_phys_def fun_eq_iff)

lemma phys_step_log [simp]: "phys_step st (log_msg l s st') = phys_step st st'"
  by (simp add: phys_step_def)

lemma frame_below_mem_size:
  assumes "pmm_wf st" "frame_used st t \<or> free_frame st t" "in_region t 4096 x"
  shows "\<not> above_phys st x"
proof -
  obtain z k where zk: "z < PMM_NUM_ZONES" "k < num_pages st z" "unat t = zone_base st z + 4096 * k"
    using assms(2) NORMAL_zone unfolding frame_used_def free_frame_def by blast
  have "unat t + 4096 \<le> unat (mem_size st)" using zk pmm_wf_bound[OF assms(1) zk(1)] by linarith
  moreover have "unat x \<le> unat t + unat (x - t)"
    by (metis add.commute diff_add_cancel unat_plus_if' le_refl diff_le_self)
  ultimately show ?thesis using assms(3) by (auto simp: above_phys_def in_region_def)
qed

lemma phys_step_write:
  assumes "pmm_wf st" "frame_used st t" "i < 512"
  shows "phys_step st (st\<lparr>kmem := write64 (kmem st) (t + 8 * of_nat i) e\<rparr>)"
proof -
  have "\<not> in_region (t + 8 * of_nat i) 8 x" if "above_phys st x" for x
    using that frame_below_mem_size[OF assms(1) disjI1[OF assms(2)]] entry_in_frame[OF assms(3)] by blast
  then show ?thesis by (simp add: phys_step_def store_outside)
qed

lemma phys_step_create:
  assumes pwf: "pmm_wf st" and create: "paging_create st = Inr (c, st')"
  shows "phys_step st st'"
proof -
  obtain s where s: "pmm_alloc st PMM_ZONE_NORMAL 1 = Inr (c, s)" "st' = s\<lparr>kmem := write64 (kmem s) (c + 8 * of_nat 0) 0\<rparr>"
    using create by (auto simp: paging_create_def kbind_eq_Inr memset_write64)
  note fr = pmm_alloc_frame[OF pwf NORMAL_zone one_neq_zero s(1)]
  have more: "pmm_state.more s = pmm_state.more st"
    using s(1) by (auto simp: pmm_alloc_def Let_def update_zone_def split: if_splits)
  have "phys_step st s"
    using more pmm_alloc_mem_outside[OF pwf NORMAL_zone one_neq_zero s(1)] NORMAL_zone
    by (auto simp: phys_step_def above_phys_def fr fun_eq_iff)
  moreover have "frame_used s c" using pmm_frames.alloc_used[OF _ s(1)] pwf by simp
  then have "phys_step s st'" unfolding s(2) by (intro phys_step_write fr) simp_all
  ultimately show ?thesis by (rule phys_step_trans)
qed

subsection \<open>The walk\<close>

lemma paging_vaddr_idx_eq: "paging_vaddr_idx v i = of_nat (vidx v i)"
proof -
  have m: "(0x1ff :: u64) = mask 9" by (simp add: mask_eq_exp_minus_1)
  have "unat (paging_vaddr_idx v i) = vidx v i"
    unfolding paging_vaddr_idx_def vidx_def PAGE_IDX_MASK_def PAGE_IDX_SIZE_def PAGE_OFFSET_SIZE_def m
    by (simp add: take_bit_eq_mask[symmetric] unat_take_bit)
  then show ?thesis by (metis of_nat_unat_diff diff_zero)
qed

lemma take_vpath_Suc: "Suc i \<le> 3 \<Longrightarrow> take (3 - i) (vpath v) = take (3 - Suc i) (vpath v) @ [vidx v (Suc i)]"
  by (auto simp: vpath_def le_Suc_eq numeral_3_eq_3 numeral_2_eq_2)

lemma kres_page_aligned: "unat (f :: u64) mod 4096 = 0 \<Longrightarrow> f mod PAGE_SIZE = 0"
  by (simp add: word_unat_eq_iff unat_mod PAGE_SIZE_eq)

lemma walk_create_step:
  assumes wf: "pt_wf st r" and i: "Suc i \<le> 3" and t: "st_tab st r (take (3 - Suc i) (vpath v)) = Some t"
    and walk: "paging_walk_loop t v 0 True (Suc i) st = res"
  obtains (fail) msg where "res = Inl (Panic msg)" "avail st = 0"
  | (go) t' st1 where "pt_wf st1 r" "st_tab st1 r (take (3 - i) (vpath v)) = Some t'" "phys_step st st1"
     "avail st \<le> Suc (avail st1)" "\<forall>q\<in>page_paths. st_leaf st1 r q = st_leaf st r q" "res = paging_walk_loop t' v 0 True i st1"
proof -
  let ?p = "take (3 - Suc i) (vpath v)" and ?k = "vidx v (Suc i)"
  let ?pe = "t + 8 * of_nat ?k"
  have pp: "?p @ [?k] \<in> paths" using take_vpath_Suc[OF i] take_vpath_in[of "3 - i" v] by simp
  have tin: "t \<in> tables (mem_ents (kmem st)) r" using t paths_snocD[OF pp] by (blast intro: tablesI)
  note tt = pt_wf_table[OF wf tin]
  have nz: "?pe \<noteq> 0" by (rule entry_not_null[OF wf tin]) simp
  have e: "read64 (kmem st) ?pe = mem_ents (kmem st) t ?k" by (simp add: mem_ents_def)
  show thesis
  proof (cases "present (mem_ents (kmem st) t ?k)")
    case True
    then have "st_tab st r (take (3 - i) (vpath v)) = Some (next_table (mem_ents (kmem st) t ?k))"
      unfolding take_vpath_Suc[OF i] tab_snoc using t by (simp add: child_def)
    moreover have "res = paging_walk_loop (next_table (mem_ents (kmem st) t ?k)) v 0 True i st"
      using walk True nz e by (subst (asm) paging_walk_loop.simps) (simp add: paging_vaddr_idx_eq paging_entry_ops)
    ultimately show thesis using wf by (intro go[of st]) auto
  next
    case False
    show thesis
    proof (cases "paging_create st")
      case (Inl er)
      then have "res = Inl er" using walk False nz e
        by (subst (asm) paging_walk_loop.simps) (simp add: paging_vaddr_idx_eq paging_entry_ops)
      then show thesis using paging_create_panics[OF _ Inl] wf fail by (auto simp: pt_wf_def)
    next
      case (Inr cs)
      obtain c st1 where cs: "cs = (c, st1)" by fastforce
      with Inr have create: "paging_create st = Inr (c, st1)" by simp
      have pwf: "pmm_wf st" "free_frames_ready st" using wf by (simp_all add: pt_wf_def)
      note cf = paging_create_facts[OF pwf create]
      let ?e = "(mem_ents (kmem st) t ?k AND NOT addr_bits) OR (c AND addr_bits) OR PAGE_PRESENT"
      let ?st2 = "st1\<lparr>kmem := write64 (kmem st1) ?pe ?e\<rparr>"
      have c: "unat c mod 4096 = 0" "unat c < 2 ^ 52"
        using cf(2) wf frame_aligned[of st c] by (auto simp: pt_wf_def free_frames_ready_def)
      have e1: "read64 (kmem st1) ?pe = mem_ents (kmem st) t ?k"
        using cf(6)[OF tt(4,2)] by (simp add: mem_ents_def)
      have "present PAGE_PRESENT" by (simp add: present_def PAGE_PRESENT_def)
      then have ef: "present ?e" "next_table ?e = c" using entry_fields(1,3)[OF c] by simp_all
      note link = pt_wf_link[OF wf t pp False create ef]
      have "res = paging_walk_loop c v 0 True i ?st2" using walk False nz e create kres_page_aligned[OF c(1)] e1
        by (subst (asm) paging_walk_loop.simps)
          (simp add: paging_vaddr_idx_eq paging_entry_ops PAGE_ADDR_eq store_store_same or.assoc)
      moreover have "phys_step st ?st2"
        using phys_step_create[OF pwf(1) create] phys_step_write[OF cf(1), of t ?k ?e] cf(4) tt(3)
        by (auto intro: phys_step_trans)
      ultimately show thesis using link take_vpath_Suc[OF i] by (intro go[of ?st2]) auto
    qed
  qed
qed

lemma walk_create:
  assumes "pt_wf st r" "i \<le> 3" "st_tab st r (take (3 - i) (vpath v)) = Some t"
    and "paging_walk_loop t v 0 True i st = res"
  obtains (fail) msg where "res = Inl (Panic msg)" "avail st < i"
  | (found) t' st' where "res = Inr (t' + 8 * of_nat (vidx v 0), st')" "pt_wf st' r" "phys_step st st'"
      "st_tab st' r (take 3 (vpath v)) = Some t'" "\<forall>q\<in>page_paths. st_leaf st' r q = st_leaf st r q"
      "avail st \<le> avail st' + i"
  using assms
proof (induction i arbitrary: st t thesis)
  case 0
  have "res = Inr (t + 8 * of_nat (vidx v 0), st)"
    using 0(6) by (subst (asm) paging_walk_loop.simps) (simp add: paging_vaddr_idx_eq)
  then show ?case using 0 by auto
next
  case (Suc i)
  show ?case
  proof (rule walk_create_step[OF Suc.prems(3-6)])
    fix msg assume "res = Inl (Panic msg)" "avail st = 0" then show ?thesis by (intro Suc.prems(1)) auto
  next
    fix t' st1 assume s: "pt_wf st1 r" "st_tab st1 r (take (3 - i) (vpath v)) = Some t'" "phys_step st st1"
      "avail st \<le> Suc (avail st1)"
      "\<forall>q\<in>page_paths. st_leaf st1 r q = st_leaf st r q" "res = paging_walk_loop t' v 0 True i st1"
    show ?thesis
    proof (rule Suc.IH[OF _ _ s(1) _ s(2) s(6)[symmetric]])
      fix msg assume "res = Inl (Panic msg)" "avail st1 < i"
      then show ?thesis using s(4) by (intro Suc.prems(1)) auto
    next
      fix t2 st2 assume "res = Inr (t2 + 8 * of_nat (vidx v 0), st2)" "pt_wf st2 r" "phys_step st1 st2"
        "st_tab st2 r (take 3 (vpath v)) = Some t2" "\<forall>q\<in>page_paths. st_leaf st2 r q = st_leaf st1 r q"
        "avail st1 \<le> avail st2 + i"
      then show ?thesis using s by (intro Suc.prems(2)) (auto intro: phys_step_trans)
    qed (use Suc.prems in auto)
  qed
qed

text \<open>Without \<open>create\<close> the walk reads only.\<close>

lemma walk_lookup:
  assumes "pt_wf st r" "i \<le> 3" "st_tab st r (take (3 - i) (vpath v)) = Some t"
  shows "paging_walk_loop t v 0 False i st =
    (case st_tab st r (take 3 (vpath v)) of
       Some t' \<Rightarrow> Inr (t' + 8 * of_nat (vidx v 0), st)
     | None \<Rightarrow> Inr (0, log_msg ERROR ''[paging_walk] A non-present entry was found at level %u for vaddr 0x%lx'' st))"
  using assms
proof (induction i arbitrary: t)
  case 0
  then show ?case by (subst paging_walk_loop.simps) (simp add: paging_vaddr_idx_eq)
next
  case (Suc i)
  let ?k = "vidx v (Suc i)"
  have nxt: "st_tab st r (take (3 - i) (vpath v)) = child (mem_ents (kmem st)) t ?k"
    using Suc.prems by (simp add: take_vpath_Suc[OF Suc.prems(2)] tab_snoc)
  have "t \<in> tables (mem_ents (kmem st)) r" using Suc.prems take_vpath_in[of "3 - Suc i" v] by (blast intro: tablesI diff_le_self)
  then have nz: "t + 8 * of_nat ?k \<noteq> 0" using entry_not_null[OF Suc.prems(1)] by simp
  show ?case
  proof (cases "present (mem_ents (kmem st) t ?k)")
    case True
    then show ?thesis using Suc.IH[OF Suc.prems(1) _ nxt[unfolded child_def, simplified True if_True]] Suc.prems(2) nz
      by (subst paging_walk_loop.simps) (simp add: paging_vaddr_idx_eq paging_entry_ops mem_ents_def[symmetric])
  next
    case False
    have "take 3 (vpath v) = take (3 - i) (vpath v) @ take i (drop (3 - i) (vpath v))"
      using Suc.prems(2) by (metis Suc_leD le_add_diff_inverse2 take_add)
    then have "st_tab st r (take 3 (vpath v)) = None"
      using nxt False by (simp add: tab_append child_def)
    then show ?thesis using False nz
      by (subst paging_walk_loop.simps) (simp add: paging_vaddr_idx_eq paging_entry_ops mem_ents_def[symmetric])
  qed
qed

lemma ALIGN_DOWN_mod: "ALIGN_DOWN v PAGE_SIZE mod PAGE_SIZE = 0" "unat (ALIGN_DOWN v PAGE_SIZE) mod 4096 = 0"
proof -
  show "unat (ALIGN_DOWN v PAGE_SIZE) mod 4096 = 0"
    unfolding unat_ALIGN_DOWN_page by (metis minus_mod_eq_mult_div mod_mult_self1_is_0)
  then show "ALIGN_DOWN v PAGE_SIZE mod PAGE_SIZE = 0" by (rule kres_page_aligned)
qed

lemma ALIGN_DOWN_id: "v mod PAGE_SIZE = 0 \<Longrightarrow> ALIGN_DOWN v PAGE_SIZE = v"
proof -
  assume "v mod PAGE_SIZE = 0"
  then have "unat v mod 4096 = 0" by (simp add: word_unat_eq_iff unat_mod PAGE_SIZE_eq)
  then show ?thesis by (simp add: word_unat_eq_iff unat_ALIGN_DOWN_page)
qed

lemma vpage_ALIGN_DOWN [simp]: "vpage (ALIGN_DOWN v PAGE_SIZE) = vpage v"
  by (simp add: vpage_def unat_ALIGN_DOWN_page minus_mod_eq_mult_div)

lemma vpath_ALIGN_DOWN [simp]: "vpath (ALIGN_DOWN v PAGE_SIZE) = vpath v"
  by (simp add: vpath_eq_iff)

lemma vidx_ALIGN_DOWN [simp]: "i \<le> 3 \<Longrightarrow> vidx (ALIGN_DOWN v PAGE_SIZE) i = vidx v i"
  by (simp add: vidx_eq)

lemma pmm_views_klog [simp]:
  "pt_wf (st\<lparr>klog := l\<rparr>) r = pt_wf st r" "phys_step s (st\<lparr>klog := l\<rparr>) = phys_step s st"
  "phys_step (st\<lparr>klog := l\<rparr>) s = phys_step st s" "avail (st\<lparr>klog := l\<rparr>) = avail st"
  by (simp_all add: avail_def free_pages_def pt_wf_def pmm_wf_def num_pages_def zone_base_def frame_used_def page_used_def
      free_frames_ready_def free_frame_def clear_frame_def phys_step_def above_phys_def fun_eq_iff)

lemma pt_wf_root:
  assumes "pt_wf st r"
  shows "r \<noteq> 0" "st_tab st r (take (3 - 3) (vpath v)) = Some r"
  using assms by (auto simp: pt_wf_def intro: tables_root)

lemma vpage_plus: "vpage (v + of_nat k * PAGE_SIZE) = (vpage v + k) mod 2 ^ 36"
proof -
  have "unat (v + of_nat k * PAGE_SIZE) = (unat v + 4096 * k) mod 2 ^ 64"
    by (simp add: unat_word_ariths PAGE_SIZE_eq unat_of_nat take_bit_eq_mod mod_simps mult.commute)
  also have "(unat v + 4096 * k) mod 2 ^ 64 div 4096 = (unat v + 4096 * k) div 4096 mod 2 ^ 52"
    using drop_bit_take_bit[of 12 64 "unat v + 4096 * k"] by (simp add: drop_bit_eq_div take_bit_eq_mod)
  finally show ?thesis
    by (simp add: vpage_def mod_mod_cancel mod_simps add.commute)
qed

lemma vpage_step_inj:
  assumes "n \<noteq> k" "n < 2 ^ 36" "k < 2 ^ 36"
  shows "vpage (v + of_nat n * PAGE_SIZE) \<noteq> vpage (v + of_nat k * PAGE_SIZE)"
proof
  assume "vpage (v + of_nat n * PAGE_SIZE) = vpage (v + of_nat k * PAGE_SIZE)"
  then have "(vpage v + n) mod 2 ^ 36 = (vpage v + k) mod 2 ^ 36" by (simp add: vpage_plus)
  with assms show False by (blast dest: add_mod_inj)
qed

text \<open>The walk that the mapping functions start: the address is rounded down, which changes
  nothing but the log.\<close>

lemma paging_map_in_eq:
  assumes "r \<noteq> 0"
  obtains l where "paging_map_in r v p flags st =
     kbind (paging_walk_loop r (ALIGN_DOWN v PAGE_SIZE) 0 True 3 (st\<lparr>klog := l\<rparr>)) (\<lambda>(pentry, st).
       paging_map_entry (ALIGN_DOWN p PAGE_SIZE) flags pentry st)"
proof -
  let ?w1 = "if v mod PAGE_SIZE \<noteq> 0 then [(WARNING, ''[__paging_map] vaddr is not 4 KiB aligned, vaddr: %lx'')] else []"
  let ?w2 = "if p mod PAGE_SIZE \<noteq> 0 then [(WARNING, ''[__paging_map] paddr is not 4 KiB aligned, paddr: %lx'')] else []"
  show thesis
    by (rule that[of "klog st @ ?w1 @ ?w2"], cases "v mod PAGE_SIZE = 0"; cases "p mod PAGE_SIZE = 0")
      (use assms in \<open>simp_all add: paging_map_in_def paging_walk_def PML1_def PML4_def ALIGN_DOWN_mod ALIGN_DOWN_id log_msg_def\<close>)
qed

definition page_entry :: "u64 \<Rightarrow> addr \<Rightarrow> u64 \<Rightarrow> u64" where
  "page_entry e paddr flags = ((e OR flags) AND NOT addr_bits) OR (ALIGN_DOWN paddr PAGE_SIZE AND addr_bits)"

lemma paging_map_in_cases:
  assumes wf: "pt_wf st r" and fl: "flags AND addr_bits = 0" and res: "paging_map_in r v p flags st = res"
  obtains (fail) msg where "res = Inl (Panic msg)" "avail st < 3"
  | (mapped) st' where "res = Inr st'" "pt_wf st' r" "phys_step st st'" "present (st_leaf st r (vpath v))"
      "\<forall>q\<in>page_paths. st_leaf st' r q = st_leaf st r q" "avail st \<le> avail st' + 3"
  | (new) st' where "res = Inr st'" "pt_wf st' r" "phys_step st st'" "\<not> present (st_leaf st r (vpath v))"
      "\<forall>q\<in>page_paths. st_leaf st' r q =
         (if q = vpath v then page_entry (st_leaf st r (vpath v)) p flags else st_leaf st r q)"
      "avail st \<le> avail st' + 3"
proof -
  let ?v = "ALIGN_DOWN v PAGE_SIZE"
  obtain l where eq: "res =
     kbind (paging_walk_loop r ?v 0 True 3 (st\<lparr>klog := l\<rparr>)) (\<lambda>(pentry, st).
       paging_map_entry (ALIGN_DOWN p PAGE_SIZE) flags pentry st)"
    by (rule paging_map_in_eq[OF pt_wf_root(1)[OF wf], of v p flags st, unfolded res])
  have wf0: "pt_wf (st\<lparr>klog := l\<rparr>) r" using wf by simp
  show thesis
  proof (rule walk_create[OF wf0 order.refl pt_wf_root(2)[OF wf0] refl, of ?v])
    fix msg assume "paging_walk_loop r ?v 0 True 3 (st\<lparr>klog := l\<rparr>) = Inl (Panic msg)" "avail (st\<lparr>klog := l\<rparr>) < 3"
    then show thesis using eq by (intro fail) simp_all
  next
    fix t st1
    assume w: "paging_walk_loop r ?v 0 True 3 (st\<lparr>klog := l\<rparr>) = Inr (t + 8 * of_nat (vidx ?v 0), st1)"
      "pt_wf st1 r" "phys_step (st\<lparr>klog := l\<rparr>) st1" "st_tab st1 r (take 3 (vpath ?v)) = Some t"
      "\<forall>q\<in>page_paths. st_leaf st1 r q = st_leaf (st\<lparr>klog := l\<rparr>) r q"
      "avail (st\<lparr>klog := l\<rparr>) \<le> avail st1 + 3"
    let ?pe = "t + 8 * of_nat (vidx v 0)"
    have p3: "take 3 (vpath v) \<in> paths" "length (take 3 (vpath v)) = 3" "take 3 (vpath v) @ [vidx v 0] = vpath v"
      using take_vpath_in[of 3 v] by (simp_all add: vpath_def)
    have tin: "t \<in> tables (mem_ents (kmem st1)) r" using w(4) p3(1) by (auto intro: tablesI)
    note tt = pt_wf_table[OF w(2) tin]
    have nz: "?pe \<noteq> 0" by (rule entry_not_null[OF w(2) tin]) simp
    have tab3: "st_tab st1 r (take 3 (vpath v)) = Some t" using w(4) by simp
    have e: "read64 (kmem st1) ?pe = st_leaf st r (vpath v)"
    proof -
      have "st_leaf st1 r (vpath v) = mem_ents (kmem st1) t (vidx v 0)"
        using tab3 by (simp add: leaf_def vpath_def)
      then show ?thesis using w(5) by (simp add: mem_ents_def)
    qed
    show thesis
    proof (cases "present (st_leaf st r (vpath v))")
      case True
      then show thesis using eq w e nz
        by (intro mapped[of "log_msg ERROR ''[__paging_map] request to map vaddr 0x%lx to paddr 0x%lx but vaddr was already mapped to %0xlx.'' st1"])
           (simp_all add: paging_map_entry_def paging_entry_ops)
    next
      case False
      let ?e = "page_entry (st_leaf st r (vpath v)) p flags"
      let ?st' = "st1\<lparr>kmem := write64 (kmem st1) ?pe ?e\<rparr>"
      have res: "res = Inr ?st'" using eq w(1) e nz False fl ALIGN_DOWN_mod(1)[of p]
        by (simp add: paging_map_entry_def paging_entry_ops PAGE_ADDR_eq store_store_same page_entry_def)
      note wl = pt_wf_write_leaf[where i = "vidx v 0" and e = ?e, OF w(2) tab3 p3(1,2) vidx_less, unfolded p3(3)]
      have "phys_step st ?st'"
        using phys_step_trans[OF w(3) phys_step_write[OF _ tt(3), of "vidx v 0" ?e]] w(2) by (simp add: pt_wf_def)
      then show thesis using res wl w(5,6) False by (intro new[of ?st']) simp_all
    qed
  qed
qed

section \<open>Address spaces\<close>

text \<open>The abstraction: which frame a page number is mapped to.\<close>

definition aspace :: "'a kstate_scheme \<Rightarrow> addr \<Rightarrow> nat \<Rightarrow> addr option" where
  "aspace st r n =
     (let e = st_leaf st r (vpath (of_nat (4096 * n)))
      in if n < 2 ^ 36 \<and> present e then Some (next_table e) else None)"

text \<open>
  The interface of a mapping operation: it adds one page to the address space, leaves a page that is
  already mapped as it was, uses at most three units of its budget of frames, and fails only by a
  panic and only if the budget is below that. Mapping a range of consecutive pages, as
  \<^verbatim>\<open>__paging_maps\<close> and \<^verbatim>\<open>paging_maps\<close> do, is proved correct from it.
\<close>

locale page_mapper =
  fixes mp :: "addr \<Rightarrow> addr \<Rightarrow> 's \<Rightarrow> 's kres"
    and wf :: "'s \<Rightarrow> bool"
    and view :: "'s \<Rightarrow> nat \<Rightarrow> addr option"
    and budget :: "'s \<Rightarrow> nat"
  assumes mp_wf: "wf s \<Longrightarrow> unat p < 2 ^ 52 \<Longrightarrow> mp v p s = Inr s' \<Longrightarrow> wf s'"
    and mp_new: "wf s \<Longrightarrow> unat p < 2 ^ 52 \<Longrightarrow> mp v p s = Inr s' \<Longrightarrow> view s (vpage v) = None \<Longrightarrow>
      view s' = (view s)(vpage v \<mapsto> ALIGN_DOWN p PAGE_SIZE)"
    and mp_old: "wf s \<Longrightarrow> unat p < 2 ^ 52 \<Longrightarrow> mp v p s = Inr s' \<Longrightarrow> view s (vpage v) \<noteq> None \<Longrightarrow> view s' = view s"
    and mp_fail: "wf s \<Longrightarrow> unat p < 2 ^ 52 \<Longrightarrow> mp v p s = Inl e \<Longrightarrow> (\<exists>msg. e = Panic msg) \<and> budget s < 3"
    and mp_cost: "wf s \<Longrightarrow> unat p < 2 ^ 52 \<Longrightarrow> mp v p s = Inr s' \<Longrightarrow> budget s \<le> budget s' + 3"
begin

abbreviation step :: "u64 \<Rightarrow> addr \<times> addr \<times> 's \<Rightarrow> (addr \<times> addr \<times> 's) kres" where
  "step \<equiv> \<lambda>i (v, p, s). kbind (mp v p s) (\<lambda>s. Inr (v + PAGE_SIZE, p + PAGE_SIZE, s))"

lemma page_addr_bound:
  fixes p :: addr
  assumes "unat p + 4096 * Suc n \<le> 2 ^ 52"
  shows "unat (p + of_nat n * PAGE_SIZE) < 2 ^ 52"
  unfolding PAGE_SIZE_eq using assms by (simp add: unat_word_ariths)

lemma maps_range:
  assumes "wf s" "for_natE n step (v, p, s) = Inr (v', p', s')" "n \<le> 2 ^ 36" "unat p + 4096 * n \<le> 2 ^ 52"
    and "\<forall>k < n. view s (vpage (v + of_nat k * PAGE_SIZE)) = None"
  shows "wf s' \<and> v' = v + of_nat n * PAGE_SIZE \<and> p' = p + of_nat n * PAGE_SIZE \<and> budget s \<le> budget s' + 3 * n \<and>
    (\<forall>k < n. view s' (vpage (v + of_nat k * PAGE_SIZE)) = Some (ALIGN_DOWN (p + of_nat k * PAGE_SIZE) PAGE_SIZE)) \<and>
    (\<forall>m. (\<forall>k < n. m \<noteq> vpage (v + of_nat k * PAGE_SIZE)) \<longrightarrow> view s' m = view s m)"
  using assms
proof (induction n arbitrary: v' p' s')
  case 0
  then show ?case by simp
next
  case (Suc n)
  from Suc.prems(2) obtain v1 p1 s1 where
    n: "for_natE n step (v, p, s) = Inr (v1, p1, s1)" and
    one: "mp v1 p1 s1 = Inr s'" "v' = v1 + PAGE_SIZE" "p' = p1 + PAGE_SIZE"
    by (auto simp: kbind_eq_Inr)
  have IH: "wf s1" "v1 = v + of_nat n * PAGE_SIZE" "p1 = p + of_nat n * PAGE_SIZE" "budget s \<le> budget s1 + 3 * n"
    "\<forall>k < n. view s1 (vpage (v + of_nat k * PAGE_SIZE)) = Some (ALIGN_DOWN (p + of_nat k * PAGE_SIZE) PAGE_SIZE)"
    "\<forall>m. (\<forall>k < n. m \<noteq> vpage (v + of_nat k * PAGE_SIZE)) \<longrightarrow> view s1 m = view s m"
    using Suc.IH[OF Suc.prems(1) n] Suc.prems(3-5) by auto
  have p1: "unat p1 < 2 ^ 52" unfolding IH(3) by (rule page_addr_bound[OF Suc.prems(4)])
  have fresh: "vpage v1 \<noteq> vpage (v + of_nat k * PAGE_SIZE)" if "k < n" for k
    unfolding IH(2) by (rule vpage_step_inj) (use that Suc.prems(3) in auto)
  then have "view s1 (vpage v1) = None" using IH(2,6) Suc.prems(5) by auto
  from mp_new[OF IH(1) p1 one(1) this] mp_wf[OF IH(1) p1 one(1)] mp_cost[OF IH(1) p1 one(1)] show ?case
    using IH one(2,3) fresh fresh[THEN not_sym] by (auto simp: less_Suc_eq algebra_simps)
qed

text \<open>Pages outside the range are not touched, whether the range was free or not.\<close>

lemma maps_others:
  assumes "wf s" "for_natE n step (v, p, s) = Inr (v', p', s')" "unat p + 4096 * n \<le> 2 ^ 52"
  shows "wf s' \<and> v' = v + of_nat n * PAGE_SIZE \<and> p' = p + of_nat n * PAGE_SIZE \<and>
    (\<forall>m. (\<forall>k < n. m \<noteq> vpage (v + of_nat k * PAGE_SIZE)) \<longrightarrow> view s' m = view s m)"
  using assms
proof (induction n arbitrary: v' p' s')
  case (Suc n)
  from Suc.prems(2) obtain v1 p1 s1 where
    n: "for_natE n step (v, p, s) = Inr (v1, p1, s1)" and
    one: "mp v1 p1 s1 = Inr s'" "v' = v1 + PAGE_SIZE" "p' = p1 + PAGE_SIZE"
    by (auto simp: kbind_eq_Inr)
  have IH: "wf s1" "v1 = v + of_nat n * PAGE_SIZE" "p1 = p + of_nat n * PAGE_SIZE"
    "\<forall>m. (\<forall>k < n. m \<noteq> vpage (v + of_nat k * PAGE_SIZE)) \<longrightarrow> view s1 m = view s m"
    using Suc.IH[OF Suc.prems(1) n] Suc.prems(3) by auto
  have p1: "unat p1 < 2 ^ 52" unfolding IH(3) by (rule page_addr_bound[OF Suc.prems(3)])
  have "view s' m = view s1 m" if "m \<noteq> vpage v1" for m
    using mp_new[OF IH(1) p1 one(1)] mp_old[OF IH(1) p1 one(1)] that by (cases "view s1 (vpage v1) = None") auto
  then show ?case using IH mp_wf[OF IH(1) p1 one(1)] one(2,3) by (auto simp: algebra_simps)
qed simp

lemma maps_panics:
  assumes "wf s" "for_natE n step (v, p, s) = Inl e" "unat p + 4096 * n \<le> 2 ^ 52"
  shows "\<exists>msg. e = Panic msg"
  using assms
proof (induction n)
  case (Suc n)
  show ?case
  proof (cases "for_natE n step (v, p, s)")
    case (Inl e')
    then show ?thesis using Suc by auto
  next
    case (Inr t)
    obtain v1 p1 s1 where t: "t = (v1, p1, s1)" by (cases t)
    have "wf s1" "p1 = p + of_nat n * PAGE_SIZE" using maps_others[OF Suc.prems(1), of n v p v1 p1 s1] Inr t Suc.prems(3) by auto
    moreover have "mp v1 p1 s1 = Inl e" using Suc.prems(2) Inr t by (auto simp: kbind_def split: sum.splits)
    ultimately show ?thesis using mp_fail page_addr_bound[OF Suc.prems(3)] by blast
  qed
qed simp

lemma maps_total:
  assumes "wf s" "n \<le> 2 ^ 36" "unat p + 4096 * n \<le> 2 ^ 52"
    and "\<forall>k < n. view s (vpage (v + of_nat k * PAGE_SIZE)) = None"
  shows "(\<exists>msg. for_natE n step (v, p, s) = Inl (Panic msg)) \<and> budget s < 3 * n \<or>
    (\<exists>v' p' s'. for_natE n step (v, p, s) = Inr (v', p', s'))"
  using assms
proof (induction n)
  case (Suc n)
  then consider (fail) msg where "for_natE n step (v, p, s) = Inl (Panic msg)" "budget s < 3 * n"
    | (go) v1 p1 s1 where "for_natE n step (v, p, s) = Inr (v1, p1, s1)" by auto
  then show ?case
  proof cases
    case go
    note r = maps_range[OF Suc.prems(1) go]
    then have r: "wf s1" "p1 = p + of_nat n * PAGE_SIZE" "budget s \<le> budget s1 + 3 * n" using Suc.prems by auto
    have p1: "unat p1 < 2 ^ 52" unfolding r(2) by (rule page_addr_bound[OF Suc.prems(3)])
    show ?thesis
    proof (cases "mp v1 p1 s1")
      case (Inl e)
      then show ?thesis using mp_fail[OF r(1) p1 Inl] r(3) go by auto
    qed (use go in auto)
  qed auto
qed simp

end

lemma vpage_page: "n < 2 ^ 36 \<Longrightarrow> vpage (of_nat (4096 * n)) = n"
  by (subst vpage_def, subst unat_of_nat_small) simp_all

lemma vpage_less: "vpage v < 2 ^ 36"
  by (simp add: vpage_def)

lemma aspace_vpage:
  "aspace st r (vpage v) = (let e = st_leaf st r (vpath v) in if present e then Some (next_table e) else None)"
proof -
  have "vpath (of_nat (4096 * vpage v)) = vpath v"
    using vpage_less[of v] by (simp only: vpath_eq_iff vpage_page)
  then show ?thesis using vpage_less[of v] by (simp add: aspace_def)
qed

lemma aspace_simps [simp]:
  "aspace (st\<lparr>klog := l\<rparr>) = aspace st" "aspace (log_msg level msg st) = aspace st"
  "aspace (st2\<lparr>cr3 := r2\<rparr>) = aspace st2"
  by (simp_all add: aspace_def fun_eq_iff)

lemma aspace_cong:
  assumes "\<forall>q\<in>page_paths. st_leaf st' r q = st_leaf st r q"
  shows "aspace st' r = aspace st r"
  using assms by (auto simp: aspace_def fun_eq_iff)

lemma aspace_upd:
  assumes "\<forall>q\<in>page_paths. st_leaf st' r q = (if q = vpath v then e else st_leaf st r q)"
  shows "aspace st' r = (aspace st r)(vpage v := if present e then Some (next_table e) else None)"
proof
  fix n
  show "aspace st' r n = ((aspace st r)(vpage v := if present e then Some (next_table e) else None)) n"
  proof (cases "n < 2 ^ 36")
    case True
    then have "n = vpage (of_nat (4096 * n))" by (rule vpage_page[symmetric])
    then show ?thesis using assms
      by (smt (verit) aspace_vpage fun_upd_apply vpath_eq_iff vpath_in)
  next
    case False
    then have "n \<noteq> vpage v" using vpage_less[of v] by auto
    then show ?thesis using False by (simp add: aspace_def)
  qed
qed

lemma translate_aspace:
  "translate (mem_ents (kmem st)) r v = map_option (\<lambda>b. b + take_bit 12 v) (aspace st r (vpage v))"
  by (simp add: translate_def aspace_vpage Let_def)

lemma page_entry_fields:
  assumes "flags AND addr_bits = 0" "unat p < 2 ^ 52"
  shows "next_table (page_entry e p flags) = ALIGN_DOWN p PAGE_SIZE"
    "present (page_entry e p flags) = (present e \<or> present flags)"
proof -
  have "unat (ALIGN_DOWN p PAGE_SIZE) < 2 ^ 52" using assms(2) by (simp add: unat_ALIGN_DOWN_page)
  from entry_fields(2,4)[OF ALIGN_DOWN_mod(2) this assms(1)]
  show "next_table (page_entry e p flags) = ALIGN_DOWN p PAGE_SIZE"
    "present (page_entry e p flags) = (present e \<or> present flags)" by (simp_all add: page_entry_def)
qed

text \<open>\<open>paging_map_in\<close>, seen through the address space.\<close>

lemma paging_map_in_aspace:
  assumes wf: "pt_wf st r" and fl: "flags AND addr_bits = 0" "present flags" and p: "unat p < 2 ^ 52"
    and res: "paging_map_in r v p flags st = res"
  obtains (fail) msg where "res = Inl (Panic msg)" "avail st < 3"
  | (mapped) st' where "res = Inr st'" "pt_wf st' r" "phys_step st st'" "aspace st r (vpage v) \<noteq> None"
      "aspace st' r = aspace st r" "avail st \<le> avail st' + 3"
  | (new) st' where "res = Inr st'" "pt_wf st' r" "phys_step st st'" "aspace st r (vpage v) = None"
      "aspace st' r = (aspace st r)(vpage v \<mapsto> ALIGN_DOWN p PAGE_SIZE)" "avail st \<le> avail st' + 3"
proof (rule paging_map_in_cases[OF wf fl(1) res])
  fix msg assume "res = Inl (Panic msg)" "avail st < 3" then show thesis by (rule fail)
next
  fix st' assume m: "res = Inr st'" "pt_wf st' r" "phys_step st st'" "present (st_leaf st r (vpath v))"
    "\<forall>q\<in>page_paths. st_leaf st' r q = st_leaf st r q" "avail st \<le> avail st' + 3"
  have "aspace st r (vpage v) \<noteq> None" using m(4) by (simp add: aspace_vpage)
  from mapped[OF m(1-3) this aspace_cong[OF m(5)] m(6)] show thesis .
next
  fix st' assume n: "res = Inr st'" "pt_wf st' r" "phys_step st st'" "\<not> present (st_leaf st r (vpath v))"
    "\<forall>q\<in>page_paths. st_leaf st' r q =
      (if q = vpath v then page_entry (st_leaf st r (vpath v)) p flags else st_leaf st r q)"
    "avail st \<le> avail st' + 3"
  have "aspace st r (vpage v) = None" using n(4) by (simp add: aspace_vpage Let_def)
  from new[OF n(1-3) this] aspace_upd[OF n(5)] show thesis
    using fl(2) page_entry_fields[OF fl(1) p] n(6) by simp
qed

definition mapper_wf :: "addr \<Rightarrow> u64 \<Rightarrow> 'a pmm_state_scheme \<Rightarrow> bool" where
  "mapper_wf r flags st \<longleftrightarrow> pt_wf st r \<and> flags AND PAGE_ADDR = 0 \<and> flags AND PAGE_PRESENT = PAGE_PRESENT"

lemma mapper_wf_iff: "mapper_wf r flags st \<longleftrightarrow> pt_wf st r \<and> flags AND addr_bits = 0 \<and> present flags"
  by (simp add: mapper_wf_def PAGE_ADDR_eq present_and)

interpretation map_in: page_mapper
  "\<lambda>v p. paging_map_in r v p flags" "mapper_wf r flags :: 'a pmm_state_scheme \<Rightarrow> bool" "\<lambda>st. aspace st r" avail for r flags
proof unfold_locales
  fix s s' :: "'a pmm_state_scheme" and p v :: addr and e
  assume "mapper_wf r flags s" and p: "unat p < 2 ^ 52"
  then have prem: "pt_wf s r" "flags AND addr_bits = 0" "present flags" "unat p < 2 ^ 52"
    by (simp_all add: mapper_wf_iff)
  note * = paging_map_in_aspace[OF prem]
  show "paging_map_in r v p flags s = Inr s' \<Longrightarrow> mapper_wf r flags s'"
    by (rule *[of v]) (use prem in \<open>auto simp: mapper_wf_iff\<close>)
  show "paging_map_in r v p flags s = Inr s' \<Longrightarrow> aspace s r (vpage v) = None \<Longrightarrow>
    aspace s' r = (aspace s r)(vpage v \<mapsto> ALIGN_DOWN p PAGE_SIZE)"
    by (rule *[of v]) auto
  show "paging_map_in r v p flags s = Inr s' \<Longrightarrow> aspace s r (vpage v) \<noteq> None \<Longrightarrow> aspace s' r = aspace s r"
    by (rule *[of v]) auto
  show "paging_map_in r v p flags s = Inl e \<Longrightarrow> (\<exists>msg. e = Panic msg) \<and> avail s < 3"
    by (rule *[of v]) auto
  show "paging_map_in r v p flags s = Inr s' \<Longrightarrow> avail s \<le> avail s' + 3"
    by (rule *[of v]) auto
qed

subsection \<open>Unmapping\<close>

lemma paging_unmap_in_None:
  assumes wf: "pt_wf st r" and "st_tab st r (take 3 (vpath v)) = None"
  shows "paging_unmap_in r v st = Inl Null_deref"
  using assms pt_wf_root(1)[OF wf]
    walk_lookup[of "log_msg WARNING ''[__paging_unmap] vaddr is not 4 KiB aligned, vaddr: %lx'' st" r 3 "ALIGN_DOWN v PAGE_SIZE"]
    walk_lookup[of st r 3 v]
  by (simp add: paging_unmap_in_def paging_walk_def PML1_def PML4_def ALIGN_DOWN_mod assign_def)

lemma paging_unmap_in_Some:
  assumes wf: "pt_wf st r" and t: "st_tab st r (take 3 (vpath v)) = Some t"
  obtains st' where "paging_unmap_in r v st = Inr st'" "pt_wf st' r" "phys_step st st'"
    "aspace st' r = (aspace st r)(vpage v := None)"
proof -
  let ?w = "[(WARNING, ''[__paging_unmap] vaddr is not 4 KiB aligned, vaddr: %lx'')]"
  let ?st = "st\<lparr>klog := klog st @ (if v mod PAGE_SIZE \<noteq> 0 then ?w else [])\<rparr>"
  let ?pe = "t + 8 * of_nat (vidx v 0)"
  let ?st' = "?st\<lparr>kmem := write64 (kmem st) ?pe 0\<rparr>"
  have wf': "pt_wf ?st r" and t': "st_tab ?st r (take 3 (vpath v)) = Some t" using wf t by simp_all
  have p3: "take 3 (vpath v) \<in> paths" "length (take 3 (vpath v)) = 3" "take 3 (vpath v) @ [vidx v 0] = vpath v"
    using take_vpath_in[of 3 v] by (simp_all add: vpath_def)
  have tin: "t \<in> tables (mem_ents (kmem ?st)) r" using t' p3(1) by (auto intro: tablesI)
  note tt = pt_wf_table[OF wf' tin]
  have nz: "?pe \<noteq> 0" by (rule entry_not_null[OF wf' tin]) simp
  have "paging_unmap_in r v st = Inr ?st'"
    using wf t nz pt_wf_root(1)[OF wf]
      walk_lookup[of "st\<lparr>klog := klog st @ ?w\<rparr>" r 3 "ALIGN_DOWN v PAGE_SIZE"] walk_lookup[of st r 3 v]
    by (simp add: paging_unmap_in_def paging_walk_def PML1_def PML4_def ALIGN_DOWN_mod ALIGN_DOWN_id assign_def log_msg_def)
  moreover have "pt_wf ?st' r" "aspace ?st' r = (aspace st r)(vpage v := None)"
  proof -
    note wl = pt_wf_write_leaf[where i = "vidx v 0" and e = 0, OF wf' t' p3(1,2) vidx_less, unfolded p3(3)]
    show "pt_wf ?st' r" using wl(1) by simp
    have "\<forall>q\<in>page_paths. st_leaf ?st' r q = (if q = vpath v then 0 else st_leaf st r q)" using wl(2) by simp
    from aspace_upd[OF this] show "aspace ?st' r = (aspace st r)(vpage v := None)" by (simp add: present_def)
  qed
  moreover have "phys_step st ?st'"
    using phys_step_write[OF _ tt(3), of "vidx v 0" 0] wf' by (simp add: pt_wf_def)
  ultimately show thesis by (intro that)
qed

lemma aspace_table:
  assumes "aspace st r (vpage v) \<noteq> None"
  obtains t where "st_tab st r (take 3 (vpath v)) = Some t"
  using assms by (cases "st_tab st r (take 3 (vpath v))")
    (auto simp: aspace_vpage leaf_def vpath_def present_def split: if_splits)

section \<open>A small machine\<close>

text \<open>The machine of the theory Pmm with an empty page table in its one used frame.\<close>

abbreviation demo_root :: addr where "demo_root \<equiv> 0x1001000"

lemma mem_ents_zero: "mem_ents (\<lambda>_. 0) t i = 0"
  by (rule bit_word_eqI) (simp add: mem_ents_def bit_load)

lemma demo_frame:
  assumes "k < 4"
  shows "clear_frame demo_pmm (0x1000000 + of_nat k * 0x1000)"
    "i < 512 \<Longrightarrow> mem_ents (kmem demo_pmm) (0x1000000 + of_nat k * 0x1000) i = 0"
proof -
  let ?t = "0x1000000 + of_nat k * 0x1000 :: addr"
  have k: "k \<in> {0, 1, 2, 3}" using assms by auto
  have ap: "apart 0x9000 1 ?t 4096" "apart 0x9008 1 ?t 4096" using k by (auto simp: apart_def)
  have bz: "unat (bitmap_size_bytes (bitmap (mem_zone demo_pmm ! z))) = 1 \<and>
      data (bitmap (mem_zone demo_pmm ! z)) = (if z = 0 then 0x9000 else 0x9008)" if "z < PMM_NUM_ZONES" for z
    using that by (auto simp: demo_pmm_def demo_zone_def two_zones unat_bitmap_size_bytes)
  show "clear_frame demo_pmm ?t"
    unfolding clear_frame_def using bz ap by (auto dest: apartD)
  show "i < 512 \<Longrightarrow> mem_ents (kmem demo_pmm) ?t i = 0"
  proof -
    assume "i < 512"
    moreover have "kmem demo_pmm x = 0" if "in_region ?t 4096 x" for x
      using apartD[OF ap(2) that] by (auto simp: demo_pmm_def in_region_def)
    ultimately have "mem_ents (kmem demo_pmm) ?t i = mem_ents (\<lambda>_. 0) ?t i" by (intro mem_ents_cong)
    then show ?thesis by (simp add: mem_ents_zero)
  qed
qed

lemma demo_tables:
  assumes "p \<in> paths" "tab (mem_ents (kmem demo_pmm)) demo_root p = Some t"
  shows "p = [] \<and> t = demo_root"
proof (cases p)
  case (Cons i q)
  then have "mem_ents (kmem demo_pmm) demo_root i = 0"
    using assms(1) demo_frame(2)[of 1 i] by (auto simp: paths_def)
  then show ?thesis using assms(2) Cons by (simp add: child_def present_def)
qed (use assms in simp)

lemma demo_free_frame:
  assumes "free_frame demo_pmm f"
  obtains k where "k < 4" "f = 0x1000000 + of_nat k * 0x1000"
proof -
  obtain k where k: "k < 4" "unat f = 0x1000000 + 4096 * k"
    using assms by (auto simp: free_frame_def num_pages_def zone_base_def demo_pmm_def demo_zone_def PMM_ZONE_NORMAL_def)
  then have "f = of_nat (0x1000000 + 4096 * k)" by (metis of_nat_unat_diff diff_zero)
  with that[OF k(1)] show thesis by (simp add: mult.commute)
qed

lemma demo_pt_wf: "pt_wf demo_pmm demo_root"
proof -
  have "page_used demo_pmm 1 1" by code_simp
  then have "frame_used demo_pmm demo_root"
    unfolding frame_used_def
    by (intro exI[of _ 1] conjI) (simp_all add: PMM_NUM_ZONES_def num_pages_def zone_base_def demo_pmm_def demo_zone_def)
  moreover have "clear_frame demo_pmm demo_root" using demo_frame(1)[of 1] by simp
  moreover have "free_frames_ready demo_pmm"
    unfolding free_frames_ready_def
  proof (intro allI impI)
    fix f assume "free_frame demo_pmm f"
    then obtain k where k: "k < 4" "f = 0x1000000 + of_nat k * 0x1000" by (rule demo_free_frame)
    moreover from k(1) have "k \<in> {0, 1, 2, 3}" by auto
    then have "f \<noteq> 0" "unat f < 2 ^ 52" using k(2) by auto
    ultimately show "f \<noteq> 0 \<and> unat f < 2 ^ 52 \<and> clear_frame demo_pmm f \<and> (\<forall>i<512. mem_ents (kmem demo_pmm) f i = 0)"
      using demo_frame[OF k(1)] by auto
  qed
  ultimately show ?thesis
    using demo_pmm_wf by (auto simp: pt_wf_def tree_def tables_def dest: demo_tables)
qed

subsection \<open>The kernel's address space\<close>

lemma aspace_create:
  assumes "pmm_wf st" "free_frames_ready st" "paging_create st = Inr (c, st')"
  shows "aspace st' c = Map.empty"
  using pt_wf_create(2)[OF assms] by (auto simp: aspace_def present_def fun_eq_iff)

lemma maps_in_loop:
  assumes "paging_maps_in r v p num flags st = Inr st'"
  obtains v' p' where "for_natE (unat num) (\<lambda>i (vaddr, paddr, st).
      kbind (paging_map_in r vaddr paddr flags st) (\<lambda>st. Inr (vaddr + PAGE_SIZE, paddr + PAGE_SIZE, st))) (v, p, st)
      = Inr (v', p', st')"
  using assms by (auto simp: paging_maps_in_def for_u64E_def kbind_eq_Inr)

text \<open>The pages of a range of the kernel image, and the ranges that can be mapped.\<close>

definition pmr_pages :: "pmr \<Rightarrow> nat set" where
  "pmr_pages e = (\<lambda>k. vpage (pmr_base e + of_nat k * PAGE_SIZE)) ` {..< unat (pmr_length e div PAGE_SIZE)}"

definition pmr_ok :: "u64 \<Rightarrow> u64 \<Rightarrow> pmr \<Rightarrow> bool" where
  "pmr_ok pbase vbase e \<longleftrightarrow>
     unat (pbase + (pmr_base e - vbase)) + 4096 * unat (pmr_length e div PAGE_SIZE) \<le> 2 ^ 52"

lemma kernel_flags:
  "mapper_wf r PAGE_PRESENT st = pt_wf st r" "mapper_wf r (PAGE_PRESENT OR PAGE_WRITABLE) st = pt_wf st r"
  by (simp_all add: mapper_wf_def PAGE_ADDR_eq PAGE_WRITABLE_def) 
     (simp_all add: PAGE_PRESENT_def PAGE_ADDR_eq[symmetric] PAGE_ADDR_def)

lemma pmr_log:
  obtains l where "paging_map_pmr W r pbase vbase e st =
    paging_maps_in r (pmr_base e) (pbase + (pmr_base e - vbase)) (pmr_length e div PAGE_SIZE)
      (if pmr_permissions e AND W \<noteq> 0 then PAGE_PRESENT OR PAGE_WRITABLE else PAGE_PRESENT) (st\<lparr>klog := l\<rparr>)"
proof (cases "pmr_length e mod PAGE_SIZE = 0")
  case True
  then show thesis using that[of "klog st"] by (simp add: paging_map_pmr_def Let_def)
next
  case False
  then show thesis
    using that[of "klog st @ [(WARNING, ''[paging_init] pmr with base: 0x%lx has length non multiple of page size: 0x%lx.'')]"]
    by (simp add: paging_map_pmr_def Let_def log_msg_def)
qed

lemma paging_map_pmr_others:
  assumes wf: "pt_wf st r" and ok: "pmr_ok pbase vbase e" and res: "paging_map_pmr W r pbase vbase e st = Inr st'"
  shows "pt_wf st' r \<and> (\<forall>m. m \<notin> pmr_pages e \<longrightarrow> aspace st' r m = aspace st r m)"
proof -
  let ?fl = "if pmr_permissions e AND W \<noteq> 0 then PAGE_PRESENT OR PAGE_WRITABLE else PAGE_PRESENT"
  obtain l where "paging_maps_in r (pmr_base e) (pbase + (pmr_base e - vbase)) (pmr_length e div PAGE_SIZE) ?fl
      (st\<lparr>klog := l\<rparr>) = Inr st'"
    by (rule pmr_log[of W r pbase vbase e st, unfolded res]) (rule that, rule sym)
  then obtain v' p' where loop: "for_natE (unat (pmr_length e div PAGE_SIZE)) (\<lambda>i (vaddr, paddr, st).
      kbind (paging_map_in r vaddr paddr ?fl st) (\<lambda>st. Inr (vaddr + PAGE_SIZE, paddr + PAGE_SIZE, st)))
      (pmr_base e, pbase + (pmr_base e - vbase), st\<lparr>klog := l\<rparr>) = Inr (v', p', st')"
    by (rule maps_in_loop)
  have "mapper_wf r ?fl (st\<lparr>klog := l\<rparr>)" using wf by (simp add: kernel_flags)
  from map_in.maps_others[OF this loop] ok show ?thesis
    by (auto simp: pmr_ok_def mapper_wf_def pmr_pages_def)
qed

lemma paging_map_pmrs_others:
  assumes "pt_wf st r" "\<forall>e\<in>set es. pmr_ok pbase vbase e" "paging_map_pmrs W r pbase vbase es st = Inr st'"
  shows "pt_wf st' r \<and> (\<forall>m. (\<forall>e\<in>set es. m \<notin> pmr_pages e) \<longrightarrow> aspace st' r m = aspace st r m)"
  using assms
proof (induction es arbitrary: st)
  case (Cons e es)
  then obtain s where s: "paging_map_pmr W r pbase vbase e st = Inr s" "paging_map_pmrs W r pbase vbase es s = Inr st'"
    by (auto simp: kbind_eq_Inr)
  have "pt_wf s r \<and> (\<forall>m. m \<notin> pmr_pages e \<longrightarrow> aspace s r m = aspace st r m)"
    using paging_map_pmr_others[OF Cons.prems(1) _ s(1)] Cons.prems(2) by simp
  with Cons.IH[of s] s(2) Cons.prems(2) show ?case by auto
qed simp

lemma maps_in_panics:
  assumes "mapper_wf r flags st" "unat p + 4096 * unat num \<le> 2 ^ 52" "paging_maps_in r v p num flags st = Inl e"
  shows "\<exists>msg. e = Panic msg"
proof (rule map_in.maps_panics[OF assms(1) _ assms(2)])
  show "for_natE (unat num) (\<lambda>i (vaddr, paddr, st).
      kbind (paging_map_in r vaddr paddr flags st) (\<lambda>st. Inr (vaddr + PAGE_SIZE, paddr + PAGE_SIZE, st))) (v, p, st) = Inl e"
    using assms(3) by (auto simp: paging_maps_in_def for_u64E_def kbind_def split: sum.splits)
qed

lemma paging_map_pmrs_panics:
  assumes "pt_wf st r" "\<forall>e\<in>set es. pmr_ok pbase vbase e" "paging_map_pmrs W r pbase vbase es st = Inl er"
  shows "\<exists>msg. er = Panic msg"
  using assms
proof (induction es arbitrary: st)
  case (Cons e es)
  show ?case
  proof (cases "paging_map_pmr W r pbase vbase e st")
    case (Inl er')
    let ?fl = "if pmr_permissions e AND W \<noteq> 0 then PAGE_PRESENT OR PAGE_WRITABLE else PAGE_PRESENT"
    obtain l where eq: "paging_map_pmr W r pbase vbase e st =
      paging_maps_in r (pmr_base e) (pbase + (pmr_base e - vbase)) (pmr_length e div PAGE_SIZE) ?fl (st\<lparr>klog := l\<rparr>)"
      by (rule pmr_log)
    have "er' = er" using Inl Cons.prems(3) by simp
    show ?thesis
    proof (rule maps_in_panics)
      show "mapper_wf r ?fl (st\<lparr>klog := l\<rparr>)" using Cons.prems(1) by (simp add: kernel_flags)
      show "unat (pbase + (pmr_base e - vbase)) + 4096 * unat (pmr_length e div PAGE_SIZE) \<le> 2 ^ 52"
        using Cons.prems(2) by (simp add: pmr_ok_def)
      show "paging_maps_in r (pmr_base e) (pbase + (pmr_base e - vbase)) (pmr_length e div PAGE_SIZE) ?fl (st\<lparr>klog := l\<rparr>) = Inl er"
        using Inl \<open>er' = er\<close> by (simp only: eq[symmetric])
    qed
  next
    case (Inr s)
    then have "pt_wf s r" using paging_map_pmr_others[OF Cons.prems(1) _ Inr] Cons.prems(2) by simp
    then show ?thesis using Cons.IH[of s] Cons.prems Inr by simp
  qed
qed simp

text \<open>Mapping a range of unmapped pages, in one statement.\<close>

lemma maps_in_run:
  assumes mw: "mapper_wf r flags st" and bounds: "unat num \<le> 2 ^ 36" "unat p + 4096 * unat num \<le> 2 ^ 52"
    and un: "\<forall>k < unat num. aspace st r (vpage (v + of_nat k * PAGE_SIZE)) = None"
  obtains (fail) msg where "paging_maps_in r v p num flags st = Inl (Panic msg)" "avail st < 3 * unat num"
  | (go) st' where "paging_maps_in r v p num flags st = Inr st'" "pt_wf st' r" "avail st \<le> avail st' + 3 * unat num"
      "\<forall>k < unat num. aspace st' r (vpage (v + of_nat k * PAGE_SIZE)) = Some (ALIGN_DOWN (p + of_nat k * PAGE_SIZE) PAGE_SIZE)"
      "\<forall>m. (\<forall>k < unat num. m \<noteq> vpage (v + of_nat k * PAGE_SIZE)) \<longrightarrow> aspace st' r m = aspace st r m"
proof -
  let ?loop = "for_natE (unat num) (\<lambda>i (vaddr, paddr, st).
      kbind (paging_map_in r vaddr paddr flags st) (\<lambda>st. Inr (vaddr + PAGE_SIZE, paddr + PAGE_SIZE, st))) (v, p, st)"
  consider (f) msg where "?loop = Inl (Panic msg)" "avail st < 3 * unat num"
    | (g) v' p' st' where "?loop = Inr (v', p', st')"
    using map_in.maps_total[OF mw bounds un] by blast
  then show thesis
  proof cases
    case f
    then show thesis by (intro fail) (simp_all add: paging_maps_in_def for_u64E_def)
  next
    case g
    then have "paging_maps_in r v p num flags st = Inr st'" by (simp add: paging_maps_in_def for_u64E_def)
    then show thesis
      using map_in.maps_range[OF mw g bounds un] by (intro go[of st']) (simp_all add: mapper_wf_def)
  qed
qed

text \<open>One of the two direct maps: \<open>num\<close> pages from \<open>v0\<close> on to the frames from the second one on.\<close>

lemma direct_map_range:
  assumes wf: "pt_wf st r" and N: "unat num < 2 ^ 35" and free: "\<forall>k < unat num. aspace st r (vpage (v0 + of_nat k * PAGE_SIZE)) = None"
  obtains (fail) msg where "paging_maps_in r v0 PAGE_SIZE num (PAGE_PRESENT OR PAGE_WRITABLE) st = Inl (Panic msg)" "avail st < 3 * unat num"
  | (go) st' where "paging_maps_in r v0 PAGE_SIZE num (PAGE_PRESENT OR PAGE_WRITABLE) st = Inr st'" "pt_wf st' r"
      "avail st \<le> avail st' + 3 * unat num"
      "\<forall>k < unat num. aspace st' r (vpage (v0 + of_nat k * PAGE_SIZE)) = Some (of_nat (4096 * Suc k))"
      "\<forall>m. (\<forall>k < unat num. m \<noteq> vpage (v0 + of_nat k * PAGE_SIZE)) \<longrightarrow> aspace st' r m = aspace st r m"
proof -
  have pre: "mapper_wf r (PAGE_PRESENT OR PAGE_WRITABLE) st" "unat num \<le> 2 ^ 36" "unat PAGE_SIZE + 4096 * unat num \<le> 2 ^ 52"
    using wf N by (simp_all add: kernel_flags PAGE_SIZE_eq)
  have frame: "ALIGN_DOWN (PAGE_SIZE + of_nat k * PAGE_SIZE) PAGE_SIZE = of_nat (4096 * Suc k)" if "k < unat num" for k
  proof -
    have "unat (of_nat (4096 * Suc k) :: u64) = 4096 * Suc k" using that N by (intro unat_of_nat_small) simp
    then have "ALIGN_DOWN (of_nat (4096 * Suc k)) PAGE_SIZE = (of_nat (4096 * Suc k) :: u64)"
      by (intro ALIGN_DOWN_id kres_page_aligned) (simp only: mod_mult_self1_is_0)
    then show ?thesis by (simp add: PAGE_SIZE_eq algebra_simps)
  qed
  show thesis
    by (rule maps_in_run[OF pre free]) (use fail go frame in auto)
qed

lemma direct_pages:
  assumes "k < 2 ^ 35 - 1"
  shows "vpage (PAGE_SIZE + of_nat k * PAGE_SIZE) = Suc k" "vpage (P2V PAGE_SIZE + of_nat k * PAGE_SIZE) = 2 ^ 35 + Suc k"
proof -
  have "vpage PAGE_SIZE = 1" "vpage (P2V PAGE_SIZE) = 2 ^ 35 + 1"
    by (simp_all add: vpage_def PAGE_SIZE_eq P2V_def VA_HHDM_def)
  then show "vpage (PAGE_SIZE + of_nat k * PAGE_SIZE) = Suc k"
    "vpage (P2V PAGE_SIZE + of_nat k * PAGE_SIZE) = 2 ^ 35 + Suc k"
    using assms by (simp_all add: vpage_plus)
qed

lemma paging_direct_maps_run:
  assumes wf: "pt_wf st r" and mem: "get_mem_size memmap = Inr mem_end" "4096 \<le> unat mem_end" "unat mem_end < 2 ^ 47"
    and free: "\<forall>m. 0 < m \<and> m < unat mem_end div 4096 \<longrightarrow> aspace st r m = None \<and> aspace st r (2 ^ 35 + m) = None"
  obtains (fail) msg where "paging_direct_maps r memmap st = Inl (Panic msg)" "avail st < 6 * (unat mem_end div 4096)"
  | (go) st' where "paging_direct_maps r memmap st = Inr st'"
      "\<forall>m. 0 < m \<and> m < unat mem_end div 4096 \<longrightarrow>
        aspace st' r m = Some (of_nat (4096 * m)) \<and> aspace st' r (2 ^ 35 + m) = Some (of_nat (4096 * m))"
proof -
  let ?num = "(mem_end - PAGE_SIZE) div PAGE_SIZE" and ?fl = "PAGE_PRESENT OR PAGE_WRITABLE"
  have num: "unat ?num = unat mem_end div 4096 - 1"
    using mem(2) by (simp add: unat_div PAGE_SIZE_eq unat_sub word_le_nat_alt le_div_geq)
  let ?w = "[(WARNING, ''[paging_init] mem_length is not a multiple of page size: 0x%lx'')]"
  let ?st = "st\<lparr>klog := klog st @ (if (mem_end - PAGE_SIZE) mod PAGE_SIZE \<noteq> 0 then ?w else [])\<rparr>"
  have eq: "paging_direct_maps r memmap st =
      kbind (paging_maps_in r PAGE_SIZE PAGE_SIZE ?num ?fl ?st) (paging_maps_in r (P2V PAGE_SIZE) PAGE_SIZE ?num ?fl)"
    using mem(1) by (simp add: paging_direct_maps_def Let_def log_msg_def)
  have N: "unat ?num < 2 ^ 35" "k < unat ?num \<Longrightarrow> k < 2 ^ 35 - 1" for k using num mem(3) by auto
  note dp = direct_pages[OF N(2)]
  have wf0: "pt_wf ?st r" using wf by simp
  have fr1: "\<forall>k < unat ?num. aspace ?st r (vpage (PAGE_SIZE + of_nat k * PAGE_SIZE)) = None"
    using free num dp(1) by auto
  show thesis
  proof (rule direct_map_range[OF wf0 N(1) fr1])
    fix msg assume "paging_maps_in r PAGE_SIZE PAGE_SIZE ?num ?fl ?st = Inl (Panic msg)" "avail ?st < 3 * unat ?num"
    then show thesis using eq num by (intro fail) auto
  next
    fix s assume s: "paging_maps_in r PAGE_SIZE PAGE_SIZE ?num ?fl ?st = Inr s" "pt_wf s r" "avail ?st \<le> avail s + 3 * unat ?num"
      "\<forall>k < unat ?num. aspace s r (vpage (PAGE_SIZE + of_nat k * PAGE_SIZE)) = Some (of_nat (4096 * Suc k))"
      "\<forall>m. (\<forall>k < unat ?num. m \<noteq> vpage (PAGE_SIZE + of_nat k * PAGE_SIZE)) \<longrightarrow> aspace s r m = aspace ?st r m"
    have high: "aspace s r (2 ^ 35 + Suc k) = None" if "k < unat ?num" for k
    proof -
      have "aspace s r (2 ^ 35 + Suc k) = aspace ?st r (2 ^ 35 + Suc k)"
        using s(5)[rule_format, of "2 ^ 35 + Suc k"] dp(1) N by fastforce
      also have "\<dots> = None" using free[rule_format, of "Suc k"] that num by auto
      finally show ?thesis .
    qed
    then have fr2: "\<forall>k < unat ?num. aspace s r (vpage (P2V PAGE_SIZE + of_nat k * PAGE_SIZE)) = None" using dp(2) by simp
    show thesis
    proof (rule direct_map_range[OF s(2) N(1) fr2])
      fix msg assume "paging_maps_in r (P2V PAGE_SIZE) PAGE_SIZE ?num ?fl s = Inl (Panic msg)" "avail s < 3 * unat ?num"
      then show thesis using eq num s(1,3) by (intro fail) auto
    next
      fix st' assume b: "paging_maps_in r (P2V PAGE_SIZE) PAGE_SIZE ?num ?fl s = Inr st'"
        "\<forall>k < unat ?num. aspace st' r (vpage (P2V PAGE_SIZE + of_nat k * PAGE_SIZE)) = Some (of_nat (4096 * Suc k))"
        "\<forall>m. (\<forall>k < unat ?num. m \<noteq> vpage (P2V PAGE_SIZE + of_nat k * PAGE_SIZE)) \<longrightarrow> aspace st' r m = aspace s r m"
      have "aspace st' r m = Some (of_nat (4096 * m)) \<and> aspace st' r (2 ^ 35 + m) = Some (of_nat (4096 * m))"
        if m: "0 < m \<and> m < unat mem_end div 4096" for m
      proof -
        obtain k where k: "m = Suc k" "k < unat ?num" using num m by (cases m) auto
        have "m < 2 ^ 35" using N(2)[OF k(2)] k(1) by simp
        then have "aspace st' r m = aspace s r m" by (intro b(3)[rule_format]) (simp add: dp(2))
        then show ?thesis using s(4)[rule_format, OF k(2)] b(2)[rule_format, OF k(2)] dp[OF k(2)] k(1) by simp
      qed
      then show thesis using eq s(1) b(1) by (intro go[of st']) auto
    qed
  qed
qed

lemma pmm_views_paging [simp]:
  "pmm_wf (st\<lparr>intr := x\<rparr>) = pmm_wf st" "free_frames_ready (st\<lparr>intr := x\<rparr>) = free_frames_ready st"
  "pt_wf (st\<lparr>cr3 := y\<rparr>) r = pt_wf st r"
  by (simp_all add: pmm_wf_def num_pages_def zone_base_def free_frames_ready_def free_frame_def page_used_def
      clear_frame_def pt_wf_def frame_used_def)

definition log_only :: "'a kstate_scheme \<Rightarrow> 'a kstate_scheme \<Rightarrow> bool" where
  "log_only st st' \<longleftrightarrow> (\<exists>l. st' = st\<lparr>klog := l\<rparr>)"

lemma log_only_refl: "log_only st st"
  unfolding log_only_def by (rule exI[of _ "klog st"]) simp

lemma log_only_trans: "log_only a b \<Longrightarrow> log_only b c \<Longrightarrow> log_only a c"
  by (auto simp: log_only_def)

lemma log_only_msg: "log_only st (log_msg level msg st)"
  by (auto simp: log_only_def log_msg_def)

lemma log_only_fold:
  assumes "\<And>x s. log_only s (f x s)"
  shows "log_only st (fold f xs st)"
  by (induction xs arbitrary: st) (auto intro: log_only_refl log_only_trans assms)

lemma init_logs: "log_only st (print_memmap memmap (paging_log_tags pmrs st))"
proof -
  have "log_only s (let (level, msg) = memmap_message (kind x) in log_msg level msg (log_msg NONE ''%d: '' s))" for x s
    by (auto intro: log_only_trans log_only_msg split: prod.splits)
  then have "log_only st (print_memmap memmap st)" for st
    unfolding print_memmap_def by (rule log_only_trans[OF log_only_msg log_only_fold])
  moreover have "log_only st (paging_log_tags pmrs st)"
    unfolding paging_log_tags_def by (rule log_only_trans[OF _ log_only_fold], (rule log_only_trans[OF _ log_only_msg] log_only_msg)+)
      (rule log_only_refl log_only_msg)+
  ultimately show ?thesis by (blast intro: log_only_trans)
qed

lemma pmm_views_paging_state [simp]:
  "pmm_wf (st\<lparr>klog := l\<rparr>) = pmm_wf st" "free_frames_ready (st\<lparr>klog := l\<rparr>) = free_frames_ready st"
  "avail (st2\<lparr>intr := x\<rparr>) = avail st2"
  by (simp_all add: pmm_wf_def num_pages_def zone_base_def free_frames_ready_def free_frame_def page_used_def
      clear_frame_def avail_def free_pages_def)

text \<open>The stages of \<open>paging_init\<close>.\<close>

lemma paging_init_run:
  assumes pre: "pmm_wf st" "free_frames_ready st" "intr_wf (intr st)" "\<forall>e\<in>set pmrs. pmr_ok pbase vbase e"
    and res: "paging_init W h (Some (pbase, vbase)) (Some pmrs) (Some hh) (Some memmap) st = res"
  obtains (fail) msg where "res = Inl (Panic msg)" "pmrs = [] \<longrightarrow> avail st = 0"
  | (go) r st2 where "pt_wf st2 r" "\<forall>m. (\<forall>e\<in>set pmrs. m \<notin> pmr_pages e) \<longrightarrow> aspace st2 r m = None"
      "pmrs = [] \<longrightarrow> avail st = Suc (avail st2)"
      "res = kbind (paging_direct_maps r memmap st2) (\<lambda>st. Inr (st\<lparr>cr3 := r\<rparr>))"
proof -
  obtain l where l: "print_memmap memmap (paging_log_tags pmrs st) = st\<lparr>klog := l\<rparr>"
    using init_logs[of st memmap pmrs] by (auto simp: log_only_def)
  let ?log = "log_msg NONE ''[paging_init] pml4_table: 0x%lx''"
  have "unat PAGE_FAULT_IRQ_VEC < 256" by (simp add: PAGE_FAULT_IRQ_VEC_def)
  then obtain i' where i': "register_intr_handler h PAGE_FAULT_IRQ_VEC (intr st) = Inr i'"
    using pre(3) by (auto simp: register_intr_handler_def intr_wf_def IDT_MAX_ENTRIES_def Let_def)
  let ?st = "st\<lparr>klog := l, intr := i'\<rparr>"
  have ready: "pmm_wf ?st" "free_frames_ready ?st" using pre(1,2) by simp_all
  have eq: "res = kbind (paging_create ?st) (\<lambda>(r, st).
      kbind (paging_map_pmrs W r pbase vbase pmrs (?log st)) (\<lambda>st.
      kbind (paging_direct_maps r memmap st) (\<lambda>st. Inr (st\<lparr>cr3 := r\<rparr>))))"
    by (simp add: res[symmetric] paging_init_def l i' Let_def)
  show thesis
  proof (cases "paging_create ?st")
    case (Inl e)
    then show thesis using fail paging_create_panics[OF ready(1) Inl] eq by auto
  next
    case (Inr rs)
    obtain r st1 where rs: "rs = (r, st1)" by (cases rs)
    with Inr have create: "paging_create ?st = Inr (r, st1)" by simp
    have wf1: "pt_wf (?log st1) r" using pt_wf_create(1)[OF ready create] by simp
    have empty: "aspace (?log st1) r m = None" for m using aspace_create[OF ready create] by simp
    show thesis
    proof (cases "paging_map_pmrs W r pbase vbase pmrs (?log st1)")
      case (Inl e)
      then show thesis using fail paging_map_pmrs_panics[OF wf1 pre(4) Inl] eq create by (cases pmrs) auto
    next
      case (Inr st2)
      have "avail st = Suc (avail st2)" if "pmrs = []"
        using paging_create_facts(7)[OF ready create] Inr that by auto
      then show thesis
        using go[of st2 r] paging_map_pmrs_others[OF wf1 pre(4) Inr] empty eq create Inr by simp
    qed
  qed
qed

section \<open>Properties\<close>

text \<open>C6. \<open>__paging_map\<close> implements the update of an address space: with well-formed tables, flags
  that include \<open>PAGE_PRESENT\<close> and no address bits, and a physical address below 2^52 it returns, or
  panics when fewer than three frames can be allocated; it never dereferences a null pointer. If
  the page was not mapped, afterwards every address of the page is translated into the frame at
  the same offset; if it was, its translation is kept. The translation of every other page is
  unchanged and the tables stay well formed.\<close>

theorem paging_map_in_correct:
  assumes "pt_wf st r" "flags AND PAGE_ADDR = 0" "flags AND PAGE_PRESENT = PAGE_PRESENT" "unat p < 2 ^ 52"
  shows "(\<exists>msg. paging_map_in r v p flags st = Inl (Panic msg) \<and> avail st < 3) \<or>
    (\<exists>st'. paging_map_in r v p flags st = Inr st' \<and> pt_wf st' r \<and>
       (\<forall>w. translate (mem_ents (kmem st')) r w =
          (if vpage w = vpage v \<and> translate (mem_ents (kmem st)) r v = None
           then Some (ALIGN_DOWN p PAGE_SIZE + take_bit 12 w)
           else translate (mem_ents (kmem st)) r w)))"
proof -
  have fl: "flags AND addr_bits = 0" "present flags" using assms(2,3) by (simp_all add: PAGE_ADDR_eq present_and)
  show ?thesis
    by (rule paging_map_in_aspace[OF assms(1) fl assms(4) refl, of v]) (auto simp: translate_aspace)
qed

lemma demo_avail: "avail demo_pmm = 3"
proof -
  have "{k \<in> free_pages demo_pmm PMM_ZONE_NORMAL. unat (first_free_idx (mem_zone demo_pmm ! PMM_ZONE_NORMAL)) \<le> k} = {0, 2, 3}"
    using demo_free_pages(2) by (auto simp: PMM_ZONE_NORMAL_def demo_pmm_def demo_zone_def)
  then show ?thesis by (simp add: avail_def)
qed

lemma demo_flags: "3 AND PAGE_ADDR = 0" "3 AND PAGE_PRESENT = PAGE_PRESENT"
  by (simp_all add: PAGE_ADDR_def PAGE_PRESENT_def)

lemma demo_unmapped: "aspace demo_pmm demo_root (vpage v) = None"
proof -
  have "vidx v 3 < 512" by simp
  then have "mem_ents (kmem demo_pmm) demo_root (vidx v 3) = 0" using demo_frame(2)[of 1] by simp
  then have "st_tab demo_pmm demo_root (take 3 (vpath v)) = None" by (simp add: vpath_def child_def present_def)
  then show ?thesis using aspace_table[of demo_pmm demo_root v] by fastforce
qed

lemma demo_translate: "translate (mem_ents (kmem demo_pmm)) demo_root v = None"
  by (simp add: translate_aspace demo_unmapped)

theorem paging_map_in_correct_witness:
  "\<exists>st'. paging_map_in demo_root 0xffff800000005000 0x2345000 3 demo_pmm = Inr st' \<and> pt_wf st' demo_root \<and>
     translate (mem_ents (kmem st')) demo_root 0xffff800000005678 = Some 0x2345678 \<and>
     translate (mem_ents (kmem st')) demo_root 0x5678 = None"
proof -
  have p: "unat (0x2345000 :: addr) < 2 ^ 52" by simp
  have "vpage 0x5678 \<noteq> vpage 0xffff800000005000" "vpage 0xffff800000005678 = vpage 0xffff800000005000"
    by (simp_all add: vpage_def)
  moreover have "ALIGN_DOWN 0x2345000 PAGE_SIZE + take_bit 12 (0xffff800000005678 :: addr) = 0x2345678"
    by code_simp
  ultimately show ?thesis
    using paging_map_in_correct[OF demo_pt_wf demo_flags p, of "0xffff800000005000"] demo_avail demo_translate
    by auto
qed

text \<open>C7. \<open>__paging_maps\<close> maps a range of pages that are not mapped yet: it returns unless fewer than
  three frames per page can be allocated; then each of the \<open>num\<close> consecutive pages is translated
  to its own consecutive frame, and no other page's translation changes.\<close>

theorem paging_maps_in_correct:
  assumes "pt_wf st r" "flags AND PAGE_ADDR = 0" "flags AND PAGE_PRESENT = PAGE_PRESENT"
    and "unat num \<le> 2 ^ 36" "unat p + 4096 * unat num \<le> 2 ^ 52"
    and "\<forall>k < unat num. translate (mem_ents (kmem st)) r (v + of_nat k * PAGE_SIZE) = None"
  shows "(\<exists>msg. paging_maps_in r v p num flags st = Inl (Panic msg) \<and> avail st < 3 * unat num) \<or>
    (\<exists>st'. paging_maps_in r v p num flags st = Inr st' \<and> pt_wf st' r \<and>
      (\<forall>w. \<forall>k < unat num. vpage w = vpage (v + of_nat k * PAGE_SIZE) \<longrightarrow>
         translate (mem_ents (kmem st')) r w = Some (ALIGN_DOWN (p + of_nat k * PAGE_SIZE) PAGE_SIZE + take_bit 12 w)) \<and>
      (\<forall>w. (\<forall>k < unat num. vpage w \<noteq> vpage (v + of_nat k * PAGE_SIZE)) \<longrightarrow>
         translate (mem_ents (kmem st')) r w = translate (mem_ents (kmem st)) r w))"
proof -
  have mw: "mapper_wf r flags st" using assms(1-3) by (simp add: mapper_wf_def)
  have un: "\<forall>k < unat num. aspace st r (vpage (v + of_nat k * PAGE_SIZE)) = None"
    using assms(6) by (simp add: translate_aspace)
  show ?thesis by (rule maps_in_run[OF mw assms(4,5) un]) (simp_all add: translate_aspace)
qed

theorem paging_maps_in_correct_witness:
  "\<exists>st'. paging_maps_in demo_root 0x400000 0x2345000 1 3 demo_pmm = Inr st' \<and> pt_wf st' demo_root \<and>
     translate (mem_ents (kmem st')) demo_root 0x400234 = Some 0x2345234"
proof -
  have pre: "unat (1 :: u64) \<le> 2 ^ 36" "unat (0x2345000 :: addr) + 4096 * unat (1 :: u64) \<le> 2 ^ 52"
    "\<forall>k < unat (1 :: u64). translate (mem_ents (kmem demo_pmm)) demo_root (0x400000 + of_nat k * PAGE_SIZE) = None"
    by (simp_all add: demo_translate)
  have "vpage 0x400234 = vpage 0x400000" by (simp add: vpage_def)
  moreover have "ALIGN_DOWN 0x2345000 PAGE_SIZE + take_bit 12 (0x400234 :: addr) = 0x2345234" by code_simp
  ultimately show ?thesis
    using paging_maps_in_correct[OF demo_pt_wf demo_flags pre] demo_avail by auto
qed

text \<open>C9. Unmapping: if there is a last-level table for the address, \<open>__paging_unmap\<close> removes exactly
  that page from the address space; if there is none, it writes through a null pointer.\<close>

theorem paging_unmap_in_correct:
  assumes "pt_wf st r"
  shows "(st_tab st r (take 3 (vpath v)) = None \<longrightarrow> paging_unmap_in r v st = Inl Null_deref) \<and>
    (st_tab st r (take 3 (vpath v)) \<noteq> None \<longrightarrow>
      (\<exists>st'. paging_unmap_in r v st = Inr st' \<and> pt_wf st' r \<and>
         (\<forall>w. translate (mem_ents (kmem st')) r w =
            (if vpage w = vpage v then None else translate (mem_ents (kmem st)) r w))))"
proof (intro conjI impI)
  assume "st_tab st r (take 3 (vpath v)) = None"
  then show "paging_unmap_in r v st = Inl Null_deref" by (rule paging_unmap_in_None[OF assms])
next
  assume "st_tab st r (take 3 (vpath v)) \<noteq> None"
  then obtain t where "st_tab st r (take 3 (vpath v)) = Some t" by auto
  from paging_unmap_in_Some[OF assms this] obtain st' where
    "paging_unmap_in r v st = Inr st'" "pt_wf st' r" "aspace st' r = (aspace st r)(vpage v := None)" by metis
  then show "\<exists>st'. paging_unmap_in r v st = Inr st' \<and> pt_wf st' r \<and>
      (\<forall>w. translate (mem_ents (kmem st')) r w = (if vpage w = vpage v then None else translate (mem_ents (kmem st)) r w))"
    by (intro exI[of _ st']) (simp add: translate_aspace)
qed

theorem paging_unmap_in_correct_witness: "paging_unmap_in demo_root 0x400000 demo_pmm = Inl Null_deref"
proof -
  have "st_tab demo_pmm demo_root (take 3 (vpath 0x400000)) = None"
  proof (cases "st_tab demo_pmm demo_root (take 3 (vpath 0x400000))")
    case (Some t)
    then show ?thesis using demo_tables[OF take_vpath_in[of 3], of "0x400000" t] by (simp add: vpath_def)
  qed
  then show ?thesis using paging_unmap_in_correct[OF demo_pt_wf, of "0x400000"] by simp
qed

text \<open>Mapping a page that was not mapped and unmapping it again restores the translation of every
  address.\<close>

theorem paging_map_unmap_roundtrip:
  assumes "pt_wf st r" "flags AND PAGE_ADDR = 0" "flags AND PAGE_PRESENT = PAGE_PRESENT" "unat p < 2 ^ 52"
    and "translate (mem_ents (kmem st)) r v = None" "paging_map_in r v p flags st = Inr st1"
  shows "\<exists>st2. paging_unmap_in r v st1 = Inr st2 \<and>
    (\<forall>w. translate (mem_ents (kmem st2)) r w = translate (mem_ents (kmem st)) r w)"
proof -
  have fl: "flags AND addr_bits = 0" "present flags" using assms(2,3) by (simp_all add: PAGE_ADDR_eq present_and)
  have un: "aspace st r (vpage v) = None" using assms(5) by (simp add: translate_aspace)
  have m: "pt_wf st1 r" "aspace st1 r = (aspace st r)(vpage v \<mapsto> ALIGN_DOWN p PAGE_SIZE)"
    by (rule paging_map_in_aspace[OF assms(1) fl assms(4) assms(6)]; use un in simp)+
  then obtain t where "st_tab st1 r (take 3 (vpath v)) = Some t" using aspace_table[of st1 r v] by auto
  from paging_unmap_in_Some[OF m(1) this] obtain st2 where
    "paging_unmap_in r v st1 = Inr st2" "aspace st2 r = (aspace st1 r)(vpage v := None)" by metis
  moreover have "(aspace st1 r)(vpage v := None) = aspace st r" using m(2) un by (simp add: fun_upd_idem)
  ultimately show ?thesis by (intro exI[of _ st2]) (simp add: translate_aspace)
qed

theorem paging_map_unmap_roundtrip_witness:
  "\<exists>st1 st2. paging_map_in demo_root 0x400000 0x2345000 3 demo_pmm = Inr st1 \<and>
     paging_unmap_in demo_root 0x400000 st1 = Inr st2 \<and> translate (mem_ents (kmem st2)) demo_root 0x400000 = None"
proof -
  have p: "unat (0x2345000 :: addr) < 2 ^ 52" by simp
  have fl: "3 AND addr_bits = 0" "present 3" using demo_flags by (simp_all add: PAGE_ADDR_eq present_and)
  obtain st1 where st1: "paging_map_in demo_root 0x400000 0x2345000 3 demo_pmm = Inr st1"
    by (rule paging_map_in_aspace[OF demo_pt_wf fl p refl, of "0x400000"]) (use demo_avail in auto)
  with paging_map_unmap_roundtrip[OF demo_pt_wf demo_flags p demo_translate st1] show ?thesis
    using demo_translate by auto
qed

lemma unat_P2V: "unat a < 2 ^ 47 \<Longrightarrow> unat (P2V a) = unat a + 4096 * 4503565267632128"
  by (simp add: P2V_def VA_HHDM_def unat_plus_if')

lemma vpage_P2V:
  assumes "unat a < 2 ^ 47"
  shows "vpage (P2V a) = 2 ^ 35 + unat a div 4096"
proof -
  have "unat (P2V a) div 4096 = (unat a div 4096 + 2 ^ 35) + 65535 * 2 ^ 36"
    unfolding unat_P2V[OF assms] by simp
  then have "vpage (P2V a) = (unat a div 4096 + 2 ^ 35) mod 2 ^ 36"
    unfolding vpage_def by (simp only: mod_mult_self1)
  then show ?thesis using assms by simp
qed

text \<open>The offset within a page, and the page itself, add up to the address.\<close>

lemma page_offset:
  assumes "unat a < 2 ^ 47"
  shows "of_nat (4096 * (unat a div 4096)) + take_bit 12 a = a" "take_bit 12 (P2V a) = take_bit 12 a"
proof -
  have "unat (of_nat (4096 * (unat a div 4096)) + take_bit 12 a :: u64) = 4096 * (unat a div 4096) + unat a mod 4096"
    using assms by (simp add: unat_plus_if' unat_take_bit unat_word_ariths mod_simps)
  then show "of_nat (4096 * (unat a div 4096)) + take_bit 12 a = a" by (simp add: word_unat_eq_iff)
  have p: "(2 :: nat) ^ 12 = 4096" by simp
  show "take_bit 12 (P2V a) = take_bit 12 a"
    unfolding word_unat_eq_iff unat_take_bit unat_P2V[OF assms] p by (rule mod_mult_self2)
qed


text \<open>A machine of 16 free frames with empty memory.\<close>

definition demo_boot :: paging_state where
  "demo_boot = \<lparr>kmem = (\<lambda>_. 0), klog = [], alloc_ptr = 0x900a, mem_size = 0x1010000,
     mem_zone = [demo_zone 0 0x9000 0x4000 0,
       \<lparr>mem_total = 0x10000, mem_free = 0x10000, mem_used = 0, offset = 0x1000000,
        bitmap = \<lparr>size_bits = 16, data = 0x9008\<rparr>, first_free_idx = 0, zone = 1\<rparr>],
     cr3 = 0, invalidated = [], intr = demo_intr\<rparr>"

lemma demo_boot_wf: "pmm_wf demo_boot"
  by (simp add: pmm_wf_def demo_boot_def demo_zone_def PMM_NUM_ZONES_def zone_base_def num_pages_def
      apart_def unat_bitmap_size_bytes)

lemma demo_boot_free: "free_pages demo_boot 1 = {..<16}"
  by (auto simp: free_pages_def num_pages_def page_used_def demo_boot_def bit_at_def bitmap_get_def)

lemma demo_boot_avail: "avail demo_boot = 16"
proof -
  have "{k \<in> free_pages demo_boot PMM_ZONE_NORMAL. unat (first_free_idx (mem_zone demo_boot ! PMM_ZONE_NORMAL)) \<le> k} = {..<16}"
    using demo_boot_free by (auto simp: PMM_ZONE_NORMAL_def demo_boot_def)
  then show ?thesis by (simp add: avail_def)
qed

lemma demo_boot_ready: "free_frames_ready demo_boot"
  unfolding free_frames_ready_def
proof (intro allI impI)
  fix f assume "free_frame demo_boot f"
  then obtain k where k: "k < 16" "unat f = 0x1000000 + 4096 * k"
    by (auto simp: free_frame_def num_pages_def zone_base_def demo_boot_def PMM_ZONE_NORMAL_def)
  have ap: "apart 0x9000 1 f 4096" "apart 0x9008 2 f 4096" using k by (auto simp: apart_def unat_sub_if')
  have "clear_frame demo_boot f"
    unfolding clear_frame_def using ap
    by (auto simp: two_zones demo_boot_def demo_zone_def unat_bitmap_size_bytes dest: apartD)
  moreover have "f \<noteq> 0" "unat f < 2 ^ 52" using k by auto
  ultimately show "f \<noteq> 0 \<and> unat f < 2 ^ 52 \<and> clear_frame demo_boot f \<and> (\<forall>i<512. mem_ents (kmem demo_boot) f i = 0)"
    by (simp add: mem_ents_zero demo_boot_def)
qed


text \<open>The accessors of an entry work on disjoint parts of it: after \<open>paging_set_flags\<close> the flags test
  as set and the address is kept, \<open>paging_clear_flags\<close> undoes it for flags that were clear,
  \<open>paging_get_paddr\<close> returns what \<open>paging_set_paddr\<close> stored (rounded to a page, cut to 52 bits) and
  the other bits survive; a request that would touch the address bits through the flags changes
  nothing in memory.\<close>

theorem paging_entry_accessors:
  assumes "p \<noteq> 0" "unat p mod 8 = 0"
  shows "(flags AND PAGE_ADDR = 0 \<longrightarrow>
      (\<exists>st1. paging_set_flags p flags st = Inr st1 \<and> paging_check_flags p flags st1 = Inr (True, st1) \<and>
         paging_get_paddr p st1 = paging_get_paddr p st \<and>
         (read64 (kmem st) p AND flags = 0 \<longrightarrow>
            (\<exists>st2. paging_clear_flags p flags st1 = Inr st2 \<and> read64 (kmem st2) p = read64 (kmem st) p)))) \<and>
    (flags AND PAGE_ADDR \<noteq> 0 \<longrightarrow>
      (\<exists>st1 st2. paging_set_flags p flags st = Inr st1 \<and> kmem st1 = kmem st \<and>
         paging_clear_flags p flags st = Inr st2 \<and> kmem st2 = kmem st)) \<and>
    (\<exists>st3. paging_set_paddr p paddr st = Inr st3 \<and>
       paging_get_paddr p st3 = Inr (ALIGN_DOWN paddr PAGE_SIZE AND PAGE_ADDR) \<and>
       read64 (kmem st3) p AND NOT PAGE_ADDR = read64 (kmem st) p AND NOT PAGE_ADDR)"
proof (intro conjI impI)
  let ?e = "read64 (kmem st) p"
  assume fl: "flags AND PAGE_ADDR = 0"
  let ?st1 = "st\<lparr>kmem := write64 (kmem st) p (?e OR flags)\<rparr>"
  have b: "\<not> (bit flags n \<and> bit PAGE_ADDR n)" for n using fl by (metis bit_0_eq bit_and_iff bot_apply bot_bool_def)
  have "(?e OR flags) AND PAGE_ADDR = ?e AND PAGE_ADDR" by (rule bit_word_eqI) (use b in \<open>auto simp: bit_simps\<close>)
  moreover have "(?e OR flags) AND NOT flags = ?e" if "?e AND flags = 0"
  proof -
    have "\<not> (bit ?e n \<and> bit flags n)" for n using that by (metis bit_0_eq bit_and_iff bot_apply bot_bool_def)
    then show ?thesis by (intro bit_word_eqI) (auto simp: bit_simps)
  qed
  moreover have "(?e OR flags) AND flags = flags" by (rule bit_word_eqI) (auto simp: bit_simps)
  ultimately show "\<exists>st1. paging_set_flags p flags st = Inr st1 \<and> paging_check_flags p flags st1 = Inr (True, st1) \<and>
      paging_get_paddr p st1 = paging_get_paddr p st \<and>
      (?e AND flags = 0 \<longrightarrow> (\<exists>st2. paging_clear_flags p flags st1 = Inr st2 \<and> read64 (kmem st2) p = ?e))"
    using assms fl
    by (intro exI[of _ ?st1])
      (simp add: paging_set_flags_def paging_check_flags_def paging_get_paddr_def paging_clear_flags_def deref_def assign_def)
next
  assume "flags AND PAGE_ADDR \<noteq> 0"
  then show "\<exists>st1 st2. paging_set_flags p flags st = Inr st1 \<and> kmem st1 = kmem st \<and>
      paging_clear_flags p flags st = Inr st2 \<and> kmem st2 = kmem st"
    by (simp add: paging_set_flags_def paging_clear_flags_def)
next
  let ?e = "read64 (kmem st) p" and ?a = "ALIGN_DOWN paddr PAGE_SIZE"
  let ?e' = "(?e AND NOT PAGE_ADDR) OR (?a AND PAGE_ADDR)"
  have "?e' AND PAGE_ADDR = ?a AND PAGE_ADDR" "?e' AND NOT PAGE_ADDR = ?e AND NOT PAGE_ADDR"
    by (rule bit_word_eqI; auto simp: bit_simps)+
  moreover obtain st' where "paging_set_paddr p paddr st = Inr st'" "kmem st' = write64 (kmem st) p ?e'"
    using assms by (cases "paddr mod PAGE_SIZE = 0")
      (auto simp: paging_set_paddr_def deref_def assign_def store_store_same ALIGN_DOWN_id)
  ultimately show "\<exists>st3. paging_set_paddr p paddr st = Inr st3 \<and>
      paging_get_paddr p st3 = Inr (?a AND PAGE_ADDR) \<and> read64 (kmem st3) p AND NOT PAGE_ADDR = ?e AND NOT PAGE_ADDR"
    using assms by (intro exI[of _ st']) (simp add: paging_get_paddr_def deref_def)
qed

theorem paging_entry_accessors_witness:
  "\<exists>st3. paging_set_paddr 0x1001008 0x2345678 demo_pmm = Inr st3 \<and> paging_get_paddr 0x1001008 st3 = Inr 0x2345000"
proof -
  have "ALIGN_DOWN 0x2345678 PAGE_SIZE AND PAGE_ADDR = 0x2345000" by code_simp
  then show ?thesis using paging_entry_accessors[of "0x1001008" 0 demo_pmm "0x2345678"] by auto
qed

text \<open>C19. \<open>paging_create\<close> clears only the first eight bytes of the new table: the other 511 entries keep
  what the frame held before, so a frame with old data becomes a table with present entries.\<close>

theorem paging_create_clears_one_entry:
  "(\<forall>st :: pmm_state. \<forall>t st'. pmm_wf st \<and> paging_create st = Inr (t, st') \<and> clear_frame st t \<longrightarrow>
      (\<forall>x. in_region t 4096 x \<longrightarrow> kmem st' x = (if in_region t 8 x then 0 else kmem st x))) \<and>
   (\<exists>st :: pmm_state. \<exists>t st'. pmm_wf st \<and> paging_create st = Inr (t, st') \<and> present (mem_ents (kmem st') t 1))"
proof (intro conjI allI impI; (elim conjE)?)
  fix st :: pmm_state and t st' x
  assume a: "pmm_wf st" "paging_create st = Inr (t, st')" "clear_frame st t" "in_region t 4096 x"
  obtain s where s: "pmm_alloc st PMM_ZONE_NORMAL 1 = Inr (t, s)" "st' = s\<lparr>kmem := memset (kmem s) t 0 8\<rparr>"
    using a(2) by (auto simp: paging_create_def kbind_eq_Inr)
  have "kmem s x = kmem st x" by (rule pmm_alloc_one(4)[OF a(1) s(1) a(3,4)])
  then show "kmem st' x = (if in_region t 8 x then 0 else kmem st x)" by (simp add: s(2) memset_apply)
next
  let ?st = "demo_pmm\<lparr>kmem := (\<lambda>x. if x = 0x9008 then 0b0010 else 0xff)\<rparr>"
  have "case paging_create ?st of Inl _ \<Rightarrow> False | Inr (t, st') \<Rightarrow> present (mem_ents (kmem st') t 1)"
    by code_simp
  then obtain t st' where "paging_create ?st = Inr (t, st')" "present (mem_ents (kmem st') t 1)"
    by (auto split: sum.splits)
  moreover have "pmm_wf ?st" using demo_pmm_wf by simp
  ultimately show "\<exists>st :: pmm_state. \<exists>t st'. pmm_wf st \<and> paging_create st = Inr (t, st') \<and> present (mem_ents (kmem st') t 1)"
    by blast
qed

theorem paging_create_clears_one_entry_witness:
  "\<exists>st :: pmm_state. \<exists>t st'. pmm_wf st \<and> paging_create st = Inr (t, st') \<and> present (mem_ents (kmem st') t 1)"
  by (rule paging_create_clears_one_entry[THEN conjunct2])

end
