(* ===== verification/Kheap.thy ===== *)
theory Kheap
  imports Paging
begin

text \<open>
  The kernel heap of kernel/mm/kheap.c. The heap fills the address space from \<open>kheap_top\<close> up to
  the last address. It is a sequence of blocks, each with a header of 40 bytes in memory, in a
  doubly linked list of all blocks and a circular doubly linked list of the free ones.

  The first half of the theory defines the routines in the order of the source. A header is
  reached through a pointer, so each access of a field checks for the null pointer. The search of
  \<open>kmalloc\<close> and its recursion need not end on a corrupt heap; not returning is the value \<open>None\<close>.
  The second half defines what a well-formed heap is and shows what the routines on blocks and on
  the freelist do to it; the theory \<open>Kheap_Alloc\<close> builds on it.
\<close>

section \<open>Definitions\<close>

text \<open>\<^verbatim>\<open>struct __kheap_header_t\<close>: its fields, eight bytes each, in their order in memory.\<close>

datatype memblock_field = Next | Prev | Free_next | Free_prev | Size

primrec field_offset :: "memblock_field \<Rightarrow> u64" where
  "field_offset Next = 0"
| "field_offset Prev = 8"
| "field_offset Free_next = 16"
| "field_offset Free_prev = 24"
| "field_offset Size = 32"

definition sizeof_memblock :: u64 where "sizeof_memblock = 40"

definition KHEAP_MIN_FREE_SIZE :: u64 where "KHEAP_MIN_FREE_SIZE = 1"

record kheap_state = paging_state +
  kheap_top :: addr
  kheap_max :: addr
  free_head :: addr
  block_head :: addr

abbreviation fld :: "mem \<Rightarrow> memblock_field \<Rightarrow> addr \<Rightarrow> u64" where
  "fld m f p \<equiv> read64 m (p + field_offset f)"

abbreviation upd :: "mem \<Rightarrow> memblock_field \<Rightarrow> addr \<Rightarrow> u64 \<Rightarrow> mem" where
  "upd m f p v \<equiv> write64 m (p + field_offset f) v"

definition get_field :: "memblock_field \<Rightarrow> addr \<Rightarrow> 'a kstate_scheme \<Rightarrow> u64 kres" where
  "get_field f p st = (if p = 0 then Inl Null_deref else Inr (fld (kmem st) f p))"

definition set_field :: "memblock_field \<Rightarrow> addr \<Rightarrow> u64 \<Rightarrow> 'a kstate_scheme \<Rightarrow> 'a kstate_scheme kres" where
  "set_field f p v st = (if p = 0 then Inl Null_deref else Inr (st\<lparr>kmem := upd (kmem st) f p v\<rparr>))"

text \<open>The macros of the file.\<close>

definition is_free :: "addr \<Rightarrow> 'a kstate_scheme \<Rightarrow> bool kres" where
  "is_free hdr st =
     kbind (get_field Free_next hdr st) (\<lambda>n.
     kbind (get_field Free_prev hdr st) (\<lambda>p. Inr (n \<noteq> 0 \<and> p \<noteq> 0)))"

definition block_start_addr :: "addr \<Rightarrow> addr" where
  "block_start_addr hdr = hdr + sizeof_memblock"

definition block_end_addr :: "addr \<Rightarrow> 'a kstate_scheme \<Rightarrow> addr kres" where
  "block_end_addr hdr st = kbind (get_field Size hdr st) (\<lambda>n. Inr (hdr + sizeof_memblock - 1 + n))"

subsection \<open>The freelist\<close>

definition freelist_insert :: "addr \<Rightarrow> 'a kheap_state_scheme \<Rightarrow> 'a kheap_state_scheme kres" where
  "freelist_insert hdr st =
     (if free_head st = 0 then
        kbind (set_field Free_next hdr hdr (st\<lparr>free_head := hdr\<rparr>)) (set_field Free_prev hdr hdr)
      else
        kbind (set_field Free_next hdr (free_head st) st) (\<lambda>st.
        kbind (get_field Free_prev (free_head st) st) (\<lambda>last.
        kbind (set_field Free_prev hdr last st) (\<lambda>st.
        kbind (get_field Free_prev (free_head st) st) (\<lambda>last.
        kbind (set_field Free_next last hdr st) (\<lambda>st.
        kbind (set_field Free_prev (free_head st) hdr st) (\<lambda>st.
        Inr (st\<lparr>free_head := hdr\<rparr>))))))))"

definition freelist_remove :: "addr \<Rightarrow> 'a kheap_state_scheme \<Rightarrow> 'a kheap_state_scheme kres" where
  "freelist_remove hdr st =
     (if free_head st = 0 then
        Inr (log_msg ERROR ''[freelist_remove] removal attempted on empty freelist.'' st)
      else
        kbind (is_free hdr st) (\<lambda>free.
        if \<not> free then Inr (log_msg ERROR ''[freelist_remove] hdr is not free.'' st)
        else
          kbind (get_field Free_next hdr st) (\<lambda>next_hdr.
          kbind (get_field Free_prev hdr st) (\<lambda>prev_hdr.
          if next_hdr = hdr \<and> prev_hdr = hdr then
            if hdr \<noteq> free_head st then
              Inr (log_msg ERROR ''[freelist_remove] one element in freelist, but it's not hdr'' st)
            else
              kbind (set_field Free_next hdr 0 st) (\<lambda>st.
              kbind (set_field Free_prev hdr 0 st) (\<lambda>st.
              Inr (st\<lparr>free_head := 0\<rparr>)))
          else
            kbind (set_field Free_next prev_hdr next_hdr st) (\<lambda>st.
            kbind (set_field Free_prev next_hdr prev_hdr st) (\<lambda>st.
            kbind (set_field Free_next hdr 0 st) (\<lambda>st.
            kbind (set_field Free_prev hdr 0 st) (\<lambda>st.
            Inr (if hdr = free_head st then st\<lparr>free_head := next_hdr\<rparr> else st)))))))))"

subsection \<open>Merging and splitting blocks\<close>

definition merge_right :: "addr \<Rightarrow> 'a kheap_state_scheme \<Rightarrow> (addr \<times> 'a kheap_state_scheme) kres" where
  "merge_right header st =
     (if header = 0 then Inr (0, log_msg ERROR ''[merge_right] header is NULL.'' st)
      else
        kbind (get_field Next header st) (\<lambda>right_header.
        kbind (if right_header \<noteq> 0 then is_free right_header st else Inr False) (\<lambda>free.
        if free then
          kbind (block_end_addr right_header st) (\<lambda>e.
          kbind (set_field Size header (e - block_start_addr header + 1) st) (\<lambda>st.
          kbind (get_field Next right_header st) (\<lambda>rr.
          kbind (set_field Next header rr st) (\<lambda>st.
          kbind (get_field Next right_header st) (\<lambda>rr.
          kbind (if rr \<noteq> 0 then set_field Prev rr header st else Inr st) (\<lambda>st.
          kbind (freelist_remove right_header st) (\<lambda>st.
          Inr (header, st))))))))
        else
          kbind (set_field Size header
                   (if right_header = 0 then VA_END - block_start_addr header + 1
                    else right_header - block_start_addr header) st) (\<lambda>st.
          Inr (header, st)))))"

text \<open>The part of \<open>merge_left\<close> that moves a header down to the end of the block on its left, or to
  the start of the heap.\<close>

definition move_header :: "addr \<Rightarrow> addr \<Rightarrow> 'a kheap_state_scheme \<Rightarrow> (addr \<times> 'a kheap_state_scheme) kres" where
  "move_header header old_header st =
     Inr (header, st\<lparr>kmem := snd (memmove (kmem st) header old_header sizeof_memblock)\<rparr>)"

definition merge_left :: "addr \<Rightarrow> 'a kheap_state_scheme \<Rightarrow> (addr \<times> 'a kheap_state_scheme) kres" where
  "merge_left header st =
     (if header = 0 then Inr (0, log_msg ERROR ''[merge_right] header is NULL.'' st)
      else
        kbind (is_free header st) (\<lambda>free.
        if \<not> free then Inr (0, log_msg ERROR ''[merge_right] merge_right attempt on non-free header.'' st)
        else
          kbind (get_field Prev header st) (\<lambda>left_header.
          kbind (if left_header \<noteq> 0 then is_free left_header st else Inr False) (\<lambda>left_free.
          if left_free then
            kbind (block_end_addr header st) (\<lambda>e.
            kbind (set_field Size left_header (e - block_start_addr left_header + 1) st) (\<lambda>st.
            kbind (get_field Next header st) (\<lambda>n.
            kbind (set_field Next left_header n st) (\<lambda>st.
            kbind (get_field Next header st) (\<lambda>n.
            kbind (if n \<noteq> 0 then set_field Prev n left_header st else Inr st) (\<lambda>st.
            kbind (freelist_remove header st) (\<lambda>st.
            Inr (left_header, st))))))))
          else if left_header = 0 then
            if header \<noteq> block_head st then
              Inr (0, log_msg ERROR ''[merge_left] no header on the left, but header is no head of block list'' st)
            else
              kbind (block_end_addr header st) (\<lambda>e.
              kbind (set_field Size header (e - kheap_top st - sizeof_memblock + 1) st) (\<lambda>st.
              move_header (kheap_top st) header st))
          else
            kbind (block_end_addr header st) (\<lambda>e.
            kbind (block_end_addr left_header st) (\<lambda>le.
            kbind (set_field Size header (e - le - sizeof_memblock) st) (\<lambda>st.
            kbind (block_end_addr left_header st) (\<lambda>le.
            move_header (le + 1) header st))))))))"

definition merge :: "addr \<Rightarrow> 'a kheap_state_scheme \<Rightarrow> (addr \<times> 'a kheap_state_scheme) kres" where
  "merge header st = kbind (merge_right header st) (\<lambda>(header, st). merge_left header st)"

text \<open>The end of \<open>split\<close>, once it knows where the new header goes.\<close>

definition split_link :: "addr \<Rightarrow> addr \<Rightarrow> u64 \<Rightarrow> 'a kheap_state_scheme \<Rightarrow> (addr \<times> 'a kheap_state_scheme) kres" where
  "split_link hdr new_hdr num_bytes st =
     kbind (set_field Size new_hdr num_bytes st) (\<lambda>st.
     kbind (set_field Prev new_hdr hdr st) (\<lambda>st.
     kbind (get_field Next hdr st) (\<lambda>nx.
     kbind (set_field Next new_hdr nx st) (\<lambda>st.
     kbind (set_field Next hdr new_hdr st) (\<lambda>st.
     kbind (get_field Next new_hdr st) (\<lambda>nx.
     kbind (if nx \<noteq> 0 then set_field Prev nx new_hdr st else Inr st) (\<lambda>st.
     kbind (freelist_insert new_hdr st) (\<lambda>st.
     Inr (new_hdr, st)))))))))"

definition split :: "addr \<Rightarrow> u64 \<Rightarrow> 'a kheap_state_scheme \<Rightarrow> (addr \<times> 'a kheap_state_scheme) kres" where
  "split hdr num_bytes st =
     (if hdr = 0 then Inr (0, log_msg ERROR ''[split] hdr is NULL'' st)
      else
        let num_bytes = ALIGN_UP num_bytes 8 in
        kbind (get_field Size hdr st) (\<lambda>n.
        if n - num_bytes < sizeof_memblock + KHEAP_MIN_FREE_SIZE then Inr (hdr, st)
        else
          kbind (block_end_addr hdr st) (\<lambda>e.
          kbind (set_field Size hdr ((e - num_bytes - sizeof_memblock + 1) - block_start_addr hdr) st) (\<lambda>st.
          kbind (block_end_addr hdr st) (\<lambda>e. split_link hdr (e + 1) num_bytes st)))))"

subsection \<open>Growing the heap\<close>

text \<open>The loop that \<open>kheap_expand\<close> and \<open>kheap_init\<close> share: it maps \<open>npages\<close> pages downwards from
  \<open>curr_page\<close>, each to a frame of its own.\<close>

definition kheap_map_pages :: "addr \<Rightarrow> u64 \<Rightarrow> 'a kheap_state_scheme \<Rightarrow> 'a kheap_state_scheme kres" where
  "kheap_map_pages curr_page npages st =
     kbind (for_u64E npages (\<lambda>i (curr_page, st).
              kbind (pmm_alloc st PMM_ZONE_NORMAL 1) (\<lambda>(paddr, st).
              kbind (paging_map curr_page paddr (PAGE_PRESENT OR PAGE_WRITABLE) st) (\<lambda>st.
              Inr (curr_page - PAGE_SIZE, st)))) (curr_page, st))
       (\<lambda>(_, st). Inr st)"

text \<open>The rest of \<open>kheap_expand\<close>, once the new pages are mapped.\<close>

definition kheap_add_block :: "'a kheap_state_scheme \<Rightarrow> 'a kheap_state_scheme kres" where
  "kheap_add_block st =
     (let header = kheap_top st in
      kbind (set_field Size header (block_head st - block_start_addr header) st) (\<lambda>st.
      kbind (set_field Next header (block_head st) st) (\<lambda>st.
      kbind (set_field Prev header 0 st) (\<lambda>st.
      kbind (set_field Prev (block_head st) header st) (\<lambda>st.
      kbind (freelist_insert header (st\<lparr>block_head := header\<rparr>)) (\<lambda>st.
      kbind (merge_right header st) (\<lambda>(_, st). Inr st)))))))"

definition kheap_expand :: "u64 \<Rightarrow> 'a kheap_state_scheme \<Rightarrow> 'a kheap_state_scheme kres" where
  "kheap_expand npages st =
     (if npages = 0 then Inr (log_msg WARNING ''[kheap_expand] request to expand kheap with 0 pages'' st)
      else
        kbind (kheap_map_pages (kheap_top st - PAGE_SIZE) npages st) (\<lambda>st.
        let st = st\<lparr>kheap_top := kheap_top st - npages * PAGE_SIZE\<rparr> in
        if kheap_top st < kheap_max st then Inl (Panic ''[kheap_expand] kheap has expanded too much'')
        else kheap_add_block st))"

subsection \<open>The interface\<close>

text \<open>The loop of \<open>kmalloc\<close>: the first block on the freelist that is large enough, or null.\<close>

partial_function (option) kmalloc_search :: "u64 \<Rightarrow> addr \<Rightarrow> 'a kheap_state_scheme \<Rightarrow> addr option" where
  "kmalloc_search sz cur st =
     (if cur = 0 then Some 0
      else if sz \<le> fld (kmem st) Size cur then Some cur
      else
        let cur = fld (kmem st) Free_next cur
        in if cur = free_head st then Some 0 else kmalloc_search sz cur st)"

definition kmalloc_take :: "u64 \<Rightarrow> addr \<Rightarrow> 'a kheap_state_scheme \<Rightarrow> (addr \<times> 'a kheap_state_scheme) kres" where
  "kmalloc_take sz cur st =
     kbind (get_field Size cur st) (\<lambda>n.
     if n = sz then
       kbind (freelist_remove cur st) (\<lambda>st. Inr (block_start_addr cur, st))
     else
       kbind (split cur sz st) (\<lambda>(new_hdr, st).
       kbind (freelist_remove new_hdr st) (\<lambda>st. Inr (block_start_addr new_hdr, st))))"

definition pages_for :: "u64 \<Rightarrow> u64" where
  "pages_for new_size = new_size div PAGE_SIZE + (if new_size mod PAGE_SIZE \<noteq> 0 then 1 else 0)"

definition kmalloc_grow :: "u64 \<Rightarrow> 'a kheap_state_scheme \<Rightarrow> 'a kheap_state_scheme kres" where
  "kmalloc_grow sz st =
     kbind (is_free (block_head st) st) (\<lambda>free.
     kbind (get_field Size (block_head st) st) (\<lambda>n.
     let new_pages = (if free then pages_for (sz - n + sizeof_memblock)
                      else pages_for (sz + sizeof_memblock))
     in kheap_expand new_pages (log_msg NONE ''[kmalloc] expanding heap by %lu pages ...'' st)))"

partial_function (option) kmalloc ::
  "u64 \<Rightarrow> 'a kheap_state_scheme \<Rightarrow> (addr \<times> 'a kheap_state_scheme) kres option" where
  "kmalloc sz st =
     (if sz = 0 then Some (Inr (0, log_msg ERROR ''[kmalloc] size of 0 was requested from kheap'' st))
      else
        Option.bind (kmalloc_search (ALIGN_UP sz 8) (free_head st) st) (\<lambda>cur.
        if cur \<noteq> 0 then Some (kmalloc_take (ALIGN_UP sz 8) cur st)
        else
          case kmalloc_grow (ALIGN_UP sz 8) st of
            Inl e \<Rightarrow> Some (Inl e)
          | Inr st \<Rightarrow> kmalloc (ALIGN_UP sz 8) st))"

definition kfree :: "addr \<Rightarrow> 'a kheap_state_scheme \<Rightarrow> 'a kheap_state_scheme kres" where
  "kfree ptr st =
     (let header = ptr - sizeof_memblock in
      kbind (is_free header st) (\<lambda>free.
      if free then Inr (log_msg ERROR ''[kfree] free request called on an already free memory block'' st)
      else
        kbind (freelist_insert header st) (\<lambda>st.
        kbind (merge header st) (\<lambda>(_, st). Inr st))))"

text \<open>The second half of \<open>krealloc\<close>: a new area, the copy and the release of the old one.\<close>

definition krealloc_move ::
  "addr \<Rightarrow> addr \<Rightarrow> u64 \<Rightarrow> 'a kheap_state_scheme \<Rightarrow> (addr \<times> 'a kheap_state_scheme) kres option" where
  "krealloc_move header ptr sz st =
     map_option (\<lambda>res. kbind res (\<lambda>(new_ptr, st).
         if new_ptr = 0 then Inr (0, st)
         else
           kbind (get_field Size header st) (\<lambda>n.
           kbind (kfree ptr (st\<lparr>kmem := snd (memcpy (kmem st) new_ptr ptr n)\<rparr>)) (\<lambda>st.
           Inr (new_ptr, st)))))
       (kmalloc sz st)"

definition krealloc :: "addr \<Rightarrow> u64 \<Rightarrow> 'a kheap_state_scheme \<Rightarrow> (addr \<times> 'a kheap_state_scheme) kres option" where
  "krealloc ptr sz st =
     (let header = ptr - sizeof_memblock in
      case is_free header st of
        Inl e \<Rightarrow> Some (Inl e)
      | Inr True \<Rightarrow> Some (Inr (0, log_msg ERROR ''[krealloc] realloc request called on a free memory block'' st))
      | Inr False \<Rightarrow>
          (case merge_right header st of
             Inl e \<Rightarrow> Some (Inl e)
           | Inr (header, st) \<Rightarrow>
               (case get_field Size header st of
                  Inl e \<Rightarrow> Some (Inl e)
                | Inr n \<Rightarrow>
                    if sz \<le> n then
                      Some (kbind (split header sz st) (\<lambda>(header, st). Inr (block_start_addr header, st)))
                    else krealloc_move header ptr sz st)))"

text \<open>\<open>kheap_max\<close> as the first loop of \<open>kheap_init\<close> computes it from the ranges of the kernel image.\<close>

definition pmrs_end :: "pmr list \<Rightarrow> addr \<Rightarrow> addr" where
  "pmrs_end pmrs start = fold (\<lambda>entry top. MAX_u64 top (pmr_base entry + pmr_length entry)) pmrs start"

definition kheap_first_block :: "u64 \<Rightarrow> 'a kheap_state_scheme \<Rightarrow> 'a kheap_state_scheme kres" where
  "kheap_first_block npages st =
     (let st = st\<lparr>block_head := kheap_top st, free_head := kheap_top st\<rparr> in
      kbind (set_field Size (block_head st) (npages * PAGE_SIZE - sizeof_memblock) st) (\<lambda>st.
      kbind (set_field Next (block_head st) 0 st) (\<lambda>st.
      kbind (set_field Prev (block_head st) 0 st) (\<lambda>st.
      kbind (set_field Free_next (free_head st) (free_head st) st) (\<lambda>st.
      set_field Free_prev (free_head st) (free_head st) st)))))"

definition kheap_init :: "pmr list option \<Rightarrow> u64 \<Rightarrow> 'a kheap_state_scheme \<Rightarrow> 'a kheap_state_scheme kres" where
  "kheap_init pmrs npages st =
     (if npages = 0 then
        Inr (log_msg ERROR ''[kheap_init] kheap_init was asked to initialize heap with 0 pages.'' st)
      else
        case pmrs of
          None \<Rightarrow> Inl (Panic ''[kheap_init] stivale2 pmrs tag was not found'')
        | Some pmrs \<Rightarrow>
            let st = st\<lparr>kheap_max := pmrs_end pmrs (kheap_max st), kheap_top := VA_END - PAGE_SIZE * npages + 1\<rparr> in
            if kheap_top st < kheap_max st then
              Inl (Panic ''[kheap_init] kheap was initialized with too much memory'')
            else kbind (kheap_map_pages (VA_END - PAGE_SIZE + 1) npages st) (kheap_first_block npages))"

text \<open>The two printers follow the lists to their end, which a corrupt list need not have.\<close>

partial_function (option) parse_blocklist_loop ::
  "addr \<Rightarrow> 'a kheap_state_scheme \<Rightarrow> 'a kheap_state_scheme option" where
  "parse_blocklist_loop cur st =
     (if cur = 0 then Some st
      else
        let st = log_msg NONE ''[parse_blocklist] header addr: 0x%lx, size: 0x%lx, free?: %u'' st
        in parse_blocklist_loop (fld (kmem st) Next cur) st)"

definition parse_blocklist :: "'a kheap_state_scheme \<Rightarrow> 'a kheap_state_scheme option" where
  "parse_blocklist st =
     parse_blocklist_loop (block_head st) (log_msg INFO ''parsing kheap block (header) list ...'' st)"

partial_function (option) parse_freelist_loop ::
  "addr \<Rightarrow> 'a kheap_state_scheme \<Rightarrow> 'a kheap_state_scheme option" where
  "parse_freelist_loop cur st =
     (if cur = 0 then Some st
      else
        let st = log_msg NONE ''[parse_freelist] header addr: 0x%lx, size: 0x%lx'' st;
            cur = fld (kmem st) Free_next cur
        in if cur \<noteq> 0 \<and> cur \<noteq> free_head st then parse_freelist_loop cur st else Some st)"

definition parse_freelist :: "'a kheap_state_scheme \<Rightarrow> 'a kheap_state_scheme option" where
  "parse_freelist st = parse_freelist_loop (free_head st) (log_msg INFO ''parsing kheap freelist ...'' st)"

section \<open>Headers in memory\<close>

text \<open>A set of addresses at which headers can stand side by side.\<close>

definition hsep :: "addr set \<Rightarrow> bool" where
  "hsep H \<longleftrightarrow>
     (\<forall>p\<in>H. p \<noteq> 0 \<and> unat p + 40 \<le> 2 ^ 64) \<and>
     (\<forall>p\<in>H. \<forall>q\<in>H. p \<noteq> q \<longrightarrow> unat p + 40 \<le> unat q \<or> unat q + 40 \<le> unat p)"

text \<open>The bytes outside the headers in \<open>H\<close> are the same.\<close>

definition hdr_frame :: "addr set \<Rightarrow> mem \<Rightarrow> mem \<Rightarrow> bool" where
  "hdr_frame H m m' \<longleftrightarrow> (\<forall>x. (\<forall>b\<in>H. \<not> in_region b 40 x) \<longrightarrow> m' x = m x)"

lemma field_step [step_simps]:
  "p \<noteq> 0 \<Longrightarrow> get_field f p st = Inr (fld (kmem st) f p)"
  "p \<noteq> 0 \<Longrightarrow> set_field f p v st = Inr (st\<lparr>kmem := upd (kmem st) f p v\<rparr>)"
  "p \<noteq> 0 \<Longrightarrow> is_free p st = Inr (fld (kmem st) Free_next p \<noteq> 0 \<and> fld (kmem st) Free_prev p \<noteq> 0)"
  "p \<noteq> 0 \<Longrightarrow> block_end_addr p st = Inr (p + 39 + fld (kmem st) Size p)"
  by (simp_all add: get_field_def set_field_def is_free_def block_end_addr_def sizeof_memblock_def algebra_simps)

lemma unat_field_offset: "unat (field_offset f) < 40" "unat (field_offset f) + 8 \<le> 40"
  by (cases f; simp)+

declare field_offset.simps [simp del]

lemma field_in_header:
  assumes "in_region (p + field_offset f) 8 x"
  shows "in_region p 40 x"
proof -
  have "x - p = (x - (p + field_offset f)) + field_offset f" by simp
  moreover have "unat (x - (p + field_offset f)) < 8" using assms by (simp add: in_region_def)
  ultimately have "unat (x - p) = unat (x - (p + field_offset f)) + unat (field_offset f)"
    using unat_field_offset(1)[of f] unat_add_lem[THEN iffD1, of "x - (p + field_offset f)" "field_offset f"] by simp
  then show ?thesis using assms unat_field_offset[of f] by (simp add: in_region_def)
qed

lemma upd_outside: "\<not> in_region p 40 x \<Longrightarrow> upd m f p v x = m x"
  using field_in_header by (blast intro: store_outside)

lemma hdr_frame_refl [simp]: "hdr_frame H m m"
  by (simp add: hdr_frame_def)

lemma hdr_frame_trans: "hdr_frame H a b \<Longrightarrow> hdr_frame H b c \<Longrightarrow> hdr_frame H a c"
  by (simp add: hdr_frame_def)

lemma hdr_frame_mono: "hdr_frame H a b \<Longrightarrow> H \<subseteq> K \<Longrightarrow> hdr_frame K a b"
  by (auto simp: hdr_frame_def)

lemma hdr_frame_upd [simp]: "p \<in> H \<Longrightarrow> hdr_frame H a m \<Longrightarrow> hdr_frame H a (upd m f p v)"
  by (auto simp: hdr_frame_def upd_outside)

lemma hsep_subset: "hsep H \<Longrightarrow> K \<subseteq> H \<Longrightarrow> hsep K"
  unfolding hsep_def by blast

lemma fld_upd_same: "fld (upd m f p v) g p = (if f = g then v else fld m g p)"
proof (cases "f = g")
  case False
  then have "apart (p + field_offset f) 8 (p + field_offset g) 8"
    by (cases f; cases g; simp add: apart_def field_offset.simps)
  then show ?thesis using False by (simp add: load_store_apart)
qed simp

lemma fld_upd_other:
  assumes "unat p + 40 \<le> unat q \<or> unat q + 40 \<le> unat p" "unat p + 40 \<le> 2 ^ 64" "unat q + 40 \<le> 2 ^ 64"
  shows "fld (upd m f p v) g q = fld m g q"
proof -
  have "apart p 40 q 40" using assms by (auto simp: apart_def unat_sub_if')
  then have "upd m f p v x = m x" if "in_region (q + field_offset g) 8 x" for x
    using that by (intro upd_outside) (auto dest: field_in_header apartD)
  then show ?thesis by (intro load_cong) auto
qed

text \<open>The law of field updates that the proofs below rewrite with, for headers of a set \<open>H\<close>.\<close>

lemma fld_upd:
  assumes "hsep H" "p \<in> H" "q \<in> H"
  shows "fld (upd m f p v) g q = (if p = q \<and> f = g then v else fld m g q)"
proof (cases "p = q")
  case False
  then show ?thesis using assms by (simp add: fld_upd_other hsep_def)
qed (simp add: fld_upd_same)

section \<open>The freelist\<close>

definition flink :: "mem \<Rightarrow> addr \<Rightarrow> addr \<Rightarrow> bool" where
  "flink m x y \<longleftrightarrow> fld m Free_next x = y \<and> fld m Free_prev y = x"

text \<open>The headers in \<open>fl\<close> form a ring.\<close>

definition ring :: "mem \<Rightarrow> addr list \<Rightarrow> bool" where
  "ring m fl \<longleftrightarrow> successively (flink m) (fl @ [hd fl])"

definition fl_wf :: "'a kheap_state_scheme \<Rightarrow> addr set \<Rightarrow> addr list \<Rightarrow> bool" where
  "fl_wf st H fl \<longleftrightarrow>
     hsep H \<and> set fl \<subseteq> H \<and> distinct fl \<and> ring (kmem st) fl \<and>
     free_head st = (if fl = [] then 0 else hd fl)"

text \<open>What the routines on the freelist leave alone.\<close>

definition free_fields_only :: "addr set \<Rightarrow> addr set \<Rightarrow> mem \<Rightarrow> mem \<Rightarrow> bool" where
  "free_fields_only H K m m' \<longleftrightarrow>
     hdr_frame H m m' \<and>
     (\<forall>c\<in>H. \<forall>f. f \<in> {Next, Prev, Size} \<or> c \<notin> K \<longrightarrow> fld m' f c = fld m f c)"

lemma successively_weaken:
  assumes "successively P xs" "\<And>x y. x \<in> set (butlast xs) \<Longrightarrow> y \<in> set (tl xs) \<Longrightarrow> P x y \<Longrightarrow> Q x y"
  shows "successively Q xs"
  using assms by (induction P xs rule: successively.induct) (auto split: if_splits)

lemma ring_rotate: "ring m (xs @ ys) \<longleftrightarrow> ring m (ys @ xs)"
  by (cases "xs = []"; cases "ys = []") (auto simp: ring_def successively_append_iff)

lemma ring_ends:
  assumes "ring m fl" "fl \<noteq> []"
  shows "fld m Free_next (last fl) = hd fl" "fld m Free_prev (hd fl) = last fl" "successively (flink m) fl"
  using assms by (auto simp: ring_def successively_append_iff flink_def)

lemma ring_Cons:
  assumes "r \<noteq> []"
  shows "ring m (b # r) \<longleftrightarrow> flink m b (hd r) \<and> flink m (last r) b \<and> successively (flink m) r"
  using assms by (auto simp: ring_def successively_append_iff successively_Cons)

lemma ringI:
  assumes "successively (flink m) fl" "fl \<noteq> [] \<Longrightarrow> flink m (last fl) (hd fl)"
  shows "ring m fl"
  using assms by (auto simp: ring_def successively_append_iff)

lemma butlast_not_last: "distinct xs \<Longrightarrow> x \<in> set (butlast xs) \<Longrightarrow> x \<noteq> last xs"
  by (induction xs) (auto split: if_splits)

lemma tl_not_hd: "distinct xs \<Longrightarrow> x \<in> set (tl xs) \<Longrightarrow> x \<noteq> hd xs"
  by (cases xs) auto

lemma freelist_insert_wf:
  assumes wf: "fl_wf st H fl" and b: "b \<in> H" "b \<notin> set fl"
  obtains m' where "freelist_insert b st = Inr (st\<lparr>kmem := m', free_head := b\<rparr>)"
    "fl_wf (st\<lparr>kmem := m', free_head := b\<rparr>) H (b # fl)" "free_fields_only H (set (b # fl)) (kmem st) m'"
proof -
  have sep: "hsep H" and fl: "set fl \<subseteq> H" "distinct fl" "ring (kmem st) fl"
    and head: "free_head st = (if fl = [] then 0 else hd fl)"
    using wf by (auto simp: fl_wf_def)
  note u = fld_upd[OF sep]
  have nz: "p \<noteq> 0" if "p \<in> H" for p using sep that by (simp add: hsep_def)
  show thesis
  proof (cases "fl = []")
    case True
    let ?m = "upd (upd (kmem st) Free_next b b) Free_prev b b"
    have "freelist_insert b st = Inr (st\<lparr>kmem := ?m, free_head := b\<rparr>)"
      using True head nz[OF b(1)] by (simp add: freelist_insert_def step_simps)
    moreover have "free_fields_only H (set [b]) (kmem st) ?m"
      using b(1) by (auto simp: free_fields_only_def u)
    moreover have "fl_wf (st\<lparr>kmem := ?m, free_head := b\<rparr>) H [b]"
      using sep b(1) by (auto simp: fl_wf_def ring_def flink_def u)
    ultimately show thesis using that True by blast
  next
    case False
    let ?h = "hd fl" and ?l = "last fl"
    let ?m = "upd (upd (upd (upd (kmem st) Free_next b ?h) Free_prev b ?l) Free_next ?l b) Free_prev ?h b"
    have hl: "?h \<in> set fl" "?l \<in> set fl" using False by simp_all
    then have H: "?h \<in> H" "?l \<in> H" "b \<noteq> ?h" "b \<noteq> ?l" using fl(1) b(2) by auto
    note ends = ring_ends[OF fl(3) False]
    have eq: "freelist_insert b st = Inr (st\<lparr>kmem := ?m, free_head := b\<rparr>)"
      using False head H b(1) nz ends by (simp add: freelist_insert_def step_simps u)
    have frame: "free_fields_only H (set (b # fl)) (kmem st) ?m"
      using b(1) H hl by (auto simp: free_fields_only_def u)
    have "successively (flink ?m) fl"
    proof (rule successively_weaken[OF ends(3)])
      fix x y assume xy: "x \<in> set (butlast fl)" "y \<in> set (tl fl)" "flink (kmem st) x y"
      have "x \<noteq> ?l" "y \<noteq> ?h" using butlast_not_last[OF fl(2) xy(1)] tl_not_hd[OF fl(2) xy(2)] .
      moreover have "x \<in> set fl" "y \<in> set fl" using in_set_butlastD[OF xy(1)] list.set_sel(2)[OF False xy(2)] by simp_all
      ultimately show "flink ?m x y" using xy(3) H fl(1) b by (auto simp: flink_def u)
    qed
    moreover have "flink ?m b ?h" "flink ?m ?l b" using H b(1) by (auto simp: flink_def u)
    ultimately have "ring ?m (b # fl)" by (simp add: ring_Cons[OF False])
    then have "fl_wf (st\<lparr>kmem := ?m, free_head := b\<rparr>) H (b # fl)"
      using sep fl b by (auto simp: fl_wf_def)
    then show thesis using that eq frame by blast
  qed
qed

lemma freelist_remove_wf:
  assumes wf: "fl_wf st H fl" and b: "b \<in> set fl"
  obtains m' fh where "freelist_remove b st = Inr (st\<lparr>kmem := m', free_head := fh\<rparr>)"
    "fl_wf (st\<lparr>kmem := m', free_head := fh\<rparr>) H (remove1 b fl)" "free_fields_only H (set fl) (kmem st) m'"
    "fld m' Free_next b = 0" "fld m' Free_prev b = 0"
proof -
  have sep: "hsep H" and fl: "set fl \<subseteq> H" "distinct fl" "ring (kmem st) fl"
    and head: "free_head st = hd fl"
    using wf b by (auto simp: fl_wf_def)
  note u = fld_upd[OF sep]
  have nz: "p \<noteq> 0" if "p \<in> H" for p using sep that by (simp add: hsep_def)
  obtain xs ys where xy: "fl = xs @ b # ys" "b \<notin> set xs" "b \<notin> set ys"
    using b fl(2) by (metis distinct.simps(2) distinct_append in_set_conv_decomp_first)
  have rem: "remove1 b fl = xs @ ys" using xy by (simp add: remove1_append)
  have "hd fl \<in> set fl" using b by (cases fl) auto
  with b fl(1) nz have H: "b \<in> H" "hd fl \<noteq> 0" by blast+
  show thesis
  proof (cases "ys @ xs = []")
    case True
    let ?m = "upd (upd (kmem st) Free_next b 0) Free_prev b 0"
    have own: "fld (kmem st) Free_next b = b" "fld (kmem st) Free_prev b = b"
      using ring_ends(1,2)[OF fl(3)] True by (simp_all add: xy)
    have "freelist_remove b st = Inr (st\<lparr>kmem := ?m, free_head := 0\<rparr>)"
      using True head nz[OF H(1)] own by (simp add: freelist_remove_def step_simps xy)
    moreover have "free_fields_only H (set fl) (kmem st) ?m" using b H by (auto simp: free_fields_only_def u)
    moreover have "fl_wf (st\<lparr>kmem := ?m, free_head := 0\<rparr>) H (remove1 b fl)"
      using True sep by (simp add: fl_wf_def rem ring_def)
    ultimately show thesis using that H by (simp add: u)
  next
    case False
    let ?r = "ys @ xs"
    let ?n = "hd ?r" and ?p = "last ?r"
    let ?m = "upd (upd (upd (upd (kmem st) Free_next ?p ?n) Free_prev ?n ?p) Free_next b 0) Free_prev b 0"
    let ?st = "st\<lparr>kmem := ?m, free_head := (if xs = [] then ?n else hd fl)\<rparr>"
    have "ring (kmem st) (b # ?r)" using fl(3) ring_rotate[of "kmem st" xs "b # ys"] by (simp add: xy)
    then have ends: "flink (kmem st) b ?n" "flink (kmem st) ?p b" "successively (flink (kmem st)) ?r"
      using ring_Cons[OF False] by blast+
    have np: "?n \<in> set ?r" "?p \<in> set ?r" using False by (auto simp del: set_append)
    then have npH: "?n \<in> H" "?p \<in> H" "b \<noteq> ?n" "b \<noteq> ?p" "?n \<in> set fl" "?p \<in> set fl"
      using fl(1) xy by (auto simp del: last_appendR)
    have own: "fld (kmem st) Free_next b = ?n" "fld (kmem st) Free_prev b = ?p"
      using ends(1,2) by (simp_all add: flink_def)
    have hdb: "b = hd fl \<longleftrightarrow> xs = []" using xy by (cases xs) auto
    have eq: "freelist_remove b st = Inr ?st"
      using H npH nz own head hdb by (auto simp: freelist_remove_def step_simps simp del: hd_append last_append)
    have frame: "free_fields_only H (set fl) (kmem st) ?m"
      using b H npH by (auto simp: free_fields_only_def u simp del: hd_append last_append)
    have dr: "distinct ?r" using fl(2) xy(1) by auto
    have "successively (flink ?m) ?r"
    proof (rule successively_weaken[OF ends(3)])
      fix x y assume l: "x \<in> set (butlast ?r)" "y \<in> set (tl ?r)" "flink (kmem st) x y"
      have "x \<noteq> ?p" "y \<noteq> ?n" using butlast_not_last[OF dr l(1)] tl_not_hd[OF dr l(2)] .
      moreover have xr: "x \<in> set ?r" "y \<in> set ?r" using in_set_butlastD[OF l(1)] list.set_sel(2)[OF False l(2)] by simp_all
      moreover have "x \<in> H" "y \<in> H" "x \<noteq> b" "y \<noteq> b" using xr fl(1) xy by auto
      ultimately show "flink ?m x y" using l(3) H npH by (auto simp: flink_def u simp del: hd_append last_append)
    qed
    moreover have "flink ?m ?p ?n" using H npH by (auto simp: flink_def u simp del: hd_append last_append)
    ultimately have "ring ?m (xs @ ys)" unfolding ring_rotate[of ?m xs ys] by (intro ringI)
    moreover have "distinct (xs @ ys)" "set (xs @ ys) \<subseteq> H" using fl(1,2) xy(1) by auto
    moreover have "xs \<noteq> [] \<Longrightarrow> hd fl = hd xs" using xy(1) by simp
    ultimately have "fl_wf ?st H (remove1 b fl)"
      unfolding fl_wf_def rem using sep False by (cases "xs = []") auto
    moreover have "fld ?m Free_next b = 0" "fld ?m Free_prev b = 0" using H by (simp_all add: u)
    ultimately show thesis using that eq frame by blast
  qed
qed

end
