(* ===== verification/Kheap_Blocks.thy ===== *)
theory Kheap_Blocks
  imports Kheap
begin

text \<open>
  Well-formed heaps: the blocks tile the address space from \<open>kheap_top\<close> to its end, the block
  list links them in order, the freelist is a ring through some of them, and the others carry null
  pointers in their freelist fields. The lemmas say what \<open>merge_right\<close>, \<open>merge_left\<close>, \<open>split\<close> and
  the tail of \<open>kheap_expand\<close> make of such a heap.
\<close>

section \<open>Tilings\<close>

text \<open>
  The blocks \<open>bs\<close> lie one behind the other from address \<open>a\<close> to \<open>e\<close>, with \<open>p\<close> the block before them
  and \<open>q\<close> the last one (\<open>p\<close> if there is none). The end of the address space is 0, which is also the
  null pointer that ends the block list, so the next block is always the end of this one.
\<close>

definition block_at :: "mem \<Rightarrow> addr \<Rightarrow> addr \<Rightarrow> bool" where
  "block_at m p a \<longleftrightarrow>
     a \<noteq> 0 \<and> fld m Prev a = p \<and> fld m Next a = a + 40 + fld m Size a \<and>
     unat a + 40 + unat (fld m Size a) \<le> 2 ^ 64 \<and> 8 dvd unat (fld m Size a)"

primrec tile :: "mem \<Rightarrow> addr \<Rightarrow> addr \<Rightarrow> addr list \<Rightarrow> addr \<Rightarrow> addr \<Rightarrow> bool" where
  "tile m p a [] q e \<longleftrightarrow> a = e \<and> p = q"
| "tile m p a (b # bs) q e \<longleftrightarrow> b = a \<and> block_at m p a \<and> tile m a (a + 40 + fld m Size a) bs q e"

lemma tile_append:
  "tile m p a (xs @ ys) q e \<longleftrightarrow> (\<exists>p' a'. tile m p a xs p' a' \<and> tile m p' a' ys q e)"
  by (induction xs arbitrary: p a) auto

lemma block_at_cong:
  "\<forall>f\<in>{Next, Prev, Size}. fld m' f a = fld m f a \<Longrightarrow> block_at m' p a = block_at m p a"
  by (simp add: block_at_def)

lemma tile_cong:
  "\<forall>b\<in>set bs. \<forall>f\<in>{Next, Prev, Size}. fld m' f b = fld m f b \<Longrightarrow> tile m' p a bs q e = tile m p a bs q e"
  by (induction bs arbitrary: p a) (auto simp: block_at_def)

text \<open>Where the next block starts: behind this one, without wrapping, unless this one ends the address space.\<close>

lemma block_at_end:
  assumes "block_at m p a" "a + 40 + fld m Size a \<noteq> 0"
  shows "unat (a + 40 + fld m Size a) = unat a + 40 + unat (fld m Size a)"
proof -
  let ?n = "fld m Size a"
  have le: "unat a + 40 + unat ?n \<le> 2 ^ 64" using assms(1) by (simp add: block_at_def)
  have 40: "unat (a + 40) = unat a + 40" if "unat a + 40 < 2 ^ 64"
    using that unat_add_lem[THEN iffD1, of a 40] by simp
  show ?thesis
  proof (cases "unat a + 40 + unat ?n < 2 ^ 64")
    case True
    then show ?thesis using 40 unat_add_lem[THEN iffD1, of "a + 40" ?n] by simp
  next
    case False
    then have "a + 40 + ?n = of_nat (unat a + 40 + unat ?n)" by simp
    also have "unat a + 40 + unat ?n = 2 ^ 64" using False le by simp
    also have "of_nat (2 ^ 64) = (0 :: u64)" by simp
    finally show ?thesis using assms(2) by contradiction
  qed
qed

lemma tile_start: "tile m p a bs q e \<Longrightarrow> bs \<noteq> [] \<Longrightarrow> hd bs = a \<and> a \<noteq> 0"
  by (cases bs) (auto simp: block_at_def)

lemma tile_ordered:
  assumes "tile m p a bs q e"
  shows "sorted_wrt (\<lambda>x y. unat x + 40 + unat (fld m Size x) \<le> unat y) bs \<and>
    (\<forall>b\<in>set bs. unat a \<le> unat b \<and> b \<noteq> 0 \<and> unat b + 40 + unat (fld m Size b) \<le> 2 ^ 64 \<and> 8 dvd unat (fld m Size b))"
  using assms
proof (induction bs arbitrary: p a)
  case (Cons b bs)
  then have b: "b = a" "block_at m p a" and t: "tile m a (a + 40 + fld m Size a) bs q e" by auto
  note IH = Cons.IH[OF t]
  have next_block: "unat a + 40 + unat (fld m Size a) \<le> unat c" if "c \<in> set bs" for c
  proof -
    have "a + 40 + fld m Size a \<noteq> 0" using tile_start[OF t] that by (cases bs) auto
    from block_at_end[OF b(2) this] show ?thesis using IH that by auto
  qed
  then have "unat a \<le> unat c" if "c \<in> set bs" for c using that by fastforce
  then show ?case using IH next_block b by (auto simp: block_at_def)
qed simp

lemmas tile_order = tile_ordered[THEN conjunct1] tile_ordered[THEN conjunct2]

lemma sorted_wrt_total:
  "sorted_wrt R xs \<Longrightarrow> x \<in> set xs \<Longrightarrow> y \<in> set xs \<Longrightarrow> x \<noteq> y \<Longrightarrow> R x y \<or> R y x"
  by (induction xs) auto

lemma tile_hsep:
  assumes t: "tile m p a bs q e"
  shows "hsep (set bs)"
proof -
  have "unat x + 40 \<le> unat y \<or> unat y + 40 \<le> unat x" if "x \<in> set bs" "y \<in> set bs" "x \<noteq> y" for x y
    using sorted_wrt_total[OF tile_order(1)[OF t] that] by linarith
  then show ?thesis using tile_order(2)[OF t] by (fastforce simp: hsep_def)
qed

lemma tile_distinct:
  assumes "tile m p a bs q e"
  shows "distinct bs"
proof -
  have "sorted_wrt (\<noteq>) bs" by (rule sorted_wrt_mono_rel[OF _ tile_order(1)[OF assms]]) auto
  then show ?thesis by (induction bs) auto
qed

section \<open>Well-formed heaps\<close>

definition lists_wf :: "'a kheap_state_scheme \<Rightarrow> addr list \<Rightarrow> addr list \<Rightarrow> bool" where
  "lists_wf st bs fl \<longleftrightarrow>
     bs \<noteq> [] \<and> (\<exists>q. tile (kmem st) 0 (block_head st) bs q 0) \<and>
     fl_wf st (set bs) fl \<and>
     (\<forall>b\<in>set bs - set fl. fld (kmem st) Free_next b = 0 \<and> fld (kmem st) Free_prev b = 0)"

lemma lists_wfD:
  assumes "lists_wf st bs fl"
  obtains q where "tile (kmem st) 0 (block_head st) bs q 0" "hsep (set bs)" "distinct bs" "set fl \<subseteq> set bs"
    "distinct fl" "fl_wf st (set bs) fl"
  using assms tile_hsep tile_distinct unfolding lists_wf_def fl_wf_def by blast

lemma fl_wf_shrink: "fl_wf st H fl \<Longrightarrow> K \<subseteq> H \<Longrightarrow> set fl \<subseteq> K \<Longrightarrow> fl_wf st K fl"
  by (auto simp: fl_wf_def intro: hsep_subset)

lemma ring_cong:
  assumes "\<forall>x\<in>set fl. \<forall>f\<in>{Free_next, Free_prev}. fld m' f x = fld m f x"
  shows "ring m' fl = ring m fl"
proof (cases "fl = []")
  case False
  then have "set (fl @ [hd fl]) = set fl" by auto
  then show ?thesis unfolding ring_def using assms by (intro successively_cong) (auto simp: flink_def)
qed (simp add: ring_def)

text \<open>Changes to the other fields and to other components do not matter to the freelist.\<close>

lemma fl_wf_cong:
  assumes "fl_wf st H fl" "free_head st' = free_head st" "hsep K" "set fl \<subseteq> K"
    and "\<forall>x\<in>set fl. \<forall>f\<in>{Free_next, Free_prev}. fld (kmem st') f x = fld (kmem st) f x"
  shows "fl_wf st' K fl"
  using assms ring_cong[of fl "kmem st'" "kmem st"] by (auto simp: fl_wf_def)

lemma ring_mem:
  assumes "ring m fl" "b \<in> set fl"
  shows "fld m Free_next b \<in> set fl" "fld m Free_prev b \<in> set fl"
proof -
  obtain xs ys where xy: "fl = xs @ b # ys" using assms(2) by (meson split_list)
  define r where "r = ys @ xs"
  have r: "ring m (b # r)" "set fl = set (b # r)"
    using assms(1) ring_rotate[of m xs "b # ys"] by (auto simp: r_def xy)
  have "fld m Free_next b \<in> set (b # r) \<and> fld m Free_prev b \<in> set (b # r)"
    using r(1) ring_Cons[of r m b] by (cases "r = []") (auto simp: ring_def flink_def)
  then show "fld m Free_next b \<in> set fl" "fld m Free_prev b \<in> set fl" using r(2) by auto
qed

lemma free_flag:
  assumes "lists_wf st bs fl" "b \<in> set bs"
  shows "is_free b st = Inr (b \<in> set fl)" "b \<noteq> 0"
proof -
  obtain q where w: "hsep (set bs)" "set fl \<subseteq> set bs" "fl_wf st (set bs) fl"
    by (rule lists_wfD[OF assms(1)]) blast
  show nz: "b \<noteq> 0" using w(1) assms(2) by (simp add: hsep_def)
  have "fld (kmem st) Free_next b \<noteq> 0 \<and> fld (kmem st) Free_prev b \<noteq> 0" if b: "b \<in> set fl"
  proof -
    have "ring (kmem st) fl" "0 \<notin> set bs" using w by (auto simp: fl_wf_def hsep_def)
    then show ?thesis using ring_mem[OF _ b, of "kmem st"] w(2) by (metis subsetD)
  qed
  then show "is_free b st = Inr (b \<in> set fl)"
    using assms nz by (auto simp: step_simps lists_wf_def)
qed

lemma write64_read64_same: "write64 m a (read64 m a) = m"
proof
  fix x
  show "write64 m a (read64 m a) x = m x"
  proof (cases "unat (x - a) < 8")
    case True
    have "bit (ucast (drop_bit (8 * unat (x - a)) (read64 m a)) :: byte) k = bit (m x) k" for k
    proof (cases "k < 8")
      case False
      then show ?thesis using bit_imp_le_length by (fastforce simp: bit_simps)
    qed (use True in \<open>auto simp: bit_simps bit_load\<close>)
    then show ?thesis using True by (simp add: store_def bit_eq_iff)
  qed (simp add: store_def)
qed

section \<open>Merging\<close>

lemma block_next:
  assumes "tile m p a (xs @ b # ys) q 0"
  shows "fld m Next b = (if ys = [] then 0 else hd ys)" "fld m Next b = b + 40 + fld m Size b"
    "ys \<noteq> [] \<Longrightarrow> unat (hd ys) = unat b + 40 + unat (fld m Size b)"
proof -
  obtain p' where b: "block_at m p' b" "tile m b (b + 40 + fld m Size b) ys q 0"
    using assms by (auto simp: tile_append)
  then show "fld m Next b = b + 40 + fld m Size b" by (simp add: block_at_def)
  then show "fld m Next b = (if ys = [] then 0 else hd ys)" using b by (cases ys) auto
  show "unat (hd ys) = unat b + 40 + unat (fld m Size b)" if "ys \<noteq> []"
    using block_at_end[OF b(1)] tile_start[OF b(2) that] by auto
qed

lemma block_prev:
  assumes "tile m 0 a (xs @ b # ys) q 0"
  shows "fld m Prev b = (if xs = [] then 0 else last xs)"
proof -
  have "tile m p a (xs @ b # ys) q e \<Longrightarrow> fld m Prev b = (if xs = [] then p else last xs)" for p a e
    by (induction xs arbitrary: p a) (auto simp: block_at_def)
  then show ?thesis using assms by blast
qed

text \<open>What a routine on the block structure leaves alone: bytes outside the headers and the sizes of
  the blocks in \<open>K\<close>.\<close>

definition block_frame :: "addr set \<Rightarrow> addr set \<Rightarrow> mem \<Rightarrow> mem \<Rightarrow> bool" where
  "block_frame H K m m' \<longleftrightarrow> hdr_frame H m m' \<and> (\<forall>b\<in>K. fld m' Size b = fld m Size b)"

lemma block_size_merged:
  assumes "block_at m p b" "block_at m b c" "c = b + 40 + fld m Size b"
  defines "n \<equiv> c + 39 + fld m Size c - (b + 40) + 1"
  shows "b + 40 + n = c + 40 + fld m Size c" "unat n = unat (fld m Size b) + 40 + unat (fld m Size c)"
    "unat b + 40 + unat n \<le> 2 ^ 64" "8 dvd unat n"
proof -
  show e: "b + 40 + n = c + 40 + fld m Size c" by (simp add: n_def)
  have c: "unat c = unat b + 40 + unat (fld m Size b)" "unat c + 40 + unat (fld m Size c) \<le> 2 ^ 64"
    using block_at_end[OF assms(1)] assms(2,3) by (simp_all add: block_at_def)
  have "n = fld m Size b + 40 + fld m Size c" by (simp add: n_def assms(3))
  also have "\<dots> = of_nat (unat (fld m Size b) + 40 + unat (fld m Size c))" by simp
  also have "unat \<dots> = unat (fld m Size b) + 40 + unat (fld m Size c)"
    by (rule unat_of_nat_u64) (use c assms(1) in \<open>auto simp: block_at_def\<close>)
  finally show n: "unat n = unat (fld m Size b) + 40 + unat (fld m Size c)" .
  show "unat b + 40 + unat n \<le> 2 ^ 64" using c n by simp
  show "8 dvd unat n" using assms(1,2) by (simp add: n block_at_def)
qed

text \<open>The writes with which a block absorbs its right neighbour, apart from those of \<open>freelist_remove\<close>.\<close>

definition absorb :: "mem \<Rightarrow> addr \<Rightarrow> addr \<Rightarrow> mem" where
  "absorb m b c =
     (let nx = fld m Next c;
          m = upd (upd m Size b (c + 39 + fld m Size c - (b + 40) + 1)) Next b nx
      in if nx = 0 then m else upd m Prev nx b)"

lemma fld_absorb:
  assumes "hsep H" "b \<in> H" "fld m Next c = 0 \<or> fld m Next c \<in> H" "x \<in> H"
  shows "fld (absorb m b c) f x =
    (if x = b \<and> f = Size then c + 39 + fld m Size c - (b + 40) + 1
     else if x = b \<and> f = Next then fld m Next c
     else if x = fld m Next c \<and> f = Prev then b else fld m f x)"
proof -
  have "x \<noteq> 0" using assms(1,4) by (simp add: hsep_def)
  then show ?thesis using assms by (auto simp: absorb_def Let_def fld_upd[OF assms(1)])
qed

lemma tile_absorb:
  assumes t: "tile m 0 a (xs @ b # c # ys) q 0"
    and m': "\<forall>x\<in>set (xs @ b # ys). \<forall>f\<in>{Next, Prev, Size}. fld m' f x = fld (absorb m b c) f x"
  shows "\<exists>q. tile m' 0 a (xs @ b # ys) q 0"
proof -
  let ?H = "set (xs @ b # c # ys)"
  have sep: "hsep ?H" and d: "distinct (xs @ b # c # ys)" using tile_hsep[OF t] tile_distinct[OF t] by auto
  have nz: "0 \<notin> ?H" using sep by (auto simp: hsep_def)
  have nx: "fld m Next c = (if ys = [] then 0 else hd ys)" using block_next(1)[of m 0 a "xs @ [b]" c ys q] t by simp
  then have "fld m Next c = 0 \<or> fld m Next c \<in> ?H" by simp
  note fa = fld_absorb[OF sep _ this]
  obtain p where x: "tile m 0 a xs p b" and b: "block_at m p b" and c: "c = b + 40 + fld m Size b" "block_at m b c"
    and y: "tile m c (c + 40 + fld m Size c) ys q 0"
    using t by (auto simp: tile_append)
  note sz = block_size_merged[OF b c(2,1)]
  have "\<forall>z\<in>set xs. \<forall>f\<in>{Next, Prev, Size}. fld m' f z = fld m f z"
    using m' d nx nz by (auto simp: fa)
  then have "tile m' 0 a xs p b" using x by (subst tile_cong)
  moreover have "fld m' Size b = c + 39 + fld m Size c - (b + 40) + 1" "fld m' Next b = fld m Next c" "fld m' Prev b = fld m Prev b"
    using m' d nx nz by (auto simp: fa)
  then have "block_at m' p b" and e: "b + 40 + fld m' Size b = c + 40 + fld m Size c"
    using b c(2) sz by (simp_all add: block_at_def)
  moreover have "\<exists>q. tile m' b (c + 40 + fld m Size c) ys q 0"
  proof (cases ys)
    case (Cons z zs)
    then have z: "fld m Next c = z" using nx by simp
    have "\<forall>v\<in>set zs. \<forall>f\<in>{Next, Prev, Size}. fld m' f v = fld m f v" "fld m' Prev z = b"
      "\<forall>f\<in>{Next, Size}. fld m' f z = fld m f z"
      using m' d by (auto simp: fa Cons z)
    then show ?thesis using y tile_cong[of zs m' m] unfolding Cons by (auto simp: block_at_def)
  qed (use y in auto)
  then obtain q' where "tile m' b (b + 40 + fld m' Size b) ys q' 0" unfolding e by blast
  ultimately show ?thesis by (auto simp: tile_append)
qed

lemma merge_right_eq:
  assumes "hsep H" "b \<in> H" "c \<in> H" "fld (kmem st) Next b = c" "b \<noteq> c" "is_free c st = Inr True"
  shows "merge_right b st = kbind (freelist_remove c (st\<lparr>kmem := absorb (kmem st) b c\<rparr>)) (\<lambda>st. Inr (b, st))"
proof -
  have "b \<noteq> 0" "c \<noteq> 0" using assms(1-3) by (auto simp: hsep_def)
  then show ?thesis using assms(2-6)
    by (simp add: merge_right_def field_step(1,2,4) absorb_def Let_def block_start_addr_def sizeof_memblock_def
        fld_upd[OF assms(1)])
qed

text \<open>\<open>merge_right\<close> on a block whose right neighbour is free.\<close>

lemma merge_right_free:
  assumes wf: "lists_wf st (xs @ b # c # ys) fl" and c: "c \<in> set fl"
  obtains m' fh where "merge_right b st = Inr (b, st\<lparr>kmem := m', free_head := fh\<rparr>)"
    "lists_wf (st\<lparr>kmem := m', free_head := fh\<rparr>) (xs @ b # ys) (remove1 c fl)"
    "block_frame (set (xs @ b # c # ys)) (set (xs @ ys)) (kmem st) m'"
    "unat (fld m' Size b) = unat (fld (kmem st) Size b) + 40 + unat (fld (kmem st) Size c)"
proof -
  let ?bs = "xs @ b # c # ys" and ?m = "kmem st"
  let ?H = "set ?bs" and ?ma = "absorb ?m b c"
  obtain q where t: "tile ?m 0 (block_head st) ?bs q 0" and sep: "hsep ?H" and d: "distinct ?bs"
    and fl: "set fl \<subseteq> ?H" "distinct fl" "fl_wf st ?H fl"
    by (rule lists_wfD[OF wf]) blast
  have nz: "0 \<notin> ?H" using sep by (auto simp: hsep_def)
  have nx: "fld ?m Next c = (if ys = [] then 0 else hd ys)" "fld ?m Next b = c"
    using block_next(1)[of ?m 0 "block_head st" "xs @ [b]" c ys q] block_next(1)[OF t] t by simp_all
  then have nxH: "fld ?m Next c = 0 \<or> fld ?m Next c \<in> ?H" by simp
  note fa = fld_absorb[OF sep _ nxH]
  have "fl_wf (st\<lparr>kmem := ?ma\<rparr>) ?H fl"
    by (rule fl_wf_cong[OF fl(3) _ sep fl(1)]) (use fl(1) in \<open>auto simp: fa\<close>)
  then obtain m' fh where rem: "freelist_remove c (st\<lparr>kmem := ?ma\<rparr>) = Inr (st\<lparr>kmem := m', free_head := fh\<rparr>)"
    "fl_wf (st\<lparr>kmem := m', free_head := fh\<rparr>) ?H (remove1 c fl)" "free_fields_only ?H (set fl) ?ma m'"
    by (rule freelist_remove_wf[OF _ c]) auto
  have m': "fld m' f x = fld ?ma f x" if "x \<in> ?H" "f \<in> {Next, Prev, Size} \<or> x \<notin> set fl" for x f
    using rem(3) that unfolding free_fields_only_def by blast
  show thesis
  proof (rule that)
    have "b \<noteq> 0" "c \<noteq> 0" "b \<noteq> c" using nz d by auto
    then show "merge_right b st = Inr (b, st\<lparr>kmem := m', free_head := fh\<rparr>)"
      using merge_right_eq[OF sep _ _ nx(2)] free_flag(1)[OF wf, of c] c rem(1) by simp
    have "\<exists>q. tile m' 0 (block_head st) (xs @ b # ys) q 0"
      by (rule tile_absorb[OF t]) (use m' in auto)
    moreover have "fl_wf (st\<lparr>kmem := m', free_head := fh\<rparr>) (set (xs @ b # ys)) (remove1 c fl)"
      by (rule fl_wf_shrink[OF rem(2)]) (use fl(1,2) in auto)
    moreover have "fld m' Free_next x = 0 \<and> fld m' Free_prev x = 0" if "x \<in> set (xs @ b # ys) - set (remove1 c fl)" for x
    proof -
      have "x \<in> ?H" "x \<notin> set fl" using that d by (auto simp: set_remove1_eq[OF fl(2)])
      then show ?thesis using wf m' by (auto simp: fa lists_wf_def)
    qed
    ultimately show "lists_wf (st\<lparr>kmem := m', free_head := fh\<rparr>) (xs @ b # ys) (remove1 c fl)"
      by (auto simp: lists_wf_def)
    have "hdr_frame ?H ?m ?ma" using nxH by (auto simp: absorb_def Let_def)
    then have "hdr_frame ?H ?m m'" using rem(3) unfolding free_fields_only_def by (blast intro: hdr_frame_trans)
    then show "block_frame ?H (set (xs @ ys)) ?m m'"
      using m' d by (auto simp: block_frame_def fa)
    obtain p where p: "block_at ?m p b" "block_at ?m b c" "c = b + 40 + fld ?m Size b" using t by (auto simp: tile_append)
    show "unat (fld m' Size b) = unat (fld ?m Size b) + 40 + unat (fld ?m Size c)"
      using m'[of b Size] block_size_merged(2)[OF p] by (simp add: fa)
  qed
qed

lemma upd_fld_same [simp]: "upd m f p (fld m f p) = m"
  by (rule write64_read64_same)

text \<open>In a tiled heap there is no gap to absorb: with no free neighbour, \<open>merge_right\<close> and
  \<open>merge_left\<close> write back what they read.\<close>

lemma merge_right_used:
  assumes wf: "lists_wf st (xs @ b # ys) fl" and c: "ys = [] \<or> hd ys \<notin> set fl"
  shows "merge_right b st = Inr (b, st)"
proof -
  let ?m = "kmem st"
  obtain q where t: "tile ?m 0 (block_head st) (xs @ b # ys) q 0" by (rule lists_wfD[OF wf]) blast
  note nx = block_next(1,2)[OF t]
  have b: "b \<noteq> 0" using free_flag(2)[OF wf] by simp
  have "merge_right b st = kbind (set_field Size b (fld ?m Size b) st) (\<lambda>st. Inr (b, st))"
  proof (cases "ys = []")
    case True
    then have "0 = b + 40 + fld ?m Size b" using nx by simp
    then have "fld ?m Size b = - (b + 40)" by (metis minus_unique)
    moreover have "VA_END + 1 = 0" by (simp add: VA_END_def)
    ultimately have "VA_END - (b + 40) + 1 = fld ?m Size b" by (metis add.commute diff_add_eq diff_0)
    then show ?thesis using True nx(1) b
      by (simp add: merge_right_def step_simps block_start_addr_def sizeof_memblock_def)
  next
    case False
    then have "is_free (hd ys) st = Inr False" "hd ys \<noteq> 0" using c free_flag[OF wf, of "hd ys"] by auto
    moreover have "hd ys = b + 40 + fld ?m Size b" using nx False by simp
    ultimately show ?thesis using False nx(1) b
      by (simp add: merge_right_def field_step(1,2) block_start_addr_def sizeof_memblock_def)
  qed
  then show ?thesis using b by (simp add: step_simps)
qed

lemma memmove_self: "snd (memmove m a a n) = m"
  by (simp add: fun_eq_iff memmove_apply)

lemma merge_left_used:
  assumes wf: "lists_wf st (xs @ b # ys) fl" and b: "b \<in> set fl" and c: "xs = [] \<or> last xs \<notin> set fl"
    and top: "kheap_top st = block_head st"
  shows "merge_left b st = Inr (b, st)"
proof -
  let ?m = "kmem st"
  obtain q where t: "tile ?m 0 (block_head st) (xs @ b # ys) q 0" by (rule lists_wfD[OF wf]) blast
  note pv = block_prev[OF t]
  have nz: "b \<noteq> 0" "is_free b st = Inr True" using free_flag[OF wf, of b] b by simp_all
  show ?thesis
  proof (cases "xs = []")
    case True
    then have "b = block_head st" using t by simp
    moreover have "b + 39 + fld ?m Size b - b - 40 + 1 = fld ?m Size b" by simp
    ultimately show ?thesis using True pv nz top
      by (simp add: merge_left_def field_step(1,2,4) sizeof_memblock_def move_header_def memmove_self)
  next
    case False
    let ?l = "last xs"
    have l: "is_free ?l st = Inr False" "?l \<noteq> 0" using False c free_flag[OF wf, of ?l] by auto
    have "xs @ b # ys = butlast xs @ ?l # b # ys" using False by simp
    from t[unfolded this] have end_l: "?l + 40 + fld ?m Size ?l = b"
      using block_next(1,2)[of ?m 0 "block_head st" "butlast xs" ?l "b # ys" q] by simp
    then have "block_end_addr ?l st = Inr (b - 1)" using l(2) by (simp add: step_simps algebra_simps)
    moreover have "set_field Size b (b + 39 + fld ?m Size b - (b - 1) - 40) st = Inr st" using nz by (simp add: step_simps)
    moreover have "block_end_addr b st = Inr (b + 39 + fld ?m Size b)" using nz by (simp add: step_simps)
    ultimately show ?thesis using False pv nz l
      by (simp add: merge_left_def field_step(1) sizeof_memblock_def move_header_def memmove_self)
  qed
qed

text \<open>With a free block on the left, \<open>merge_left\<close> does to it what \<open>merge_right\<close> would.\<close>

lemma merge_left_free:
  assumes wf: "lists_wf st (xs @ c # b # ys) fl" and b: "b \<in> set fl" and c: "c \<in> set fl"
  shows "merge_left b st = merge_right c st"
proof -
  let ?m = "kmem st"
  obtain q where t: "tile ?m 0 (block_head st) (xs @ c # b # ys) q 0" and sep: "hsep (set (xs @ c # b # ys))"
    and d: "distinct (xs @ c # b # ys)"
    by (rule lists_wfD[OF wf]) blast
  have pv: "fld ?m Prev b = c" using block_prev[of ?m "block_head st" "xs @ [c]" b ys q] t by simp
  have nx: "fld ?m Next c = b" using block_next(1)[OF t] by simp
  have f: "is_free b st = Inr True" "is_free c st = Inr True" "b \<noteq> 0" "c \<noteq> 0"
    using free_flag[OF wf, of b] free_flag[OF wf, of c] b c by simp_all
  have "merge_right c st = kbind (freelist_remove b (st\<lparr>kmem := absorb ?m c b\<rparr>)) (\<lambda>st. Inr (c, st))"
    by (rule merge_right_eq[OF sep _ _ nx]) (use f d in auto)
  moreover have "merge_left b st = kbind (freelist_remove b (st\<lparr>kmem := absorb ?m c b\<rparr>)) (\<lambda>st. Inr (c, st))"
    using f pv d by (simp add: merge_left_def field_step(1,2,4) absorb_def Let_def block_start_addr_def
        sizeof_memblock_def fld_upd[OF sep])
  ultimately show ?thesis by simp
qed

section \<open>Splitting\<close>

text \<open>The writes with which \<open>split\<close> makes a block \<open>c\<close> of \<open>n\<close> bytes behind \<open>b\<close> and leaves \<open>r\<close> bytes to \<open>b\<close>,
  before the new block goes on the freelist.\<close>

definition carve :: "mem \<Rightarrow> addr \<Rightarrow> addr \<Rightarrow> u64 \<Rightarrow> u64 \<Rightarrow> mem" where
  "carve m b c r n =
     (let nx = fld m Next b;
          m = upd (upd (upd (upd (upd m Size b r) Size c n) Prev c b) Next c nx) Next b c
      in if nx = 0 then m else upd m Prev nx c)"

lemma fld_carve:
  assumes "hsep H" "b \<in> H" "c \<in> H" "b \<noteq> c" "fld m Next b = 0 \<or> fld m Next b \<in> H" "fld m Next b \<noteq> b" "fld m Next b \<noteq> c"
  shows "fld (carve m b c r n) f b = (case f of Size \<Rightarrow> r | Next \<Rightarrow> c | _ \<Rightarrow> fld m f b)"
    "fld (carve m b c r n) f c = (case f of Size \<Rightarrow> n | Next \<Rightarrow> fld m Next b | Prev \<Rightarrow> b | _ \<Rightarrow> fld m f c)"
    "x \<in> H \<Longrightarrow> x \<noteq> b \<Longrightarrow> x \<noteq> c \<Longrightarrow>
       fld (carve m b c r n) f x = (if x = fld m Next b \<and> f = Prev then c else fld m f x)"
proof -
  note u = fld_upd[OF assms(1)]
  show "fld (carve m b c r n) f b = (case f of Size \<Rightarrow> r | Next \<Rightarrow> c | _ \<Rightarrow> fld m f b)"
    using assms(2-7) by (cases "fld m Next b = 0"; cases f; simp add: carve_def Let_def u)
  show "fld (carve m b c r n) f c = (case f of Size \<Rightarrow> n | Next \<Rightarrow> fld m Next b | Prev \<Rightarrow> b | _ \<Rightarrow> fld m f c)"
    using assms(2-7) by (cases "fld m Next b = 0"; cases f; simp add: carve_def Let_def u)
  assume x: "x \<in> H" "x \<noteq> b" "x \<noteq> c"
  then have "x \<noteq> 0" using assms(1) by (simp add: hsep_def)
  then show "fld (carve m b c r n) f x = (if x = fld m Next b \<and> f = Prev then c else fld m f x)"
    using assms(2-7) x by (cases "fld m Next b = 0"; simp add: carve_def Let_def u)
qed

text \<open>Where the new header stands.\<close>

lemma carve_point:
  assumes t: "tile m 0 a (xs @ b # ys) q 0" and n: "unat n + 41 \<le> unat (fld m Size b)"
  defines "c \<equiv> b + fld m Size b - n"
  shows "unat c = unat b + unat (fld m Size b) - unat n" "c \<notin> set (xs @ b # ys)" "hsep (insert c (set (xs @ b # ys)))"
proof -
  note ord = tile_order[OF t]
  have b: "unat b + 40 + unat (fld m Size b) \<le> 2 ^ 64" using ord(2) by simp
  have "unat (b + fld m Size b) = unat b + unat (fld m Size b)" using b by (subst unat_add_lem[THEN iffD1]) auto
  then show c: "unat c = unat b + unat (fld m Size b) - unat n"
    unfolding c_def using n by (subst unat_sub) (auto simp: word_le_nat_alt)
  have "unat c + 40 \<le> unat x \<or> unat x + 40 \<le> unat c" if "x \<in> set (xs @ b # ys)" for x
  proof -
    have "unat x + 40 \<le> unat b" if "x \<in> set xs" using ord(1) that by (fastforce simp: sorted_wrt_append)
    moreover have "unat b + 40 + unat (fld m Size b) \<le> unat x" if "x \<in> set ys" using ord(1) that by (simp add: sorted_wrt_append)
    ultimately show ?thesis using \<open>x \<in> _\<close> c n by auto
  qed
  moreover from this show "c \<notin> set (xs @ b # ys)" by fastforce
  moreover have "c \<noteq> 0" "unat c + 40 \<le> 2 ^ 64" using c n b by auto
  ultimately show "hsep (insert c (set (xs @ b # ys)))" using tile_hsep[OF t] by (auto simp: hsep_def)
qed

lemma unat_carve_rest:
  assumes "unat n + 41 \<le> unat (s :: u64)"
  shows "unat (s - n - 40) = unat s - unat n - 40" "(40 :: u64) \<le> s - n"
proof -
  have "unat (s - n) = unat s - unat n" using assms by (subst unat_sub) (auto simp: word_le_nat_alt)
  moreover from this show "(40 :: u64) \<le> s - n" using assms by (simp add: word_le_nat_alt)
  ultimately show "unat (s - n - 40) = unat s - unat n - 40" by (subst unat_sub) auto
qed

lemma carve_fields:
  assumes t: "tile m 0 a (xs @ b # ys) q 0" and n: "unat n + 41 \<le> unat (fld m Size b)"
  defines "c \<equiv> b + fld m Size b - n"
  shows "fld (carve m b c r n) f b = (case f of Size \<Rightarrow> r | Next \<Rightarrow> c | _ \<Rightarrow> fld m f b)"
    "fld (carve m b c r n) f c = (case f of Size \<Rightarrow> n | Next \<Rightarrow> fld m Next b | Prev \<Rightarrow> b | _ \<Rightarrow> fld m f c)"
    "x \<in> set xs \<union> set ys \<Longrightarrow>
       fld (carve m b c r n) f x = (if x = fld m Next b \<and> f = Prev then c else fld m f x)"
proof -
  note cp = carve_point[OF t n(1), folded c_def]
  have d: "distinct (xs @ b # ys)" and nz: "0 \<notin> insert c (set (xs @ b # ys))"
    using tile_distinct[OF t] cp(3) by (auto simp: hsep_def)
  have nx: "fld m Next b = (if ys = [] then 0 else hd ys)" by (rule block_next(1)[OF t])
  have "fld m Next b = 0 \<or> fld m Next b \<in> insert c (set (xs @ b # ys))" "fld m Next b \<noteq> b" "fld m Next b \<noteq> c" "b \<noteq> c"
    using nx cp(2) nz d by (cases ys; auto)+
  note fa = fld_carve[OF cp(3) _ _ this(4,1,2,3)]
  show "fld (carve m b c r n) f b = (case f of Size \<Rightarrow> r | Next \<Rightarrow> c | _ \<Rightarrow> fld m f b)"
    "fld (carve m b c r n) f c = (case f of Size \<Rightarrow> n | Next \<Rightarrow> fld m Next b | Prev \<Rightarrow> b | _ \<Rightarrow> fld m f c)"
    by (rule fa; simp)+
  show "fld (carve m b c r n) f x = (if x = fld m Next b \<and> f = Prev then c else fld m f x)" if "x \<in> set xs \<union> set ys"
    by (rule fa) (use that cp(2) d in auto)
qed

lemma tile_carve:
  assumes t: "tile m 0 a (xs @ b # ys) q 0" and n: "unat n + 41 \<le> unat (fld m Size b)" "8 dvd unat n"
  defines "c \<equiv> b + fld m Size b - n"
  assumes m': "\<And>x f. x \<in> set (xs @ b # c # ys) \<Longrightarrow> f \<in> {Next, Prev, Size} \<Longrightarrow>
    fld m' f x = fld (carve m b c (fld m Size b - n - 40) n) f x"
  shows "\<exists>q. tile m' 0 a (xs @ b # c # ys) q 0"
proof -
  note cp = carve_point[OF t n(1), folded c_def] and fa = carve_fields[OF t n(1), folded c_def]
  have d: "distinct (xs @ b # ys)" and nz: "0 \<notin> set xs" "c \<noteq> 0" using tile_distinct[OF t] cp(3) by (auto simp: hsep_def)
  have nx: "fld m Next b = (if ys = [] then 0 else hd ys)" by (rule block_next(1)[OF t])
  obtain p where x: "tile m 0 a xs p b" and b: "block_at m p b" and y: "tile m b (b + 40 + fld m Size b) ys q 0"
    using t by (auto simp: tile_append)
  have "fld m Next b \<notin> set xs" using nx nz d by (cases ys) auto
  then have "\<forall>z\<in>set xs. \<forall>f\<in>{Next, Prev, Size}. fld m' f z = fld m f z" using fa(3) m' by auto
  then have "tile m' 0 a xs p b" using x by (subst tile_cong)
  moreover have fb: "fld m' Size b = fld m Size b - n - 40" "fld m' Next b = c" "fld m' Prev b = fld m Prev b"
    and fc: "fld m' Size c = n" "fld m' Next c = fld m Next b" "fld m' Prev c = b"
    by (simp_all add: m' fa(1,2))
  have ends: "b + 40 + fld m' Size b = c" "c + 40 + fld m' Size c = b + 40 + fld m Size b"
    unfolding fb fc by (simp_all add: c_def)
  have bl: "unat b + 40 + unat (fld m Size b) \<le> 2 ^ 64" "8 dvd unat (fld m Size b)" "b \<noteq> 0" "fld m Next b = b + 40 + fld m Size b"
    using b by (simp_all add: block_at_def)
  have sb: "unat (fld m' Size b) = unat (fld m Size b) - unat n - 40" unfolding fb by (rule unat_carve_rest(1)[OF n(1)])
  have "fld m' Prev b = p" "unat b + 40 + unat (fld m' Size b) \<le> 2 ^ 64" "8 dvd unat (fld m' Size b)"
    using b bl n sb by (auto simp: fb(3) block_at_def)
  then have "block_at m' p b" unfolding block_at_def using bl(3) ends(1) fb(2) by simp
  moreover have "unat c + 40 + unat (fld m' Size c) \<le> 2 ^ 64" using bl n cp(1) by (auto simp: fc)
  then have "block_at m' b c" unfolding block_at_def ends(2) using nz(2) n(2) bl(4) fc by simp
  moreover have "\<exists>q. tile m' c (b + 40 + fld m Size b) ys q 0"
  proof (cases ys)
    case (Cons z zs)
    then have z: "fld m Next b = z" "z \<in> set ys" "z \<notin> set zs" using nx d by auto
    have "\<forall>v\<in>set zs. \<forall>f\<in>{Next, Prev, Size}. fld m' f v = fld m f v" using z(3) by (auto simp: m' fa(3) z(1) Cons)
    moreover have "fld m' Prev z = c" "fld m' Next z = fld m Next z" "fld m' Size z = fld m Size z"
      using z(2) by (simp_all add: m' fa(3) z(1))
    ultimately show ?thesis using y tile_cong[of zs m' m] unfolding Cons by (auto simp: block_at_def)
  qed (use y in auto)
  then obtain q' where "tile m' c (c + 40 + fld m' Size c) ys q' 0" unfolding ends by blast
  ultimately have "tile m' 0 a xs p b" "tile m' p b (b # c # ys) q' 0" using ends(1) by simp_all
  then show ?thesis unfolding tile_append by blast
qed

lemma dvd_ALIGN_UP_8: "8 dvd unat (ALIGN_UP n 8)"
  using unat_and_not_mask[of "n + 7" 3]
  by (simp add: ALIGN_UP_def mask_eq_exp_minus_1 add.commute minus_mod_eq_div_mult)

lemma split_small:
  assumes "b \<noteq> 0" "fld (kmem st) Size b - ALIGN_UP n 8 < 41"
  shows "split b n st = Inr (b, st)"
  using assms by (simp add: split_def step_simps sizeof_memblock_def KHEAP_MIN_FREE_SIZE_def)

lemma split_eq:
  assumes "hsep H" "b \<in> H" "c \<in> H" "b \<noteq> c" "\<not> fld (kmem st) Size b - ALIGN_UP n 8 < 41"
    and c: "c = b + fld (kmem st) Size b - ALIGN_UP n 8"
  shows "split b n st =
    kbind (freelist_insert c (st\<lparr>kmem := carve (kmem st) b c (fld (kmem st) Size b - ALIGN_UP n 8 - 40) (ALIGN_UP n 8)\<rparr>))
      (\<lambda>st. Inr (c, st))"
proof -
  let ?s = "fld (kmem st) Size b" and ?n = "ALIGN_UP n 8"
  let ?st = "st\<lparr>kmem := upd (kmem st) Size b (?s - ?n - 40)\<rparr>"
  have nz: "b \<noteq> 0" "c \<noteq> 0" using assms(1-3) by (auto simp: hsep_def)
  have "fld (upd (kmem st) Size b (?s - ?n - 40)) Size b = ?s - ?n - 40" by simp
  then have e: "block_end_addr b ?st = Inr (c - 1)" using nz by (simp add: field_step(4) c)
  have "split b n st = split_link b c ?n ?st"
    using nz assms(5) e by (simp add: split_def Let_def sizeof_memblock_def KHEAP_MIN_FREE_SIZE_def
        block_start_addr_def field_step(1,2), simp add: field_step(4))
  then show ?thesis using nz assms(2-4)
    by (simp add: split_link_def carve_def Let_def field_step(1,2) fld_upd[OF assms(1)])
qed

lemma hdr_frame_carve: "b \<in> H \<Longrightarrow> c \<in> H \<Longrightarrow> fld m Next b = 0 \<or> fld m Next b \<in> H \<Longrightarrow> hdr_frame H m (carve m b c r n)"
  by (auto simp: carve_def Let_def)

lemma split_wf:
  assumes wf: "lists_wf st (xs @ b # ys) fl" and n: "n = ALIGN_UP num 8" "unat n \<le> unat (fld (kmem st) Size b)"
    and big: "\<not> fld (kmem st) Size b - n < 41"
  defines "c \<equiv> b + fld (kmem st) Size b - n"
  obtains m' where "split b num st = Inr (c, st\<lparr>kmem := m', free_head := c\<rparr>)" "c \<notin> set (xs @ b # ys)"
    "lists_wf (st\<lparr>kmem := m', free_head := c\<rparr>) (xs @ b # c # ys) (c # fl)"
    "block_frame (set (xs @ b # c # ys)) (set (xs @ ys)) (kmem st) m'"
    "unat c = unat b + unat (fld (kmem st) Size b) - unat n" "fld m' Size c = n"
    "unat (fld m' Size b) = unat (fld (kmem st) Size b) - unat n - 40"
proof -
  let ?m = "kmem st" and ?H = "set (xs @ b # c # ys)"
  let ?mc = "carve ?m b c (fld ?m Size b - n - 40) n"
  obtain q where t: "tile ?m 0 (block_head st) (xs @ b # ys) q 0" and d: "distinct (xs @ b # ys)"
    and fl: "set fl \<subseteq> set (xs @ b # ys)" "fl_wf st (set (xs @ b # ys)) fl"
    by (rule lists_wfD[OF wf]) blast
  have "unat (fld ?m Size b - n) = unat (fld ?m Size b) - unat n" using n(2) by (subst unat_sub) (auto simp: word_le_nat_alt)
  then have nb: "unat n + 41 \<le> unat (fld ?m Size b)" using big n(2) by (simp add: word_less_nat_alt)
  note cp = carve_point[OF t nb, folded c_def] and fa = carve_fields[OF t nb, folded c_def]
  have sep: "hsep ?H" using cp(3) by (rule hsep_subset) auto
  have c_eq: "c = b + fld ?m Size b - ALIGN_UP num 8" by (simp add: c_def n(1))
  have free_eq: "fld ?mc f x = fld ?m f x" if "f \<in> {Free_next, Free_prev}" "x \<in> set (xs @ b # ys)" for f x
    using that fa by (cases "x = b") auto
  have "fl_wf (st\<lparr>kmem := ?mc\<rparr>) ?H fl"
    by (rule fl_wf_cong[OF fl(2) _ sep]) (use fl(1) free_eq[OF _ subsetD[OF fl(1)]] in auto)
  then obtain m' where ins: "freelist_insert c (st\<lparr>kmem := ?mc\<rparr>) = Inr (st\<lparr>kmem := m', free_head := c\<rparr>)"
    "fl_wf (st\<lparr>kmem := m', free_head := c\<rparr>) ?H (c # fl)" "free_fields_only ?H (set (c # fl)) ?mc m'"
    by (rule freelist_insert_wf[of _ ?H fl c]) (use fl(1) cp(2) in auto)
  have m': "fld m' f x = fld ?mc f x" if "x \<in> ?H" "f \<in> {Next, Prev, Size} \<or> x \<notin> set (c # fl)" for x f
    using ins(3) that unfolding free_fields_only_def by blast
  show thesis
  proof (rule that)
    show "split b num st = Inr (c, st\<lparr>kmem := m', free_head := c\<rparr>)"
      using split_eq[OF sep _ _ _ big[unfolded n(1)] c_eq] ins(1) cp(2) by (auto simp: n(1))
    show "c \<notin> set (xs @ b # ys)" "unat c = unat b + unat (fld ?m Size b) - unat n" by (rule cp)+
    have "\<exists>q. tile m' 0 (block_head st) (xs @ b # c # ys) q 0"
      unfolding c_def by (rule tile_carve[OF t nb]) (use m' dvd_ALIGN_UP_8 n(1) in \<open>auto simp: c_def\<close>)
    moreover have "fld m' Free_next x = 0 \<and> fld m' Free_prev x = 0" if "x \<in> ?H - set (c # fl)" for x
    proof -
      have "x \<in> set (xs @ b # ys)" "x \<notin> set fl" "x \<in> ?H" "x \<notin> set (c # fl)" using that by auto
      then show ?thesis using wf m' free_eq unfolding lists_wf_def by (metis DiffI insertCI)
    qed
    ultimately show "lists_wf (st\<lparr>kmem := m', free_head := c\<rparr>) (xs @ b # c # ys) (c # fl)"
      using ins(2) by (auto simp: lists_wf_def)
    have "fld ?m Next b = 0 \<or> fld ?m Next b \<in> ?H" using block_next(1)[OF t] by simp
    then have "hdr_frame ?H ?m m'"
      using hdr_frame_carve[of b ?H c ?m] ins(3) unfolding free_fields_only_def by (auto intro: hdr_frame_trans)
    then show "block_frame ?H (set (xs @ ys)) ?m m'" using m' fa(3) by (auto simp: block_frame_def)
    show "fld m' Size c = n" using m' fa(2) by simp
    show "unat (fld m' Size b) = unat (fld ?m Size b) - unat n - 40"
      using m' fa(1)[where f = Size] unat_carve_rest(1)[OF nb] by simp
  qed
qed

section \<open>A new block at the top\<close>

lemma block_head_kmem: "st\<lparr>kmem := m, block_head := a\<rparr> = st\<lparr>block_head := a, kmem := m\<rparr>"
  by simp

lemma kheap_add_block_wf:
  assumes wf: "lists_wf st bs fl" and a: "unat (kheap_top st) + 40 \<le> unat (block_head st)" "kheap_top st \<noteq> 0"
    and al: "8 dvd unat (kheap_top st)" "8 dvd unat (block_head st)"
  defines "a \<equiv> kheap_top st"
  obtains m' where "kheap_add_block st = kbind (merge_right a (st\<lparr>block_head := a, kmem := m', free_head := a\<rparr>)) (\<lambda>(_, st). Inr st)"
    "lists_wf (st\<lparr>block_head := a, kmem := m', free_head := a\<rparr>) (a # bs) (a # fl)" "a \<notin> set bs"
    "block_frame (set (a # bs)) (set bs) (kmem st) m'"
    "unat (fld m' Size a) = unat (block_head st) - unat a - 40"
proof -
  let ?m = "kmem st" and ?H = "set (a # bs)" and ?b = "block_head st"
  let ?s = "?b - (a + 40)"
  let ?ma = "upd (upd (upd (upd ?m Size a ?s) Next a ?b) Prev a 0) Prev ?b a"
  obtain q where t: "tile ?m 0 ?b bs q 0" and d: "distinct bs" and sepb: "hsep (set bs)"
    and fl: "set fl \<subseteq> set bs" "fl_wf st (set bs) fl"
    by (rule lists_wfD[OF wf]) blast
  have bs: "bs \<noteq> []" using wf by (simp add: lists_wf_def)
  have b: "?b \<in> set bs" "hd bs = ?b" "?b \<noteq> 0" using tile_start[OF t bs] bs hd_in_set[OF bs] by auto
  have low: "unat a + 40 \<le> unat x" if "x \<in> set bs" for x using tile_order(2)[OF t] a(1) that by (fastforce simp: a_def)
  then have "unat a + 40 \<le> 2 ^ 64" using b(1) unat_u64_bound[of ?b] by (meson less_imp_le_nat le_trans)
  with low have sep: "hsep ?H" using sepb a(2) unfolding hsep_def a_def by auto
  have nin: "a \<notin> set bs" using low by fastforce
  note u = fld_upd[OF sep]
  have ub: "unat (a + 40) = unat a + 40" using a(1) unat_u64_bound[of ?b] by (subst unat_add_lem[THEN iffD1]) (auto simp: a_def)
  have us: "unat ?s = unat ?b - unat a - 40" using ub a(1) by (subst unat_sub) (auto simp: word_le_nat_alt a_def)
  have "fl_wf (st\<lparr>block_head := a, kmem := ?ma\<rparr>) ?H fl"
    by (rule fl_wf_cong[OF fl(2) _ sep]) (use fl(1) b(1) in \<open>auto simp: u\<close>)
  then obtain m' where ins: "freelist_insert a (st\<lparr>block_head := a, kmem := ?ma\<rparr>) = Inr (st\<lparr>block_head := a, kmem := m', free_head := a\<rparr>)"
    "fl_wf (st\<lparr>block_head := a, kmem := m', free_head := a\<rparr>) ?H (a # fl)" "free_fields_only ?H (set (a # fl)) ?ma m'"
    by (rule freelist_insert_wf[of _ ?H fl a]) (use fl(1) nin in auto)
  have m': "fld m' f x = fld ?ma f x" if "x \<in> ?H" "f \<in> {Next, Prev, Size} \<or> x \<notin> set (a # fl)" for x f
    using ins(3) that unfolding free_fields_only_def by blast
  have others: "fld ?ma f x = (if x = ?b \<and> f = Prev then a else fld ?m f x)" if "x \<in> set bs" for x f
    using that nin b(1) by (auto simp: u)
  have own: "fld m' Size a = ?s" "fld m' Next a = ?b" "fld m' Prev a = 0" using m' nin b(1) by (auto simp: u)
  show thesis
  proof (rule that)
    show "kheap_add_block st = kbind (merge_right a (st\<lparr>block_head := a, kmem := m', free_head := a\<rparr>)) (\<lambda>(_, st). Inr st)"
      using a(2) b(3) ins(1)
      by (simp add: kheap_add_block_def Let_def field_step(1,2) block_start_addr_def sizeof_memblock_def a_def
          block_head_kmem)
    obtain zs where zs: "bs = ?b # zs" "?b \<notin> set zs" using b(2) bs d by (cases bs) auto
    have "\<forall>v\<in>set zs. \<forall>f\<in>{Next, Prev, Size}. fld m' f v = fld ?m f v"
      "fld m' Prev ?b = a" "fld m' Next ?b = fld ?m Next ?b" "fld m' Size ?b = fld ?m Size ?b"
      using m' others zs by auto
    then have "tile m' a ?b bs q 0" using t tile_cong[of zs m' ?m] unfolding zs(1) by (auto simp: block_at_def)
    moreover have e: "a + 40 + fld m' Size a = ?b" using own(1) by simp
    moreover have "unat a + 40 + unat (fld m' Size a) \<le> 2 ^ 64" "8 dvd unat (fld m' Size a)"
      using own(1) us a(1) al unat_u64_bound[of ?b] by (auto simp: a_def)
    then have "block_at m' 0 a" using e own a(2) unfolding block_at_def by (simp add: a_def)
    ultimately have "tile m' 0 a (a # bs) q 0" by simp
    moreover have "fld m' Free_next x = 0 \<and> fld m' Free_prev x = 0" if "x \<in> ?H - set (a # fl)" for x
    proof -
      have "x \<in> set bs" "x \<notin> set fl" "x \<in> ?H" "x \<notin> set (a # fl)" using that by auto
      then show ?thesis using wf m' others unfolding lists_wf_def by auto
    qed
    ultimately show "lists_wf (st\<lparr>block_head := a, kmem := m', free_head := a\<rparr>) (a # bs) (a # fl)"
      using ins(2) unfolding lists_wf_def by auto
    show "a \<notin> set bs" by (rule nin)
    have "hdr_frame ?H ?m ?ma" using b(1) by simp
    then show "block_frame ?H (set bs) ?m m'"
      using m' others ins(3) unfolding block_frame_def free_fields_only_def by (auto intro: hdr_frame_trans)
    show "unat (fld m' Size a) = unat ?b - unat a - 40" using own(1) us by simp
  qed
qed

end
