(* ===== verification/Kheap_Pages.thy ===== *)
theory Kheap_Pages
  imports Kheap_Blocks
begin

text \<open>
  The pages below the heap: what the frames and page tables look like after the heap writes to its
  own memory, after it takes a frame, and after \<open>kheap_map_pages\<close> has mapped a run of pages.
\<close>

section \<open>States with the same page tables\<close>

lemma tab_same:
  assumes "\<And>t i. t \<in> tables ent r \<Longrightarrow> i < 512 \<Longrightarrow> ent' t i = ent t i"
  shows "q \<in> paths \<Longrightarrow> tab ent' r q = tab ent r q"
proof (induction q rule: rev_induct)
  case (snoc i q)
  note q = paths_snocD[OF snoc.prems]
  have "child ent' t i = child ent t i" if "tab ent r q = Some t" for t
    using that q by (intro child_cong assms) (auto intro: tablesI)
  then show ?case using snoc q by (auto simp: tab_snoc split: bind_splits)
qed simp

lemma leaf_same:
  assumes "\<And>t i. t \<in> tables ent r \<Longrightarrow> i < 512 \<Longrightarrow> ent' t i = ent t i" "q \<in> page_paths"
  shows "leaf ent' r q = leaf ent r q"
proof -
  have q: "butlast q \<in> paths" "last q < 512"
    using assms(2) by (auto simp: page_paths_def paths_def dest: in_set_butlastD)
      (metis last_in_set lessThan_iff list.size(3) subsetD zero_neq_numeral)
  have "tab ent' r (butlast q) = tab ent r (butlast q)" by (rule tab_same[OF assms(1) q(1)])
  then show ?thesis using assms(1) q by (auto simp: leaf_def tablesI split: option.splits)
qed

text \<open>Frames in use stay in use, no frame becomes free, and the frames hold what they held.\<close>

lemma pt_wf_same:
  assumes wf: "pt_wf st r" and pwf: "pmm_wf st'"
    and used: "\<And>f. frame_used st f \<Longrightarrow> frame_used st' f" and free: "\<And>f. free_frame st' f \<Longrightarrow> free_frame st f"
    and clear: "\<And>f. clear_frame st' f = clear_frame st f"
    and mem: "\<And>f x. frame_used st f \<or> free_frame st f \<Longrightarrow> clear_frame st f \<Longrightarrow> in_region f 4096 x \<Longrightarrow> kmem st' x = kmem st x"
  shows "pt_wf st' r" "aspace st' r = aspace st r"
proof -
  let ?e = "mem_ents (kmem st)" and ?e' = "mem_ents (kmem st')"
  have t: "t \<noteq> 0" "frame_used st t" "clear_frame st t" if "t \<in> tables ?e r" for t
    using wf that by (auto simp: pt_wf_def)
  have ents: "?e' t i = ?e t i" if "t \<in> tables ?e r" "i < 512" for t i
    by (rule mem_ents_cong[OF mem[OF disjI1[OF t(2)[OF that(1)]] t(3)[OF that(1)]] that(2)])
  have tabs: "tab ?e' r q = tab ?e r q" if "q \<in> paths" for q by (rule tab_same[OF ents that])
  have "tables ?e' r = tables ?e r" by (rule tables_cong[OF tabs])
  moreover have "tree ?e' r" using tree_cong[OF tabs] wf by (simp add: pt_wf_def)
  moreover have "free_frames_ready st'"
    unfolding free_frames_ready_def
  proof (intro allI impI)
    fix f assume "free_frame st' f"
    then have f: "free_frame st f" by (rule free)
    then have r: "f \<noteq> 0 \<and> unat f < 2 ^ 52 \<and> clear_frame st f \<and> (\<forall>i < 512. ?e f i = 0)"
      using wf by (auto simp: pt_wf_def free_frames_ready_def)
    moreover have "?e' f i = ?e f i" if "i < 512" for i
      by (rule mem_ents_cong[OF mem[OF disjI2[OF f] conjunct1[OF conjunct2[OF conjunct2[OF r]]]] that])
    ultimately show "f \<noteq> 0 \<and> unat f < 2 ^ 52 \<and> clear_frame st' f \<and> (\<forall>i < 512. ?e' f i = 0)" by (simp add: clear)
  qed
  ultimately show "pt_wf st' r" using pwf used t by (auto simp: pt_wf_def clear)
  show "aspace st' r = aspace st r" by (intro aspace_cong ballI leaf_same ents)
qed

text \<open>A write above the physical memory, for instance to the heap.\<close>

lemma above_write:
  assumes wf: "pt_wf st r" and m: "\<And>x. \<not> above_phys st x \<Longrightarrow> m x = kmem st x"
  shows "pt_wf (st\<lparr>kmem := m\<rparr>) r" "aspace (st\<lparr>kmem := m\<rparr>) r = aspace st r" "avail (st\<lparr>kmem := m\<rparr>) = avail st"
proof -
  have pwf: "pmm_wf st" using wf by (simp add: pt_wf_def)
  have "page_used (st\<lparr>kmem := m\<rparr>) z k = page_used st z k" if "z < PMM_NUM_ZONES" "k < num_pages st z" for z k
    using that m by (intro page_used_kmem) (auto simp: above_phys_def)
  then have same: "frame_used (st\<lparr>kmem := m\<rparr>) f = frame_used st f" "free_frame (st\<lparr>kmem := m\<rparr>) f = free_frame st f"
    "avail (st\<lparr>kmem := m\<rparr>) = avail st" for f
    by (auto simp: frame_used_def free_frame_def avail_def free_pages_def intro!: arg_cong[where f = card])
  show "avail (st\<lparr>kmem := m\<rparr>) = avail st" by (rule same)
  have "kmem (st\<lparr>kmem := m\<rparr>) x = kmem st x"
    if "frame_used st f \<or> free_frame st f" "clear_frame st f" "in_region f 4096 x" for f x
    using frame_below_mem_size[OF pwf that(1,3)] m by simp
  then show "pt_wf (st\<lparr>kmem := m\<rparr>) r" "aspace (st\<lparr>kmem := m\<rparr>) r = aspace st r"
    using pt_wf_same[OF wf, of "st\<lparr>kmem := m\<rparr>"] pwf same by (simp_all del: kstate.simps)
qed

text \<open>Taking a frame.\<close>

lemma alloc_step:
  assumes wf: "pt_wf st r" and al: "pmm_alloc st PMM_ZONE_NORMAL 1 = Inr (c, st')"
  shows "pt_wf st' r" "aspace st' r = aspace st r" "phys_step st st'" "avail st = Suc (avail st')" "unat c < 2 ^ 52"
proof -
  have pwf: "pmm_wf st" using wf by (simp add: pt_wf_def)
  note prem = pwf NORMAL_zone one_neq_zero al
  note fr = pmm_alloc_frame[OF prem] and one = pmm_alloc_one[OF pwf al]
  show "unat c < 2 ^ 52" using wf one(1) by (auto simp: pt_wf_def free_frames_ready_def)
  show "avail st = Suc (avail st')" by (rule one)
  have "frame_used st' f" if "frame_used st f" for f using pmm_frames.alloc_used[OF _ al] pwf that by simp
  then show "pt_wf st' r" "aspace st' r = aspace st r"
    using pt_wf_same[OF wf fr(1)] one(2-4) by blast+
  have "pmm_state.more st' = pmm_state.more st"
    using al by (auto simp: pmm_alloc_def Let_def update_zone_def split: if_splits)
  then show "phys_step st st'"
    using pmm_alloc_mem_outside[OF prem] NORMAL_zone by (auto simp: phys_step_def above_phys_def fr fun_eq_iff)
qed

section \<open>Mapping the pages of the heap\<close>

text \<open>What a run of \<open>kheap_map_pages\<close> may do to the state: all well-formedness is kept, mapped pages keep
  their frames, and nothing above the physical memory changes.\<close>

definition map_step :: "addr \<Rightarrow> 'a kheap_state_scheme \<Rightarrow> 'a kheap_state_scheme \<Rightarrow> bool" where
  "map_step r st st' \<longleftrightarrow>
     pt_wf st' r \<and> phys_step st st' \<and> (\<forall>m. aspace st r m \<noteq> None \<longrightarrow> aspace st' r m = aspace st r m)"

lemma map_step_refl: "pt_wf st r \<Longrightarrow> map_step r st st"
  by (simp add: map_step_def)

lemma map_step_trans: "map_step r a b \<Longrightarrow> map_step r b c \<Longrightarrow> map_step r a c"
  by (auto simp: map_step_def intro: phys_step_trans)

lemma phys_step_more:
  assumes "phys_step st (st' :: 'a kheap_state_scheme)"
  shows "paging_state.more st' = paging_state.more st" "cr3 st' = cr3 st" "kheap_top st' = kheap_top st"
    "kheap_max st' = kheap_max st" "free_head st' = free_head st" "block_head st' = block_head st"
  using assms by (cases st, cases st', simp add: phys_step_def)+

lemma map_one:
  assumes wf: "pt_wf st r" and r: "paging_cr3 st = r"
    and res: "kbind (pmm_alloc st PMM_ZONE_NORMAL 1) (\<lambda>(paddr, st). paging_map v paddr (PAGE_PRESENT OR PAGE_WRITABLE) st) = res"
  obtains (fail) msg where "res = Inl (Panic msg)" "avail st < 4"
  | (go) st' where "res = Inr st'" "map_step r st st'" "aspace st' r (vpage v) \<noteq> None" "avail st \<le> avail st' + 4"
proof (cases "pmm_alloc st PMM_ZONE_NORMAL 1")
  case (Inl e)
  then show thesis using res fail pmm_alloc_none[of st e] wf by (auto simp: pt_wf_def)
next
  case (Inr cs)
  obtain c st1 where c: "pmm_alloc st PMM_ZONE_NORMAL 1 = Inr (c, st1)" using Inr by (cases cs) auto
  note a = alloc_step[OF wf c]
  have "paging_cr3 st1 = r" using r phys_step_more(2)[OF a(3)] by (simp add: paging_cr3_def)
  then have res1: "paging_map_in r v c (PAGE_PRESENT OR PAGE_WRITABLE) st1 = res"
    using res c by (simp add: paging_map_def)
  have fl: "(PAGE_PRESENT OR PAGE_WRITABLE) AND addr_bits = 0" "present (PAGE_PRESENT OR PAGE_WRITABLE)"
    using kernel_flags(2)[of r st] wf by (simp_all add: mapper_wf_iff)
  show thesis
  proof (rule paging_map_in_aspace[OF a(1) fl a(5) res1])
    fix msg assume "res = Inl (Panic msg)" "avail st1 < 3" then show thesis using fail a(4) by simp
  next
    fix st' assume "res = Inr st'" "pt_wf st' r" "phys_step st1 st'" "aspace st1 r (vpage v) \<noteq> None"
      "aspace st' r = aspace st1 r" "avail st1 \<le> avail st' + 3"
    then show thesis using go[of st'] a by (simp add: map_step_def phys_step_trans[OF a(3)])
  next
    fix st' assume "res = Inr st'" "pt_wf st' r" "phys_step st1 st'" "aspace st1 r (vpage v) = None"
      "aspace st' r = (aspace st1 r)(vpage v \<mapsto> ALIGN_DOWN c PAGE_SIZE)" "avail st1 \<le> avail st' + 3"
    then show thesis using go[of st'] a by (simp add: map_step_def phys_step_trans[OF a(3)])
  qed
qed

lemma kheap_map_loop:
  assumes wf: "pt_wf st r" and r: "paging_cr3 st = r"
  defines "body \<equiv> \<lambda>i :: u64. \<lambda>(cur, st :: 'a kheap_state_scheme).
    kbind (pmm_alloc st PMM_ZONE_NORMAL 1) (\<lambda>(paddr, st).
    kbind (paging_map cur paddr (PAGE_PRESENT OR PAGE_WRITABLE) st) (\<lambda>st. Inr (cur - PAGE_SIZE, st)))"
  shows "(\<exists>msg. for_natE n body (v, st) = Inl (Panic msg)) \<and> avail st < 4 * n \<or>
    (\<exists>st'. for_natE n body (v, st) = Inr (v - of_nat n * PAGE_SIZE, st') \<and> map_step r st st' \<and>
       (\<forall>k < n. aspace st' r (vpage (v - of_nat k * PAGE_SIZE)) \<noteq> None) \<and> avail st \<le> avail st' + 4 * n)"
proof (induction n)
  case 0
  then show ?case using map_step_refl[OF wf] by simp
next
  case (Suc n)
  from Suc.IH show ?case
  proof (elim disjE conjE exE)
    fix st1 assume s: "for_natE n body (v, st) = Inr (v - of_nat n * PAGE_SIZE, st1)" "map_step r st st1"
      "\<forall>k < n. aspace st1 r (vpage (v - of_nat k * PAGE_SIZE)) \<noteq> None" "avail st \<le> avail st1 + 4 * n"
    let ?v = "v - of_nat n * PAGE_SIZE"
    have pre: "pt_wf st1 r" "paging_cr3 st1 = r"
      using s(2) r phys_step_more(2)[of st st1] by (simp_all add: map_step_def paging_cr3_def)
    have "body (of_nat n) (?v, st1) = kbind (kbind (pmm_alloc st1 PMM_ZONE_NORMAL 1)
        (\<lambda>(paddr, st). paging_map ?v paddr (PAGE_PRESENT OR PAGE_WRITABLE) st)) (\<lambda>st. Inr (?v - PAGE_SIZE, st))"
      by (auto simp: body_def kbind_def split: sum.splits)
    with s(1) have run: "for_natE (Suc n) body (v, st) = kbind (kbind (pmm_alloc st1 PMM_ZONE_NORMAL 1)
        (\<lambda>(paddr, st). paging_map ?v paddr (PAGE_PRESENT OR PAGE_WRITABLE) st)) (\<lambda>st. Inr (?v - PAGE_SIZE, st))"
      by simp
    show ?thesis
    proof (rule map_one[OF pre refl, of ?v])
      fix msg assume "kbind (pmm_alloc st1 PMM_ZONE_NORMAL 1) (\<lambda>(paddr, st). paging_map ?v paddr (PAGE_PRESENT OR PAGE_WRITABLE) st) = Inl (Panic msg)"
        "avail st1 < 4"
      then show ?thesis using run s(4) by auto
    next
      fix st' assume "kbind (pmm_alloc st1 PMM_ZONE_NORMAL 1) (\<lambda>(paddr, st). paging_map ?v paddr (PAGE_PRESENT OR PAGE_WRITABLE) st) = Inr st'"
        and m: "map_step r st1 st'" "aspace st' r (vpage ?v) \<noteq> None" "avail st1 \<le> avail st' + 4"
      then have "for_natE (Suc n) body (v, st) = Inr (v - of_nat (Suc n) * PAGE_SIZE, st')"
        using run by (simp add: algebra_simps)
      moreover have "aspace st' r (vpage (v - of_nat k * PAGE_SIZE)) \<noteq> None" if "k < Suc n" for k
        using that m s(3) by (cases "k = n") (auto simp: map_step_def)
      ultimately show ?thesis using map_step_trans[OF s(2) m(1)] m(3) s(4) by auto
    qed
  qed auto
qed

lemma kheap_map_pages_run:
  assumes wf: "pt_wf st (paging_cr3 st)"
  obtains (fail) msg where "kheap_map_pages v n st = Inl (Panic msg)" "avail st < 4 * unat n"
  | (go) st' where "kheap_map_pages v n st = Inr st'" "map_step (paging_cr3 st) st st'"
      "\<And>k. k < unat n \<Longrightarrow> aspace st' (paging_cr3 st) (vpage (v - of_nat k * PAGE_SIZE)) \<noteq> None" "avail st \<le> avail st' + 4 * unat n"
  using kheap_map_loop[OF wf refl, of "unat n" v]
  unfolding kheap_map_pages_def for_u64E_def by (elim disjE conjE exE) auto

end
