(* ===== verification/Kheap_Alloc.thy ===== *)
theory Kheap_Alloc
  imports Kheap_Pages
begin

text \<open>
  The allocator as its clients see it. The abstract state of the heap is a map from the pointers
  that are in use to the sizes of their areas; \<open>heap_rel\<close> relates it to the lists in memory. \<open>kmalloc\<close>
  adds a fresh pointer to the map, \<open>kfree\<close> removes one, and neither changes a byte of the areas in use.
\<close>

section \<open>The invariant\<close>

text \<open>The heap's surroundings: where it ends, that its pages are mapped, and that the physical memory
  manager and the page tables stay out of it. The kernel image, and with it \<open>kheap_max\<close>, lies in the
  higher half of the address space.\<close>

definition heap_env :: "'a kheap_state_scheme \<Rightarrow> bool" where
  "heap_env st \<longleftrightarrow>
     kheap_top st = block_head st \<and> 4096 dvd unat (kheap_top st) \<and>
     unat (kheap_max st) \<le> unat (kheap_top st) \<and> 2 ^ 63 \<le> unat (kheap_max st) \<and>
     pt_wf st (paging_cr3 st) \<and> (\<forall>x. unat (kheap_max st) \<le> unat x \<longrightarrow> above_phys st x) \<and>
     (\<forall>v. unat (kheap_top st) \<le> unat v \<longrightarrow> aspace st (paging_cr3 st) (vpage v) \<noteq> None)"

text \<open>No two neighbours are free.\<close>

definition coalesced :: "addr set \<Rightarrow> addr list \<Rightarrow> bool" where
  "coalesced F bs \<longleftrightarrow> successively (\<lambda>x y. \<not> (x \<in> F \<and> y \<in> F)) bs"

definition kheap_wf :: "'a kheap_state_scheme \<Rightarrow> addr list \<Rightarrow> addr list \<Rightarrow> bool" where
  "kheap_wf st bs fl \<longleftrightarrow> lists_wf st bs fl \<and> heap_env st \<and> coalesced (set fl) bs"

text \<open>The areas in use.\<close>

definition live :: "mem \<Rightarrow> addr list \<Rightarrow> addr list \<Rightarrow> addr \<rightharpoonup> nat" where
  "live m bs fl p = (if p - 40 \<in> set bs \<and> p - 40 \<notin> set fl then Some (unat (fld m Size (p - 40))) else None)"

definition heap_rel :: "'a kheap_state_scheme \<Rightarrow> (addr \<rightharpoonup> nat) \<Rightarrow> bool" where
  "heap_rel st U \<longleftrightarrow> (\<exists>bs fl. kheap_wf st bs fl \<and> U = live (kmem st) bs fl)"

text \<open>The contents of the areas in \<open>U\<close> are the same.\<close>

definition keeps :: "(addr \<rightharpoonup> nat) \<Rightarrow> mem \<Rightarrow> mem \<Rightarrow> bool" where
  "keeps U m m' \<longleftrightarrow> (\<forall>p n x. U p = Some n \<and> in_region p n x \<longrightarrow> m' x = m x)"

text \<open>The heap has grown by at most \<open>k\<close> pages, each of which takes at most four frames. What lies outside the heap
  and outside the memory that the physical memory manager looks after is not touched, nor is the state of the
  components above the heap or the interrupt tables.\<close>

definition spares :: "nat \<Rightarrow> 'a kheap_state_scheme \<Rightarrow> 'a kheap_state_scheme \<Rightarrow> bool" where
  "spares k st st' \<longleftrightarrow>
     avail st \<le> avail st' + 4 * k \<and> unat (kheap_top st) \<le> unat (kheap_top st') + 4096 * k \<and>
     kheap_state.more st' = kheap_state.more st \<and> intr st' = intr st \<and> kheap_max st' = kheap_max st \<and> above_phys st' = above_phys st \<and>
     (\<forall>x. above_phys st x \<and> unat x < unat (kheap_max st) \<longrightarrow> kmem st' x = kmem st x)"

subsection \<open>Areas and headers\<close>

lemma in_region_unat:
  assumes "unat a + n \<le> 2 ^ 64"
  shows "in_region a n x \<longleftrightarrow> unat a \<le> unat x \<and> unat x < unat a + n"
  using assms unat_u64_bound[of x] unat_u64_bound[of a] by (auto simp: in_region_def unat_sub_if')

lemma area_bounds:
  assumes "tile m p a bs q e" "b \<in> set bs" "in_region (b + 40) (unat (fld m Size b)) x"
  shows "unat b + 40 \<le> unat x" "unat x < unat b + 40 + unat (fld m Size b)"
proof -
  have b: "unat b + 40 + unat (fld m Size b) \<le> 2 ^ 64" using tile_order(2)[OF assms(1)] assms(2) by blast
  have "0 < unat (fld m Size b)" using assms(3) by (auto simp: in_region_def)
  then have "unat (b + 40) = unat b + 40" using b by (subst unat_add_lem[THEN iffD1]) auto
  then show "unat b + 40 \<le> unat x" "unat x < unat b + 40 + unat (fld m Size b)"
    using in_region_unat[of "b + 40" "unat (fld m Size b)" x] assms(3) b by auto
qed

text \<open>Areas are apart from every header and from each other.\<close>

lemma area_no_header:
  assumes t: "tile m p a bs q e" "b \<in> set bs" "c \<in> set bs" and x: "in_region (b + 40) (unat (fld m Size b)) x"
  shows "\<not> in_region c 40 x"
proof -
  note ab = area_bounds[OF t(1,2) x] and ord = tile_order[OF t(1)]
  have c: "unat c + 40 \<le> 2 ^ 64" using ord(2) t(3) by fastforce
  show ?thesis
  proof (cases "b = c")
    case False
    then have "unat b + 40 + unat (fld m Size b) \<le> unat c \<or> unat c + 40 \<le> unat b"
      using sorted_wrt_total[OF ord(1) t(2,3)] by linarith
    then show ?thesis using ab in_region_unat[OF c] by auto
  qed (use ab in_region_unat[OF c] in auto)
qed

lemma areas_disjoint:
  assumes t: "tile m p a bs q e" "b \<in> set bs" "c \<in> set bs" "b \<noteq> c" and x: "in_region (b + 40) (unat (fld m Size b)) x"
  shows "\<not> in_region (c + 40) (unat (fld m Size c)) x"
proof
  assume y: "in_region (c + 40) (unat (fld m Size c)) x"
  show False
    using sorted_wrt_total[OF tile_order(1)[OF t(1)] t(2,3,4)] area_bounds[OF t(1,2) x] area_bounds[OF t(1,3) y] by linarith
qed

lemma live_Some:
  "live m bs fl p = Some n \<longleftrightarrow> p - 40 \<in> set bs \<and> p - 40 \<notin> set fl \<and> n = unat (fld m Size (p - 40))"
  by (auto simp: live_def)

lemma keeps_frame:
  assumes "tile m p a bs q e" "hdr_frame (set bs) m0 m'" "\<forall>b\<in>set bs - set fl. fld m Size b = fld m1 Size b"
  shows "keeps (live m1 bs fl) m0 m'"
proof -
  have "m' x = m0 x" if "live m1 bs fl p = Some n" "in_region p n x" for p n x
  proof -
    have "p - 40 \<in> set bs" "in_region (p - 40 + 40) (unat (fld m Size (p - 40))) x"
      using that assms(3) by (auto simp: live_Some)
    then show ?thesis using area_no_header[OF assms(1)] assms(2) unfolding hdr_frame_def by blast
  qed
  then show ?thesis by (auto simp: keeps_def)
qed

lemma keeps_trans: "keeps U a b \<Longrightarrow> keeps U b c \<Longrightarrow> keeps U a c"
  by (auto simp: keeps_def)

lemma keeps_sub: "keeps U a b \<Longrightarrow> U' \<subseteq>\<^sub>m U \<Longrightarrow> keeps U' a b"
  unfolding keeps_def map_le_def by (metis domI)

text \<open>Two maps of areas agree when the blocks in use and their sizes do.\<close>

lemma live_cong:
  assumes "set bs' - set fl' = set bs - set fl" "\<forall>b\<in>set bs - set fl. fld m' Size b = fld m Size b"
  shows "live m' bs' fl' = live m bs fl"
proof
  fix p
  have "p - 40 \<in> set bs' - set fl' \<longleftrightarrow> p - 40 \<in> set bs - set fl" using assms(1) by simp
  then show "live m' bs' fl' p = live m bs fl p" using assms(2) by (auto simp: live_def)
qed

subsection \<open>The environment\<close>

lemma heap_views [simp]:
  "pt_wf (st\<lparr>free_head := x\<rparr>) r = pt_wf st r" "aspace (st\<lparr>free_head := x\<rparr>) r = aspace st r"
  "above_phys (st\<lparr>free_head := x\<rparr>) = above_phys st" "paging_cr3 (st\<lparr>free_head := x\<rparr>) = paging_cr3 st"
  "paging_cr3 (st\<lparr>kmem := m\<rparr>) = paging_cr3 st" "avail (st\<lparr>free_head := x\<rparr>) = avail st"
  "pt_wf (st\<lparr>block_head := x\<rparr>) r = pt_wf st r" "aspace (st\<lparr>block_head := x\<rparr>) r = aspace st r"
  "above_phys (st\<lparr>block_head := x\<rparr>) = above_phys st" "paging_cr3 (st\<lparr>block_head := x\<rparr>) = paging_cr3 st"
  "pt_wf (st\<lparr>kheap_top := x\<rparr>) r = pt_wf st r" "aspace (st\<lparr>kheap_top := x\<rparr>) r = aspace st r"
  "above_phys (st\<lparr>kheap_top := x\<rparr>) = above_phys st" "paging_cr3 (st\<lparr>kheap_top := x\<rparr>) = paging_cr3 st"
  "avail (st\<lparr>kheap_top := x\<rparr>) = avail st" "avail (st\<lparr>block_head := x\<rparr>) = avail st"
  by (simp_all add: pt_wf_def pmm_wf_def num_pages_def zone_base_def free_frames_ready_def free_frame_def page_used_def
      clear_frame_def frame_used_def aspace_def above_phys_def paging_cr3_def avail_def free_pages_def fun_eq_iff)

lemma heap_envD:
  assumes "heap_env st"
  shows "kheap_top st = block_head st" "4096 dvd unat (kheap_top st)" "unat (kheap_max st) \<le> unat (kheap_top st)"
    "2 ^ 63 \<le> unat (kheap_max st)" "pt_wf st (paging_cr3 st)" "unat (kheap_max st) \<le> unat x \<Longrightarrow> above_phys st x"
    "unat (kheap_top st) \<le> unat v \<Longrightarrow> aspace st (paging_cr3 st) (vpage v) \<noteq> None"
  using assms by (auto simp: heap_env_def)

lemma heap_env_step:
  assumes env: "heap_env st" and t: "tile m p a bs q e" and top: "unat (kheap_top st) \<le> unat a"
    and fr: "hdr_frame (set bs) (kmem st) m'"
  shows "heap_env (st\<lparr>kmem := m', free_head := fh\<rparr>)"
proof -
  have "m' x = kmem st x" if "\<not> above_phys st x" for x
  proof -
    have "unat x < unat (kheap_max st)" using env that by (meson heap_env_def linorder_not_le)
    then have lt: "unat x < unat a" using heap_envD(3)[OF env] top by simp
    have "\<not> in_region b 40 x" if "b \<in> set bs" for b
    proof -
      have b: "unat a \<le> unat b" "unat b + 40 \<le> 2 ^ 64" using tile_order(2)[OF t] that by fastforce+
      then show ?thesis using in_region_unat[OF b(2)] lt by auto
    qed
    then show ?thesis using fr by (simp add: hdr_frame_def)
  qed
  then show ?thesis
    using env above_write[of st "paging_cr3 st" m'] by (auto simp: heap_env_def)
qed

lemma lists_env_step:
  assumes "heap_env st" "lists_wf st' bs fl" "st' = st\<lparr>kmem := m', free_head := fh\<rparr>" "hdr_frame (set bs) (kmem st) m'"
  shows "heap_env st'"
proof -
  obtain q where "tile m' 0 (block_head st) bs q 0" using assms(2,3) by (auto simp: lists_wf_def)
  then show ?thesis using heap_env_step[OF assms(1) _ _ assms(4)] heap_envD(1)[OF assms(1)] assms(3) by simp
qed

lemma spares_trans: "spares i a b \<Longrightarrow> spares j b c \<Longrightarrow> spares (i + j) a c"
  by (auto simp: spares_def)

lemma spares_mono: "spares i a b \<Longrightarrow> i \<le> j \<Longrightarrow> spares j a b"
  by (auto simp: spares_def)

lemma spares_hdr:
  assumes env: "pt_wf st (paging_cr3 st)" "\<And>x. unat (kheap_max st) \<le> unat x \<Longrightarrow> above_phys st x"
    and fr: "unat (kheap_max st) \<le> unat a" "tile m p a bs q e" "hdr_frame (set bs) (kmem st) m'"
  shows "spares 0 st (st\<lparr>kmem := m', free_head := fh\<rparr>)" "spares 0 st (st\<lparr>block_head := h, kmem := m', free_head := fh\<rparr>)"
proof -
  have same: "m' x = kmem st x" if "unat x < unat (kheap_max st)" for x
  proof -
    have "\<not> in_region b 40 x" if "b \<in> set bs" for b
    proof -
      have b: "unat a \<le> unat b" "unat b + 40 \<le> 2 ^ 64" using tile_order(2)[OF fr(2)] that by fastforce+
      then show ?thesis using in_region_unat[OF b(2)] \<open>unat x < _\<close> fr(1) by auto
    qed
    then show ?thesis using fr(3) by (simp add: hdr_frame_def)
  qed
  have low: "unat x < unat (kheap_max st)" if "\<not> above_phys st x" for x using env(2)[of x] that by linarith
  have "avail (st\<lparr>kmem := m'\<rparr>) = avail st" using same low by (intro above_write(3)[OF env(1)]) blast
  moreover have "avail (st\<lparr>block_head := h, kmem := m'\<rparr>) = avail (st\<lparr>block_head := h\<rparr>)"
    using same low env(1) by (intro above_write(3)[of _ "paging_cr3 st"]) auto
  ultimately show "spares 0 st (st\<lparr>kmem := m', free_head := fh\<rparr>)" "spares 0 st (st\<lparr>block_head := h, kmem := m', free_head := fh\<rparr>)"
    using same by (simp_all add: spares_def)
qed

lemma spares_phys:
  fixes st st' :: "'a kheap_state_scheme"
  assumes ph: "phys_step st st'" and cost: "avail st \<le> avail st' + 4 * k" "unat (kheap_top st) \<le> unat a + 4096 * k"
  shows "spares k st (st'\<lparr>kheap_top := a\<rparr>)"
proof -
  have "kheap_state.more st' = kheap_state.more st" "intr st' = intr st" using ph by (cases st, cases st', simp add: phys_step_def)+
  then show ?thesis using ph cost phys_step_more(4)[OF ph] by (simp add: spares_def phys_step_def)
qed

lemma spares_log: "spares k (log_msg l s st) st' = spares k st st'" "spares k st (log_msg l s st') = spares k st st'"
proof -
  have more: "kheap_state.more (log_msg l s st) = kheap_state.more st" "kheap_max (log_msg l s st) = kheap_max st"
    "kheap_top (log_msg l s st) = kheap_top st" "avail (log_msg l s st) = avail st" "intr (log_msg l s st) = intr st"
    for st :: "'a kheap_state_scheme" by (simp_all add: log_msg_def avail_def free_pages_def num_pages_def page_used_def)
  show "spares k (log_msg l s st) st' = spares k st st'" "spares k st (log_msg l s st') = spares k st st'"
    by (simp_all add: spares_def more)
qed

text \<open>The pages that a request may need: the area rounded up to words and its header.\<close>

definition heap_pages :: "nat \<Rightarrow> nat" where "heap_pages n = (n + 4142) div 4096"

lemma heap_pages_numeral [simp]: "heap_pages (numeral k) = (numeral k + 4142) div 4096"
  by (simp add: heap_pages_def)

section \<open>The freelist as a whole\<close>

lemma lists_insert:
  assumes wf: "lists_wf st bs fl" and b: "b \<in> set bs" "b \<notin> set fl"
  obtains m' where "freelist_insert b st = Inr (st\<lparr>kmem := m', free_head := b\<rparr>)"
    "lists_wf (st\<lparr>kmem := m', free_head := b\<rparr>) bs (b # fl)" "block_frame (set bs) (set bs) (kmem st) m'"
proof -
  obtain q where t: "tile (kmem st) 0 (block_head st) bs q 0" and fl: "fl_wf st (set bs) fl"
    by (rule lists_wfD[OF wf]) blast
  obtain m' where m: "freelist_insert b st = Inr (st\<lparr>kmem := m', free_head := b\<rparr>)"
    "fl_wf (st\<lparr>kmem := m', free_head := b\<rparr>) (set bs) (b # fl)" "free_fields_only (set bs) (set (b # fl)) (kmem st) m'"
    by (rule freelist_insert_wf[OF fl b])
  have same: "fld m' f x = fld (kmem st) f x" if "x \<in> set bs" "f \<in> {Next, Prev, Size} \<or> x \<notin> set (b # fl)" for x f
    using m(3) that unfolding free_fields_only_def by blast
  then have "tile m' 0 (block_head st) bs q 0" using t by (subst tile_cong[of bs m' "kmem st"]) auto
  moreover have "fld m' Free_next x = 0 \<and> fld m' Free_prev x = 0" if "x \<in> set bs - set (b # fl)" for x
    using that same wf by (auto simp: lists_wf_def)
  ultimately have "lists_wf (st\<lparr>kmem := m', free_head := b\<rparr>) bs (b # fl)"
    using m(2) wf by (auto simp: lists_wf_def)
  moreover have "block_frame (set bs) (set bs) (kmem st) m'"
    using m(3) same by (auto simp: block_frame_def free_fields_only_def)
  ultimately show thesis using that m(1) by blast
qed

lemma lists_remove:
  assumes wf: "lists_wf st bs fl" and b: "b \<in> set fl"
  obtains m' fh where "freelist_remove b st = Inr (st\<lparr>kmem := m', free_head := fh\<rparr>)"
    "lists_wf (st\<lparr>kmem := m', free_head := fh\<rparr>) bs (remove1 b fl)" "block_frame (set bs) (set bs) (kmem st) m'"
proof -
  obtain q where t: "tile (kmem st) 0 (block_head st) bs q 0" and fl: "fl_wf st (set bs) fl" "distinct fl"
    by (rule lists_wfD[OF wf]) blast
  obtain m' fh where m: "freelist_remove b st = Inr (st\<lparr>kmem := m', free_head := fh\<rparr>)"
    "fl_wf (st\<lparr>kmem := m', free_head := fh\<rparr>) (set bs) (remove1 b fl)" "free_fields_only (set bs) (set fl) (kmem st) m'"
    "fld m' Free_next b = 0" "fld m' Free_prev b = 0"
    by (rule freelist_remove_wf[OF fl(1) b])
  have same: "fld m' f x = fld (kmem st) f x" if "x \<in> set bs" "f \<in> {Next, Prev, Size} \<or> x \<notin> set fl" for x f
    using m(3) that unfolding free_fields_only_def by blast
  then have "tile m' 0 (block_head st) bs q 0" using t by (subst tile_cong[of bs m' "kmem st"]) auto
  moreover have "fld m' Free_next x = 0 \<and> fld m' Free_prev x = 0" if "x \<in> set bs - set (remove1 b fl)" for x
    using that same wf m(4,5) by (cases "x = b") (auto simp: lists_wf_def set_remove1_eq[OF fl(2)])
  ultimately have "lists_wf (st\<lparr>kmem := m', free_head := fh\<rparr>) bs (remove1 b fl)"
    using m(2) wf by (auto simp: lists_wf_def)
  moreover have "block_frame (set bs) (set bs) (kmem st) m'"
    using m(3) same by (auto simp: block_frame_def free_fields_only_def)
  ultimately show thesis using that m(1) by blast
qed

text \<open>\<open>merge_right\<close>, both cases.\<close>

lemma lists_merge_right:
  assumes wf: "lists_wf st (xs @ b # ys) fl"
  obtains (stay) "merge_right b st = Inr (b, st)" "ys = [] \<or> hd ys \<notin> set fl"
  | (absorb) c zs m' fh where "ys = c # zs" "c \<in> set fl" "merge_right b st = Inr (b, st\<lparr>kmem := m', free_head := fh\<rparr>)"
     "lists_wf (st\<lparr>kmem := m', free_head := fh\<rparr>) (xs @ b # zs) (remove1 c fl)"
     "block_frame (set (xs @ b # c # zs)) (set (xs @ zs)) (kmem st) m'"
     "unat (fld m' Size b) = unat (fld (kmem st) Size b) + 40 + unat (fld (kmem st) Size c)"
proof (cases "ys = [] \<or> hd ys \<notin> set fl")
  case True
  then show thesis using stay merge_right_used[OF wf] by blast
next
  case False
  then obtain c zs where c: "ys = c # zs" "c \<in> set fl" by (cases ys) auto
  show thesis
    by (rule merge_right_free[of st xs b c zs fl]) (use wf c absorb in auto)
qed

section \<open>Freeing\<close>

lemma heap_relI: "kheap_wf st bs fl \<Longrightarrow> live (kmem st) bs fl = U \<Longrightarrow> heap_rel st U"
  by (auto simp: heap_rel_def)

lemma heap_relE:
  assumes "heap_rel st U" "U p = Some n"
  obtains bs fl xs ys b where "kheap_wf st bs fl" "U = live (kmem st) bs fl" "b = p - 40" "bs = xs @ b # ys"
    "b \<in> set bs" "b \<notin> set fl" "n = unat (fld (kmem st) Size b)"
proof -
  obtain bs fl where w: "kheap_wf st bs fl" "U = live (kmem st) bs fl" using assms(1) by (auto simp: heap_rel_def)
  have b: "p - 40 \<in> set bs" "p - 40 \<notin> set fl" "n = unat (fld (kmem st) Size (p - 40))"
    using assms(2) w(2) by (auto simp: live_Some)
  obtain xs ys where "bs = xs @ (p - 40) # ys" using split_list[OF b(1)] by blast
  then show thesis using that[OF w refl _ b] by blast
qed

lemma live_remove:
  assumes "set bs' - set fl' = set bs - set fl - {b}" "\<forall>x\<in>set bs' - set fl'. fld m' Size x = fld m Size x"
  shows "live m' bs' fl' = (live m bs fl)(b + 40 := None)"
proof
  fix p
  have "p - 40 \<in> set bs' - set fl' \<longleftrightarrow> p - 40 \<in> set bs - set fl \<and> p - 40 \<noteq> b" using assms(1) by auto
  moreover have "p - 40 \<noteq> b \<longleftrightarrow> p \<noteq> b + 40" by (auto simp: algebra_simps)
  ultimately show "live m' bs' fl' p = ((live m bs fl)(b + 40 := None)) p" using assms(2) by (auto simp: live_def)
qed

lemma coalesced_mono: "coalesced F bs \<Longrightarrow> F' \<subseteq> F \<Longrightarrow> coalesced F' bs"
  unfolding coalesced_def by (erule successively_mono) auto

lemma coalesced_append:
  "coalesced F (xs @ ys) \<longleftrightarrow>
     coalesced F xs \<and> coalesced F ys \<and> (xs = [] \<or> ys = [] \<or> \<not> (last xs \<in> F \<and> hd ys \<in> F))"
  by (auto simp: coalesced_def successively_append_iff)

lemma coalesced_Cons: "coalesced F (y # ys) \<longleftrightarrow> coalesced F ys \<and> (ys = [] \<or> \<not> (y \<in> F \<and> hd ys \<in> F))"
  by (auto simp: coalesced_def successively_Cons)

lemma coalesced_insert: "b \<notin> set bs \<Longrightarrow> coalesced (insert b F) bs = coalesced F bs"
  unfolding coalesced_def by (intro successively_cong) auto

text \<open>A block that has just been put on the freelist, in a heap that was coalesced before, is merged
  with its neighbours: first with the one on the right.\<close>

lemma merge_right_step:
  assumes wf: "lists_wf st (xs @ b # ys) (b # fl)" and b: "b \<notin> set fl" and co: "coalesced (set fl) (xs @ b # ys)"
  obtains m1 fh1 zs gl where "merge_right b st = Inr (b, st\<lparr>kmem := m1, free_head := fh1\<rparr>)"
    "lists_wf (st\<lparr>kmem := m1, free_head := fh1\<rparr>) (xs @ b # zs) (b # gl)" "b \<notin> set gl"
    "block_frame (set (xs @ b # ys)) (set (xs @ zs)) (kmem st) m1" "set (xs @ zs) - set gl = set (xs @ ys) - set fl"
    "coalesced (set gl) (xs @ b # zs)" "zs = [] \<or> hd zs \<notin> set gl" "set zs \<subseteq> set ys"
proof (rule lists_merge_right[OF wf])
  assume "merge_right b st = Inr (b, st)" "ys = [] \<or> hd ys \<notin> set (b # fl)"
  then show thesis
    by (intro that[of "free_head st" "kmem st" ys fl]) (use wf b co in \<open>auto simp: block_frame_def\<close>)
next
  have d: "distinct (xs @ b # ys)" "distinct fl" by (rule lists_wfD[OF wf]; simp)+
  fix c zs m' fh
  assume a: "ys = c # zs" "c \<in> set (b # fl)" "merge_right b st = Inr (b, st\<lparr>kmem := m', free_head := fh\<rparr>)"
   "lists_wf (st\<lparr>kmem := m', free_head := fh\<rparr>) (xs @ b # zs) (remove1 c (b # fl))"
   "block_frame (set (xs @ b # c # zs)) (set (xs @ zs)) (kmem st) m'"
  have c: "b \<noteq> c" "c \<in> set fl" using d a(1,2) by auto
  have sub: "set (remove1 c fl) \<subseteq> set fl" by (rule set_remove1_subset)
  have "coalesced (set fl) (xs @ b # zs)" using co b unfolding a(1) by (simp add: coalesced_append coalesced_Cons)
  then have "coalesced (set (remove1 c fl)) (xs @ b # zs)" by (rule coalesced_mono[OF _ sub])
  moreover have "zs = [] \<or> hd zs \<notin> set (remove1 c fl)"
    using co c sub unfolding a(1) by (auto simp: coalesced_append coalesced_Cons)
  ultimately show thesis using a b c d sub
    by (intro that[of fh m' zs "remove1 c fl"]) (auto simp: set_remove1_eq)
qed

lemma merge_wf:
  assumes wf: "lists_wf st (xs @ b # ys) (b # fl)" and env: "heap_env st" and b: "b \<notin> set fl"
    and co: "coalesced (set fl) (xs @ b # ys)"
  obtains c st' bs' fl' where "merge b st = Inr (c, st')" "kheap_wf st' bs' fl'"
    "set bs' - set fl' = set (xs @ b # ys) - set (b # fl)" "hdr_frame (set (xs @ b # ys)) (kmem st) (kmem st')"
    "\<forall>x\<in>set bs' - set fl'. fld (kmem st') Size x = fld (kmem st) Size x" "st' = st\<lparr>kmem := kmem st', free_head := free_head st'\<rparr>"
proof -
  let ?H = "set (xs @ b # ys)"
  obtain q where t: "tile (kmem st) 0 (block_head st) (xs @ b # ys) q 0" and d: "distinct (xs @ b # ys)"
    by (rule lists_wfD[OF wf])
  obtain m1 fh1 zs gl where r: "merge_right b st = Inr (b, st\<lparr>kmem := m1, free_head := fh1\<rparr>)"
    "lists_wf (st\<lparr>kmem := m1, free_head := fh1\<rparr>) (xs @ b # zs) (b # gl)" "b \<notin> set gl"
    "block_frame ?H (set (xs @ zs)) (kmem st) m1" "set (xs @ zs) - set gl = set (xs @ ys) - set fl"
    "coalesced (set gl) (xs @ b # zs)" "zs = [] \<or> hd zs \<notin> set gl" "set zs \<subseteq> set ys"
    by (rule merge_right_step[OF wf b co])
  let ?st1 = "st\<lparr>kmem := m1, free_head := fh1\<rparr>"
  have env': "heap_env (st\<lparr>kmem := m, free_head := fh\<rparr>)" if "hdr_frame ?H (kmem st) m" for m fh
    by (rule heap_env_step[OF env t _ that]) (simp add: heap_envD(1)[OF env])
  have fr1: "hdr_frame ?H (kmem st) m1" using r(4) by (simp add: block_frame_def)
  have bn: "b \<notin> set (xs @ zs)" using d r(8) by auto
  have live: "set (xs @ zs) - set gl = ?H - set (b # fl)" using r(5) d by auto
  have co': "coalesced (set gl) xs" "coalesced (set gl) zs" using r(6) by (simp_all add: coalesced_append coalesced_Cons)
  show thesis
  proof (cases "xs = [] \<or> last xs \<notin> set gl")
    case True
    then have "xs = [] \<or> last xs \<notin> set (b # gl)" using bn last_in_set[of xs] by auto
    then have "merge b st = Inr (b, ?st1)"
      using merge_left_used[OF r(2)] r(1) heap_envD(1)[OF env] by (simp add: merge_def)
    moreover have "coalesced (set (b # gl)) (xs @ b # zs)"
      using True r(7) bn co' by (auto simp: coalesced_append coalesced_Cons coalesced_insert)
    ultimately show thesis
      using r(2,4) live env'[OF fr1] fr1 bn
      by (intro that[of b ?st1 "xs @ b # zs" "b # gl"]) (auto simp: kheap_wf_def block_frame_def)
  next
    case False
    then obtain ws c where c: "xs = ws @ [c]" "c \<in> set gl" by (cases xs rule: rev_cases) auto
    have wf1: "lists_wf ?st1 (ws @ c # b # zs) (b # gl)" using r(2) by (simp add: c)
    obtain m2 fh2 where l: "merge_right c ?st1 = Inr (c, ?st1\<lparr>kmem := m2, free_head := fh2\<rparr>)"
      "lists_wf (?st1\<lparr>kmem := m2, free_head := fh2\<rparr>) (ws @ c # zs) (remove1 b (b # gl))"
      "block_frame (set (ws @ c # b # zs)) (set (ws @ zs)) (kmem ?st1) m2"
      by (rule merge_right_free[OF wf1]) auto
    let ?st2 = "st\<lparr>kmem := m2, free_head := fh2\<rparr>"
    have eq: "?st1\<lparr>kmem := m2, free_head := fh2\<rparr> = ?st2" by simp
    have m: "merge b st = Inr (c, ?st2)"
      using merge_left_free[OF wf1] c(2) l(1) r(1) by (simp add: merge_def)
    have "hdr_frame ?H m1 m2"
      using l(3) r(8) unfolding block_frame_def by (auto simp: c intro: hdr_frame_mono)
    then have fr2: "hdr_frame ?H (kmem st) m2" by (rule hdr_frame_trans[OF fr1])
    have "coalesced (set gl) (ws @ c # zs)"
      using co' r(7) c by (auto simp: coalesced_append coalesced_Cons)
    then have kwf: "kheap_wf ?st2 (ws @ c # zs) gl" using l(2) env'[OF fr2] unfolding eq kheap_wf_def by simp
    have sets: "set (ws @ c # zs) - set gl = ?H - set (b # fl)" using live by (simp add: c)
    have "fld m2 Size x = fld (kmem st) Size x" if "x \<in> set (ws @ c # zs) - set gl" for x
      using that c(2) l(3) r(4) by (auto simp: block_frame_def c(1))
    then show thesis using that[OF m kwf sets] fr2 by simp
  qed
qed

lemma kheap_wfE:
  assumes "kheap_wf st bs fl"
  obtains q where "lists_wf st bs fl" "heap_env st" "coalesced (set fl) bs" "tile (kmem st) 0 (kheap_top st) bs q 0"
    "distinct bs" "distinct fl" "set fl \<subseteq> set bs"
proof -
  have w: "lists_wf st bs fl" "heap_env st" "coalesced (set fl) bs" using assms by (simp_all add: kheap_wf_def)
  obtain q where "tile (kmem st) 0 (block_head st) bs q 0" "distinct bs" "set fl \<subseteq> set bs" "distinct fl"
    by (rule lists_wfD[OF w(1)])
  then show thesis using that[OF w] heap_envD(1)[OF w(2)] by simp
qed

text \<open>\<open>kfree\<close> of a block in use.\<close>

lemma kfree_wf:
  assumes rel: "heap_rel st U" and p: "U p = Some n"
  obtains st' where "kfree p st = Inr st'" "heap_rel st' (U(p := None))" "keeps (U(p := None)) (kmem st) (kmem st')"
    "spares 0 st st'"
proof -
  obtain bs fl xs ys b where w: "kheap_wf st bs fl" "U = live (kmem st) bs fl" "b = p - 40" "bs = xs @ b # ys"
    "b \<in> set bs" "b \<notin> set fl"
    by (rule heap_relE[OF rel p])
  obtain q where k: "lists_wf st bs fl" "heap_env st" "coalesced (set fl) bs" "tile (kmem st) 0 (kheap_top st) bs q 0"
    by (rule kheap_wfE[OF w(1)])
  obtain m' where i: "freelist_insert b st = Inr (st\<lparr>kmem := m', free_head := b\<rparr>)"
    "lists_wf (st\<lparr>kmem := m', free_head := b\<rparr>) bs (b # fl)" "block_frame (set bs) (set bs) (kmem st) m'"
    by (rule lists_insert[OF k(1) w(5,6)])
  let ?st1 = "st\<lparr>kmem := m', free_head := b\<rparr>"
  have fr1: "hdr_frame (set bs) (kmem st) m'" using i(3) by (simp add: block_frame_def)
  have env1: "heap_env ?st1" by (rule lists_env_step[OF k(2) i(2) refl fr1])
  obtain c st' bs' fl' where m: "merge b ?st1 = Inr (c, st')" "kheap_wf st' bs' fl'"
    "set bs' - set fl' = set bs - set (b # fl)" "hdr_frame (set bs) m' (kmem st')"
    "\<forall>x\<in>set bs' - set fl'. fld (kmem st') Size x = fld m' Size x" "st' = ?st1\<lparr>kmem := kmem st', free_head := free_head st'\<rparr>"
    by (rule merge_wf[OF i(2)[unfolded w(4)] env1 w(6)]) (use k(3) w(4) in \<open>auto simp del: set_append\<close>)
  have "is_free b st = Inr False" using free_flag(1)[OF k(1) w(5)] w(6) by simp
  then have kf: "kfree p st = Inr st'" using i(1) m(1) w(3) by (simp add: kfree_def Let_def sizeof_memblock_def)
  have fr: "hdr_frame (set bs) (kmem st) (kmem st')" by (rule hdr_frame_trans[OF fr1 m(4)])
  have "\<forall>x\<in>set bs' - set fl'. fld (kmem st') Size x = fld (kmem st) Size x"
    using m(3,5) i(3) by (auto simp: block_frame_def)
  then have "live (kmem st') bs' fl' = U(b + 40 := None)"
    unfolding w(2) by (intro live_remove) (use m(3) in auto)
  then have rel': "heap_rel st' (U(p := None))" using heap_relI[OF m(2)] w(3) by simp
  have "keeps U (kmem st) (kmem st')" unfolding w(2) by (rule keeps_frame[OF k(4) fr]) simp
  then have kp: "keeps (U(p := None)) (kmem st) (kmem st')" by (rule keeps_sub) (simp add: map_le_def)
  have "spares 0 st (st\<lparr>kmem := kmem st', free_head := free_head st'\<rparr>)" by (rule spares_hdr(1)[OF heap_envD(5,6,3)[OF k(2)] k(4) fr])
  moreover have "st\<lparr>kmem := kmem st', free_head := free_head st'\<rparr> = st'" by (subst (3) m(6)) simp
  ultimately show thesis by (intro that[OF kf rel' kp]) simp
qed

section \<open>Allocating from the freelist\<close>

lemma live_add:
  assumes "set bs' - set fl' = insert b (set bs - set fl)" "\<forall>x\<in>set bs - set fl. fld m' Size x = fld m Size x"
  shows "live m' bs' fl' = (live m bs fl)(b + 40 \<mapsto> unat (fld m' Size b))"
proof
  fix p
  have "p - 40 \<in> set bs' - set fl' \<longleftrightarrow> p - 40 \<in> set bs - set fl \<or> p - 40 = b" using assms(1) by auto
  moreover have "p - 40 = b \<longleftrightarrow> p = b + 40" by (auto simp: algebra_simps)
  ultimately show "live m' bs' fl' p = ((live m bs fl)(b + 40 \<mapsto> unat (fld m' Size b))) p"
    using assms(2) by (auto simp: live_def)
qed

text \<open>Taking a block off the freelist as it is.\<close>

lemma take_whole:
  assumes wf: "kheap_wf st bs fl" and b: "b \<in> set fl"
  obtains st' where "freelist_remove b st = Inr st'" "kheap_wf st' bs (remove1 b fl)"
    "live (kmem st') bs (remove1 b fl) = (live (kmem st) bs fl)(b + 40 \<mapsto> unat (fld (kmem st) Size b))"
    "keeps (live (kmem st) bs fl) (kmem st) (kmem st')" "spares 0 st st'"
proof -
  obtain q where k: "lists_wf st bs fl" "heap_env st" "coalesced (set fl) bs" "tile (kmem st) 0 (kheap_top st) bs q 0"
    "distinct fl" "set fl \<subseteq> set bs"
    by (rule kheap_wfE[OF wf])
  obtain m' fh where r: "freelist_remove b st = Inr (st\<lparr>kmem := m', free_head := fh\<rparr>)"
    "lists_wf (st\<lparr>kmem := m', free_head := fh\<rparr>) bs (remove1 b fl)" "block_frame (set bs) (set bs) (kmem st) m'"
    by (rule lists_remove[OF k(1) b])
  let ?st' = "st\<lparr>kmem := m', free_head := fh\<rparr>"
  have fr: "hdr_frame (set bs) (kmem st) m'" using r(3) by (simp add: block_frame_def)
  have "heap_env ?st'" by (rule lists_env_step[OF k(2) r(2) refl fr])
  moreover have "coalesced (set (remove1 b fl)) bs" by (rule coalesced_mono[OF k(3) set_remove1_subset])
  ultimately have kwf: "kheap_wf ?st' bs (remove1 b fl)" using r(2) by (simp add: kheap_wf_def)
  have sz: "\<forall>x\<in>set bs. fld m' Size x = fld (kmem st) Size x" using r(3) by (simp add: block_frame_def)
  have "live m' bs (remove1 b fl) = (live (kmem st) bs fl)(b + 40 \<mapsto> unat (fld m' Size b))"
    by (rule live_add) (use sz b k(5,6) in \<open>auto simp: set_remove1_eq\<close>)
  then have lv: "live (kmem ?st') bs (remove1 b fl) = (live (kmem st) bs fl)(b + 40 \<mapsto> unat (fld (kmem st) Size b))"
    using sz b k(6) by auto
  have "keeps (live (kmem st) bs fl) (kmem st) (kmem ?st')" using keeps_frame[OF k(4) fr] by simp
  moreover have "spares 0 st ?st'" by (rule spares_hdr(1)[OF heap_envD(5,6,3)[OF k(2)] k(4) fr])
  ultimately show thesis by (rule that[OF r(1) kwf lv])
qed

text \<open>Cutting the area off the end of a larger block.\<close>

lemma take_split:
  assumes wf: "kheap_wf st bs fl" and b: "b \<in> set fl" and n: "n = ALIGN_UP num 8" "unat n \<le> unat (fld (kmem st) Size b)"
    and big: "\<not> fld (kmem st) Size b - n < 41"
  obtains c st1 st' bs' where "split b num st = Inr (c, st1)" "freelist_remove c st1 = Inr st'" "kheap_wf st' bs' fl"
    "live (kmem st') bs' fl = (live (kmem st) bs fl)(c + 40 \<mapsto> unat n)" "live (kmem st) bs fl (c + 40) = None"
    "keeps (live (kmem st) bs fl) (kmem st) (kmem st')"
    "unat (fld (kmem st') Size b) = unat (fld (kmem st) Size b) - unat n - 40" "spares 0 st st'"
proof -
  obtain q where k: "lists_wf st bs fl" "heap_env st" "coalesced (set fl) bs" "distinct fl" "set fl \<subseteq> set bs"
    by (rule kheap_wfE[OF wf])
  obtain xs ys where bs: "bs = xs @ b # ys" using split_list[of b bs] b k(5) by auto
  let ?c = "b + fld (kmem st) Size b - n"
  let ?bs = "xs @ b # ?c # ys"
  obtain m1 where s: "split b num st = Inr (?c, st\<lparr>kmem := m1, free_head := ?c\<rparr>)" "?c \<notin> set (xs @ b # ys)"
    "lists_wf (st\<lparr>kmem := m1, free_head := ?c\<rparr>) ?bs (?c # fl)" "block_frame (set ?bs) (set (xs @ ys)) (kmem st) m1"
    "fld m1 Size ?c = n" "unat (fld m1 Size b) = unat (fld (kmem st) Size b) - unat n - 40"
    by (rule split_wf[OF k(1)[unfolded bs] n big])
  let ?st1 = "st\<lparr>kmem := m1, free_head := ?c\<rparr>"
  obtain m2 fh where r: "freelist_remove ?c ?st1 = Inr (?st1\<lparr>kmem := m2, free_head := fh\<rparr>)"
    "lists_wf (?st1\<lparr>kmem := m2, free_head := fh\<rparr>) ?bs (remove1 ?c (?c # fl))" "block_frame (set ?bs) (set ?bs) (kmem ?st1) m2"
    by (rule lists_remove[OF s(3)]) auto
  let ?st2 = "st\<lparr>kmem := m2, free_head := fh\<rparr>"
  have l2: "lists_wf ?st2 ?bs fl" using r(2) by simp
  have fr: "hdr_frame (set ?bs) (kmem st) m2"
    using s(4) r(3) unfolding block_frame_def by (auto intro: hdr_frame_trans)
  have env: "heap_env ?st2" by (rule lists_env_step[OF k(2) l2 refl fr])
  have cfl: "?c \<notin> set fl" using s(2) k(5) bs by auto
  then have "coalesced (set fl) ?bs" using k(3) unfolding bs by (auto simp: coalesced_append coalesced_Cons)
  then have kwf: "kheap_wf ?st2 ?bs fl" using l2 env by (simp add: kheap_wf_def)
  have sz: "fld m2 Size x = fld (kmem st) Size x" if "x \<in> set bs - set fl" for x
    using that s(4) r(3) b unfolding bs by (auto simp: block_frame_def)
  have "live m2 ?bs fl = (live (kmem st) bs fl)(?c + 40 \<mapsto> unat (fld m2 Size ?c))"
    by (rule live_add) (use sz cfl in \<open>auto simp: bs\<close>)
  moreover have "fld m2 Size ?c = n" using r(3) s(5) by (simp add: block_frame_def)
  ultimately have lv: "live m2 ?bs fl = (live (kmem st) bs fl)(?c + 40 \<mapsto> unat n)" by simp
  have new: "live (kmem st) bs fl (?c + 40) = None" using s(2) by (simp add: live_def bs)
  obtain q2 where t2: "tile m2 0 (block_head st) ?bs q2 0" using l2 by (auto simp: lists_wf_def)
  have "keeps (live m2 ?bs fl) (kmem st) m2" by (rule keeps_frame[OF t2 fr]) simp
  then have "keeps (live (kmem st) bs fl) (kmem st) (kmem ?st2)"
    using new by (auto simp: lv map_le_def elim!: keeps_sub)
  moreover have "fld m2 Size b = fld m1 Size b" using r(3) by (simp add: block_frame_def)
  moreover have "spares 0 st ?st2"
    by (rule spares_hdr(1)[OF heap_envD(5,6)[OF k(2)] _ t2 fr]) (use heap_envD(1,3)[OF k(2)] in simp_all)
  ultimately show thesis using that[OF s(1), of ?st2] r(1) kwf lv new s(6) by simp
qed

lemma ALIGN_UP_aligned:
  assumes "8 dvd unat m"
  shows "ALIGN_UP m 8 = m"
proof -
  obtain k where k: "unat m = 8 * k" using assms by blast
  have "unat m + 7 < 2 ^ 64" using unat_u64_bound[of m] unfolding k by auto
  then have "unat (ALIGN_UP m 8) = unat m" using k by (simp add: unat_ALIGN_UP_8)
  then show ?thesis by (simp add: word_unat_eq_iff)
qed

lemma ALIGN_UP_idem: "ALIGN_UP (ALIGN_UP n 8) 8 = ALIGN_UP n 8"
  by (rule ALIGN_UP_aligned[OF dvd_ALIGN_UP_8])

lemma kmalloc_take_wf:
  assumes wf: "kheap_wf st bs fl" and b: "b \<in> set fl" and n: "ALIGN_UP n 8 = n" "n \<le> fld (kmem st) Size b"
  obtains p k st' where "kmalloc_take n b st = Inr (p, st')" "heap_rel st' ((live (kmem st) bs fl)(p \<mapsto> k))"
    "live (kmem st) bs fl p = None" "unat n \<le> k" "keeps (live (kmem st) bs fl) (kmem st) (kmem st')" "spares 0 st st'"
proof -
  let ?s = "fld (kmem st) Size b"
  obtain q where k: "lists_wf st bs fl" "set fl \<subseteq> set bs" by (rule kheap_wfE[OF wf])
  have nz: "b \<noteq> 0" using free_flag(2)[OF k(1)] b k(2) by auto
  have none: "live (kmem st) bs fl (b + 40) = None" using b by (simp add: live_def)
  have le: "unat n \<le> unat ?s" using n(2) by (simp add: word_le_nat_alt)
  show thesis
  proof (cases "?s = n \<or> ?s - n < 41")
    case True
    obtain st' where t: "freelist_remove b st = Inr st'" "kheap_wf st' bs (remove1 b fl)"
      "live (kmem st') bs (remove1 b fl) = (live (kmem st) bs fl)(b + 40 \<mapsto> unat ?s)" "keeps (live (kmem st) bs fl) (kmem st) (kmem st')" "spares 0 st st'"
      by (rule take_whole[OF wf b])
    have "split b n st = Inr (b, st)" if "?s - n < 41" using split_small[OF nz, of st n] that n(1) by simp
    then have "kmalloc_take n b st = Inr (b + 40, st')"
      using True t(1) nz by (auto simp: kmalloc_take_def step_simps block_start_addr_def sizeof_memblock_def)
    then show thesis using that[OF _ heap_relI[OF t(2,3)] none le t(4,5)] by blast
  next
    case False
    obtain c st1 st' bs' where t: "split b n st = Inr (c, st1)" "freelist_remove c st1 = Inr st'" "kheap_wf st' bs' fl"
      "live (kmem st') bs' fl = (live (kmem st) bs fl)(c + 40 \<mapsto> unat n)" "live (kmem st) bs fl (c + 40) = None"
      "keeps (live (kmem st) bs fl) (kmem st) (kmem st')" "spares 0 st st'"
      by (rule take_split[OF wf b n(1)[symmetric] le]) (use False in auto)
    have "kmalloc_take n b st = Inr (c + 40, st')"
      using False t(1,2) nz by (simp add: kmalloc_take_def step_simps block_start_addr_def sizeof_memblock_def)
    then show thesis using that[OF _ heap_relI[OF t(3,4)] t(5) le_refl t(6,7)] by blast
  qed
qed

section \<open>The search\<close>

lemma kmalloc_search_ring:
  assumes "ring (kmem st) fl" "distinct fl" "0 \<notin> set fl" "free_head st = hd fl" "fl = xs @ ys" "ys \<noteq> []"
  shows "kmalloc_search n (hd ys) st = Some (case find (\<lambda>b. n \<le> fld (kmem st) Size b) ys of None \<Rightarrow> 0 | Some b \<Rightarrow> b)"
  using assms(5,6)
proof (induction ys arbitrary: xs)
  case (Cons y ys)
  have y: "y \<noteq> 0" using assms(3) Cons.prems by auto
  show ?case
  proof (cases "ys = []")
    case True
    then have "fld (kmem st) Free_next y = free_head st"
      using ring_ends(1)[OF assms(1)] Cons.prems assms(4) by simp
    then show ?thesis using y True by (simp add: kmalloc_search.simps[of n y])
  next
    case False
    have "flink (kmem st) y (hd ys)"
      using assms(1) Cons.prems False by (auto simp: ring_def successively_append_iff successively_Cons)
    moreover have "hd ys \<noteq> free_head st"
      using assms(2,4) Cons.prems False by (cases xs; cases ys) auto
    moreover have "kmalloc_search n (hd ys) st = Some (case find (\<lambda>b. n \<le> fld (kmem st) Size b) ys of None \<Rightarrow> 0 | Some b \<Rightarrow> b)"
      by (rule Cons.IH[of "xs @ [y]"]) (use Cons.prems False in auto)
    ultimately show ?thesis using y by (simp add: kmalloc_search.simps[of n y] flink_def)
  qed
qed simp

text \<open>On a well-formed heap the search ends, with the first block that is large enough.\<close>

lemma kmalloc_search_eq:
  assumes "lists_wf st bs fl"
  shows "kmalloc_search n (free_head st) st =
    Some (case find (\<lambda>b. n \<le> fld (kmem st) Size b) fl of None \<Rightarrow> 0 | Some b \<Rightarrow> b)"
proof (cases "fl = []")
  case True
  then show ?thesis using assms by (simp add: lists_wf_def fl_wf_def kmalloc_search.simps[of n])
next
  case False
  have w: "fl_wf st (set bs) fl" using assms by (simp add: lists_wf_def)
  then have "0 \<notin> set fl" by (auto simp: fl_wf_def hsep_def)
  then show ?thesis using kmalloc_search_ring[of st fl "[]" fl n] w False by (simp add: fl_wf_def)
qed

lemma kmalloc_found:
  assumes wf: "kheap_wf st bs fl" and b: "find (\<lambda>b. ALIGN_UP n 8 \<le> fld (kmem st) Size b) fl = Some b" and n: "n \<noteq> 0"
  obtains p k st' where "kmalloc n st = Some (Inr (p, st'))" "heap_rel st' ((live (kmem st) bs fl)(p \<mapsto> k))"
    "live (kmem st) bs fl p = None" "unat (ALIGN_UP n 8) \<le> k" "keeps (live (kmem st) bs fl) (kmem st) (kmem st')" "spares 0 st st'"
proof -
  have l: "lists_wf st bs fl" using wf by (simp add: kheap_wf_def)
  have bf: "b \<in> set fl" "ALIGN_UP n 8 \<le> fld (kmem st) Size b" using b by (auto simp: find_Some_iff)
  have "b \<noteq> 0" using free_flag(2)[OF l] bf(1) wf by (auto elim!: kheap_wfE)
  then have eq: "kmalloc n st = Some (kmalloc_take (ALIGN_UP n 8) b st)"
    using kmalloc_search_eq[OF l, of "ALIGN_UP n 8"] b n by (simp add: kmalloc.simps[of n])
  show thesis by (rule kmalloc_take_wf[OF wf bf(1) ALIGN_UP_idem bf(2)]) (use that eq in auto)
qed

text \<open>When the first free block is much larger than the request, it stays the first free block.\<close>

lemma kmalloc_first_block:
  assumes wf: "kheap_wf st bs (b # fl)" and n: "n \<noteq> 0" "ALIGN_UP n 8 = n" "unat n + 41 \<le> unat (fld (kmem st) Size b)"
  obtains p st' bs' where "kmalloc n st = Some (Inr (p, st'))" "kheap_wf st' bs' (b # fl)"
    "live (kmem st') bs' (b # fl) = (live (kmem st) bs (b # fl))(p \<mapsto> unat n)" "live (kmem st) bs (b # fl) p = None"
    "keeps (live (kmem st) bs (b # fl)) (kmem st) (kmem st')"
    "unat (fld (kmem st') Size b) = unat (fld (kmem st) Size b) - unat n - 40"
proof -
  let ?s = "fld (kmem st) Size b"
  have l: "lists_wf st bs (b # fl)" using wf by (simp add: kheap_wf_def)
  have le: "n \<le> ?s" using n(3) by (simp add: word_le_nat_alt)
  then have "unat (?s - n) = unat ?s - unat n" by (rule unat_sub)
  then have big: "\<not> ?s - n < 41" using n(3) by (simp add: word_less_nat_alt)
  have "b \<in> set bs" by (rule kheap_wfE[OF wf]) auto
  then have nz: "b \<noteq> 0" using free_flag(2)[OF l] by blast
  obtain c st1 st' bs' where t: "split b n st = Inr (c, st1)" "freelist_remove c st1 = Inr st'" "kheap_wf st' bs' (b # fl)"
    "live (kmem st') bs' (b # fl) = (live (kmem st) bs (b # fl))(c + 40 \<mapsto> unat n)" "live (kmem st) bs (b # fl) (c + 40) = None"
    "keeps (live (kmem st) bs (b # fl)) (kmem st) (kmem st')" "unat (fld (kmem st') Size b) = unat ?s - unat n - 40"
    by (rule take_split[OF wf _ n(2)[symmetric] _ big]) (use n(3) in auto)
  have "?s \<noteq> n" using n(3) by auto
  then have "kmalloc_take n b st = Inr (c + 40, st')"
    using t(1,2) nz by (simp add: kmalloc_take_def step_simps block_start_addr_def sizeof_memblock_def)
  moreover have "kmalloc n st = Some (kmalloc_take n b st)"
    using kmalloc_search_eq[OF l, of n] le n(1,2) nz by (simp add: kmalloc.simps[of n])
  ultimately show thesis using that t(3-7) by simp
qed

section \<open>Growing the heap\<close>

lemma heap_fld_phys:
  assumes env: "heap_env st" and ph: "phys_step st st'" and b: "unat (kheap_top st) \<le> unat b" "unat b + 40 \<le> 2 ^ 64"
  shows "fld (kmem st') f b = fld (kmem st) f b"
proof (rule load_cong)
  fix x assume "in_region (b + field_offset f) 8 x"
  then have "in_region b 40 x" by (rule field_in_header)
  then have "unat (kheap_max st) \<le> unat x" using in_region_unat[OF b(2)] b(1) heap_envD(3)[OF env] by auto
  then show "kmem st' x = kmem st x" using ph heap_envD(6)[OF env] by (simp add: phys_step_def)
qed simp

lemma lists_wf_cong:
  assumes wf: "lists_wf st bs fl" and same: "\<And>b f. b \<in> set bs \<Longrightarrow> fld (kmem st') f b = fld (kmem st) f b"
    and heads: "block_head st' = block_head st" "free_head st' = free_head st"
  shows "lists_wf st' bs fl"
proof -
  obtain q where t: "tile (kmem st) 0 (block_head st) bs q 0" and sep: "hsep (set bs)" and fl: "set fl \<subseteq> set bs" "fl_wf st (set bs) fl"
    by (rule lists_wfD[OF wf])
  have "tile (kmem st') 0 (block_head st') bs q 0" using t same heads by (subst tile_cong[of bs _ "kmem st"]) auto
  moreover have "fl_wf st' (set bs) fl" by (rule fl_wf_cong[OF fl(2) heads(2) sep fl(1)]) (use same fl(1) in auto)
  ultimately show ?thesis using wf same by (auto simp: lists_wf_def)
qed

text \<open>Every address of the \<open>n\<close> pages below the page boundary \<open>4096 * t\<close> lies in one of the pages that
  \<open>kheap_map_pages\<close> visits.\<close>

lemma new_page:
  fixes v :: addr
  assumes "4096 * t \<le> 2 ^ 64" "unat v < 4096 * t" "n \<le> t" "4096 * (t - n) \<le> unat v"
  obtains k where "k < n" "vpage v = vpage (of_nat (4096 * t) - PAGE_SIZE - of_nat k * PAGE_SIZE)"
proof -
  define k where "k = t - 1 - unat v div 4096"
  have v: "unat v div 4096 < t" using assms(2) by (simp add: less_mult_imp_div_less)
  have "t - n \<le> unat v div 4096" using assms(4) by (simp add: less_eq_div_iff_mult_less_eq mult.commute)
  then have k: "k < n" "unat v div 4096 = t - 1 - k" using v assms(3) by (auto simp: k_def)
  have "4096 * t = 4096 * (t - 1 - k) + 4096 * (k + 1)" using v by (auto simp: k_def)
  then have "of_nat (4096 * t) = (of_nat (4096 * (t - 1 - k) + 4096 * (k + 1)) :: u64)" by metis
  then have "of_nat (4096 * t) - PAGE_SIZE - of_nat k * PAGE_SIZE = of_nat (4096 * (t - 1 - k))"
    unfolding PAGE_SIZE_eq by (simp add: algebra_simps)
  moreover have "4096 * (t - 1 - k) < 2 ^ 64" using assms(1) v by auto
  ultimately have "unat (of_nat (4096 * t) - PAGE_SIZE - of_nat k * PAGE_SIZE) = 4096 * (t - 1 - k)"
    by (metis unat_of_nat_u64)
  then show thesis using that[OF k(1)] k(2) by (simp add: vpage_def)
qed

lemma kheap_wf_log: "kheap_wf (log_msg l s st) bs fl = kheap_wf st bs fl"
  by (simp add: log_msg_def kheap_wf_def lists_wf_def fl_wf_def heap_env_def paging_cr3_def above_phys_def)

lemma heap_log [simp]:
  "kheap_top (log_msg l s st) = kheap_top st" "kheap_max (log_msg l s st) = kheap_max st"
  "free_head (log_msg l s st) = free_head st" "block_head (log_msg l s st) = block_head st"
  by (simp_all add: log_msg_def)

lemma unat_lowered:
  assumes "4096 * unat n \<le> unat (h :: addr)"
  shows "unat (h - n * PAGE_SIZE) = unat h - 4096 * unat n"
proof -
  have "unat (n * PAGE_SIZE) = 4096 * unat n"
    unfolding PAGE_SIZE_eq using assms unat_u64_bound[of h] by (simp add: unat_word_ariths mult.commute)
  then show ?thesis using assms by (subst unat_sub) (auto simp: word_le_nat_alt)
qed

text \<open>The heap with its new pages, before the new block is made.\<close>

lemma heap_env_lowered:
  assumes env: "heap_env st" and ms: "map_step (paging_cr3 st) st st1" and n: "4096 * unat n \<le> unat (kheap_top st)"
    and pages: "\<And>k. k < unat n \<Longrightarrow> aspace st1 (paging_cr3 st) (vpage (kheap_top st - PAGE_SIZE - of_nat k * PAGE_SIZE)) \<noteq> None"
  defines "a \<equiv> kheap_top st - n * PAGE_SIZE"
  assumes room: "unat (kheap_max st) \<le> unat a"
  shows "heap_env (st1\<lparr>kheap_top := a, block_head := a\<rparr>)"
proof -
  have ph: "phys_step st st1" "pt_wf st1 (paging_cr3 st)" using ms by (auto simp: map_step_def)
  note more = phys_step_more[OF ph(1)]
  have cr3: "paging_cr3 st1 = paging_cr3 st" using more(2) by (simp add: paging_cr3_def)
  have a: "unat a = unat (kheap_top st) - 4096 * unat n" unfolding a_def by (rule unat_lowered[OF n])
  have "aspace st1 (paging_cr3 st) (vpage v) \<noteq> None" if v: "unat a \<le> unat v" for v
  proof (cases "unat (kheap_top st) \<le> unat v")
    case True
    then show ?thesis using heap_envD(7)[OF env] ms by (auto simp: map_step_def)
  next
    case False
    obtain t where t: "unat (kheap_top st) = 4096 * t" using heap_envD(2)[OF env] by blast
    then have h: "kheap_top st = of_nat (4096 * t)" by (metis of_nat_unat ucast_id)
    obtain k where "k < unat n" "vpage v = vpage (of_nat (4096 * t) - PAGE_SIZE - of_nat k * PAGE_SIZE)"
      by (rule new_page[of t v "unat n"]) (use False v a n t unat_u64_bound[of "kheap_top st"] in auto)
    then show ?thesis using pages h by simp
  qed
  moreover have "above_phys st1 = above_phys st" using ph(1) by (simp add: phys_step_def)
  moreover have "4096 dvd unat a" using heap_envD(2)[OF env] a by (simp add: dvd_diff_nat)
  ultimately show ?thesis
    using heap_envD[OF env] ph(2) room more cr3 by (auto simp: heap_env_def)
qed

lemma kheap_add_block_run:
  assumes wf: "lists_wf st bs fl" and env: "heap_env (st\<lparr>block_head := kheap_top st\<rparr>)" and co: "coalesced (set fl) bs"
    and d: "distinct fl" and a: "unat (kheap_top st) + 40 \<le> unat (block_head st)" "unat (kheap_top st) \<noteq> 0"
    and al: "4096 dvd unat (block_head st)"
  obtains st' bs' fl' where "kheap_add_block st = Inr st'" "kheap_wf st' bs' fl'"
    "live (kmem st') bs' fl' = live (kmem st) bs fl" "keeps (live (kmem st) bs fl) (kmem st) (kmem st')" "fl' \<noteq> []" "spares 0 st st'"
    "unat (fld (kmem st') Size (hd fl')) =
       (if hd bs \<in> set fl then unat (block_head st) - unat (kheap_top st) + unat (fld (kmem st) Size (hd bs))
        else unat (block_head st) - unat (kheap_top st) - 40)"
proof -
  let ?a = "kheap_top st"
  have a8: "8 dvd unat ?a" "8 dvd unat (block_head st)" "?a \<noteq> 0"
    using heap_envD(2)[OF env] al a(2) by (auto elim: dvd_trans[rotated])
  have flb: "set fl \<subseteq> set bs" by (rule lists_wfD[OF wf])
  obtain m1 where r: "kheap_add_block st = kbind (merge_right ?a (st\<lparr>block_head := ?a, kmem := m1, free_head := ?a\<rparr>)) (\<lambda>(_, st). Inr st)"
    "lists_wf (st\<lparr>block_head := ?a, kmem := m1, free_head := ?a\<rparr>) (?a # bs) (?a # fl)" "?a \<notin> set bs"
    "block_frame (set (?a # bs)) (set bs) (kmem st) m1" "unat (fld m1 Size ?a) = unat (block_head st) - unat ?a - 40"
    by (rule kheap_add_block_wf[OF wf a(1) a8(3,1,2)])
  let ?b = "st\<lparr>block_head := ?a\<rparr>"
  let ?st1 = "?b\<lparr>kmem := m1, free_head := ?a\<rparr>"
  obtain q where t1: "tile m1 0 ?a (?a # bs) q 0" using r(2) by (auto simp: lists_wf_def)
  have env': "heap_env (?b\<lparr>kmem := m, free_head := fh\<rparr>)" if "hdr_frame (set (?a # bs)) (kmem st) m" for m fh
    by (rule heap_env_step[OF env t1]) (use that in auto)
  have fr1: "hdr_frame (set (?a # bs)) (kmem st) m1" using r(4) by (simp add: block_frame_def)
  have keep: "keeps (live (kmem st) bs fl) (kmem st) m" if "hdr_frame (set (?a # bs)) (kmem st) m" for m
  proof -
    have "keeps (live (kmem st) (?a # bs) (?a # fl)) (kmem st) m"
      by (rule keeps_frame[OF t1 that]) (use r(3,4) in \<open>auto simp: block_frame_def\<close>)
    then show ?thesis by (rule keeps_sub) (use r(3) in \<open>auto simp: map_le_def live_def\<close>)
  qed
  have spare: "spares 0 st (?b\<lparr>kmem := m, free_head := fh\<rparr>)" if "hdr_frame (set (?a # bs)) (kmem st) m" for m fh
    by (rule spares_hdr(2)[OF _ _ _ t1 that]) (use heap_envD(3,5,6)[OF env] in simp_all)
  have wf1: "lists_wf ?st1 ([] @ ?a # bs) (?a # fl)" using r(2) by simp
  show thesis
  proof (rule lists_merge_right[OF wf1])
    assume s: "merge_right ?a ?st1 = Inr (?a, ?st1)" "bs = [] \<or> hd bs \<notin> set (?a # fl)"
    have "coalesced (set (?a # fl)) (?a # bs)" using co s(2) r(3) by (auto simp: coalesced_Cons coalesced_insert)
    then have kwf: "kheap_wf ?st1 (?a # bs) (?a # fl)" using r(2) env'[OF fr1] by (simp add: kheap_wf_def)
    have "live m1 (?a # bs) (?a # fl) = live (kmem st) bs fl"
      by (rule live_cong) (use r(3,4) in \<open>auto simp: block_frame_def\<close>)
    moreover have "hd bs \<notin> set fl" using s(2) wf by (auto simp: lists_wf_def)
    ultimately show thesis using that[OF _ kwf] r(1,5) s(1) keep[OF fr1] spare[OF fr1] by simp
  next
    fix c zs m' fh
    assume s: "bs = c # zs" "c \<in> set (?a # fl)" "merge_right ?a ?st1 = Inr (?a, ?st1\<lparr>kmem := m', free_head := fh\<rparr>)"
     "lists_wf (?st1\<lparr>kmem := m', free_head := fh\<rparr>) ([] @ ?a # zs) (remove1 c (?a # fl))"
     "block_frame (set ([] @ ?a # c # zs)) (set ([] @ zs)) (kmem ?st1) m'"
     "unat (fld m' Size ?a) = unat (fld (kmem ?st1) Size ?a) + 40 + unat (fld (kmem ?st1) Size c)"
    let ?st2 = "?b\<lparr>kmem := m', free_head := fh\<rparr>"
    have eq: "?st1\<lparr>kmem := m', free_head := fh\<rparr> = ?st2" by simp
    have c: "?a \<noteq> c" "c \<in> set fl" "c \<notin> set zs" "?a \<notin> set zs" using r(3) s(1,2) lists_wfD[OF wf] by auto
    have rem: "remove1 c (?a # fl) = ?a # remove1 c fl" using c by simp
    have fr2: "hdr_frame (set (?a # bs)) (kmem st) m'"
      using s(5) hdr_frame_trans[OF fr1] by (simp add: block_frame_def s(1))
    have "zs \<noteq> [] \<Longrightarrow> hd zs \<noteq> ?a" using c(4) hd_in_set[of zs] by metis
    then have "coalesced (insert ?a (set (remove1 c fl))) (?a # zs)"
      using co c s(1) coalesced_mono[of "set fl" zs "set (remove1 c fl)"] set_remove1_subset[of c fl]
      by (auto simp: coalesced_Cons coalesced_insert)
    then have kwf: "kheap_wf ?st2 (?a # zs) (?a # remove1 c fl)"
      using s(4) env'[OF fr2] unfolding eq rem by (simp add: kheap_wf_def)
    have "live m' (?a # zs) (?a # remove1 c fl) = live (kmem st) bs fl"
      by (rule live_cong) (use r(3,4) s(1,5) c d in \<open>auto simp: block_frame_def set_remove1_eq\<close>)
    moreover have "unat (fld m' Size ?a) = unat (block_head st) - unat ?a + unat (fld (kmem st) Size (hd bs))"
      using s(1,6) r(4,5) a(1) by (simp add: block_frame_def)
    ultimately show thesis using that[OF _ kwf] r(1) s(1,3) c(2) keep[OF fr2] spare[OF fr2] by (simp add: eq)
  qed
qed

lemma keeps_phys:
  assumes wf: "kheap_wf st bs fl" and ph: "phys_step st st1"
  shows "keeps (live (kmem st) bs fl) (kmem st) (kmem st1)"
proof -
  obtain q where k: "heap_env st" "tile (kmem st) 0 (kheap_top st) bs q 0" by (rule kheap_wfE[OF wf])
  have "kmem st1 x = kmem st x" if "live (kmem st) bs fl p = Some n" "in_region p n x" for p n x
  proof -
    have b: "p - 40 \<in> set bs" "in_region (p - 40 + 40) (unat (fld (kmem st) Size (p - 40))) x"
      using that by (auto simp: live_Some)
    have "unat (kheap_max st) \<le> unat x"
      using area_bounds(1)[OF k(2) b] tile_order(2)[OF k(2)] b(1) heap_envD(3)[OF k(1)] by fastforce
    then show ?thesis using ph heap_envD(6)[OF k(1)] by (simp add: phys_step_def)
  qed
  then show ?thesis by (auto simp: keeps_def)
qed

lemma kheap_expand_wf:
  assumes wf: "kheap_wf st bs fl" and n: "n \<noteq> 0" "4096 * unat n < 2 ^ 63" and res: "kheap_expand n st = res"
  obtains (fail) msg where "res = Inl (Panic msg)" "avail st < 4 * unat n \<or> unat (kheap_top st) < unat (kheap_max st) + 4096 * unat n"
  | (go) st' bs' fl' where "res = Inr st'" "kheap_wf st' bs' fl'" "live (kmem st') bs' fl' = live (kmem st) bs fl"
      "keeps (live (kmem st) bs fl) (kmem st) (kmem st')" "fl' \<noteq> []" "spares (unat n) st st'"
      "unat (fld (kmem st') Size (hd fl')) =
         (if hd bs \<in> set fl then 4096 * unat n + unat (fld (kmem st) Size (hd bs)) else 4096 * unat n - 40)"
proof -
  obtain q where k: "lists_wf st bs fl" "heap_env st" "coalesced (set fl) bs" "tile (kmem st) 0 (kheap_top st) bs q 0"
    "distinct bs" "distinct fl" "set fl \<subseteq> set bs"
    by (rule kheap_wfE[OF wf])
  have h: "2 ^ 63 \<le> unat (kheap_max st)" "unat (kheap_max st) \<le> unat (kheap_top st)" using heap_envD(3,4)[OF k(2)] by simp_all
  then have n4: "4096 * unat n \<le> unat (kheap_top st)" using n(2) by simp
  define a where "a = kheap_top st - n * PAGE_SIZE"
  have ua: "unat a = unat (kheap_top st) - 4096 * unat n" unfolding a_def by (rule unat_lowered[OF n4])
  consider (f) msg where "kheap_map_pages (kheap_top st - PAGE_SIZE) n st = Inl (Panic msg)" "avail st < 4 * unat n"
    | (g) st1 where "kheap_map_pages (kheap_top st - PAGE_SIZE) n st = Inr st1" "map_step (paging_cr3 st) st st1" "avail st \<le> avail st1 + 4 * unat n"
      "\<And>k. k < unat n \<Longrightarrow> aspace st1 (paging_cr3 st) (vpage (kheap_top st - PAGE_SIZE - of_nat k * PAGE_SIZE)) \<noteq> None"
    by (rule kheap_map_pages_run[OF heap_envD(5)[OF k(2)], of "kheap_top st - PAGE_SIZE" n]) auto
  then show thesis
  proof cases
    case f
    then show thesis using fail[of msg] res n(1) by (simp add: kheap_expand_def)
  next
    case g
    have ph: "phys_step st st1" using g(2) by (simp add: map_step_def)
    note more = phys_step_more[OF ph]
    let ?sta = "st1\<lparr>kheap_top := a\<rparr>"
    have eq: "res = (if a < kheap_max st then Inl (Panic ''[kheap_expand] kheap has expanded too much'') else kheap_add_block ?sta)"
      using n(1) g(1) more by (simp add: res[symmetric] kheap_expand_def a_def)
    show thesis
    proof (cases "a < kheap_max st")
      case True
      then have "unat (kheap_top st) < unat (kheap_max st) + 4096 * unat n" using ua n4 by (simp add: word_less_nat_alt)
      then show thesis using fail eq True by simp
    next
      case False
      then have room: "unat (kheap_max st) \<le> unat a" by (simp add: word_less_nat_alt)
      have env: "heap_env (st1\<lparr>kheap_top := a, block_head := a\<rparr>)"
        unfolding a_def by (rule heap_env_lowered[OF k(2) g(2) n4 g(4)]) (use room in \<open>simp_all add: a_def\<close>)
      have above: "unat (kheap_top st) \<le> unat b \<and> unat b + 40 \<le> 2 ^ 64" if "b \<in> set bs" for b
        using tile_order(2)[OF k(4)] that by fastforce
      have same: "fld (kmem st1) f b = fld (kmem st) f b" if "b \<in> set bs" for f b
        using heap_fld_phys[OF k(2) ph] above[OF that] by blast
      have l1: "lists_wf ?sta bs fl" by (rule lists_wf_cong[OF k(1)]) (use same more in auto)
      have bh: "block_head st = kheap_top st" using heap_envD(1)[OF k(2)] by simp
      have lower: "unat a + 40 \<le> unat (kheap_top st)" "unat a \<noteq> 0"
        using ua n4 n(1) room h(1) unat_gt_0[of n] by auto
      obtain st' bs' fl' where r: "kheap_add_block ?sta = Inr st'" "kheap_wf st' bs' fl'"
        "live (kmem st') bs' fl' = live (kmem ?sta) bs fl" "keeps (live (kmem ?sta) bs fl) (kmem ?sta) (kmem st')" "fl' \<noteq> []" "spares 0 ?sta st'"
        "unat (fld (kmem st') Size (hd fl')) =
          (if hd bs \<in> set fl then unat (kheap_top st) - unat a + unat (fld (kmem ?sta) Size (hd bs)) else unat (kheap_top st) - unat a - 40)"
        by (rule kheap_add_block_run[OF l1 _ k(3)]) (use env more k(6) bh lower heap_envD(2)[OF k(2)] in auto)
      have lv: "live (kmem ?sta) bs fl = live (kmem st) bs fl" by (rule live_cong) (use same in auto)
      have "keeps (live (kmem st) bs fl) (kmem st) (kmem st1)" by (rule keeps_phys[OF wf ph])
      then have "keeps (live (kmem st) bs fl) (kmem st) (kmem st')" using r(4) lv by (auto intro: keeps_trans)
      moreover have "hd bs \<in> set bs" using k(1) by (simp add: lists_wf_def)
      moreover have "spares (unat n) st st'" using spares_trans[OF spares_phys[OF ph g(3)] r(6)] ua by simp
      ultimately show thesis
        using r False eq lv ua n4 same by (intro go[of st' bs' fl']) auto
    qed
  qed
qed

lemma unat_pages_for:
  assumes "unat s + 4096 \<le> 2 ^ 64"
  shows "unat s \<le> 4096 * unat (pages_for s)" "4096 * unat (pages_for s) < unat s + 4096" "s \<noteq> 0 \<Longrightarrow> pages_for s \<noteq> 0"
proof -
  have d: "unat (s div PAGE_SIZE) = unat s div 4096" "unat (s mod PAGE_SIZE) = unat s mod 4096"
    by (simp_all add: PAGE_SIZE_eq unat_div unat_mod)
  have "s mod PAGE_SIZE = 0 \<longleftrightarrow> unat s mod 4096 = 0" by (metis d(2) unat_eq_zero)
  then have u: "unat (pages_for s) = unat s div 4096 + (if unat s mod 4096 \<noteq> 0 then 1 else 0)"
    using assms d(1) unat_add_lem[THEN iffD1, of "s div PAGE_SIZE" 1] by (auto simp: pages_for_def)
  have r: "(if unat s mod 4096 \<noteq> 0 then 1 else 0) = (0 :: nat) \<and> unat s mod 4096 = 0 \<or>
      (if unat s mod 4096 \<noteq> 0 then 1 else 0) = (1 :: nat) \<and> 0 < unat s mod 4096" by simp
  have dm: "unat s = 4096 * (unat s div 4096) + unat s mod 4096" "unat s mod 4096 < 4096" by simp_all
  show "unat s \<le> 4096 * unat (pages_for s)" "4096 * unat (pages_for s) < unat s + 4096" using u dm r by linarith+
  then show "pages_for s \<noteq> 0" if "s \<noteq> 0" using that by (auto simp: unat_eq_zero)
qed

text \<open>Growing for a request that no free block satisfies: the new block at the head of the freelist does.\<close>

lemma kmalloc_grow_wf:
  assumes wf: "kheap_wf st bs fl" and n: "ALIGN_UP n 8 = n" "unat n \<le> 2 ^ 62"
    and none: "find (\<lambda>b. n \<le> fld (kmem st) Size b) fl = None" and res: "kmalloc_grow n st = res"
  obtains (fail) msg where "res = Inl (Panic msg)"
      "avail st < 4 * ((unat n + 4135) div 4096) \<or> unat (kheap_top st) < unat (kheap_max st) + 4096 * ((unat n + 4135) div 4096)"
  | (go) st' bs' fl' where "res = Inr st'" "kheap_wf st' bs' fl'" "live (kmem st') bs' fl' = live (kmem st) bs fl"
      "keeps (live (kmem st) bs fl) (kmem st) (kmem st')" "find (\<lambda>b. n \<le> fld (kmem st') Size b) fl' = Some (hd fl')" "spares ((unat n + 4135) div 4096) st st'"
proof -
  let ?st = "log_msg NONE ''[kmalloc] expanding heap by %lu pages ...'' st"
  have l: "lists_wf st bs fl" using wf by (simp add: kheap_wf_def)
  have h: "block_head st = hd bs" "hd bs \<in> set bs"
    using l tile_start by (auto simp: lists_wf_def)
  note flag = free_flag[OF l h(2)]
  let ?s = "fld (kmem st) Size (hd bs)"
  define need where "need = (if hd bs \<in> set fl then n - ?s + 40 else n + 40)"
  have n40: "unat (n + 40) = unat n + 40" using n(2) by (subst unat_add_lem[THEN iffD1]) auto
  have need: "unat need = (if hd bs \<in> set fl then unat n - unat ?s + 40 else unat n + 40)"
    "hd bs \<in> set fl \<Longrightarrow> unat ?s < unat n"
  proof -
    show less: "unat ?s < unat n" if "hd bs \<in> set fl" using none that by (auto simp: find_None_iff word_le_nat_alt)
    have "unat (n - ?s + 40) = unat n - unat ?s + 40" if "hd bs \<in> set fl"
      using less[OF that] n(2) unat_sub[of ?s n]
      by (subst unat_add_lem[THEN iffD1]) (auto simp: word_le_nat_alt)
    then show "unat need = (if hd bs \<in> set fl then unat n - unat ?s + 40 else unat n + 40)" by (simp add: need_def n40)
  qed
  have small: "unat need + 4096 \<le> 2 ^ 64" "unat need \<le> unat n + 40" using need(1) n(2) by auto
  note pf = unat_pages_for[OF small(1)]
  have pages: "unat (pages_for need) \<le> (unat n + 4135) div 4096" using pf(2) small(2) by (subst less_eq_div_iff_mult_less_eq) auto
  have pos: "need \<noteq> 0" using need(1) by (auto split: if_splits)
  have eq: "kheap_expand (pages_for need) ?st = res"
    using flag by (simp add: res[symmetric] kmalloc_grow_def h(1) step_simps need_def sizeof_memblock_def)
  have wf': "kheap_wf ?st bs fl"
    using wf by (simp add: kheap_wf_log)
  show thesis
  proof (rule kheap_expand_wf[OF wf' pf(3)[OF pos] _ eq])
    show "4096 * unat (pages_for need) < 2 ^ 63" using pf(2) small(2) n(2) by simp
  next
    fix msg assume f: "res = Inl (Panic msg)" "avail ?st < 4 * unat (pages_for need) \<or>
      unat (kheap_top ?st) < unat (kheap_max ?st) + 4096 * unat (pages_for need)"
    then show thesis using fail[OF f(1)] pages by auto
  next
    fix st' bs' fl' assume g: "res = Inr st'" "kheap_wf st' bs' fl'" "live (kmem st') bs' fl' = live (kmem ?st) bs fl"
      "keeps (live (kmem ?st) bs fl) (kmem ?st) (kmem st')" "fl' \<noteq> []" "spares (unat (pages_for need)) ?st st'"
      "unat (fld (kmem st') Size (hd fl')) =
         (if hd bs \<in> set fl then 4096 * unat (pages_for need) + unat (fld (kmem ?st) Size (hd bs))
          else 4096 * unat (pages_for need) - 40)"
    have "unat n \<le> unat (fld (kmem st') Size (hd fl'))" using g(7) pf(1) need by auto
    then have "find (\<lambda>b. n \<le> fld (kmem st') Size b) fl' = Some (hd fl')"
      using g(5) by (cases fl') (auto simp: word_le_nat_alt)
    moreover have "spares ((unat n + 4135) div 4096) st st'" using spares_mono[OF g(6) pages] by (simp add: spares_log)
    ultimately show thesis using go g by simp
  qed
qed

section \<open>\<open>kmalloc\<close>\<close>

lemma ALIGN_UP_pos:
  assumes "n \<noteq> 0" "unat n \<le> 2 ^ 61"
  shows "ALIGN_UP n 8 \<noteq> 0" "unat (ALIGN_UP n 8) \<le> 2 ^ 62" "unat n \<le> unat (ALIGN_UP n 8)"
    "unat (ALIGN_UP n 8) < unat n + 8"
proof -
  have u: "unat (ALIGN_UP n 8) = (unat n + 7) div 8 * 8" by (rule unat_ALIGN_UP_8) (use assms in simp)
  have b: "unat n \<le> (unat n + 7) div 8 * 8" "(unat n + 7) div 8 * 8 < unat n + 8" by presburger+
  show "unat (ALIGN_UP n 8) \<le> 2 ^ 62" "unat n \<le> unat (ALIGN_UP n 8)" "unat (ALIGN_UP n 8) < unat n + 8"
    using u b assms(2) by simp_all
  then show "ALIGN_UP n 8 \<noteq> 0" using assms(1) by (auto simp: unat_eq_zero)
qed

text \<open>One call of \<open>kmalloc\<close>: it ends, and either panics for lack of frames or of address space, or
  returns a fresh area.\<close>

lemma kmalloc_wf:
  assumes rel: "heap_rel st U" and n: "n \<noteq> 0" "unat n \<le> 2 ^ 61"
  obtains (fail) msg where "kmalloc n st = Some (Inl (Panic msg))"
      "avail st < 4 * heap_pages (unat n) \<or> unat (kheap_top st) < unat (kheap_max st) + 4096 * heap_pages (unat n)"
  | (go) p k st' where "kmalloc n st = Some (Inr (p, st'))" "heap_rel st' (U(p \<mapsto> k))" "U p = None" "unat n \<le> k"
      "keeps U (kmem st) (kmem st')" "spares (heap_pages (unat n)) st st'"
proof -
  obtain bs fl where w: "kheap_wf st bs fl" "U = live (kmem st) bs fl" using rel by (auto simp: heap_rel_def)
  let ?n = "ALIGN_UP n 8"
  note al = ALIGN_UP_pos[OF n]
  have pages: "(unat ?n + 4135) div 4096 \<le> heap_pages (unat n)" using al(4) unfolding heap_pages_def by (intro div_le_mono) simp
  show thesis
  proof (cases "find (\<lambda>b. ?n \<le> fld (kmem st) Size b) fl")
    case (Some b)
    obtain p k st' where r: "kmalloc n st = Some (Inr (p, st'))" "heap_rel st' (U(p \<mapsto> k))" "U p = None" "unat ?n \<le> k"
      "keeps U (kmem st) (kmem st')" "spares 0 st st'"
      unfolding w(2) by (rule kmalloc_found[OF w(1) Some n(1)])
    show thesis by (rule go[OF r(1-3) _ r(5) spares_mono[OF r(6)]]) (use r(4) al(3) in auto)
  next
    case None
    then have eq: "kmalloc n st = (case kmalloc_grow ?n st of Inl e \<Rightarrow> Some (Inl e) | Inr st \<Rightarrow> kmalloc ?n st)"
      using kmalloc_search_eq[of st bs fl ?n] w(1) n(1) by (simp add: kmalloc.simps[of n] kheap_wf_def)
    show thesis
    proof (rule kmalloc_grow_wf[OF w(1) ALIGN_UP_idem al(2) None refl])
      fix msg assume f: "kmalloc_grow ?n st = Inl (Panic msg)"
        "avail st < 4 * ((unat ?n + 4135) div 4096) \<or> unat (kheap_top st) < unat (kheap_max st) + 4096 * ((unat ?n + 4135) div 4096)"
      then show thesis using fail eq pages by auto
    next
      fix st1 bs1 fl1 assume g: "kmalloc_grow ?n st = Inr st1" "kheap_wf st1 bs1 fl1" "live (kmem st1) bs1 fl1 = live (kmem st) bs fl"
        "keeps (live (kmem st) bs fl) (kmem st) (kmem st1)" "find (\<lambda>b. ?n \<le> fld (kmem st1) Size b) fl1 = Some (hd fl1)"
        "spares ((unat ?n + 4135) div 4096) st st1"
      obtain p k st' where r: "kmalloc ?n st1 = Some (Inr (p, st'))" "heap_rel st' ((live (kmem st1) bs1 fl1)(p \<mapsto> k))"
        "live (kmem st1) bs1 fl1 p = None" "unat (ALIGN_UP ?n 8) \<le> k" "keeps (live (kmem st1) bs1 fl1) (kmem st1) (kmem st')"
        "spares 0 st1 st'"
        by (rule kmalloc_found[OF g(2) _ al(1), of "hd fl1"]) (use g(5) in \<open>simp_all add: ALIGN_UP_idem\<close>)
      have "keeps U (kmem st) (kmem st')" using g(3,4) r(5) w(2) by (auto intro: keeps_trans)
      then show thesis using go[of p st' k] eq g(1,3) r al(3) w(2) spares_mono[OF spares_trans[OF g(6) r(6)]] pages by (simp add: ALIGN_UP_idem)
    qed
  qed
qed

end
