(* ===== verification/Kheap_Correct.thy ===== *)
theory Kheap_Correct
  imports Kheap_Alloc
begin

text \<open>
  The remaining entry points of kernel/mm/kheap.c (\<open>kheap_init\<close>, \<open>krealloc\<close>, the two printers), the
  interface of the allocator as a locale, and the properties of the heap.
\<close>

section \<open>Initialisation\<close>

lemma heap_max_views [simp]:
  "pt_wf (st\<lparr>kheap_max := x\<rparr>) r = pt_wf st r" "aspace (st\<lparr>kheap_max := x\<rparr>) r = aspace st r"
  "above_phys (st\<lparr>kheap_max := x\<rparr>) = above_phys st" "paging_cr3 (st\<lparr>kheap_max := x\<rparr>) = paging_cr3 st"
  "avail (st\<lparr>kheap_max := x\<rparr>) = avail st"
  by (simp_all add: pt_wf_def pmm_wf_def num_pages_def zone_base_def free_frames_ready_def free_frame_def page_used_def
      clear_frame_def frame_used_def aspace_def above_phys_def paging_cr3_def avail_def free_pages_def fun_eq_iff)

lemma kheap_first_block_wf:
  assumes env: "heap_env (st\<lparr>block_head := kheap_top st\<rparr>)" and n: "n \<noteq> 0" "4096 * unat n \<le> 2 ^ 62"
    and a: "unat (kheap_top st) + 4096 * unat n = 2 ^ 64"
  obtains st' where "kheap_first_block n st = Inr st'" "heap_rel st' Map.empty" "kheap_top st' = kheap_top st"
    "kheap_max st' = kheap_max st" "avail st' = avail st" "above_phys st' = above_phys st"
    "kheap_state.more st' = kheap_state.more st" "intr st' = intr st" "\<forall>x. unat x < unat (kheap_top st) \<longrightarrow> kmem st' x = kmem st x"
proof -
  let ?a = "kheap_top st" and ?s = "n * PAGE_SIZE - 40"
  let ?m = "upd (upd (upd (upd (upd (kmem st) Size ?a ?s) Next ?a 0) Prev ?a 0) Free_next ?a ?a) Free_prev ?a ?a"
  let ?b = "st\<lparr>block_head := ?a\<rparr>"
  let ?st = "?b\<lparr>kmem := ?m, free_head := ?a\<rparr>"
  have a0: "?a \<noteq> 0" using heap_envD(3,4)[OF env] by auto
  have u: "fld ?m Size ?a = ?s" "fld ?m Next ?a = 0" "fld ?m Prev ?a = 0" "fld ?m Free_next ?a = ?a" "fld ?m Free_prev ?a = ?a"
    by (simp_all add: fld_upd_same)
  have n4: "unat (n * PAGE_SIZE) = 4096 * unat n" unfolding PAGE_SIZE_eq using n(2) by (simp add: unat_word_ariths mult.commute)
  have "1 \<le> unat n" using n(1) by (simp add: unat_gt_0 Suc_le_eq)
  then have us: "unat ?s = 4096 * unat n - 40" using n4 by (subst unat_sub) (auto simp: word_le_nat_alt)
  have "?a + 40 + ?s = of_nat (unat ?a + unat (n * PAGE_SIZE))" by simp
  also have "\<dots> = of_nat (2 ^ 64)" using a n4 by metis
  finally have e: "?a + 40 + ?s = 0" by simp
  have "unat ?a + 40 + unat ?s \<le> 2 ^ 64" "8 dvd unat ?s" using us a \<open>1 \<le> unat n\<close> by (auto intro!: dvd_diff_nat)
  then have "block_at ?m 0 ?a" unfolding block_at_def u e using a0 by simp
  then have t: "tile ?m 0 ?a [?a] ?a 0" using e by (simp add: u)
  have "lists_wf ?st [?a] [?a]"
    using t tile_hsep[OF t] u by (auto simp: lists_wf_def fl_wf_def ring_def flink_def)
  moreover have "heap_env ?st" by (rule heap_env_step[OF env t]) auto
  ultimately have "kheap_wf ?st [?a] [?a]" by (simp add: kheap_wf_def coalesced_def)
  then have "heap_rel ?st Map.empty" by (rule heap_relI) (auto simp: live_def fun_eq_iff)
  moreover have "kheap_first_block n st = Inr ?st"
    using a0 by (simp add: kheap_first_block_def Let_def step_simps sizeof_memblock_def)
  moreover have low: "?m x = kmem st x" if "unat x < unat ?a" for x
  proof -
    have "unat ?a + 40 \<le> 2 ^ 64" using a \<open>1 \<le> unat n\<close> by simp
    then have "\<not> in_region ?a 40 x" using that by (simp add: in_region_unat)
    then show ?thesis by (simp add: upd_outside)
  qed
  moreover have "avail (?b\<lparr>kmem := ?m\<rparr>) = avail ?b"
  proof (rule above_write(3)[OF heap_envD(5)[OF env]])
    fix x assume "\<not> above_phys ?b x"
    then have "unat x < unat (kheap_max st)" using heap_envD(6)[OF env, of x] by (auto simp: not_less[symmetric])
    then have "unat x < unat ?a" using heap_envD(3)[OF env] by simp
    then show "?m x = kmem ?b x" using low by simp
  qed
  ultimately show thesis using that by simp
qed

lemma kheap_init_wf:
  assumes wf: "pt_wf st (paging_cr3 st)" and n: "n \<noteq> 0" "4096 * unat n \<le> 2 ^ 62"
    and max: "2 ^ 63 \<le> unat (pmrs_end pmrs (kheap_max st))"
    and above: "\<And>x. unat (pmrs_end pmrs (kheap_max st)) \<le> unat x \<Longrightarrow> above_phys st x"
  obtains (fail) msg where "kheap_init (Some pmrs) n st = Inl (Panic msg)"
      "avail st < 4 * unat n \<or> 2 ^ 64 < unat (pmrs_end pmrs (kheap_max st)) + 4096 * unat n"
  | (go) st' where "kheap_init (Some pmrs) n st = Inr st'" "heap_rel st' Map.empty" "unat (kheap_top st') = 2 ^ 64 - 4096 * unat n"
      "kheap_max st' = pmrs_end pmrs (kheap_max st)" "avail st \<le> avail st' + 4 * unat n" "above_phys st' = above_phys st"
      "kheap_state.more st' = kheap_state.more st" "intr st' = intr st"
      "\<forall>x. above_phys st x \<and> unat x < unat (kheap_top st') \<longrightarrow> kmem st' x = kmem st x"
proof -
  let ?kmax = "pmrs_end pmrs (kheap_max st)" and ?a = "VA_END - PAGE_SIZE * n + 1"
  let ?st0 = "st\<lparr>kheap_max := ?kmax, kheap_top := ?a\<rparr>"
  have n4: "unat (PAGE_SIZE * n) = 4096 * unat n" unfolding PAGE_SIZE_eq using n(2) by (simp add: unat_word_ariths)
  have va1: "VA_END + 1 = 0" by (simp add: VA_END_def)
  from va1 have a0: "?a = - (PAGE_SIZE * n)" by (metis add.commute diff_add_eq diff_0)
  have "PAGE_SIZE * n \<noteq> 0" using n4 n(1) by (metis mult_eq_0_iff unat_eq_zero zero_neq_numeral)
  then have ua: "unat ?a = 2 ^ 64 - 4096 * unat n" 
    unfolding a0 using n4 unat_sub_if'[of 0 "PAGE_SIZE * n"] by (auto simp: unat_eq_zero)
  show thesis
  proof (cases "?a < ?kmax")
    case True
    then have "2 ^ 64 < unat ?kmax + 4096 * unat n" using ua n(2) by (simp add: word_less_nat_alt)
    then show thesis using fail True n(1) by (simp add: kheap_init_def)
  next
    case False
    then have eq: "kheap_init (Some pmrs) n st = kbind (kheap_map_pages (VA_END - PAGE_SIZE + 1) n ?st0) (kheap_first_block n)"
      using n(1) by (simp add: kheap_init_def)
    have wf0: "pt_wf ?st0 (paging_cr3 ?st0)" and cr: "paging_cr3 ?st0 = paging_cr3 st" and av: "avail ?st0 = avail st"
      using wf by simp_all
    show thesis
    proof (rule kheap_map_pages_run[OF wf0, of "VA_END - PAGE_SIZE + 1" n])
      fix msg assume "kheap_map_pages (VA_END - PAGE_SIZE + 1) n ?st0 = Inl (Panic msg)" "avail ?st0 < 4 * unat n"
      then show thesis using fail eq av by simp
    next
      fix st1 assume av1: "avail ?st0 \<le> avail st1 + 4 * unat n" and g: "kheap_map_pages (VA_END - PAGE_SIZE + 1) n ?st0 = Inr st1" "map_step (paging_cr3 ?st0) ?st0 st1"
        "\<And>k. k < unat n \<Longrightarrow> aspace st1 (paging_cr3 ?st0) (vpage (VA_END - PAGE_SIZE + 1 - of_nat k * PAGE_SIZE)) \<noteq> None"
      have ph: "phys_step ?st0 st1" "pt_wf st1 (paging_cr3 st)" using g(2) cr by (auto simp: map_step_def)
      note more = phys_step_more[OF ph(1)]
      have cr1: "paging_cr3 st1 = paging_cr3 st" using more(2) by (simp add: paging_cr3_def)
      have map: "aspace st1 (paging_cr3 st) (vpage v) \<noteq> None" if v: "unat ?a \<le> unat v" for v
      proof -
        have p: "of_nat (4096 * 2 ^ 52) - PAGE_SIZE - of_nat k * PAGE_SIZE = VA_END - PAGE_SIZE + 1 - of_nat k * PAGE_SIZE" for k
          using va1 by (simp add: VA_END_def)
        obtain k where k: "k < unat n" "vpage v = vpage (of_nat (4096 * 2 ^ 52) - PAGE_SIZE - of_nat k * PAGE_SIZE)"
          by (rule new_page[of "2 ^ 52" v "unat n"]) (use v ua n(2) unat_u64_bound[of v] in auto)
        show ?thesis using g(3)[OF k(1)] cr unfolding k(2) p by simp
      qed
      have "4096 dvd unat ?a" unfolding ua by (rule dvd_diff_nat) simp_all
      moreover have same: "above_phys st1 = above_phys st" using ph(1) by (simp add: phys_step_def)
      moreover have "unat ?kmax \<le> unat ?a" using False by (simp add: word_less_nat_alt)
      ultimately have env: "heap_env (st1\<lparr>block_head := kheap_top st1\<rparr>)"
        using map max above ph(2) more cr1 by (auto simp: heap_env_def)
      obtain st' where "kheap_first_block n st1 = Inr st'" "heap_rel st' Map.empty" "kheap_top st' = kheap_top st1"
        "kheap_max st' = kheap_max st1" "avail st' = avail st1" "above_phys st' = above_phys st1" "kheap_state.more st' = kheap_state.more st1" "intr st' = intr st1"
        "\<forall>x. unat x < unat (kheap_top st1) \<longrightarrow> kmem st' x = kmem st1 x"
        by (rule kheap_first_block_wf[OF env n]) (use more ua n(2) in auto)
      moreover have "kheap_state.more st1 = kheap_state.more st" "intr st1 = intr st" using ph(1) by (cases st, cases st1, simp add: phys_step_def)+
      moreover have "kmem st1 x = kmem st x" if "above_phys st x" for x using ph(1) that by (simp add: phys_step_def)
      ultimately show thesis using go[of st'] eq g(1) more ua av av1 same by simp
    qed
  qed
qed

section \<open>\<open>krealloc\<close>\<close>

lemma live_resize:
  assumes "set bs' - set fl' = set bs - set fl" "b \<in> set bs - set fl" "\<forall>x\<in>set bs - set fl - {b}. fld m' Size x = fld m Size x"
  shows "live m' bs' fl' = (live m bs fl)(b + 40 \<mapsto> unat (fld m' Size b))"
proof
  fix p
  have "p - 40 \<in> set bs' - set fl' \<longleftrightarrow> p - 40 \<in> set bs - set fl" using assms(1) by simp
  moreover have "p - 40 = b \<longleftrightarrow> p = b + 40" by (auto simp: algebra_simps)
  ultimately show "live m' bs' fl' p = ((live m bs fl)(b + 40 \<mapsto> unat (fld m' Size b))) p"
    using assms(2,3) by (auto simp: live_def)
qed

text \<open>\<open>merge_right\<close> on a block in use lets it grow into the free block on its right.\<close>

lemma merge_right_in_use:
  assumes wf: "kheap_wf st (xs @ b # ys) fl" and b: "b \<notin> set fl"
  obtains st' zs gl where "merge_right b st = Inr (b, st')" "kheap_wf st' (xs @ b # zs) gl" "b \<notin> set gl"
    "live (kmem st') (xs @ b # zs) gl = (live (kmem st) (xs @ b # ys) fl)(b + 40 \<mapsto> unat (fld (kmem st') Size b))"
    "keeps (live (kmem st) (xs @ b # ys) fl) (kmem st) (kmem st')" "zs = [] \<or> hd zs \<notin> set gl"
    "unat (fld (kmem st) Size b) \<le> unat (fld (kmem st') Size b)"
proof -
  let ?bs = "xs @ b # ys"
  obtain q where k: "lists_wf st ?bs fl" "heap_env st" "coalesced (set fl) ?bs" "tile (kmem st) 0 (kheap_top st) ?bs q 0"
    "distinct ?bs" "distinct fl" "set fl \<subseteq> set ?bs"
    by (rule kheap_wfE[OF wf])
  show thesis
  proof (rule lists_merge_right[OF k(1)])
    assume "merge_right b st = Inr (b, st)" "ys = [] \<or> hd ys \<notin> set fl"
    then show thesis using wf b
      by (intro that[of st ys fl]) (auto simp: keeps_def live_def fun_eq_iff)
  next
    fix c zs m' fh
    assume s: "ys = c # zs" "c \<in> set fl" "merge_right b st = Inr (b, st\<lparr>kmem := m', free_head := fh\<rparr>)"
     "lists_wf (st\<lparr>kmem := m', free_head := fh\<rparr>) (xs @ b # zs) (remove1 c fl)"
     "block_frame (set (xs @ b # c # zs)) (set (xs @ zs)) (kmem st) m'"
     "unat (fld m' Size b) = unat (fld (kmem st) Size b) + 40 + unat (fld (kmem st) Size c)"
    let ?st' = "st\<lparr>kmem := m', free_head := fh\<rparr>"
    have fr: "hdr_frame (set ?bs) (kmem st) m'" using s(1,5) by (simp add: block_frame_def)
    have sub: "set (remove1 c fl) \<subseteq> set fl" by (rule set_remove1_subset)
    have hz: "zs = [] \<or> hd zs \<notin> set (remove1 c fl)"
      using k(3) s(1,2) sub by (auto simp: coalesced_append coalesced_Cons)
    have "coalesced (set fl) (xs @ b # zs)" using k(3) b unfolding s(1) by (simp add: coalesced_append coalesced_Cons)
    then have "coalesced (set (remove1 c fl)) (xs @ b # zs)" by (rule coalesced_mono[OF _ sub])
    moreover have "heap_env ?st'" by (rule heap_env_step[OF k(2,4) _ fr]) simp
    ultimately have kwf: "kheap_wf ?st' (xs @ b # zs) (remove1 c fl)" using s(4) by (simp add: kheap_wf_def)
    have "live m' (xs @ b # zs) (remove1 c fl) = (live (kmem st) ?bs fl)(b + 40 \<mapsto> unat (fld m' Size b))"
      by (rule live_resize) (use s(1,2,5) b k(5,6) in \<open>auto simp: block_frame_def set_remove1_eq\<close>)
    moreover have "keeps (live (kmem st) ?bs fl) (kmem st) m'" by (rule keeps_frame[OF k(4) fr]) simp
    ultimately show thesis using that[OF s(3) kwf] b sub hz s(6) by auto
  qed
qed

text \<open>\<open>split\<close> on a block in use: the header it returns is that of the block it has just put on the freelist.\<close>

lemma split_in_use:
  assumes wf: "kheap_wf st (xs @ b # ys) fl" and b: "b \<notin> set fl" and n: "unat (ALIGN_UP n 8) \<le> unat (fld (kmem st) Size b)"
    and hz: "ys = [] \<or> hd ys \<notin> set fl" and big: "\<not> fld (kmem st) Size b - ALIGN_UP n 8 < 41"
  obtains c st' k where "split b n st = Inr (c, st')" "c \<noteq> b" "is_free c st' = Inr True"
    "heap_rel st' ((live (kmem st) (xs @ b # ys) fl)(b + 40 \<mapsto> k))" "c + 40 \<notin> dom (live (kmem st) (xs @ b # ys) fl)"
    "k + 40 + unat (ALIGN_UP n 8) = unat (fld (kmem st) Size b)"
proof -
  let ?bs = "xs @ b # ys"
  let ?c = "b + fld (kmem st) Size b - ALIGN_UP n 8"
  obtain q where k: "lists_wf st ?bs fl" "heap_env st" "coalesced (set fl) ?bs" "tile (kmem st) 0 (kheap_top st) ?bs q 0"
    "distinct ?bs" "set fl \<subseteq> set ?bs"
    by (rule kheap_wfE[OF wf])
  obtain m' where s: "split b n st = Inr (?c, st\<lparr>kmem := m', free_head := ?c\<rparr>)" "?c \<notin> set ?bs"
    "lists_wf (st\<lparr>kmem := m', free_head := ?c\<rparr>) (xs @ b # ?c # ys) (?c # fl)"
    "block_frame (set (xs @ b # ?c # ys)) (set (xs @ ys)) (kmem st) m'"
    "unat (fld m' Size b) = unat (fld (kmem st) Size b) - unat (ALIGN_UP n 8) - 40"
    by (rule split_wf[OF k(1) refl n big])
  let ?st' = "st\<lparr>kmem := m', free_head := ?c\<rparr>" and ?bs' = "xs @ b # ?c # ys"
  have fr: "hdr_frame (set ?bs') (kmem st) m'" using s(4) by (simp add: block_frame_def)
  have env: "heap_env ?st'" by (rule lists_env_step[OF k(2) s(3) refl fr])
  have cfl: "?c \<notin> set fl" "?c \<noteq> b" using s(2) k(6) by auto
  have "hd ys \<noteq> ?c" if "ys \<noteq> []" using s(2) hd_in_set[OF that] by auto
  then have "coalesced (set (?c # fl)) ?bs'"
    using k(3) b hz cfl s(2) by (auto simp: coalesced_append coalesced_Cons coalesced_insert)
  then have kwf: "kheap_wf ?st' ?bs' (?c # fl)" using s(3) env by (simp add: kheap_wf_def)
  have lv: "live m' ?bs' (?c # fl) = (live (kmem st) ?bs fl)(b + 40 \<mapsto> unat (fld m' Size b))"
    by (rule live_resize) (use s(2,4) b cfl k(5) in \<open>auto simp: block_frame_def\<close>)
  have "is_free ?c ?st' = Inr True" using free_flag(1)[OF s(3), of ?c] by simp
  moreover have "?c + 40 \<notin> dom (live (kmem st) ?bs fl)" using s(2) by (auto simp: live_def split: if_splits)
  moreover have "unat (fld m' Size b) + 40 + unat (ALIGN_UP n 8) = unat (fld (kmem st) Size b)"
  proof -
    have "unat (fld (kmem st) Size b - ALIGN_UP n 8) = unat (fld (kmem st) Size b) - unat (ALIGN_UP n 8)"
      using n by (subst unat_sub) (auto simp: word_le_nat_alt)
    then show ?thesis using s(5) big n by (simp add: word_less_nat_alt)
  qed
  ultimately show thesis using that[OF s(1) cfl(2)] heap_relI[OF kwf] lv by simp
qed

text \<open>A client may write to its own areas.\<close>

lemma lists_wf_area:
  assumes wf: "kheap_wf st bs fl" and p: "live (kmem st) bs fl p = Some n"
    and m: "\<And>x. \<not> in_region p n x \<Longrightarrow> m x = kmem st x" and b: "b \<in> set bs"
  shows "fld m f b = fld (kmem st) f b"
proof (rule load_cong)
  obtain q where t: "tile (kmem st) 0 (kheap_top st) bs q 0" by (rule kheap_wfE[OF wf])
  have c: "p - 40 \<in> set bs" "n = unat (fld (kmem st) Size (p - 40))" using p by (auto simp: live_Some)
  fix x assume "in_region (b + field_offset f) 8 x"
  then have "in_region b 40 x" by (rule field_in_header)
  then have "\<not> in_region (p - 40 + 40) (unat (fld (kmem st) Size (p - 40))) x"
    using area_no_header[OF t c(1) b] by blast
  then show "m x = kmem st x" using m c(2) by simp
qed simp

lemma heap_write:
  assumes rel: "heap_rel st U" and p: "U p = Some n" and m: "\<And>x. \<not> in_region p n x \<Longrightarrow> m x = kmem st x"
  shows "heap_rel (st\<lparr>kmem := m\<rparr>) U"
proof -
  obtain bs fl where w: "kheap_wf st bs fl" "U = live (kmem st) bs fl" using rel by (auto simp: heap_rel_def)
  obtain q where k: "lists_wf st bs fl" "heap_env st" "coalesced (set fl) bs" "tile (kmem st) 0 (kheap_top st) bs q 0"
    by (rule kheap_wfE[OF w(1)])
  note same = lists_wf_area[OF w(1) p[unfolded w(2)] m]
  have "lists_wf (st\<lparr>kmem := m\<rparr>) bs fl" by (rule lists_wf_cong[OF k(1)]) (use same in auto)
  moreover have "m x = kmem st x" if "\<not> above_phys st x" for x
  proof (rule m)
    have c: "p - 40 \<in> set bs" "n = unat (fld (kmem st) Size (p - 40))" using p w(2) by (auto simp: live_Some)
    have "unat x < unat (kheap_max st)" using heap_envD(6)[OF k(2)] that by (meson linorder_not_le)
    then have "unat x < unat (p - 40)" using tile_order(2)[OF k(4)] c(1) heap_envD(3)[OF k(2)] by fastforce
    then show "\<not> in_region p n x" using area_bounds(1)[OF k(4) c(1), of x] c(2) by auto
  qed
  then have "heap_env (st\<lparr>kmem := m\<rparr>)"
    using k(2) above_write[of st "paging_cr3 st" m] by (auto simp: heap_env_def)
  ultimately have "kheap_wf (st\<lparr>kmem := m\<rparr>) bs fl" using k(3) by (simp add: kheap_wf_def)
  moreover have "live m bs fl = U" unfolding w(2) by (rule live_cong) (use same in auto)
  ultimately show ?thesis by (intro heap_relI) auto
qed

lemma heap_areas_apart:
  assumes rel: "heap_rel st U" and p: "U p = Some n" "U q = Some k" "p \<noteq> q" "in_region p n x"
  shows "\<not> in_region q k x"
proof -
  obtain bs fl where w: "kheap_wf st bs fl" "U = live (kmem st) bs fl" using rel by (auto simp: heap_rel_def)
  obtain t where t: "tile (kmem st) 0 (kheap_top st) bs t 0" by (rule kheap_wfE[OF w(1)])
  have "p - 40 \<in> set bs" "q - 40 \<in> set bs" "p - 40 \<noteq> q - 40"
    "n = unat (fld (kmem st) Size (p - 40))" "k = unat (fld (kmem st) Size (q - 40))"
    using p(1-3) w(2) by (auto simp: live_Some)
  then show ?thesis using areas_disjoint[OF t, of "p - 40" "q - 40" x] p(4) by simp
qed

text \<open>Where the areas lie.\<close>

lemma heap_area_bounds:
  assumes rel: "heap_rel st U" and p: "U p = Some n" and x: "in_region p n x"
  shows "unat (kheap_top st) + 40 \<le> unat x"
proof -
  obtain bs fl where w: "kheap_wf st bs fl" "U = live (kmem st) bs fl" using rel by (auto simp: heap_rel_def)
  obtain t where t: "tile (kmem st) 0 (kheap_top st) bs t 0" by (rule kheap_wfE[OF w(1)])
  have c: "p - 40 \<in> set bs" "n = unat (fld (kmem st) Size (p - 40))" using p w(2) by (auto simp: live_Some)
  show ?thesis using area_bounds(1)[OF t c(1), of x] x c(2) tile_order(2)[OF t] c(1) by fastforce
qed

lemma heap_area_nonnull: "heap_rel st U \<Longrightarrow> U p = Some n \<Longrightarrow> 0 < n \<Longrightarrow> p \<noteq> 0"
  using heap_area_bounds[of st U p n p] by (auto simp: in_region_def)

lemma keepsD: "keeps U m m' \<Longrightarrow> U p = Some n \<Longrightarrow> in_region p n x \<Longrightarrow> m' x = m x"
  by (auto simp: keeps_def)

text \<open>The part of \<open>krealloc\<close> that moves the area.\<close>

lemma krealloc_move_wf:
  assumes rel: "heap_rel st U" and p: "U p = Some n" and sz: "sz \<noteq> 0" "unat sz \<le> 2 ^ 61" "n < unat sz"
  obtains (fail) msg where "krealloc_move (p - 40) p sz st = Some (Inl (Panic msg))"
  | (go) q k st' where "krealloc_move (p - 40) p sz st = Some (Inr (q, st'))" "q \<noteq> p" "U q = None" "unat sz \<le> k"
      "heap_rel st' (U(p := None, q \<mapsto> k))" "keeps (U(p := None)) (kmem st) (kmem st')"
      "\<forall>i < n. kmem st' (q + of_nat i) = kmem st (p + of_nat i)"
proof (rule kmalloc_wf[OF rel sz(1,2)])
  fix msg assume "kmalloc sz st = Some (Inl (Panic msg))"
  then show thesis using fail by (simp add: krealloc_move_def)
next
  fix q k st2 assume a: "kmalloc sz st = Some (Inr (q, st2))" "heap_rel st2 (U(q \<mapsto> k))" "U q = None" "unat sz \<le> k"
    "keeps U (kmem st) (kmem st2)"
  have qp: "q \<noteq> p" "p \<noteq> q" using a(3) p by auto
  let ?U2 = "U(q \<mapsto> k)"
  have p2: "?U2 p = Some n" "?U2 q = Some k" using p qp by auto
  obtain bs fl where w: "kheap_wf st2 bs fl" "?U2 = live (kmem st2) bs fl" using a(2) by (auto simp: heap_rel_def)
  have pb: "p - 40 \<in> set bs" "n = unat (fld (kmem st2) Size (p - 40))" "q - 40 \<in> set bs" using p2 w(2) by (auto simp: live_Some)
  have l2: "lists_wf st2 bs fl" using w(1) by (simp add: kheap_wf_def)
  let ?n = "fld (kmem st2) Size (p - 40)"
  let ?m = "snd (memcpy (kmem st2) q p ?n)"
  have q0: "q \<noteq> 0" by (rule heap_area_nonnull[OF a(2) p2(2)]) (use sz(3) a(4) in simp)
  have "unat ?n \<le> unat (q - p)"
  proof (rule ccontr)
    assume "\<not> unat ?n \<le> unat (q - p)"
    then have "in_region p n q" by (simp add: in_region_def pb(2))
    then have "\<not> in_region q k q" using heap_areas_apart[OF a(2) p2(1,2) qp(2)] by blast
    then show False using sz(3) a(4) by (simp add: in_region_def)
  qed
  then have cpy: "?m x = (if in_region q n x then kmem st2 (p + (x - q)) else kmem st2 x)" for x
    using memcpy_apply[of q p ?n "kmem st2" x] pb(2) by simp
  let ?st3 = "st2\<lparr>kmem := ?m\<rparr>"
  have m3: "kmem ?st3 = ?m" by simp
  have nk: "n \<le> k" using sz(3) a(4) by simp
  have "\<not> in_region q k x \<Longrightarrow> ?m x = kmem st2 x" for x unfolding cpy using nk in_region_mono[of q n x k] by auto
  then have rel3: "heap_rel ?st3 ?U2" by (rule heap_write[OF a(2) p2(2)])
  obtain st' where f: "kfree p ?st3 = Inr st'" "heap_rel st' (?U2(p := None))" "keeps (?U2(p := None)) (kmem ?st3) (kmem st')"
    by (rule kfree_wf[OF rel3 p2(1)])
  have "p - 40 \<noteq> 0" using free_flag(2)[OF l2 pb(1)] .
  then have r: "krealloc_move (p - 40) p sz st = Some (Inr (q, st'))"
    using a(1) q0 f(1) by (simp add: krealloc_move_def step_simps)
  have U': "?U2(p := None) = U(p := None, q \<mapsto> k)" using qp by (auto simp: fun_upd_twist)
  have "keeps (U(p := None)) (kmem st2) ?m"
  proof -
    have "?m x = kmem st2 x" if "(U(p := None)) c = Some j" "in_region c j x" for c j x
    proof -
      have "c \<noteq> q" "?U2 c = Some j" using that(1) a(3) by (auto split: if_splits)
      then show ?thesis using heap_areas_apart[OF a(2) _ p2(2) _ that(2)] in_region_mono[of q n x k] nk cpy by auto
    qed
    then show ?thesis unfolding keeps_def by blast
  qed
  moreover have "keeps (U(p := None)) (kmem st) (kmem st2)" using a(5) by (rule keeps_sub) (auto simp: map_le_def)
  moreover have "keeps (U(p := None)) ?m (kmem st')"
    using f(3)[unfolded m3] by (rule keeps_sub) (use a(3) in \<open>auto simp: map_le_def\<close>)
  ultimately have kp: "keeps (U(p := None)) (kmem st) (kmem st')" by (blast intro: keeps_trans)
  have "kmem st' (q + of_nat i) = kmem st (p + of_nat i)" if i: "i < n" for i
  proof -
    have "i < 2 ^ 64" using i pb(2) unat_u64_bound[of ?n] by simp
    then have reg: "in_region q n (q + of_nat i)" "in_region p n (p + of_nat i)" using i by (simp_all add: in_region_def)
    then have "kmem st' (q + of_nat i) = ?m (q + of_nat i)"
      by (intro keepsD[OF f(3)[unfolded m3], of q k] in_region_mono[OF reg(1) nk]) (use qp in simp)
    also have "\<dots> = kmem st2 (p + of_nat i)" using cpy reg(1) by simp
    also have "\<dots> = kmem st (p + of_nat i)" by (rule keepsD[OF a(5) p reg(2)])
    finally show ?thesis .
  qed
  then show thesis using go[OF r qp(1) a(3,4) _ kp] f(2) U' by simp
qed

lemma krealloc_wf:
  assumes rel: "heap_rel st U" and p: "U p = Some n" and sz: "sz \<noteq> 0" "unat sz \<le> 2 ^ 61"
  obtains (fail) msg where "krealloc p sz st = Some (Inl (Panic msg))"
  | (grown) k st' where "krealloc p sz st = Some (Inr (p, st'))" "heap_rel st' (U(p \<mapsto> k))" "unat sz \<le> k"
      "keeps U (kmem st) (kmem st')"
  | (lost) q k st' where "krealloc p sz st = Some (Inr (q, st'))" "q \<noteq> p" "U q = None" "is_free (q - 40) st' = Inr True"
      "heap_rel st' (U(p \<mapsto> k))"
  | (moved) q k st' where "krealloc p sz st = Some (Inr (q, st'))" "q \<noteq> p" "U q = None" "unat sz \<le> k" "n < unat sz"
      "heap_rel st' (U(p := None, q \<mapsto> k))" "keeps (U(p := None)) (kmem st) (kmem st')"
      "\<forall>i < n. kmem st' (q + of_nat i) = kmem st (p + of_nat i)"
proof -
  obtain bs fl xs ys b where w: "kheap_wf st bs fl" "U = live (kmem st) bs fl" "b = p - 40" "bs = xs @ b # ys"
    "b \<in> set bs" "b \<notin> set fl" "n = unat (fld (kmem st) Size b)"
    by (rule heap_relE[OF rel p])
  obtain st1 zs gl where m: "merge_right b st = Inr (b, st1)" "kheap_wf st1 (xs @ b # zs) gl" "b \<notin> set gl"
    "live (kmem st1) (xs @ b # zs) gl = U(p \<mapsto> unat (fld (kmem st1) Size b))"
    "keeps U (kmem st) (kmem st1)" "zs = [] \<or> hd zs \<notin> set gl" "n \<le> unat (fld (kmem st1) Size b)"
    using merge_right_in_use[OF w(1)[unfolded w(4)] w(6)] w(2,3,4,7) by auto
  let ?s = "fld (kmem st1) Size b"
  let ?U1 = "U(p \<mapsto> unat ?s)"
  have rel1: "heap_rel st1 ?U1" by (rule heap_relI[OF m(2,4)])
  have l: "lists_wf st bs fl" "lists_wf st1 (xs @ b # zs) gl" using w(1) m(2) by (simp_all add: kheap_wf_def)
  have b0: "b \<noteq> 0" "is_free b st = Inr False" using free_flag[OF l(1) w(5)] w(6) by simp_all
  have eq: "krealloc p sz st = (if sz \<le> ?s then Some (kbind (split b sz st1) (\<lambda>(header, st). Inr (header + 40, st)))
      else krealloc_move b p sz st1)"
    using b0 m(1) by (simp add: krealloc_def Let_def sizeof_memblock_def w(3) field_step(1) block_start_addr_def)
  obtain t where t: "tile (kmem st1) 0 (kheap_top st1) (xs @ b # zs) t 0" by (rule kheap_wfE[OF m(2)])
  have s8: "8 dvd unat ?s" using tile_order(2)[OF t] by simp
  show thesis
  proof (cases "sz \<le> ?s")
    case True
    note al = ALIGN_UP_pos[OF sz]
    have "(unat sz + 7) div 8 * 8 \<le> unat ?s" using True s8 by (simp add: word_le_nat_alt) presburger
    moreover have "unat (ALIGN_UP sz 8) = (unat sz + 7) div 8 * 8" by (rule unat_ALIGN_UP_8) (use sz(2) in simp)
    ultimately have le: "unat (ALIGN_UP sz 8) \<le> unat ?s" by simp
    show thesis
    proof (cases "?s - ALIGN_UP sz 8 < 41")
      case small: True
      have "krealloc p sz st = Some (Inr (p, st1))" using eq True split_small[OF b0(1) small] by (simp add: w(3))
      then show thesis using grown rel1 True m(5) by (simp add: word_le_nat_alt)
    next
      case False
      obtain c st' k where s: "split b sz st1 = Inr (c, st')" "c \<noteq> b" "is_free c st' = Inr True"
        "heap_rel st' (?U1(b + 40 \<mapsto> k))" "c + 40 \<notin> dom ?U1"
        by (rule split_in_use[OF m(2,3) le m(6) False, unfolded m(4)])
      have "krealloc p sz st = Some (Inr (c + 40, st'))" using eq True s(1) by simp
      moreover have "c + 40 \<noteq> p" "U (c + 40) = None" using s(2,5) w(3) by (auto split: if_splits)
      ultimately show thesis using lost[of "c + 40" st' k] s(3,4) w(3) by simp
    qed
  next
    case False
    then have lt: "unat ?s < unat sz" by (simp add: word_le_nat_alt)
    have p1: "?U1 p = Some (unat ?s)" by simp
    show thesis
    proof (rule krealloc_move_wf[OF rel1 p1 sz lt])
      fix msg assume "krealloc_move (p - 40) p sz st1 = Some (Inl (Panic msg))"
      then show thesis using fail eq False w(3) by simp
    next
      fix q k st' assume v: "krealloc_move (p - 40) p sz st1 = Some (Inr (q, st'))" "q \<noteq> p" "?U1 q = None" "unat sz \<le> k"
        "heap_rel st' (?U1(p := None, q \<mapsto> k))" "keeps (?U1(p := None)) (kmem st1) (kmem st')"
        "\<forall>i < unat ?s. kmem st' (q + of_nat i) = kmem st1 (p + of_nat i)"
      have "keeps (U(p := None)) (kmem st) (kmem st1)" using m(5) by (rule keeps_sub) (auto simp: map_le_def)
      then have "keeps (U(p := None)) (kmem st) (kmem st')" using v(6) by (auto intro: keeps_trans)
      moreover have "kmem st1 (p + of_nat i) = kmem st (p + of_nat i)" if "i < n" for i
      proof -
        have "i < 2 ^ 64" using that w(7) unat_u64_bound by (metis order.strict_trans)
        then have "in_region p n (p + of_nat i)" using that by (simp add: in_region_def)
        then show ?thesis by (rule keepsD[OF m(5) p])
      qed
      ultimately show thesis
        using moved[of q st' k] v eq False w(3) lt m(7) by (auto split: if_splits)
    qed
  qed
qed

section \<open>A request that never returns\<close>

text \<open>For \<open>2 ^ 64 - 40\<close> bytes the sum with the size of a header is 0, so \<open>kmalloc\<close> asks for 0 pages and
  calls itself again.\<close>

lemma kmalloc_wrap_step:
  assumes wf: "kheap_wf st bs fl" and used: "hd bs \<notin> set fl"
  obtains st' where "kmalloc (- 40) st = kmalloc (- 40) st'" "kheap_wf st' bs fl"
    "kmalloc_search (- 40) (free_head st) st = Some 0" "kmalloc_grow (- 40) st = Inr st'"
proof -
  obtain q where k: "lists_wf st bs fl" "heap_env st" "tile (kmem st) 0 (kheap_top st) bs q 0" "set fl \<subseteq> set bs"
    by (rule kheap_wfE[OF wf])
  have al: "ALIGN_UP (- 40) 8 = - 40" by (rule ALIGN_UP_aligned) simp
  have "\<not> - 40 \<le> fld (kmem st) Size b" if b: "b \<in> set fl" for b
  proof -
    have "b \<in> set bs" using b k(4) by auto
    then have "unat (kheap_top st) \<le> unat b" "unat b + 40 + unat (fld (kmem st) Size b) \<le> 2 ^ 64"
      using tile_order(2)[OF k(3)] by auto
    then show ?thesis using heap_envD(3,4)[OF k(2)] by (simp add: word_le_nat_alt)
  qed
  then have "find (\<lambda>b. - 40 \<le> fld (kmem st) Size b) fl = None" by (auto simp: find_None_iff)
  then have s: "kmalloc_search (- 40) (free_head st) st = Some 0" using kmalloc_search_eq[OF k(1)] by simp
  have h: "block_head st = hd bs" "hd bs \<in> set bs" using k(1) tile_start by (auto simp: lists_wf_def)
  note flag = free_flag[OF k(1) h(2)]
  let ?st' = "log_msg WARNING ''[kheap_expand] request to expand kheap with 0 pages''
      (log_msg NONE ''[kmalloc] expanding heap by %lu pages ...'' st)"
  have g: "kmalloc_grow (- 40) st = Inr ?st'"
    using flag used by (simp add: kmalloc_grow_def h(1) field_step(1) sizeof_memblock_def pages_for_def kheap_expand_def)
  then have "kmalloc (- 40) st = kmalloc (- 40) ?st'"
    using s by (subst kmalloc.simps) (simp add: al)
  then show thesis using that[of ?st'] wf s g by (simp add: kheap_wf_log)
qed

lemma kmalloc_wrap_None:
  assumes "kheap_wf st bs fl" "hd bs \<notin> set fl"
  shows "kmalloc (- 40) st = None"
proof -
  have al: "ALIGN_UP (- 40) 8 = - 40" by (rule ALIGN_UP_aligned) simp
  have "\<not> (n = - 40 \<and> kheap_wf st bs fl)" if "kmalloc n st = Some r" for n r and st :: "'a kheap_state_scheme"
  proof (rule kmalloc.raw_induct[where P = "\<lambda>n st r. \<not> (n = - 40 \<and> kheap_wf st bs fl)", OF _ that], rule notI)
    fix f :: "u64 \<Rightarrow> 'a kheap_state_scheme \<Rightarrow> (addr \<times> 'a kheap_state_scheme) kres option" and n st r
    assume IH: "\<And>n st r. f n st = Some r \<Longrightarrow> \<not> (n = - 40 \<and> kheap_wf st bs fl)"
      and run: "(if n = 0 then Some (Inr (0, log_msg ERROR ''[kmalloc] size of 0 was requested from kheap'' st))
        else Option.bind (kmalloc_search (ALIGN_UP n 8) (free_head st) st) (\<lambda>cur.
          if cur \<noteq> 0 then Some (kmalloc_take (ALIGN_UP n 8) cur st)
          else case kmalloc_grow (ALIGN_UP n 8) st of Inl e \<Rightarrow> Some (Inl e) | Inr st \<Rightarrow> f (ALIGN_UP n 8) st)) = Some r"
      and a: "n = - 40 \<and> kheap_wf st bs fl"
    obtain st' where "kheap_wf st' bs fl" "kmalloc_search (- 40) (free_head st) st = Some 0" "kmalloc_grow (- 40) st = Inr st'"
      by (rule kmalloc_wrap_step[OF conjunct2[OF a] assms(2)])
    then show False using IH[of "- 40" st' r] run a by (simp add: al)
  qed
  then show ?thesis using assms(1) by (cases "kmalloc (- 40) st") auto
qed

section \<open>The printers\<close>

lemma parse_blocklist_tile:
  assumes "tile (kmem st) p a bs q 0"
  shows "parse_blocklist_loop a st =
    Some (st\<lparr>klog := klog st @ replicate (length bs) (NONE, ''[parse_blocklist] header addr: 0x%lx, size: 0x%lx, free?: %u'')\<rparr>)"
  using assms
proof (induction bs arbitrary: p a st)
  case (Cons b bs)
  let ?msg = "''[parse_blocklist] header addr: 0x%lx, size: 0x%lx, free?: %u''"
  let ?st = "log_msg NONE ?msg st"
  have b: "b = a" "block_at (kmem st) p a" "tile (kmem ?st) a (fld (kmem st) Next a) bs q 0"
    using Cons.prems by (auto simp: block_at_def)
  then have "a \<noteq> 0" by (simp add: block_at_def)
  then show ?case using Cons.IH[OF b(3)] by (simp add: parse_blocklist_loop.simps[of a] Let_def log_msg_def)
qed (simp add: parse_blocklist_loop.simps)

lemma parse_freelist_ring:
  assumes "ring (kmem st) fl" "distinct fl" "0 \<notin> set fl" "free_head st = hd fl" "fl = xs @ ys" "ys \<noteq> []"
  shows "parse_freelist_loop (hd ys) st =
    Some (st\<lparr>klog := klog st @ replicate (length ys) (NONE, ''[parse_freelist] header addr: 0x%lx, size: 0x%lx'')\<rparr>)"
  using assms
proof (induction ys arbitrary: xs st)
  case (Cons y ys)
  let ?msg = "''[parse_freelist] header addr: 0x%lx, size: 0x%lx''"
  let ?st = "log_msg NONE ?msg st"
  have y: "y \<noteq> 0" using Cons.prems(3,5) by auto
  show ?case
  proof (cases "ys = []")
    case True
    then have "fld (kmem st) Free_next y = free_head st" using ring_ends(1)[OF Cons.prems(1)] Cons.prems by simp
    then show ?thesis using y True by (simp add: parse_freelist_loop.simps[of y] log_msg_def)
  next
    case False
    have "flink (kmem st) y (hd ys)"
      using Cons.prems False by (auto simp: ring_def successively_append_iff successively_Cons)
    moreover have "hd ys \<noteq> free_head st" using Cons.prems False by (cases xs; cases ys) auto
    moreover have "hd ys \<noteq> 0" using Cons.prems(3,5) hd_in_set[OF False] by auto
    moreover have "parse_freelist_loop (hd ys) ?st = Some (?st\<lparr>klog := klog ?st @ replicate (length ys) (NONE, ?msg)\<rparr>)"
      by (rule Cons.IH[of _ "xs @ [y]"]) (use Cons.prems False in \<open>auto simp: log_msg_def\<close>)
    ultimately show ?thesis using y by (simp add: parse_freelist_loop.simps[of y] flink_def Let_def) (simp add: log_msg_def)
  qed
qed simp

section \<open>The allocator as an interface\<close>

text \<open>
  What the rest of the kernel relies on: an allocation adds an area that was not in use, a release
  removes one, and both leave the contents of the other areas alone.
\<close>

primrec mallocs :: "(u64 \<Rightarrow> 's \<Rightarrow> (addr \<times> 's) kres option) \<Rightarrow> u64 list \<Rightarrow> 's \<Rightarrow> (addr list \<times> 's) kres option" where
  "mallocs f [] s = Some (Inr ([], s))"
| "mallocs f (n # ns) s =
     Option.bind (f n s) (\<lambda>r. case r of Inl e \<Rightarrow> Some (Inl e) | Inr (p, s) \<Rightarrow>
       map_option (\<lambda>r. kbind r (\<lambda>(ps, s). Inr (p # ps, s))) (mallocs f ns s))"

locale area_allocator =
  fixes malloc :: "u64 \<Rightarrow> 's \<Rightarrow> (addr \<times> 's) kres option"
    and free :: "addr \<Rightarrow> 's \<Rightarrow> 's kres"
    and rel :: "'s \<Rightarrow> (addr \<rightharpoonup> nat) \<Rightarrow> bool"
    and bytes :: "'s \<Rightarrow> mem"
    and fits :: "u64 \<Rightarrow> bool"
  assumes malloc_new: "rel s U \<Longrightarrow> fits n \<Longrightarrow> malloc n s = Some (Inr (p, s')) \<Longrightarrow>
      \<exists>k. U p = None \<and> unat n \<le> k \<and> rel s' (U(p \<mapsto> k)) \<and> keeps U (bytes s) (bytes s')"
    and malloc_ends: "rel s U \<Longrightarrow> fits n \<Longrightarrow> \<exists>r. malloc n s = Some r"
    and free_old: "rel s U \<Longrightarrow> U p = Some k \<Longrightarrow>
      \<exists>s'. free p s = Inr s' \<and> rel s' (U(p := None)) \<and> keeps (U(p := None)) (bytes s) (bytes s')"
begin

lemma malloc_free:
  assumes "rel s U" "fits n" "malloc n s = Some (Inr (p, s1))"
  shows "\<exists>s2. free p s1 = Inr s2 \<and> rel s2 U \<and> keeps U (bytes s) (bytes s2)"
proof -
  obtain k where k: "U p = None" "rel s1 (U(p \<mapsto> k))" "keeps U (bytes s) (bytes s1)" using malloc_new[OF assms] by blast
  have "(U(p \<mapsto> k)) p = Some k" "(U(p \<mapsto> k))(p := None) = U" using k(1) by auto
  with free_old[OF k(2)] k(3) show ?thesis by (metis keeps_trans)
qed

lemma mallocs_ends:
  assumes "rel s U" "\<forall>n\<in>set ns. fits n"
  shows "\<exists>r. mallocs malloc ns s = Some r"
  using assms
proof (induction ns arbitrary: s U)
  case (Cons n ns)
  then obtain r where r: "malloc n s = Some r" using malloc_ends by (meson list.set_intros(1))
  show ?case
  proof (cases r)
    case (Inr a)
    then obtain p s1 where a: "malloc n s = Some (Inr (p, s1))" using r by (cases a) auto
    then obtain k where "rel s1 (U(p \<mapsto> k))" using malloc_new[OF Cons.prems(1) _ a] Cons.prems(2) by auto
    from Cons.IH[OF this] Cons.prems(2) a show ?thesis by auto
  qed (use r in simp)
qed simp

lemma mallocs_fresh:
  assumes "rel s U" "\<forall>n\<in>set ns. fits n" "mallocs malloc ns s = Some (Inr (ps, s'))"
  shows "\<exists>U'. rel s' U' \<and> U \<subseteq>\<^sub>m U' \<and> distinct ps \<and> (\<forall>p\<in>set ps. U p = None) \<and> keeps U (bytes s) (bytes s') \<and>
    list_all2 (\<lambda>n p. \<exists>k. U' p = Some k \<and> unat n \<le> k) ns ps"
  using assms
proof (induction ns arbitrary: s U ps)
  case Nil
  then show ?case by (auto simp: keeps_def)
next
  case (Cons n ns)
  from Cons.prems(3) obtain p s1 qs where a: "malloc n s = Some (Inr (p, s1))" "mallocs malloc ns s1 = Some (Inr (qs, s'))" "ps = p # qs"
    by (cases "malloc n s"; cases "the (malloc n s)") (auto simp: kbind_eq_Inr)
  have fits: "fits n" "\<forall>n\<in>set ns. fits n" using Cons.prems(2) by auto
  obtain k where k: "U p = None" "unat n \<le> k" "rel s1 (U(p \<mapsto> k))" "keeps U (bytes s) (bytes s1)"
    using malloc_new[OF Cons.prems(1) fits(1) a(1)] by blast
  have "U \<subseteq>\<^sub>m U(p \<mapsto> k)" using k(1) by (auto simp: map_le_def)
  moreover obtain U' where U': "rel s' U'" "U(p \<mapsto> k) \<subseteq>\<^sub>m U'" "distinct qs" "\<forall>q\<in>set qs. (U(p \<mapsto> k)) q = None"
    "keeps (U(p \<mapsto> k)) (bytes s1) (bytes s')" "list_all2 (\<lambda>n p. \<exists>k. U' p = Some k \<and> unat n \<le> k) ns qs"
    using Cons.IH[OF k(3) fits(2) a(2)] by blast
  moreover have "U' p = Some k" using U'(2) unfolding map_le_def by (metis domI fun_upd_same)
  ultimately show ?case using a(3) k(1,2,4)
    by (intro exI[of _ U']) (auto intro: map_le_trans keeps_trans keeps_sub split: if_splits)
qed

end

definition kmalloc_fits :: "u64 \<Rightarrow> bool" where
  "kmalloc_fits n \<longleftrightarrow> n \<noteq> 0 \<and> unat n \<le> 2 ^ 61"

interpretation kheap: area_allocator kmalloc kfree heap_rel kmem kmalloc_fits
proof unfold_locales
  fix s s' :: "'a kheap_state_scheme" and U n p k
  assume r: "heap_rel s U"
  show "kmalloc_fits n \<Longrightarrow> kmalloc n s = Some (Inr (p, s')) \<Longrightarrow>
      \<exists>k. U p = None \<and> unat n \<le> k \<and> heap_rel s' (U(p \<mapsto> k)) \<and> keeps U (kmem s) (kmem s')"
    by (rule kmalloc_wf[OF r, of n]) (auto simp: kmalloc_fits_def)
  show "kmalloc_fits n \<Longrightarrow> \<exists>r. kmalloc n s = Some r"
    by (rule kmalloc_wf[OF r, of n]) (auto simp: kmalloc_fits_def)
  show "U p = Some k \<Longrightarrow> \<exists>s'. kfree p s = Inr s' \<and> heap_rel s' (U(p := None)) \<and> keeps (U(p := None)) (kmem s) (kmem s')"
    by (rule kfree_wf[OF r]) auto
qed

section \<open>A small machine\<close>

text \<open>The machine of the theory Paging, before its heap exists.\<close>

definition demo_start :: kheap_state where
  "demo_start = \<lparr>kmem = (\<lambda>_. 0), klog = [], alloc_ptr = 0x900a, mem_size = 0x1010000,
     mem_zone = [demo_zone 0 0x9000 0x4000 0,
       \<lparr>mem_total = 0x10000, mem_free = 0x10000, mem_used = 0, offset = 0x1000000,
        bitmap = \<lparr>size_bits = 16, data = 0x9008\<rparr>, first_free_idx = 0, zone = 1\<rparr>],
     cr3 = 0, invalidated = [], intr = demo_intr, kheap_top = 0, kheap_max = 0, free_head = 0, block_head = 0\<rparr>"

definition demo_pmrs :: "pmr list" where
  "demo_pmrs = [\<lparr>pmr_base = 0xffffffff80200000, pmr_length = 0x3000, pmr_permissions = 2\<rparr>]"

lemma demo_start_views:
  "pmm_wf demo_start = pmm_wf demo_boot" "free_frames_ready demo_start = free_frames_ready demo_boot"
  "avail demo_start = avail demo_boot"
proof -
  have v: "num_pages demo_start z = num_pages demo_boot z" "zone_base demo_start z = zone_base demo_boot z"
    "page_used demo_start z k = page_used demo_boot z k" "mem_zone demo_start = mem_zone demo_boot"
    "mem_size demo_start = mem_size demo_boot" "kmem demo_start = kmem demo_boot" for z k
    by (simp_all add: demo_start_def demo_boot_def num_pages_def zone_base_def page_used_def)
  show "pmm_wf demo_start = pmm_wf demo_boot" by (simp add: pmm_wf_def v)
  show "free_frames_ready demo_start = free_frames_ready demo_boot"
    by (simp add: free_frames_ready_def free_frame_def clear_frame_def v)
  show "avail demo_start = avail demo_boot" by (simp add: avail_def free_pages_def v)
qed

lemma demo_paged:
  obtains st :: kheap_state where "pt_wf st (paging_cr3 st)" "avail st = 15"
    "pmrs_end demo_pmrs (kheap_max st) = 0xffffffff80203000"
    "\<forall>x. 0x2000000 \<le> unat x \<longrightarrow> above_phys st x"
proof -
  have ready: "pmm_wf demo_start" "free_frames_ready demo_start" "avail demo_start = 16"
    using demo_boot_wf demo_boot_ready demo_boot_avail by (simp_all add: demo_start_views)
  obtain c st1 where c: "paging_create demo_start = Inr (c, st1)"
    using paging_create_panics[OF ready(1)] ready(3) by (cases "paging_create demo_start") auto
  have wf: "pt_wf st1 c" by (rule pt_wf_create[OF ready(1,2) c])
  have ph: "phys_step demo_start st1" by (rule phys_step_create[OF ready(1) c])
  note more = phys_step_more[OF ph]
  let ?st = "st1\<lparr>cr3 := c\<rparr>"
  have al: "ALIGN_DOWN c PAGE_SIZE = c" by (rule ALIGN_DOWN_id[OF kres_page_aligned[OF pt_wf_table(2)[OF wf tables_root]]])
  have wf': "pt_wf ?st (paging_cr3 ?st)" using wf al by (simp add: paging_cr3_def)
  have kmax: "pmrs_end demo_pmrs (kheap_max ?st) = 0xffffffff80203000"
    using more(4) by (simp add: pmrs_end_def demo_pmrs_def MAX_u64_def demo_start_def)
  have above: "above_phys ?st x" if "0x2000000 \<le> unat x" for x
  proof -
    have "apart 0x9000 1 x 1" "apart 0x9008 2 x 1" using that unat_u64_bound[of x] by (auto simp: apart_def unat_sub_if')
    then have "above_phys demo_start x"
      using that unfolding above_phys_def
      by (auto simp: two_zones demo_start_def demo_zone_def unat_bitmap_size_bytes dest!: apartD[where x = x])
         (auto simp: in_region_def)
    moreover have "above_phys ?st = above_phys demo_start"
      using ph by (simp add: phys_step_def above_phys_def fun_eq_iff)
    ultimately show ?thesis by simp
  qed
  have av: "avail ?st = 15" using paging_create_facts(7)[OF ready(1,2) c] ready(3) by (simp add: avail_def free_pages_def num_pages_def page_used_def)
  show thesis by (rule that[OF wf' av kmax]) (use above in blast)
qed

lemma demo_heap:
  obtains st where "heap_rel (st :: kheap_state) Map.empty" "11 \<le> avail st" "unat (kheap_top st) = 2 ^ 64 - 4096"
    "kheap_max st = 0xffffffff80203000" "\<forall>x. 0x2000000 \<le> unat x \<longrightarrow> above_phys st x"
proof -
  obtain st :: kheap_state where wf': "pt_wf st (paging_cr3 st)" and av: "avail st = 15"
    and kmax: "pmrs_end demo_pmrs (kheap_max st) = 0xffffffff80203000"
    and above: "\<forall>x. 0x2000000 \<le> unat x \<longrightarrow> above_phys st x"
    by (rule demo_paged)
  show thesis
  proof (rule kheap_init_wf[OF wf', of 1 demo_pmrs])
    fix msg assume "avail st < 4 * unat (1 :: u64) \<or> 2 ^ 64 < unat (pmrs_end demo_pmrs (kheap_max st)) + 4096 * unat (1 :: u64)"
    then show thesis using av kmax by simp
  next
    fix st' :: kheap_state
    assume "heap_rel st' Map.empty" "unat (kheap_top st') = 2 ^ 64 - 4096 * unat (1 :: u64)"
      "kheap_max st' = pmrs_end demo_pmrs (kheap_max st)" "avail st \<le> avail st' + 4 * unat (1 :: u64)"
      "above_phys st' = above_phys st"
    then show thesis using that[of st'] kmax av above by simp
  qed (use kmax above in auto)
qed

text \<open>The same machine with any memory above the heap's state, and with what a program keeps there.\<close>

lemma heap_low_write:
  assumes rel: "heap_rel st U" and m: "\<And>x. \<not> (above_phys st x \<and> unat x < unat (kheap_max st)) \<Longrightarrow> m x = kmem st x"
  shows "heap_rel (st\<lparr>kmem := m\<rparr>) U"
proof -
  obtain bs fl where w: "kheap_wf st bs fl" "U = live (kmem st) bs fl" using rel by (auto simp: heap_rel_def)
  obtain q where k: "lists_wf st bs fl" "heap_env st" "coalesced (set fl) bs" "tile (kmem st) 0 (kheap_top st) bs q 0"
    by (rule kheap_wfE[OF w(1)])
  have same: "fld m f b = fld (kmem st) f b" if b: "b \<in> set bs" for b f
  proof (rule load_cong)
    fix x assume "in_region (b + field_offset f) 8 x"
    then have "in_region b 40 x" by (rule field_in_header)
    moreover have "unat b + 40 \<le> 2 ^ 64" using tile_order(2)[OF k(4)] b by fastforce
    ultimately have "unat b \<le> unat x" by (simp add: in_region_unat)
    then have "unat (kheap_max st) \<le> unat x" using tile_order(2)[OF k(4)] b heap_envD(3)[OF k(2)] by fastforce
    then show "m x = kmem st x" by (intro m) simp
  qed simp
  have "lists_wf (st\<lparr>kmem := m\<rparr>) bs fl" by (rule lists_wf_cong[OF k(1)]) (use same in auto)
  moreover have "heap_env (st\<lparr>kmem := m\<rparr>)" using k(2) above_write[of st "paging_cr3 st" m] m by (auto simp: heap_env_def)
  ultimately have "kheap_wf (st\<lparr>kmem := m\<rparr>) bs fl" using k(3) by (simp add: kheap_wf_def)
  moreover have "live m bs fl = U" unfolding w(2) by (rule live_cong) (use same in auto)
  ultimately show ?thesis by (intro heap_relI) auto
qed

text \<open>The heap does not depend on what the record is extended with.\<close>

lemma heap_truncate:
  "heap_rel (kheap_state.truncate st) U = heap_rel st U" "avail (kheap_state.truncate st) = avail st"
  "above_phys (kheap_state.truncate st) = above_phys st"
proof -
  let ?st = "kheap_state.truncate st"
  have v: "kmem ?st = kmem st" "mem_zone ?st = mem_zone st" "mem_size ?st = mem_size st" "cr3 ?st = cr3 st" "kheap_top ?st = kheap_top st"
    "kheap_max ?st = kheap_max st" "free_head ?st = free_head st" "block_head ?st = block_head st" "alloc_ptr ?st = alloc_ptr st"
    by (simp_all add: kheap_state.truncate_def)
  have p: "pt_wf ?st r = pt_wf st r" "aspace ?st r = aspace st r" "above_phys ?st = above_phys st" "paging_cr3 ?st = paging_cr3 st" "avail ?st = avail st" for r
    by (simp_all add: pt_wf_def pmm_wf_def num_pages_def zone_base_def free_frames_ready_def free_frame_def page_used_def avail_def free_pages_def
      clear_frame_def frame_used_def aspace_def above_phys_def paging_cr3_def fun_eq_iff v)
  show "heap_rel ?st U = heap_rel st U" by (simp add: heap_rel_def kheap_wf_def lists_wf_def fl_wf_def heap_env_def p v)
  show "avail ?st = avail st" "above_phys ?st = above_phys st" by (simp_all add: p)
qed

lemma heap_more:
  assumes "kheap_state.truncate st' = kheap_state.truncate st"
  shows "heap_rel st' U = heap_rel st U" "avail st' = avail st" "above_phys st' = above_phys st"
  using heap_truncate(1)[of st' U] heap_truncate(1)[of st U] heap_truncate(2,3)[of st'] heap_truncate(2,3)[of st] assms by simp_all

lemma heap_extend:
  fixes st :: kheap_state and z :: 'z
  defines "st' \<equiv> kheap_state.extend st z"
  shows "heap_rel st' U = heap_rel st U" "avail st' = avail st" "above_phys st' = above_phys st" "kheap_top st' = kheap_top st"
    "kheap_max st' = kheap_max st" "kheap_state.more st' = z" "kmem st' = kmem st"
proof -
  have t: "kheap_state.truncate st' = st" by (simp add: st'_def kheap_state.extend_def kheap_state.truncate_def)
  show "heap_rel st' U = heap_rel st U" "avail st' = avail st" "above_phys st' = above_phys st"
    using heap_truncate[of st'] by (simp_all add: t)
  show "kheap_top st' = kheap_top st" "kheap_max st' = kheap_max st" "kheap_state.more st' = z" "kmem st' = kmem st"
    by (simp_all add: st'_def kheap_state.extend_def)
qed

lemma demo_program:
  fixes z :: 'z and f :: mem
  obtains st :: "'z kheap_state_scheme" where "heap_rel st Map.empty" "11 \<le> avail st" "unat (kheap_top st) = 2 ^ 64 - 4096"
    "kheap_max st = 0xffffffff80203000" "\<forall>x. 0x2000000 \<le> unat x \<longrightarrow> above_phys st x" "kheap_state.more st = z"
    "\<forall>x. 0x2000000 \<le> unat x \<and> unat x < unat (0xffffffff80203000 :: u64) \<longrightarrow> kmem st x = f x"
proof -
  obtain st :: kheap_state where d: "heap_rel st Map.empty" "11 \<le> avail st" "unat (kheap_top st) = 2 ^ 64 - 4096"
    "kheap_max st = 0xffffffff80203000" "\<forall>x. 0x2000000 \<le> unat x \<longrightarrow> above_phys st x"
    by (rule demo_heap)
  let ?e = "kheap_state.extend st z"
  let ?m = "\<lambda>x. if 0x2000000 \<le> unat x \<and> unat x < unat (0xffffffff80203000 :: u64) then f x else kmem st x"
  let ?st = "?e\<lparr>kmem := ?m\<rparr>"
  note e = heap_extend[of st z]
  have r: "heap_rel ?e Map.empty" using d(1) e(1) by simp
  then have "heap_rel ?st Map.empty" by (rule heap_low_write) (use d(4,5) e in auto)
  moreover have "avail ?st = avail ?e"
  proof (rule above_write(3))
    show "pt_wf ?e (paging_cr3 ?e)" using r by (auto simp: heap_rel_def kheap_wf_def heap_env_def)
    show "?m x = kmem ?e x" if "\<not> above_phys ?e x" for x using that d(5) e by auto
  qed
  moreover have "above_phys ?st = above_phys st" using e(3) by (simp add: above_phys_def fun_eq_iff)
  ultimately show thesis using that[of ?st] d e by simp
qed

section \<open>Properties\<close>

text \<open>C4. \<open>kmalloc\<close> implements the abstract allocator: called for a number of bytes between 1 and
  \<open>2 ^ 61\<close> on a well-formed heap it returns (it does not run for ever), and either panics, which it
  does only when frames or address space run out, or returns a pointer that was not in use, to an
  area of at least the size asked for, and leaves as they were the contents of all areas in use and the
  memory that belongs neither to the heap nor to the physical memory manager. It grows the heap by no more than
  the pages of the request and takes at most four frames for each.\<close>

theorem kmalloc_correct:
  assumes "heap_rel st U" "n \<noteq> 0" "unat n \<le> 2 ^ 61"
  shows "(\<exists>msg. kmalloc n st = Some (Inl (Panic msg))) \<and>
      (avail st < 4 * heap_pages (unat n) \<or> unat (kheap_top st) < unat (kheap_max st) + 4096 * heap_pages (unat n)) \<or>
    (\<exists>p k st'. kmalloc n st = Some (Inr (p, st')) \<and> p \<noteq> 0 \<and> U p = None \<and> unat n \<le> k \<and> heap_rel st' (U(p \<mapsto> k)) \<and>
       keeps U (kmem st) (kmem st') \<and> spares (heap_pages (unat n)) st st')"
proof (rule kmalloc_wf[OF assms])
  fix p k st' assume a: "kmalloc n st = Some (Inr (p, st'))" "heap_rel st' (U(p \<mapsto> k))" "U p = None" "unat n \<le> k"
    "keeps U (kmem st) (kmem st')" "spares (heap_pages (unat n)) st st'"
  have "0 < k" using a(4) assms(2) unat_gt_0[of n] by linarith
  then have "p \<noteq> 0" by (intro heap_area_nonnull[OF a(2)]) auto
  then show ?thesis using a by blast
qed auto

theorem kmalloc_correct_witness:
  "\<exists>(st :: kheap_state) p k st'. kmalloc 24 st = Some (Inr (p, st')) \<and> 24 \<le> k \<and> heap_rel st' [p \<mapsto> k]"
proof -
  obtain st :: kheap_state where d: "heap_rel st Map.empty" "11 \<le> avail st" "unat (kheap_top st) = 2 ^ 64 - 4096"
    "kheap_max st = 0xffffffff80203000"
    by (rule demo_heap)
  then show ?thesis using kmalloc_correct[of st Map.empty 24] by fastforce
qed

text \<open>C5. \<open>kfree\<close> of a pointer in use always succeeds: it takes exactly this pointer out of use and
  changes no byte of the other areas. The invariant it restores includes that no two neighbouring
  blocks are free.\<close>

theorem kfree_correct:
  assumes "heap_rel st U" "U p = Some n"
  shows "\<exists>st'. kfree p st = Inr st' \<and> heap_rel st' (U(p := None)) \<and> keeps (U(p := None)) (kmem st) (kmem st')"
  by (rule kfree_wf[OF assms]) blast

theorem kfree_correct_witness:
  "\<exists>(st :: kheap_state) p n st'. heap_rel st [p \<mapsto> n] \<and> kfree p st = Inr st' \<and> heap_rel st' Map.empty"
proof -
  obtain st :: kheap_state where d: "heap_rel st Map.empty" "11 \<le> avail st" "unat (kheap_top st) = 2 ^ 64 - 4096"
    "kheap_max st = 0xffffffff80203000"
    by (rule demo_heap)
  obtain p k st' where "heap_rel (st' :: kheap_state) [p \<mapsto> k]"
    by (rule kmalloc_wf[OF d(1), of 24]) (use d in auto)
  then show ?thesis using kfree_correct[of st' "[p \<mapsto> k]" p k] by fastforce
qed



text \<open>C18. \<open>kmalloc\<close> for \<open>2 ^ 64 - 40\<close> bytes does not return when the lowest block of the heap is in use:
  the number of pages it needs wraps around to 0, so each call of itself finds the heap as it was.\<close>

theorem kmalloc_never_returns:
  assumes "heap_rel st U" "U (kheap_top st + 40) = Some k"
  shows "kmalloc (- 40) st = None"
proof -
  obtain bs fl where w: "kheap_wf st bs fl" "U = live (kmem st) bs fl" using assms(1) by (auto simp: heap_rel_def)
  obtain t where "tile (kmem st) 0 (kheap_top st) bs t 0" "lists_wf st bs fl" by (rule kheap_wfE[OF w(1)])
  then have "hd bs = kheap_top st" using tile_start by (auto simp: lists_wf_def)
  moreover have "kheap_top st \<notin> set fl" using assms(2) w(2) by (auto simp: live_Some)
  ultimately show ?thesis using kmalloc_wrap_None[OF w(1)] by simp
qed

theorem kmalloc_never_returns_witness: "\<exists>st :: kheap_state. kmalloc (- 40) st = None"
proof -
  obtain st :: kheap_state where "heap_rel st Map.empty" by (rule demo_heap)
  then obtain bs fl where w: "kheap_wf st bs fl" "live (kmem st) bs fl = Map.empty" by (auto simp: heap_rel_def)
  obtain t where k: "tile (kmem st) 0 (kheap_top st) bs t 0" "lists_wf st bs fl" by (rule kheap_wfE[OF w(1)])
  have "bs \<noteq> []" using k(2) by (simp add: lists_wf_def)
  then have h: "hd bs = kheap_top st" "hd bs \<in> set bs" using tile_start[OF k(1)] hd_in_set by blast+
  have "live (kmem st) bs fl (hd bs + 40) = None" using w(2) by simp
  then have "hd bs \<in> set fl" using h(2) by (auto simp: live_def split: if_splits)
  then obtain st' :: kheap_state where t: "kheap_wf st' bs (remove1 (hd bs) fl)"
    "live (kmem st') bs (remove1 (hd bs) fl) = (live (kmem st) bs fl)(hd bs + 40 \<mapsto> unat (fld (kmem st) Size (hd bs)))"
    by (rule take_whole[OF w(1)])
  obtain t' where "tile (kmem st') 0 (kheap_top st') bs t' 0" by (rule kheap_wfE[OF t(1)])
  then have "kheap_top st' = hd bs" using tile_start h(2) by (metis empty_iff empty_set)
  then show ?thesis using kmalloc_never_returns[OF heap_relI[OF t], of "unat (fld (kmem st) Size (hd bs))"] by auto
qed



text \<open>\<open>kheap_init\<close> on a machine whose page tables are well formed, with the kernel image in the
  higher half: it panics, and only for lack of frames or because the heap would reach into the kernel
  image, or it sets up an empty heap of the size asked for at the end of the address space.\<close>

theorem kheap_init_correct:
  assumes "pt_wf st (paging_cr3 st)" "n \<noteq> 0" "4096 * unat n \<le> 2 ^ 62"
    and "2 ^ 63 \<le> unat (pmrs_end pmrs (kheap_max st))"
    and "\<forall>x. unat (pmrs_end pmrs (kheap_max st)) \<le> unat x \<longrightarrow> above_phys st x"
  shows "(\<exists>msg. kheap_init (Some pmrs) n st = Inl (Panic msg)) \<and>
      (avail st < 4 * unat n \<or> 2 ^ 64 < unat (pmrs_end pmrs (kheap_max st)) + 4096 * unat n) \<or>
    (\<exists>st'. kheap_init (Some pmrs) n st = Inr st' \<and> heap_rel st' Map.empty \<and> unat (kheap_top st') = 2 ^ 64 - 4096 * unat n)"
  by (rule kheap_init_wf[OF assms(1-4) assms(5)[rule_format]]) auto

theorem kheap_init_correct_witness:
  "\<exists>(st :: kheap_state) st'. kheap_init (Some demo_pmrs) 1 st = Inr st' \<and> heap_rel st' Map.empty"
proof -
  obtain st :: kheap_state where d: "pt_wf st (paging_cr3 st)" "avail st = 15" "pmrs_end demo_pmrs (kheap_max st) = 0xffffffff80203000"
    "\<forall>x. 0x2000000 \<le> unat x \<longrightarrow> above_phys st x"
    by (rule demo_paged)
  then show ?thesis using kheap_init_correct[of st 1 demo_pmrs] by fastforce
qed



text \<open>\<open>kfree\<close> undoes \<open>kmalloc\<close>: afterwards the same pointers are in use as before, with the same sizes
  and contents.\<close>

theorem kmalloc_kfree_roundtrip:
  assumes "heap_rel st U" "kmalloc_fits n" "kmalloc n st = Some (Inr (p, st1))"
  shows "\<exists>st2. kfree p st1 = Inr st2 \<and> heap_rel st2 U \<and> keeps U (kmem st) (kmem st2)"
  by (rule kheap.malloc_free[OF assms])

theorem kmalloc_kfree_roundtrip_witness:
  "\<exists>(st :: kheap_state) p st1 st2. kmalloc 24 st = Some (Inr (p, st1)) \<and> kfree p st1 = Inr st2"
proof -
  obtain st :: kheap_state where d: "heap_rel st Map.empty" "11 \<le> avail st" "unat (kheap_top st) = 2 ^ 64 - 4096"
    "kheap_max st = 0xffffffff80203000"
    by (rule demo_heap)
  obtain p st' where "kmalloc 24 st = Some (Inr (p, st'))"
    by (rule kmalloc_wf[OF d(1), of 24]) (use d in auto)
  then show ?thesis using kmalloc_kfree_roundtrip[OF d(1), of 24] by (fastforce simp: kmalloc_fits_def)
qed

text \<open>The debugging printers end on every well-formed heap, after one line for each block and one for
  each free block.\<close>

theorem parse_lists_end:
  assumes "kheap_wf st bs fl"
  shows "(\<exists>st'. parse_blocklist st = Some st' \<and> kmem st' = kmem st \<and> length (klog st') = length (klog st) + 1 + length bs) \<and>
    (\<exists>st'. parse_freelist st = Some st' \<and> kmem st' = kmem st \<and> length (klog st') = length (klog st) + 1 + length fl)"
proof -
  obtain t where k: "lists_wf st bs fl" "heap_env st" "tile (kmem st) 0 (kheap_top st) bs t 0" "distinct fl" by (rule kheap_wfE[OF assms])
  have "parse_freelist st \<noteq> None \<and> (\<forall>st'. parse_freelist st = Some st' \<longrightarrow>
      kmem st' = kmem st \<and> length (klog st') = length (klog st) + 1 + length fl)"
  proof (cases "fl = []")
    case True
    then have "free_head st = 0" using k(1) by (simp add: lists_wf_def fl_wf_def)
    then show ?thesis using True by (auto simp: parse_freelist_def parse_freelist_loop.simps log_msg_def)
  next
    case False
    let ?st = "log_msg INFO ''parsing kheap freelist ...'' st"
    have fl: "fl_wf st (set bs) fl" using k(1) by (simp add: lists_wf_def)
    then have "0 \<notin> set fl" by (auto simp: fl_wf_def hsep_def)
    then show ?thesis
      using parse_freelist_ring[of ?st fl "[]" fl] fl False by (auto simp: parse_freelist_def fl_wf_def, auto simp: log_msg_def)
  qed
  moreover have "tile (kmem (log_msg INFO ''parsing kheap block (header) list ...'' st)) 0 (block_head st) bs t 0"
    using k(3) heap_envD(1)[OF k(2)] by simp
  from parse_blocklist_tile[OF this] have "\<exists>st'. parse_blocklist st = Some st' \<and> kmem st' = kmem st \<and>
      length (klog st') = length (klog st) + 1 + length bs"
    by (auto simp: parse_blocklist_def, auto simp: log_msg_def)
  ultimately show ?thesis by blast
qed

theorem parse_lists_end_witness:
  "\<exists>st :: kheap_state. parse_blocklist st \<noteq> None \<and> parse_freelist st \<noteq> None"
proof -
  obtain st :: kheap_state where "heap_rel st Map.empty" by (rule demo_heap)
  then obtain bs fl where "kheap_wf st bs fl" by (auto simp: heap_rel_def)
  from parse_lists_end[OF this] show ?thesis by auto
qed

end
