(* ===== verification/Hash.thy ===== *)
theory Hash
  imports Kernel_Memory
begin

text \<open>
  The hash function of lib/ds/hash.c, which the hash map uses on the bytes of its keys.
\<close>

section \<open>Definitions\<close>

type_synonym hash_t = u64

definition djb_hash :: "mem \<Rightarrow> addr \<Rightarrow> u64 \<Rightarrow> hash_t" where
  "djb_hash m data num =
     for_u64 num (\<lambda>i hash. (push_bit 5 hash + hash) + ucast (m (data + i))) 5381"

text \<open>Reference definition: the polynomial in 33 over the bytes of the key.\<close>

definition djb_poly :: "byte list \<Rightarrow> u64" where
  "djb_poly bs = 5381 * 33 ^ length bs +
     (\<Sum>i<length bs. ucast (bs ! i) * 33 ^ (length bs - 1 - i))"

definition bytes_at :: "mem \<Rightarrow> addr \<Rightarrow> nat \<Rightarrow> byte list" where
  "bytes_at m a n = map (\<lambda>i. m (a + of_nat i)) [0..<n]"

section \<open>Lemmas\<close>

lemma shift5_add: "push_bit 5 h + h = 33 * (h :: u64)"
  by (simp add: push_bit_eq_mult)

lemma djb_poly_snoc: "djb_poly (bs @ [b]) = 33 * djb_poly bs + ucast b"
proof -
  have "(\<Sum>i<length bs. ucast ((bs @ [b]) ! i) * (33 :: u64) ^ (length bs - i)) =
        33 * (\<Sum>i<length bs. ucast (bs ! i) * 33 ^ (length bs - 1 - i))"
    unfolding sum_distrib_left
  proof (rule sum.cong)
    fix i assume "i \<in> {..<length bs}"
    then have "length bs - i = Suc (length bs - 1 - i)" "i < length bs" by auto
    then show "ucast ((bs @ [b]) ! i) * (33 :: u64) ^ (length bs - i) =
          33 * (ucast (bs ! i) * 33 ^ (length bs - 1 - i))"
      by (simp add: nth_append)
  qed simp
  then show ?thesis by (simp add: djb_poly_def nth_append algebra_simps)
qed

lemma djb_loop_poly:
  "for_nat n (\<lambda>i hash. (push_bit 5 hash + hash) + ucast (m (data + i))) 5381 =
     djb_poly (bytes_at m data n)"
  by (induction n) (simp_all add: bytes_at_def djb_poly_snoc shift5_add, simp add: djb_poly_def)

section \<open>Properties\<close>

text \<open>C40. \<open>djb_hash\<close> is the polynomial \<open>5381 * 33^n + b_0 * 33^(n-1) + \<dots> + b_(n-1)\<close> modulo 2^64
  over the \<open>n\<close> bytes of the key; the loop with its shift computes it in Horner form.\<close>

theorem djb_hash_polynomial:
  "djb_hash m d num = djb_poly (bytes_at m d (unat num))"
  by (simp add: djb_hash_def for_u64_def djb_loop_poly)

end
