(* ===== verification/Kheap_Client.thy ===== *)
theory Kheap_Client
  imports Kheap_Correct Hash
begin

text \<open>
  What the users of the kernel heap share: when a routine that allocates may panic, what it leaves alone outside
  the heap, runs of bytes, and areas seen as arrays of 8-byte cells, in which a write to one cell changes no other.
\<close>

section \<open>Routines that may run out of memory\<close>

text \<open>A routine ends, in a state with \<open>P\<close> or in a panic, which it does only if \<open>C\<close>.\<close>

definition panics_if_or :: "bool \<Rightarrow> ('a \<Rightarrow> bool) \<Rightarrow> 'a kres option \<Rightarrow> bool" where
  "panics_if_or C P r \<longleftrightarrow> C \<and> (\<exists>msg. r = Some (Inl (Panic msg))) \<or> (\<exists>x. r = Some (Inr x) \<and> P x)"

lemma panics_if_or_Inr [simp]: "panics_if_or C P (Some (Inr st)) = P st"
  by (simp add: panics_if_or_def)

lemma panics_if_or_mono: "panics_if_or C P r \<Longrightarrow> (\<And>x. P x \<Longrightarrow> Q x) \<Longrightarrow> panics_if_or C Q r"
  by (auto simp: panics_if_or_def)

lemma panics_if_or_bind:
  assumes "panics_if_or C P r" "\<And>x. P x \<Longrightarrow> panics_if_or C Q (f x)"
  shows "panics_if_or C Q (obind r f)"
  using assms(1) unfolding panics_if_or_def[of C P]
proof (elim disjE exE conjE)
  fix st assume "r = Some (Inr st)" "P st"
  then show ?thesis using assms(2) by simp
qed (auto simp: panics_if_or_def)

text \<open>When the memory may not suffice for \<open>k\<close> pages, and the cost of \<open>k\<close> pages.\<close>

definition short_of :: "nat \<Rightarrow> 'a kheap_state_scheme \<Rightarrow> bool" where
  "short_of k st \<longleftrightarrow> avail st < 4 * k \<or> unat (kheap_top st) < unat (kheap_max st) + 4096 * k"

definition costs :: "nat \<Rightarrow> 'a kheap_state_scheme \<Rightarrow> 'a kheap_state_scheme \<Rightarrow> bool" where
  "costs k st st' \<longleftrightarrow> avail st \<le> avail st' + 4 * k \<and> unat (kheap_top st) \<le> unat (kheap_top st') + 4096 * k"

text \<open>Outside the heap and the memory that the physical memory manager looks after nothing changes, nor do the interrupt tables.\<close>

definition low_same :: "'a kheap_state_scheme \<Rightarrow> 'a kheap_state_scheme \<Rightarrow> bool" where
  "low_same st st' \<longleftrightarrow> intr st' = intr st \<and> kheap_max st' = kheap_max st \<and> above_phys st' = above_phys st \<and>
     (\<forall>x. above_phys st x \<and> unat x < unat (kheap_max st) \<longrightarrow> kmem st' x = kmem st x)"

lemma low_same_trans: "low_same a b \<Longrightarrow> low_same b c \<Longrightarrow> low_same a c"
  by (simp add: low_same_def)

lemma low_same_spares: "spares k st st' \<Longrightarrow> low_same st st'"
  by (simp add: low_same_def spares_def)

lemma low_same_write:
  assumes "heap_rel st U" "U p = Some n" "\<And>x. \<not> in_region p n x \<Longrightarrow> m x = kmem st x"
  shows "low_same st (st\<lparr>kmem := m\<rparr>)"
proof -
  have "m x = kmem st x" if "unat x < unat (kheap_max st)" for x
  proof (rule assms(3), rule notI)
    assume "in_region p n x"
    then have "unat (kheap_top st) + 40 \<le> unat x" by (rule heap_area_bounds[OF assms(1,2)])
    moreover have "unat (kheap_max st) \<le> unat (kheap_top st)" using assms(1) heap_envD(3) by (auto simp: heap_rel_def kheap_wf_def)
    ultimately show False using that by linarith
  qed
  then show ?thesis by (simp add: low_same_def)
qed

section \<open>Runs of bytes\<close>

lemma bytes_at_append: "bytes_at m a (n + k) = bytes_at m a n @ bytes_at m (a + of_nat n) k"
proof -
  have "map (\<lambda>i. m (a + of_nat i)) [n..<n + k] = map (\<lambda>i. m (a + of_nat n + of_nat i)) [0..<k]"
    by (rule nth_equalityI) (auto simp: add.assoc)
  then show ?thesis by (simp add: bytes_at_def upt_add_eq_append[of 0 n k])
qed

lemma length_bytes_at [simp]: "length (bytes_at m a n) = n"
  by (simp add: bytes_at_def)

lemma bytes_at_cong:
  assumes "\<And>x. in_region a n x \<Longrightarrow> m' x = m x" "n \<le> 2 ^ 64"
  shows "bytes_at m' a n = bytes_at m a n"
proof -
  have "m' (a + of_nat i) = m (a + of_nat i)" if "i < n" for i
    using that assms by (intro assms(1)) (simp add: in_region_def)
  then show ?thesis by (simp add: bytes_at_def)
qed

lemma in_region_offset:
  assumes "d + l \<le> 2 ^ 64" "d < 2 ^ 64"
  shows "in_region (a + of_nat d) l x \<longleftrightarrow> d \<le> unat (x - a) \<and> unat (x - a) < d + l"
proof -
  define y where "y = x - a"
  have "x - (a + of_nat d) = y - of_nat d" by (simp add: y_def)
  then have "in_region (a + of_nat d) l x \<longleftrightarrow> unat (y - of_nat d) < l" by (simp only: in_region_def)
  then show ?thesis
    using assms unat_u64_bound[of y] by (auto simp: unat_sub_if' y_def[symmetric])
qed

lemma bytes_at_copied:
  assumes "\<And>x. in_region dest n x \<Longrightarrow> m' x = m (src + (x - dest))" "n \<le> 2 ^ 64"
  shows "bytes_at m' dest n = bytes_at m src n"
proof -
  have "m' (dest + of_nat i) = m (src + of_nat i)" if "i < n" for i
    using that assms(2) by (subst assms(1)) (simp_all add: in_region_def)
  then show ?thesis by (simp add: bytes_at_def)
qed

lemma of_nat_u64_inj: "i < 2 ^ 64 \<Longrightarrow> j < 2 ^ 64 \<Longrightarrow> (of_nat i = (of_nat j :: u64)) = (i = j)"
  by (metis unat_of_nat_u64)

lemma heap_area_size: "heap_rel st U \<Longrightarrow> U p = Some k \<Longrightarrow> k < 2 ^ 64"
  using unat_u64_bound by (auto simp: heap_rel_def live_Some)

section \<open>Cells of areas\<close>

text \<open>Cell \<open>i\<close> of the area at \<open>p\<close>.\<close>

definition cell :: "mem \<Rightarrow> addr \<Rightarrow> nat \<Rightarrow> u64" where
  "cell m p i = read64 m (p + of_nat (8 * i))"

definition put_cell :: "mem \<Rightarrow> addr \<Rightarrow> nat \<Rightarrow> u64 \<Rightarrow> mem" where
  "put_cell m p i v = write64 m (p + of_nat (8 * i)) v"

definition has_area :: "(addr \<rightharpoonup> nat) \<Rightarrow> addr \<Rightarrow> nat \<Rightarrow> bool" where
  "has_area U p n \<longleftrightarrow> (\<exists>k. U p = Some k \<and> n \<le> k)"

lemma has_area_mono: "has_area U p n \<Longrightarrow> k \<le> n \<Longrightarrow> has_area U p k"
  by (auto simp: has_area_def)

lemma has_area_upd [simp]: "p \<noteq> q \<Longrightarrow> has_area (U(q := z)) p n = has_area U p n"
  by (simp add: has_area_def)

lemma has_area_new [simp]: "has_area (U(p \<mapsto> k)) p n \<longleftrightarrow> n \<le> k"
  by (simp add: has_area_def)

lemma has_area_fresh: "has_area U p n \<Longrightarrow> U q = None \<Longrightarrow> p \<noteq> q"
  by (auto simp: has_area_def)

lemma has_area_nonnull: "heap_rel st U \<Longrightarrow> has_area U p n \<Longrightarrow> 0 < n \<Longrightarrow> p \<noteq> 0"
  unfolding has_area_def using heap_area_nonnull by (metis dual_order.strict_trans1)

lemma cell_region:
  assumes "heap_rel st U" "U p = Some k" "8 * i + 8 \<le> k" "in_region (p + of_nat (8 * i)) 8 x"
  shows "in_region p k x"
  using assms(3,4) in_region_offset[of "8 * i" 8 p x] heap_area_size[OF assms(1,2)] by (simp add: in_region_def)

lemma cell_put_cell:
  assumes rel: "heap_rel st U" and p: "has_area U p (8 * i + 8)" and q: "has_area U q (8 * j + 8)"
  shows "cell (put_cell m p i v) q j = (if p = q \<and> i = j then v else cell m q j)"
proof -
  obtain k l where k: "U p = Some k" "8 * i + 8 \<le> k" "U q = Some l" "8 * j + 8 \<le> l" using p q by (auto simp: has_area_def)
  have kb: "k < 2 ^ 64" "l < 2 ^ 64" using heap_area_size[OF rel] k by auto
  show ?thesis
  proof (cases "p = q \<and> i = j")
    case True
    then show ?thesis by (simp add: cell_def put_cell_def)
  next
    case False
    have "\<not> in_region (p + of_nat (8 * i)) 8 x" if x: "in_region (q + of_nat (8 * j)) 8 x" for x
    proof (cases "p = q")
      case True
      then show ?thesis
        using x False k kb in_region_offset[of "8 * i" 8 p x] in_region_offset[of "8 * j" 8 p x] by auto
    next
      case ne: False
      have "\<not> in_region p k x" by (rule heap_areas_apart[OF rel k(3,1) _ cell_region[OF rel k(3,4) x]]) (use ne in auto)
      then show ?thesis using cell_region[OF rel k(1,2)] by blast
    qed
    then have "read64 (write64 m (p + of_nat (8 * i)) v) (q + of_nat (8 * j)) = read64 m (q + of_nat (8 * j))"
      by (intro load_cong store_outside) auto
    then show ?thesis using False by (simp only: cell_def put_cell_def if_False)
  qed
qed

lemma cell_keeps:
  assumes "keeps U m m'" "heap_rel st U" "has_area U p (8 * i + 8)"
  shows "cell m' p i = cell m p i"
proof -
  obtain k where k: "U p = Some k" "8 * i + 8 \<le> k" using assms(3) by (auto simp: has_area_def)
  show ?thesis unfolding cell_def by (rule load_cong) (rule keepsD[OF assms(1) k(1) cell_region[OF assms(2) k]], simp_all)
qed

lemma bytes_keeps:
  assumes "keeps U m m'" "heap_rel st U" "has_area U p n"
  shows "bytes_at m' p n = bytes_at m p n"
proof -
  obtain k where k: "U p = Some k" "n \<le> k" using assms(3) by (auto simp: has_area_def)
  show ?thesis
    by (rule bytes_at_cong) (use k heap_area_size[OF assms(2) k(1)] in \<open>auto intro!: keepsD[OF assms(1) k(1)] simp: in_region_def\<close>)
qed

text \<open>A write to an area.\<close>

lemma area_write:
  assumes rel: "heap_rel st U" and p: "has_area U p n" and m: "\<And>x. \<not> in_region p n x \<Longrightarrow> m x = kmem st x"
  shows "heap_rel (st\<lparr>kmem := m\<rparr>) U" "keeps (U(p := None)) (kmem st) m" "spares 0 st (st\<lparr>kmem := m\<rparr>)"
proof -
  obtain k where k: "U p = Some k" "n \<le> k" using p by (auto simp: has_area_def)
  have out: "m x = kmem st x" if "\<not> in_region p k x" for x using that k(2) by (intro m) (simp add: in_region_def)
  show "heap_rel (st\<lparr>kmem := m\<rparr>) U" by (rule heap_write[OF rel k(1) out])
  show "keeps (U(p := None)) (kmem st) m"
    unfolding keeps_def
  proof (intro allI impI, elim conjE)
    fix q l x assume q: "(U(p := None)) q = Some l" "in_region q l x"
    then have "U q = Some l" "q \<noteq> p" by (auto split: if_splits)
    then show "m x = kmem st x" using q(2) k(1) by (intro out heap_areas_apart[OF rel]) auto
  qed
  have env: "heap_env st" using rel by (auto simp: heap_rel_def kheap_wf_def)
  have "m x = kmem st x" if "\<not> above_phys st x" for x
  proof (rule out, rule notI)
    assume "in_region p k x"
    then have "unat (kheap_max st) \<le> unat x" using heap_area_bounds[OF rel k(1)] heap_envD(3)[OF env] by fastforce
    then show False using that heap_envD(6)[OF env] by blast
  qed
  then have "avail (st\<lparr>kmem := m\<rparr>) = avail st" by (intro above_write(3)) (use heap_envD(5)[OF env] in auto)
  moreover have "low_same st (st\<lparr>kmem := m\<rparr>)" by (rule low_same_write[OF rel k(1) out])
  ultimately show "spares 0 st (st\<lparr>kmem := m\<rparr>)" by (simp add: spares_def low_same_def)
qed

lemma put_cell_area:
  fixes st :: "'a kheap_state_scheme" and v :: u64
  assumes rel: "heap_rel st U" and p: "has_area U p (8 * i + 8)"
  defines "st' \<equiv> st\<lparr>kmem := put_cell (kmem st) p i v\<rparr>"
  shows "heap_rel st' U" "keeps (U(p := None)) (kmem st) (kmem st')" "spares 0 st st'"
proof -
  obtain k where k: "U p = Some k" "8 * i + 8 \<le> k" using p by (auto simp: has_area_def)
  have "put_cell (kmem st) p i v x = kmem st x" if "\<not> in_region p (8 * i + 8) x" for x
    unfolding put_cell_def
  proof (rule store_outside)
    show "\<not> in_region (p + of_nat (8 * i)) 8 x"
      using that in_region_offset[of "8 * i" 8 p x] k heap_area_size[OF rel k(1)] by (auto simp: in_region_def)
  qed
  from area_write[OF rel p this] show "heap_rel st' U" "keeps (U(p := None)) (kmem st) (kmem st')" "spares 0 st st'"
    by (simp_all add: st'_def)
qed

text \<open>Copying into an area from bytes that do not belong to it.\<close>

lemma memcpy_area:
  assumes rel: "heap_rel st U" and p: "has_area U p n" and src: "\<And>x. in_region src n x \<Longrightarrow> \<not> in_region p n x"
  defines "m \<equiv> snd (memcpy (kmem st) p src (of_nat n))"
  shows "heap_rel (st\<lparr>kmem := m\<rparr>) U" "keeps (U(p := None)) (kmem st) m" "spares 0 st (st\<lparr>kmem := m\<rparr>)"
    "bytes_at m p n = bytes_at (kmem st) src n"
proof -
  obtain k where k: "U p = Some k" "n \<le> k" using p by (auto simp: has_area_def)
  have n: "unat (of_nat n :: u64) = n" using heap_area_size[OF rel k(1)] k(2) by (intro unat_of_nat_u64) simp
  have at: "m x = (if in_region p n x then kmem st (src + (x - p)) else kmem st x)" for x
  proof -
    have "p = src \<or> n \<le> unat (p - src)"
      using src[of p] by (cases "n = 0") (auto simp: in_region_def not_less)
    then show ?thesis unfolding m_def using memcpy_apply[of p src "of_nat n" "kmem st" x] by (simp only: n)
  qed
  show "bytes_at m p n = bytes_at (kmem st) src n"
    by (rule bytes_at_copied) (use heap_area_size[OF rel k(1)] k(2) in \<open>auto simp: at\<close>)
  have out: "m x = kmem st x" if "\<not> in_region p n x" for x using that by (simp add: at)
  show "heap_rel (st\<lparr>kmem := m\<rparr>) U" "keeps (U(p := None)) (kmem st) m" "spares 0 st (st\<lparr>kmem := m\<rparr>)"
    by (rule area_write[OF rel p out]; simp)+
qed

lemma memcpy_outside:
  assumes "\<not> in_region dest (unat num) x"
  shows "snd (memcpy m dest src num) x = m x"
proof -
  have "for_nat n (\<lambda>i m. m(dest + i := m (src + i))) m x = m x" if "n \<le> unat num" for n
    using that
  proof (induction n)
    case (Suc n)
    have "n < 2 ^ 64" using Suc.prems unat_u64_bound[of num] by linarith
    then have "x \<noteq> dest + of_nat n" using assms Suc.prems by (auto simp: in_region_def)
    then show ?case using Suc by simp
  qed simp
  from this[of "unat num"] show ?thesis by (simp add: memcpy_def for_u64_def)
qed

text \<open>The cells of one area do not depend on the bytes of another.\<close>

lemma memcpy_other_area:
  assumes rel: "heap_rel st U" and p: "has_area U p n" and q: "U q = Some l" "in_region q l x" and ne: "p \<noteq> q"
  shows "snd (memcpy m p src (of_nat n)) x = m x"
proof (rule memcpy_outside)
  obtain k where k: "U p = Some k" "n \<le> k" using p by (auto simp: has_area_def)
  have n: "unat (of_nat n :: u64) = n" using heap_area_size[OF rel k(1)] k(2) by (intro unat_of_nat_u64) simp
  have "\<not> in_region p k x" using heap_areas_apart[OF rel q(1) k(1) _ q(2)] ne by auto
  then show "\<not> in_region p (unat (of_nat n :: u64)) x" using k(2) by (simp add: in_region_def n)
qed

lemma cell_memcpy:
  assumes rel: "heap_rel st U" and p: "has_area U p n" and q: "has_area U q (8 * j + 8)" and ne: "p \<noteq> q"
  shows "cell (snd (memcpy m p src (of_nat n))) q j = cell m q j"
proof -
  obtain l where l: "U q = Some l" "8 * j + 8 \<le> l" using q by (auto simp: has_area_def)
  show ?thesis
    unfolding cell_def by (rule load_cong) (auto intro!: memcpy_other_area[OF rel p l(1) _ ne] cell_region[OF rel l])
qed

lemma bytes_memcpy:
  assumes rel: "heap_rel st U" and p: "has_area U p n" and q: "has_area U q k" and ne: "p \<noteq> q"
  shows "bytes_at (snd (memcpy m p src (of_nat n))) q k = bytes_at m q k"
proof -
  obtain l where l: "U q = Some l" "k \<le> l" using q by (auto simp: has_area_def)
  show ?thesis
    by (rule bytes_at_cong) (use l heap_area_size[OF rel l(1)] in \<open>auto intro!: memcpy_other_area[OF rel p l(1) _ ne] simp: in_region_def\<close>)
qed

lemma bytes_put_cell:
  assumes rel: "heap_rel st U" and p: "has_area U p (8 * i + 8)" and q: "has_area U q n" and ne: "p \<noteq> q"
  shows "bytes_at (put_cell m p i v) q n = bytes_at m q n"
proof -
  obtain k l where k: "U p = Some k" "8 * i + 8 \<le> k" "U q = Some l" "n \<le> l" using p q by (auto simp: has_area_def)
  have "put_cell m p i v x = m x" if "in_region q n x" for x
  proof -
    have "in_region q l x" using that k(4) by (simp add: in_region_def)
    then have "\<not> in_region p k x" using ne by (intro heap_areas_apart[OF rel k(3,1)]) auto
    then show ?thesis unfolding put_cell_def using cell_region[OF rel k(1,2)] by (intro store_outside) blast
  qed
  then show ?thesis by (rule bytes_at_cong) (use heap_area_size[OF rel k(3)] k(4) in auto)
qed

section \<open>Work on own areas\<close>

text \<open>From \<open>st\<close> to \<open>s\<close> only the areas at \<open>A\<close> have been written.\<close>

definition works :: "'a kheap_state_scheme \<Rightarrow> (addr \<rightharpoonup> nat) \<Rightarrow> addr set \<Rightarrow> 'a kheap_state_scheme \<Rightarrow> bool" where
  "works st U A s \<longleftrightarrow> heap_rel s U \<and> spares 0 st s \<and> keeps (U |` (- A)) (kmem st) (kmem s)"

lemma spares_refl [simp]: "spares k st st"
  by (simp add: spares_def)

lemma keeps_refl [simp]: "keeps U m m"
  by (simp add: keeps_def)

lemma works_refl: "heap_rel st U \<Longrightarrow> works st U A st"
  by (simp add: works_def)

lemma works_step:
  assumes "works st U A s" "p \<in> A" "heap_rel s' U" "keeps (U(p := None)) (kmem s) (kmem s')" "spares 0 s s'"
  shows "works st U A s'"
proof -
  have "U |` (- A) \<subseteq>\<^sub>m U(p := None)" using assms(2) by (auto simp: map_le_def restrict_map_def)
  then have "keeps (U |` (- A)) (kmem s) (kmem s')" by (rule keeps_sub[OF assms(4)])
  moreover have "keeps (U |` (- A)) (kmem st) (kmem s)" using assms(1) by (simp add: works_def)
  ultimately have "keeps (U |` (- A)) (kmem st) (kmem s')" by (rule keeps_trans[rotated])
  then show ?thesis using assms(1,3) spares_trans[OF _ assms(5), of 0 st] by (simp add: works_def)
qed

lemma works_put:
  assumes "works st U A s" "p \<in> A" "has_area U p (8 * i + 8)"
  shows "works st U A (s\<lparr>kmem := put_cell (kmem s) p i v\<rparr>)"
  using works_step[OF assms(1,2) put_cell_area[OF _ assms(3)]] assms(1) by (simp add: works_def)

lemma works_memcpy:
  assumes "works st U A s" "p \<in> A" "has_area U p n" "\<And>x. in_region src n x \<Longrightarrow> \<not> in_region p n x"
  shows "works st U A (s\<lparr>kmem := snd (memcpy (kmem s) p src (of_nat n))\<rparr>)"
proof -
  have r: "heap_rel s U" using assms(1) by (simp add: works_def)
  show ?thesis
    by (rule works_step[OF assms(1,2) memcpy_area(1)[OF r assms(3,4)]]) (simp_all add: memcpy_area(2,3)[OF r assms(3,4)])
qed

text \<open>Bytes that the allocator leaves alone: those of areas in use and those outside the heap and the memory
  that the physical memory manager looks after.\<close>

definition settled :: "'a kheap_state_scheme \<Rightarrow> (addr \<rightharpoonup> nat) \<Rightarrow> addr \<Rightarrow> nat \<Rightarrow> bool" where
  "settled st U a n \<longleftrightarrow>
     (\<forall>x. in_region a n x \<longrightarrow> (\<exists>p k. U p = Some k \<and> in_region p k x) \<or> above_phys st x \<and> unat x < unat (kheap_max st))"

lemma settled_same:
  assumes "settled st U a n" "keeps U (kmem st) (kmem st')" "spares k st st'" "in_region a n x"
  shows "kmem st' x = kmem st x"
  using assms unfolding settled_def keeps_def spares_def by blast

lemma settled_step:
  assumes "settled st U a n" "U \<subseteq>\<^sub>m U'" "spares k st st'"
  shows "settled st' U' a n"
  unfolding settled_def
proof (intro allI impI)
  fix x assume "in_region a n x"
  then consider p k where "U p = Some k" "in_region p k x" | "above_phys st x" "unat x < unat (kheap_max st)"
    using assms(1) unfolding settled_def by blast
  then show "(\<exists>p k. U' p = Some k \<and> in_region p k x) \<or> above_phys st' x \<and> unat x < unat (kheap_max st')"
  proof cases
    case 1
    then have "U' p = Some k" using assms(2) by (metis domI map_le_def)
    then show ?thesis using 1(2) by blast
  next
    case 2
    then show ?thesis using assms(3) by (simp add: spares_def)
  qed
qed

text \<open>A fresh area has none of them.\<close>

lemma settled_fresh:
  assumes "settled st U a n" "heap_rel st (U(p \<mapsto> k))" "U p = None" "in_region a n x"
  shows "\<not> in_region p k x"
proof
  assume x: "in_region p k x"
  consider q l where "U q = Some l" "in_region q l x" | "unat x < unat (kheap_max st)"
    using assms(1,4) unfolding settled_def by blast
  then show False
  proof cases
    case 1
    then have "(U(p \<mapsto> k)) q = Some l" "q \<noteq> p" using assms(3) by auto
    then show False using heap_areas_apart[OF assms(2) _ _ _ x, of q l] 1(2) by auto
  next
    case 2
    have "unat (kheap_top st) + 40 \<le> unat x" by (rule heap_area_bounds[OF assms(2) _ x]) simp
    moreover have "unat (kheap_max st) \<le> unat (kheap_top st)" using assms(2) heap_envD(3) by (auto simp: heap_rel_def kheap_wf_def)
    ultimately show False using 2 by simp
  qed
qed

end
