(* ===== verification/Vector.thy ===== *)
theory Vector
  imports Kheap_Client Hash
begin

text \<open>
  The vector of lib/ds/vector.c, on the kernel heap: the structure and the buffer are areas that
  \<open>kmalloc\<close> returned, and every access goes through memory. A vector of elements of \<open>ds\<close> bytes stands for
  a list of byte lists.
\<close>

section \<open>Definitions\<close>

definition VEC_INITIAL_CAPACITY :: u64 where "VEC_INITIAL_CAPACITY = 16"

text \<open>\<^verbatim>\<open>vector_t\<close>: four 8-byte fields.\<close>

datatype vector_field = Buf | Capacity | Vec_size | Data_size

fun vec_offset :: "vector_field \<Rightarrow> u64" where
  "vec_offset Buf = 0"
| "vec_offset Capacity = 8"
| "vec_offset Vec_size = 16"
| "vec_offset Data_size = 24"

definition sizeof_vector :: u64 where "sizeof_vector = 32"

abbreviation vfld :: "mem \<Rightarrow> vector_field \<Rightarrow> addr \<Rightarrow> u64" where
  "vfld m f vec \<equiv> read64 m (vec + vec_offset f)"

definition vec_get :: "vector_field \<Rightarrow> addr \<Rightarrow> 'a kstate_scheme \<Rightarrow> u64 kres" where
  "vec_get f vec st = (if vec = 0 then Inl Null_deref else Inr (vfld (kmem st) f vec))"

definition vec_put :: "vector_field \<Rightarrow> addr \<Rightarrow> u64 \<Rightarrow> 'a kstate_scheme \<Rightarrow> 'a kstate_scheme kres" where
  "vec_put f vec v st =
     (if vec = 0 then Inl Null_deref else Inr (st\<lparr>kmem := write64 (kmem st) (vec + vec_offset f) v\<rparr>))"

definition get_elem_addr :: "addr \<Rightarrow> u64 \<Rightarrow> 'a kstate_scheme \<Rightarrow> addr kres" where
  "get_elem_addr vec idx st =
     kbind (vec_get Buf vec st) (\<lambda>buf.
     kbind (vec_get Data_size vec st) (\<lambda>data_size.
     Inr (buf + idx * data_size)))"

definition vector_create :: "u64 \<Rightarrow> u64 \<Rightarrow> 'a kheap_state_scheme \<Rightarrow> (addr \<times> 'a kheap_state_scheme) kres option" where
  "vector_create data_size capacity st =
     obind (kmalloc sizeof_vector st) (\<lambda>(vec, st).
     obind (Some (vec_put Capacity vec capacity st)) (\<lambda>st.
     obind (Some (vec_put Vec_size vec 0 st)) (\<lambda>st.
     obind (Some (vec_put Data_size vec data_size st)) (\<lambda>st.
     obind (Some (vec_get Capacity vec st)) (\<lambda>cap.
     obind (kmalloc (data_size * cap) st) (\<lambda>(buf, st).
     obind (Some (vec_put Buf vec buf st)) (\<lambda>st.
     Some (Inr (vec, st)))))))))"

definition vector_destroy :: "addr \<Rightarrow> 'a kheap_state_scheme \<Rightarrow> 'a kheap_state_scheme kres" where
  "vector_destroy vec st =
     kbind (vec_get Buf vec st) (\<lambda>buf.
     kbind (kfree buf st) (\<lambda>st.
     kfree vec st))"

definition vector_get :: "addr \<Rightarrow> u64 \<Rightarrow> 'a kstate_scheme \<Rightarrow> (addr \<times> 'a kstate_scheme) kres" where
  "vector_get vec idx st =
     kbind (vec_get Vec_size vec st) (\<lambda>sz.
     if idx \<ge> sz then
       Inr (0, log_msg ERROR ''[vector_get] idx %lu is out of range. Length of vector: %lu'' st)
     else kbind (get_elem_addr vec idx st) (\<lambda>elem. Inr (elem, st)))"

definition vector_set :: "addr \<Rightarrow> u64 \<Rightarrow> addr \<Rightarrow> 'a kstate_scheme \<Rightarrow> 'a kstate_scheme kres" where
  "vector_set vec idx src st =
     kbind (vec_get Vec_size vec st) (\<lambda>sz.
     if idx \<ge> sz then
       Inr (log_msg ERROR ''[vector_set] idx %lu is out of range. Length of vector: %lu'' st)
     else
       kbind (get_elem_addr vec idx st) (\<lambda>elem.
       kbind (vec_get Data_size vec st) (\<lambda>data_size.
       Inr (st\<lparr>kmem := snd (memcpy (kmem st) elem src data_size)\<rparr>))))"

text \<open>Doubling the capacity when it has been reached.\<close>

definition vector_grow :: "addr \<Rightarrow> 'a kheap_state_scheme \<Rightarrow> 'a kheap_state_scheme kres option" where
  "vector_grow vec st =
     obind (Some (vec_get Vec_size vec st)) (\<lambda>sz.
     obind (Some (vec_get Capacity vec st)) (\<lambda>cap.
     if sz = cap then
       obind (Some (vec_put Capacity vec (cap * 2) st)) (\<lambda>st.
       obind (Some (vec_get Buf vec st)) (\<lambda>buf.
       obind (Some (vec_get Capacity vec st)) (\<lambda>cap.
       obind (Some (vec_get Data_size vec st)) (\<lambda>data_size.
       obind (krealloc buf (cap * data_size) st) (\<lambda>(buf, st).
       Some (vec_put Buf vec buf st))))))
     else Some (Inr st)))"

text \<open>The end of \<^verbatim>\<open>vector_add\<close> and of \<^verbatim>\<open>vector_insert\<close>: \<^verbatim>\<open>memcpy(elem, data, vec->data_size); vec->size++;\<close>\<close>

definition vector_put_elem :: "addr \<Rightarrow> addr \<Rightarrow> addr \<Rightarrow> 'a kstate_scheme \<Rightarrow> 'a kstate_scheme kres" where
  "vector_put_elem vec elem src st =
     kbind (vec_get Data_size vec st) (\<lambda>data_size.
       let st = st\<lparr>kmem := snd (memcpy (kmem st) elem src data_size)\<rparr>
       in kbind (vec_get Vec_size vec st) (\<lambda>sz. vec_put Vec_size vec (sz + 1) st))"

definition vector_add :: "addr \<Rightarrow> addr \<Rightarrow> 'a kheap_state_scheme \<Rightarrow> 'a kheap_state_scheme kres option" where
  "vector_add vec src st =
     obind (vector_grow vec st) (\<lambda>st.
     Some (
       kbind (vec_get Vec_size vec st) (\<lambda>sz.
       kbind (get_elem_addr vec sz st) (\<lambda>elem.
       vector_put_elem vec elem src st))))"

definition vector_remove :: "addr \<Rightarrow> u64 \<Rightarrow> 'a kstate_scheme \<Rightarrow> 'a kstate_scheme kres" where
  "vector_remove vec idx st =
     kbind (vec_get Vec_size vec st) (\<lambda>sz.
     if idx \<ge> sz then
       Inr (log_msg ERROR ''[vector_set] idx %lu is out of range. Length of vector: %lu'' st)
     else
       kbind (if idx \<noteq> sz - 1 then
                kbind (get_elem_addr vec idx st) (\<lambda>elem.
                kbind (get_elem_addr vec (idx + 1) st) (\<lambda>rest.
                kbind (vec_get Data_size vec st) (\<lambda>data_size.
                Inr (st\<lparr>kmem := snd (memmove (kmem st) elem rest ((sz - idx - 1) * data_size))\<rparr>))))
              else Inr st) (\<lambda>st.
       kbind (vec_get Vec_size vec st) (\<lambda>sz.
       vec_put Vec_size vec (sz - 1) st)))"

definition vector_insert :: "addr \<Rightarrow> u64 \<Rightarrow> addr \<Rightarrow> 'a kheap_state_scheme \<Rightarrow> 'a kheap_state_scheme kres option" where
  "vector_insert vec idx src st =
     obind (Some (vec_get Vec_size vec st)) (\<lambda>sz.
     if idx > sz then
       Some (Inr (log_msg ERROR ''[vector_insert] idx %lu is out of range of vector. Length of vector: %lu'' st))
     else
       obind (vector_grow vec st) (\<lambda>st.
       Some (
         kbind (get_elem_addr vec idx st) (\<lambda>elem.
         kbind (vec_get Vec_size vec st) (\<lambda>sz.
         kbind (if idx \<noteq> sz then
                  kbind (get_elem_addr vec (idx + 1) st) (\<lambda>nxt.
                  kbind (vec_get Data_size vec st) (\<lambda>data_size.
                  Inr (st\<lparr>kmem := snd (memmove (kmem st) nxt elem ((sz - idx) * data_size))\<rparr>)))
                else Inr st) (\<lambda>st.
         vector_put_elem vec elem src st))))))"

section \<open>The list a vector stands for\<close>

definition vec_fields :: "mem \<Rightarrow> addr \<Rightarrow> addr \<Rightarrow> nat \<Rightarrow> nat \<Rightarrow> nat \<Rightarrow> bool" where
  "vec_fields m vec buf cap n ds \<longleftrightarrow>
     vfld m Buf vec = buf \<and> unat (vfld m Capacity vec) = cap \<and> unat (vfld m Vec_size vec) = n \<and>
     unat (vfld m Data_size vec) = ds"

definition vec_rel :: "'a kheap_state_scheme \<Rightarrow> (addr \<rightharpoonup> nat) \<Rightarrow> addr \<Rightarrow> addr \<Rightarrow> nat \<Rightarrow> nat \<Rightarrow> byte list list \<Rightarrow> bool" where
  "vec_rel st U vec buf cap ds xs \<longleftrightarrow>
     heap_rel st U \<and> vec \<noteq> buf \<and>
     (\<exists>k. U vec = Some k \<and> 32 \<le> k) \<and> (\<exists>k. U buf = Some k \<and> cap * ds \<le> k) \<and>
     vec_fields (kmem st) vec buf cap (length xs) ds \<and> length xs \<le> cap \<and>
     (\<forall>x\<in>set xs. length x = ds) \<and> bytes_at (kmem st) buf (length xs * ds) = concat xs"

text \<open>A source of elements: bytes outside the vector's two areas.\<close>

definition vec_source :: "(addr \<rightharpoonup> nat) \<Rightarrow> addr \<Rightarrow> addr \<Rightarrow> nat \<Rightarrow> addr \<Rightarrow> bool" where
  "vec_source U vec buf ds src \<longleftrightarrow>
     (\<forall>p\<in>{vec, buf}. \<forall>k x. U p = Some k \<longrightarrow> in_region p k x \<longrightarrow> \<not> in_region src ds x)"

lemma vec_get_put [simp]:
  "vec \<noteq> 0 \<Longrightarrow> vec_get f vec st = Inr (vfld (kmem st) f vec)"
  "vec \<noteq> 0 \<Longrightarrow> vec_put f vec v st = Inr (st\<lparr>kmem := write64 (kmem st) (vec + vec_offset f) v\<rparr>)"
  by (simp_all add: vec_get_def vec_put_def)

subsection \<open>Elements\<close>

lemma length_concat_same: "\<forall>x\<in>set xs. length x = ds \<Longrightarrow> length (concat xs) = length xs * ds"
  by (induction xs) auto

lemma concat_slice:
  assumes "bytes_at m buf (length xs * ds) = concat xs" "\<forall>x\<in>set xs. length x = ds" "i + j \<le> length xs"
  shows "bytes_at m (buf + of_nat (i * ds)) (j * ds) = concat (take j (drop i xs))"
proof -
  have len: "length xs * ds = i * ds + (j * ds + (length xs - i - j) * ds)"
    using assms(3) by (simp flip: add_mult_distrib)
  have "concat xs = concat (take i xs) @ concat (take j (drop i xs)) @ concat (drop j (drop i xs))"
    by (metis append_take_drop_id concat_append)
  then have "bytes_at m buf (i * ds) @ bytes_at m (buf + of_nat (i * ds)) (j * ds) @
      bytes_at m (buf + of_nat (i * ds) + of_nat (j * ds)) ((length xs - i - j) * ds) =
      concat (take i xs) @ concat (take j (drop i xs)) @ concat (drop j (drop i xs))"
    using assms(1) unfolding len bytes_at_append by simp
  moreover have "length (concat (take i xs)) = i * ds" "length (concat (take j (drop i xs))) = j * ds"
    using assms(2,3) length_concat_same[of "take i xs" ds] length_concat_same[of "take j (drop i xs)" ds]
    by (auto dest: in_set_takeD in_set_dropD)
  ultimately show ?thesis by (simp add: append_eq_append_conv)
qed

lemma vec_relD:
  assumes "vec_rel st U vec buf cap ds xs"
  obtains k l where "heap_rel st U" "vec \<noteq> buf" "vec \<noteq> 0" "U vec = Some k" "32 \<le> k" "U buf = Some l" "cap * ds \<le> l"
    "l < 2 ^ 64" "vfld (kmem st) Buf vec = buf" "vfld (kmem st) Capacity vec = of_nat cap"
    "vfld (kmem st) Vec_size vec = of_nat (length xs)" "vfld (kmem st) Data_size vec = of_nat ds"
    "length xs \<le> cap" "cap < 2 ^ 64" "ds < 2 ^ 64"
    "\<forall>x\<in>set xs. length x = ds" "bytes_at (kmem st) buf (length xs * ds) = concat xs"
proof -
  from assms obtain k l where a: "heap_rel st U" "vec \<noteq> buf" "U vec = Some k" "32 \<le> k" "U buf = Some l" "cap * ds \<le> l"
    "vec_fields (kmem st) vec buf cap (length xs) ds" "length xs \<le> cap"
    "\<forall>x\<in>set xs. length x = ds" "bytes_at (kmem st) buf (length xs * ds) = concat xs"
    unfolding vec_rel_def by blast
  have v: "vec \<noteq> 0" using heap_area_nonnull[OF a(1,3)] a(4) by simp
  have l: "l < 2 ^ 64" by (rule heap_area_size[OF a(1,5)])
  have f: "vfld (kmem st) Buf vec = buf" "unat (vfld (kmem st) Capacity vec) = cap"
    "unat (vfld (kmem st) Vec_size vec) = length xs" "unat (vfld (kmem st) Data_size vec) = ds"
    using a(7) by (simp_all add: vec_fields_def)
  show thesis
    by (rule that[OF a(1,2) v a(3-6) l f(1) _ _ _ a(8) _ _ a(9,10)])
      (use f(2-4) unat_u64_bound in \<open>auto simp flip: f(2-4)\<close>)
qed

text \<open>The fields lie in the vector's first area.\<close>

lemma vec_field_region:
  assumes "in_region (vec + vec_offset f) 8 x" "32 \<le> k"
  shows "in_region vec k x"
proof -
  have "\<exists>d. d + 8 \<le> 32 \<and> vec_offset f = of_nat d"
    by (cases f) (auto intro: exI[of _ 0] exI[of _ 8] exI[of _ 16] exI[of _ 24])
  then obtain d where "d + 8 \<le> 32" "vec_offset f = of_nat d" by blast
  then show ?thesis using assms in_region_offset[of d 8 vec x] by (simp add: in_region_def)
qed

lemma vfld_write:
  assumes "f \<noteq> g"
  shows "vfld (write64 m (vec + vec_offset f) v) g vec = vfld m g vec"
  by (rule load_store_apart) (use assms in \<open>cases f; cases g; simp add: apart_def\<close>)+

lemma vfld_cong:
  assumes "\<And>x. in_region vec k x \<Longrightarrow> m' x = m x" "32 \<le> k"
  shows "vfld m' f vec = vfld m f vec"
  by (rule load_cong) (use assms vec_field_region in auto)

text \<open>Changing the elements: the buffer gets new contents, then the size its new value.\<close>

lemma vec_buffer_write:
  assumes "vec_rel st U vec buf cap ds xs" "\<And>x. \<not> in_region buf (cap * ds) x \<Longrightarrow> m x = kmem st x"
  shows "heap_rel (st\<lparr>kmem := m\<rparr>) U" "vfld m f vec = vfld (kmem st) f vec"
proof -
  obtain k l where v: "heap_rel st U" "vec \<noteq> buf" "U vec = Some k" "32 \<le> k" "U buf = Some l" "cap * ds \<le> l"
    by (rule vec_relD[OF assms(1)])
  have out: "m x = kmem st x" if "\<not> in_region buf l x" for x
    using that v(6) by (intro assms(2)) (simp add: in_region_def)
  show "heap_rel (st\<lparr>kmem := m\<rparr>) U" by (rule heap_write[OF v(1,5) out])
  have "m x = kmem st x" if "in_region vec k x" for x
    by (rule out[OF heap_areas_apart[OF v(1,3,5,2) that]])
  then show "vfld m f vec = vfld (kmem st) f vec" by (rule vfld_cong) (use v(4) in auto)
qed

lemma vec_fields_write:
  assumes "vec_rel st U vec buf cap ds xs" "\<And>x. \<not> in_region buf (cap * ds) x \<Longrightarrow> m x = kmem st x"
  shows "vec_fields m vec buf cap (length xs) ds"
proof -
  have "vfld m f vec = vfld (kmem st) f vec" for f by (rule vec_buffer_write(2)[OF assms])
  then show ?thesis using assms(1) by (simp only: vec_rel_def vec_fields_def)
qed

lemma vec_rel_buffer:
  assumes "vec_rel st U vec buf cap ds xs" "\<And>x. \<not> in_region buf (cap * ds) x \<Longrightarrow> m x = kmem st x"
    and "length ys = length xs" "\<forall>y\<in>set ys. length y = ds" "bytes_at m buf (length ys * ds) = concat ys"
  shows "vec_rel (st\<lparr>kmem := m\<rparr>) U vec buf cap ds ys"
  using assms(1,3-5) vec_buffer_write(1)[OF assms(1,2)] vec_fields_write[OF assms(1,2)] by (simp add: vec_rel_def)

lemma vec_rel_size:
  assumes "heap_rel st U" "vec \<noteq> buf" "U vec = Some k" "32 \<le> k" "U buf = Some l" "cap * ds \<le> l" "vec_fields (kmem st) vec buf cap n ds"
    and "length ys \<le> cap" "cap < 2 ^ 64" "\<forall>y\<in>set ys. length y = ds" "bytes_at (kmem st) buf (length ys * ds) = concat ys"
  shows "vec_rel (st\<lparr>kmem := write64 (kmem st) (vec + vec_offset Vec_size) (of_nat (length ys))\<rparr>) U vec buf cap ds ys"
proof -
  let ?m = "write64 (kmem st) (vec + vec_offset Vec_size) (of_nat (length ys))"
  have out: "?m x = kmem st x" if "\<not> in_region vec k x" for x
    using that vec_field_region[OF _ assms(4)] by (intro store_outside) blast
  have l: "l < 2 ^ 64" by (rule heap_area_size[OF assms(1,5)])
  have le: "length ys * ds \<le> l" using assms(6,8) mult_le_mono1 order_trans by blast
  have "bytes_at ?m buf (length ys * ds) = bytes_at (kmem st) buf (length ys * ds)"
  proof (rule bytes_at_cong)
    fix x assume "in_region buf (length ys * ds) x"
    then have "in_region buf l x" using le by (simp add: in_region_def)
    then show "?m x = kmem st x" by (intro out heap_areas_apart[OF assms(1,5,3)]) (use assms(2) in auto)
  qed (use l le in simp)
  moreover have "vec_fields ?m vec buf cap (length ys) ds"
    using assms(7-9) vfld_write[of Vec_size Buf] vfld_write[of Vec_size Capacity] vfld_write[of Vec_size Data_size]
    by (simp add: vec_fields_def)
  moreover have "heap_rel (st\<lparr>kmem := ?m\<rparr>) U" by (rule heap_write[OF assms(1,3) out])
  ultimately show ?thesis using assms(2-6,8,10,11) unfolding vec_rel_def by simp
qed

lemma vec_rel_update:
  assumes "vec_rel st U vec buf cap ds xs" "\<And>x. \<not> in_region buf (cap * ds) x \<Longrightarrow> m x = kmem st x"
    and "length ys \<le> cap" "\<forall>y\<in>set ys. length y = ds" "bytes_at m buf (length ys * ds) = concat ys"
  shows "vec_rel (st\<lparr>kmem := write64 m (vec + vec_offset Vec_size) (of_nat (length ys))\<rparr>) U vec buf cap ds ys"
proof -
  obtain k l where v: "vec \<noteq> buf" "U vec = Some k" "32 \<le> k" "U buf = Some l" "cap * ds \<le> l" "cap < 2 ^ 64"
    by (rule vec_relD[OF assms(1)])
  then show ?thesis
    using vec_rel_size[OF vec_buffer_write(1)[OF assms(1,2)], of vec buf k l cap ds "length xs" ys]
      vec_fields_write[OF assms(1,2)] assms(3-5) by simp
qed

lemma elem_addr:
  assumes "vec_rel st U vec buf cap ds xs"
  shows "get_elem_addr vec (of_nat i) st = Inr (buf + of_nat (i * ds))"
  by (rule vec_relD[OF assms]) (simp add: get_elem_addr_def)

lemma vec_rel_log [simp]: "vec_rel (log_msg l s st) U vec buf cap ds xs = vec_rel st U vec buf cap ds xs"
  by (simp add: vec_rel_def heap_rel_def kheap_wf_log)


subsection \<open>The operations\<close>

lemma memmove_0: "snd (memmove m dest src 0) = m"
  by (rule ext) (simp add: memmove_apply)

lemma vec_source_elem:
  assumes "vec_rel st U vec buf cap ds xs" "vec_source U vec buf ds src" "i < cap"
  shows "buf + of_nat (i * ds) = src \<or> ds \<le> unat (buf + of_nat (i * ds) - src)"
    "in_region src ds x \<Longrightarrow> \<not> in_region buf (cap * ds) x" "in_region src ds x \<Longrightarrow> \<not> in_region vec 32 x"
proof -
  obtain k l where v: "U vec = Some k" "32 \<le> k" "U buf = Some l" "cap * ds \<le> l" "l < 2 ^ 64"
    by (rule vec_relD[OF assms(1)])
  have le: "i * ds + ds \<le> l" using assms(3) v(4) by (metis Suc_leI add.commute le_trans mult_Suc mult_le_mono1)
  have reg: "in_region p n x \<Longrightarrow> n \<le> k \<Longrightarrow> in_region p k x" for p n k x by (simp add: in_region_def)
  show "in_region src ds x \<Longrightarrow> \<not> in_region buf (cap * ds) x" "in_region src ds x \<Longrightarrow> \<not> in_region vec 32 x"
    using assms(2) v reg unfolding vec_source_def by blast+
  show "buf + of_nat (i * ds) = src \<or> ds \<le> unat (buf + of_nat (i * ds) - src)"
  proof (cases "ds = 0")
    case False
    then have lt: "i * ds < l" using le by linarith
    then have "unat (of_nat (i * ds) :: u64) = i * ds" using v(5) by (intro unat_of_nat_u64) linarith
    then have "in_region buf l (buf + of_nat (i * ds))" using lt by (simp only: in_region_def add_diff_cancel_left')
    then have "\<not> in_region src ds (buf + of_nat (i * ds))" using assms(2) v(3) unfolding vec_source_def by blast
    then show ?thesis by (simp add: in_region_def)
  qed simp
qed

text \<open>The bytes after an element has been written to index \<open>i\<close>.\<close>

lemma vec_put_bytes:
  assumes "vec_rel st U vec buf cap ds xs" "vec_source U vec buf ds src" "i < cap"
  defines "m' \<equiv> \<lambda>m. snd (memcpy m (buf + of_nat (i * ds)) src (of_nat ds))"
  shows "bytes_at (m' m) (buf + of_nat (i * ds)) ds = bytes_at m src ds"
    and "\<not> in_region buf (cap * ds) x \<Longrightarrow> m' m x = m x"
    and "j \<le> i \<Longrightarrow> bytes_at (m' m) buf (j * ds) = bytes_at m buf (j * ds)"
    and "i < j \<Longrightarrow> j + n \<le> cap \<Longrightarrow> bytes_at (m' m) (buf + of_nat (j * ds)) (n * ds) = bytes_at m (buf + of_nat (j * ds)) (n * ds)"
proof -
  obtain l where v: "cap * ds \<le> l" "l < 2 ^ 64" "ds < 2 ^ 64" by (rule vec_relD[OF assms(1)])
  have u: "unat (of_nat ds :: u64) = ds" using v(3) by simp
  have at: "m' m x = (if in_region (buf + of_nat (i * ds)) ds x then m (src + (x - (buf + of_nat (i * ds)))) else m x)" for x
    unfolding m'_def using memcpy_apply[of "buf + of_nat (i * ds)" src "of_nat ds" m x] vec_source_elem(1)[OF assms(1-3)]
    by (simp only: u)
  have le: "i * ds + ds \<le> cap * ds" using assms(3) by (metis Suc_leI add.commute mult_Suc mult_le_mono1)
  have reg: "in_region (buf + of_nat (i * ds)) ds x \<longleftrightarrow> i * ds \<le> unat (x - buf) \<and> unat (x - buf) < i * ds + ds" for x
    using le v by (intro in_region_offset) auto
  show "bytes_at (m' m) (buf + of_nat (i * ds)) ds = bytes_at m src ds"
    by (rule bytes_at_copied) (use v(3) in \<open>auto simp: at\<close>)
  show "\<not> in_region buf (cap * ds) x \<Longrightarrow> m' m x = m x"
    using le reg[of x] by (auto simp: at in_region_def)
  show "bytes_at (m' m) buf (j * ds) = bytes_at m buf (j * ds)" if "j \<le> i"
  proof (rule bytes_at_cong)
    have ji: "j * ds \<le> i * ds" using that by simp
    show "m' m x = m x" if "in_region buf (j * ds) x" for x
    proof -
      have "unat (x - buf) < i * ds" using that ji unfolding in_region_def by linarith
      then show ?thesis using reg[of x] by (simp add: at)
    qed
    show "j * ds \<le> 2 ^ 64" using ji le v by linarith
  qed
  show "bytes_at (m' m) (buf + of_nat (j * ds)) (n * ds) = bytes_at m (buf + of_nat (j * ds)) (n * ds)"
    if "i < j" "j + n \<le> cap"
  proof (rule bytes_at_cong)
    have ji: "i * ds + ds \<le> j * ds" using that(1) by (metis Suc_leI add.commute mult_Suc mult_le_mono1)
    have jn: "j * ds + n * ds \<le> cap * ds" using that(2) by (metis add_mult_distrib mult_le_mono1)
    show "m' m x = m x" if "in_region (buf + of_nat (j * ds)) (n * ds) x" for x
    proof -
      have "j * ds \<le> unat (x - buf)" using that in_region_offset[of "j * ds" "n * ds" buf x] jn v by auto
      then show ?thesis using ji reg[of x] by (simp add: at)
    qed
    show "n * ds \<le> 2 ^ 64" using jn v by linarith
  qed
qed

lemma set_lengths: "\<forall>x\<in>set xs. length x = ds \<Longrightarrow> \<forall>x\<in>set (take i xs). length x = ds"
  "\<forall>x\<in>set xs. length x = ds \<Longrightarrow> \<forall>x\<in>set (drop i xs). length x = ds"
  by (auto dest: in_set_takeD in_set_dropD)

lemma split_at_elem: "i < n \<Longrightarrow> n * ds = i * ds + (ds + (n - Suc i) * ds)" for i n ds :: nat
  by (auto simp: less_iff_Suc_add algebra_simps)

lemma next_elem: "a + of_nat (i * ds) + of_nat ds = (a + of_nat (Suc i * ds) :: u64)"
  by (simp add: algebra_simps)

lemma vector_set_rel:
  assumes "vec_rel st U vec buf cap ds xs" "vec_source U vec buf ds src" "i < length xs" "bytes_at (kmem st) src ds = d"
  defines "m' \<equiv> snd (memcpy (kmem st) (buf + of_nat (i * ds)) src (of_nat ds))"
  shows "vector_set vec (of_nat i) src st = Inr (st\<lparr>kmem := m'\<rparr>)" "vec_rel (st\<lparr>kmem := m'\<rparr>) U vec buf cap ds (xs[i := d])"
proof -
  obtain k l where v: "vec \<noteq> 0" "vfld (kmem st) Vec_size vec = of_nat (length xs)" "vfld (kmem st) Data_size vec = of_nat ds"
    "length xs \<le> cap" "cap < 2 ^ 64" "\<forall>x\<in>set xs. length x = ds" "bytes_at (kmem st) buf (length xs * ds) = concat xs"
    by (rule vec_relD[OF assms(1)])
  have i: "i < cap" using assms(3) v(4) by simp
  have "\<not> of_nat (length xs) \<le> (of_nat i :: u64)" using assms(3) v(4,5) by (simp add: word_le_nat_alt)
  then show "vector_set vec (of_nat i) src st = Inr (st\<lparr>kmem := m'\<rparr>)"
    using v(1-3) elem_addr[OF assms(1), of i] by (simp add: vector_set_def m'_def del: of_nat_mult)
  note put = vec_put_bytes[OF assms(1,2) i, where m = "kmem st", folded m'_def]
  have split: "length xs * ds = i * ds + (ds + (length xs - Suc i) * ds)"
    by (rule split_at_elem[OF assms(3)])
  have p1: "bytes_at m' buf (i * ds) = concat (take i xs)"
    using put(3)[OF order_refl] concat_slice[OF v(7,6), of 0 i] assms(3) by simp
  have p2: "bytes_at m' (buf + of_nat (i * ds)) ds = d" using put(1) assms(4) by simp
  have p3: "bytes_at m' (buf + of_nat (Suc i * ds)) ((length xs - Suc i) * ds) = concat (drop (Suc i) xs)"
  proof -
    have "bytes_at m' (buf + of_nat (Suc i * ds)) ((length xs - Suc i) * ds) =
      bytes_at (kmem st) (buf + of_nat (Suc i * ds)) ((length xs - Suc i) * ds)"
      by (rule put(4)) (use assms(3) v(4) in auto)
    also have "\<dots> = concat (take (length xs - Suc i) (drop (Suc i) xs))"
      by (rule concat_slice[OF v(7,6)]) (use assms(3) in simp)
    finally show ?thesis by simp
  qed
  have "bytes_at m' buf (length xs * ds) = concat (take i xs) @ d @ concat (drop (Suc i) xs)"
    unfolding split bytes_at_append next_elem p1 p2 p3 ..
  moreover have "concat (xs[i := d]) = concat (take i xs) @ d @ concat (drop (Suc i) xs)"
    using assms(3) by (simp add: upd_conv_take_nth_drop)
  moreover have "\<forall>y\<in>set (xs[i := d]). length y = ds"
    using v(6) assms(4) set_update_subset_insert[of xs i d] by auto
  ultimately show "vec_rel (st\<lparr>kmem := m'\<rparr>) U vec buf cap ds (xs[i := d])"
    using put(2) by (intro vec_rel_buffer[OF assms(1)]) auto
qed

text \<open>The bytes after \<open>n\<close> elements have been moved to index \<open>t\<close>.\<close>

lemma vec_move_bytes:
  fixes m :: mem and buf src :: addr
  assumes "cap * ds < 2 ^ 64" "t + n \<le> cap"
  defines "m' \<equiv> snd (memmove m (buf + of_nat (t * ds)) src (of_nat (n * ds)))"
  shows "bytes_at m' (buf + of_nat (t * ds)) (n * ds) = bytes_at m src (n * ds)"
    and "\<not> in_region buf (cap * ds) x \<Longrightarrow> m' x = m x"
    and "j \<le> t \<Longrightarrow> bytes_at m' buf (j * ds) = bytes_at m buf (j * ds)"
proof -
  have le: "t * ds + n * ds \<le> cap * ds" using assms(2) by (metis add_mult_distrib mult_le_mono1)
  then have u: "unat (of_nat (n * ds) :: u64) = n * ds" using assms(1) by (intro unat_of_nat_u64) linarith
  have reg: "in_region (buf + of_nat (t * ds)) (n * ds) x \<longleftrightarrow> t * ds \<le> unat (x - buf) \<and> unat (x - buf) < t * ds + n * ds" for x
    using le assms(1) by (intro in_region_offset) auto
  have at: "m' x = (if in_region (buf + of_nat (t * ds)) (n * ds) x then m (src + (x - (buf + of_nat (t * ds)))) else m x)" for x
    unfolding m'_def by (simp only: memmove_apply u)
  show "bytes_at m' (buf + of_nat (t * ds)) (n * ds) = bytes_at m src (n * ds)"
    by (rule bytes_at_copied) (use le assms(1) in \<open>auto simp: at\<close>)
  show "\<not> in_region buf (cap * ds) x \<Longrightarrow> m' x = m x"
    using le reg[of x] unfolding at in_region_def[of buf] by (metis order.strict_trans2)
  show "bytes_at m' buf (j * ds) = bytes_at m buf (j * ds)" if "j \<le> t"
  proof (rule bytes_at_cong)
    have jt: "j * ds \<le> t * ds" using that by simp
    show "m' x = m x" if "in_region buf (j * ds) x" for x
    proof -
      have "unat (x - buf) < t * ds" using that jt unfolding in_region_def by linarith
      then show ?thesis using reg[of x] unfolding at by (metis not_le)
    qed
    show "j * ds \<le> 2 ^ 64" using jt le assms(1) by linarith
  qed
qed

lemma vector_remove_rel:
  assumes "vec_rel st U vec buf cap ds xs" "i < length xs"
  defines "m' \<equiv> snd (memmove (kmem st) (buf + of_nat (i * ds)) (buf + of_nat (Suc i * ds)) (of_nat ((length xs - Suc i) * ds)))"
  defines "st' \<equiv> st\<lparr>kmem := write64 m' (vec + vec_offset Vec_size) (of_nat (length xs - 1))\<rparr>"
  shows "vector_remove vec (of_nat i) st = Inr st'" "vec_rel st' U vec buf cap ds (take i xs @ drop (Suc i) xs)"
proof -
  obtain k l where v: "vec \<noteq> 0" "vfld (kmem st) Vec_size vec = of_nat (length xs)" "vfld (kmem st) Data_size vec = of_nat ds"
    "length xs \<le> cap" "cap < 2 ^ 64" "\<forall>x\<in>set xs. length x = ds" "bytes_at (kmem st) buf (length xs * ds) = concat xs"
    "cap * ds \<le> l" "l < 2 ^ 64"
    by (rule vec_relD[OF assms(1)])
  let ?n = "length xs"
  have cap: "cap * ds < 2 ^ 64" "i + (?n - Suc i) \<le> cap" using v(4,8,9) assms(2) by auto
  note mv = vec_move_bytes[OF cap, where m = "kmem st" and buf = buf and src = "buf + of_nat (Suc i * ds)", folded m'_def]
  have fld: "vfld m' f vec = vfld (kmem st) f vec" for f by (rule vec_buffer_write(2)[OF assms(1) mv(2)])
  have "\<not> of_nat ?n \<le> (of_nat i :: u64)" using assms(2) v(4,5) by (simp add: word_le_nat_alt)
  moreover have one: "of_nat ?n - 1 = (of_nat (?n - 1) :: u64)" using assms(2) by (simp add: of_nat_diff)
  have "of_nat i = (of_nat ?n - 1 :: u64) \<longleftrightarrow> Suc i = ?n"
    unfolding one using of_nat_u64_inj[of i "?n - 1"] assms(2) v(4,5) by linarith
  moreover have "(of_nat ?n - of_nat i - 1) * of_nat ds = (of_nat ((?n - Suc i) * ds) :: u64)"
    using assms(2) by (simp add: of_nat_diff diff_diff_eq add.commute)
  moreover have "m' = kmem st" if "Suc i = ?n" using that by (simp add: m'_def memmove_0)
  moreover have "get_elem_addr vec (of_nat i + 1) st = Inr (buf + of_nat (Suc i * ds))"
    using elem_addr[OF assms(1), of "Suc i"] by (simp add: add.commute)
  ultimately show "vector_remove vec (of_nat i) st = Inr st'"
    using v(1-3) elem_addr[OF assms(1), of i] fld[of Vec_size] one
    by (cases "Suc i = ?n") (simp_all add: vector_remove_def st'_def m'_def[symmetric] del: of_nat_mult of_nat_Suc mult_Suc vec_offset.simps)
  have "bytes_at m' buf ((?n - 1) * ds) = concat (take i xs @ drop (Suc i) xs)"
  proof -
    have "(?n - 1) * ds = i * ds + (?n - Suc i) * ds" using assms(2) by (simp flip: add_mult_distrib)
    moreover have "bytes_at m' buf (i * ds) = concat (take i xs)"
      using mv(3)[OF order_refl] concat_slice[OF v(7,6), of 0 i] assms(2) by simp
    moreover have "bytes_at m' (buf + of_nat (i * ds)) ((?n - Suc i) * ds) = concat (drop (Suc i) xs)"
      unfolding mv(1) using assms(2) by (subst concat_slice[OF v(7,6)]) auto
    ultimately show ?thesis by (simp only: bytes_at_append concat_append)
  qed
  moreover have "length (take i xs @ drop (Suc i) xs) = ?n - 1" using assms(2) by simp
  ultimately show "vec_rel st' U vec buf cap ds (take i xs @ drop (Suc i) xs)"
    using vec_rel_update[OF assms(1) mv(2), of "take i xs @ drop (Suc i) xs"] v(4) set_lengths[OF v(6)]
    unfolding st'_def by (metis Un_iff diff_le_self le_trans set_append)
qed

lemma vector_grow_spare:
  assumes "vec_rel st U vec buf cap ds xs" "length xs < cap"
  shows "vector_grow vec st = Some (Inr st)"
proof -
  obtain k l where v: "vec \<noteq> 0" "vfld (kmem st) Vec_size vec = of_nat (length xs)" "vfld (kmem st) Capacity vec = of_nat cap" "cap < 2 ^ 64"
    by (rule vec_relD[OF assms(1)])
  have "of_nat (length xs) \<noteq> (of_nat cap :: u64)" using of_nat_u64_inj[of "length xs" cap] assms(2) v(4) by linarith
  then show ?thesis using v(1-3) by (simp add: vector_grow_def del: vec_offset.simps)
qed

text \<open>Insertion with room: the elements from \<open>i\<close> on move up, the new one is written to the gap.\<close>

lemma vector_insert_bytes:
  assumes "vec_rel st U vec buf cap ds xs" "vec_source U vec buf ds src" "i \<le> length xs" "length xs < cap"
    "bytes_at (kmem st) src ds = d"
  defines "m1 \<equiv> snd (memmove (kmem st) (buf + of_nat (Suc i * ds)) (buf + of_nat (i * ds)) (of_nat ((length xs - i) * ds)))"
  defines "m2 \<equiv> snd (memcpy m1 (buf + of_nat (i * ds)) src (of_nat ds))"
  defines "st' \<equiv> st\<lparr>kmem := write64 m2 (vec + vec_offset Vec_size) (of_nat (Suc (length xs)))\<rparr>"
  shows "vec_rel st' U vec buf cap ds (take i xs @ d # drop i xs)" "vfld m1 f vec = vfld (kmem st) f vec"
    "vfld m2 f vec = vfld (kmem st) f vec" "\<not> in_region buf (cap * ds) x \<Longrightarrow> m2 x = kmem st x"
proof -
  obtain k l where v: "\<forall>x\<in>set xs. length x = ds" "bytes_at (kmem st) buf (length xs * ds) = concat xs"
    "cap * ds \<le> l" "l < 2 ^ 64" "ds < 2 ^ 64"
    by (rule vec_relD[OF assms(1)])
  let ?n = "length xs"
  have cap: "cap * ds < 2 ^ 64" "Suc i + (?n - i) \<le> cap" and i: "i < cap" using v(3,4) assms(3,4) by auto
  note mv = vec_move_bytes[OF cap, where m = "kmem st" and buf = buf and src = "buf + of_nat (i * ds)", folded m1_def]
  note put = vec_put_bytes[OF assms(1,2) i, where m = m1, folded m2_def]
  have out: "m2 x = kmem st x" if "\<not> in_region buf (cap * ds) x" for x using put(2)[OF that] mv(2)[OF that] by simp
  then show "\<not> in_region buf (cap * ds) x \<Longrightarrow> m2 x = kmem st x" .
  show "vfld m1 f vec = vfld (kmem st) f vec" by (rule vec_buffer_write(2)[OF assms(1) mv(2)])
  show "vfld m2 f vec = vfld (kmem st) f vec" by (rule vec_buffer_write(2)[OF assms(1) out])
  have p1: "bytes_at m2 buf (i * ds) = concat (take i xs)"
    using put(3)[OF order_refl] mv(3)[of i] concat_slice[OF v(2,1), of 0 i] assms(3) by simp
  have "bytes_at m1 src ds = bytes_at (kmem st) src ds"
    using mv(2) vec_source_elem(2)[OF assms(1,2) i] v(5) by (intro bytes_at_cong) auto
  then have p2: "bytes_at m2 (buf + of_nat (i * ds)) ds = d" using put(1) assms(5) by simp
  have "bytes_at m2 (buf + of_nat (Suc i * ds)) ((?n - i) * ds) = bytes_at m1 (buf + of_nat (Suc i * ds)) ((?n - i) * ds)"
    by (rule put(4)) (use cap(2) in auto)
  also have "\<dots> = bytes_at (kmem st) (buf + of_nat (i * ds)) ((?n - i) * ds)" by (rule mv(1))
  also have "\<dots> = concat (take (?n - i) (drop i xs))" by (rule concat_slice[OF v(2,1)]) (use assms(3) in simp)
  finally have p3: "bytes_at m2 (buf + of_nat (Suc i * ds)) ((Suc ?n - Suc i) * ds) = concat (drop i xs)" by simp
  have len: "Suc ?n * ds = i * ds + (ds + (Suc ?n - Suc i) * ds)" by (rule split_at_elem) (use assms(3) in simp)
  have "bytes_at m2 buf (Suc ?n * ds) = concat (take i xs @ d # drop i xs)"
    unfolding len bytes_at_append next_elem p1 p2 p3 by simp
  moreover have "length (take i xs @ d # drop i xs) = Suc ?n" using assms(3) by simp
  moreover have "length d = ds" using assms(5) by auto
  ultimately show "vec_rel st' U vec buf cap ds (take i xs @ d # drop i xs)"
    using vec_rel_update[OF assms(1) out, of "take i xs @ d # drop i xs"] assms(4) set_lengths[OF v(1)]
    unfolding st'_def by auto
qed

text \<open>The bytes a step may change: the buffer and the structure.\<close>

definition vec_frame :: "addr \<Rightarrow> addr \<Rightarrow> nat \<Rightarrow> mem \<Rightarrow> mem \<Rightarrow> bool" where
  "vec_frame vec buf n m m' \<longleftrightarrow> (\<forall>x. \<not> in_region buf n x \<longrightarrow> \<not> in_region vec 32 x \<longrightarrow> m' x = m x)"

lemma vec_frame_size:
  assumes "\<And>x. \<not> in_region buf n x \<Longrightarrow> m' x = m x"
  shows "vec_frame vec buf n m m'" "vec_frame vec buf n m (write64 m' (vec + vec_offset f) v)"
proof -
  have "write64 m' (vec + vec_offset f) v x = m' x" if "\<not> in_region vec 32 x" for x
    using that vec_field_region[of vec f x 32] by (intro store_outside) auto
  then show "vec_frame vec buf n m m'" "vec_frame vec buf n m (write64 m' (vec + vec_offset f) v)"
    using assms by (simp_all add: vec_frame_def)
qed

lemma vector_insert_rel:
  assumes "vec_rel st U vec buf cap ds xs" "vec_source U vec buf ds src" "i \<le> length xs" "length xs < cap"
    "bytes_at (kmem st) src ds = d"
  obtains st' where "vector_insert vec (of_nat i) src st = Some (Inr st')"
    "vec_rel st' U vec buf cap ds (take i xs @ d # drop i xs)" "vec_frame vec buf (cap * ds) (kmem st) (kmem st')"
proof -
  obtain k l where v: "vec \<noteq> 0" "vfld (kmem st) Vec_size vec = of_nat (length xs)" "vfld (kmem st) Data_size vec = of_nat ds"
    "length xs \<le> cap" "cap < 2 ^ 64"
    by (rule vec_relD[OF assms(1)])
  let ?n = "length xs"
  define m1 where "m1 = snd (memmove (kmem st) (buf + of_nat (Suc i * ds)) (buf + of_nat (i * ds)) (of_nat ((?n - i) * ds)))"
  define m2 where "m2 = snd (memcpy m1 (buf + of_nat (i * ds)) src (of_nat ds))"
  note ins = vector_insert_bytes[OF assms, folded m1_def, folded m2_def]
  have "\<not> of_nat ?n < (of_nat i :: u64)" using assms(3) v(4,5) by (simp add: word_less_nat_alt)
  moreover have "of_nat i = (of_nat ?n :: u64) \<longleftrightarrow> i = ?n" using of_nat_u64_inj[of i ?n] assms(3) v(4,5) by linarith
  moreover have "(of_nat ?n - of_nat i) * of_nat ds = (of_nat ((?n - i) * ds) :: u64)" using assms(3) by (simp add: of_nat_diff)
  moreover have m1: "m1 = kmem st" if "i = ?n" using that by (simp add: m1_def memmove_0)
  then have "snd (memcpy (kmem st) (buf + of_nat (?n * ds)) src (of_nat ds)) = m2" if "i = ?n"
    using that by (simp add: m2_def)
  moreover have "get_elem_addr vec (of_nat i + 1) st = Inr (buf + of_nat (Suc i * ds))"
    using elem_addr[OF assms(1), of "Suc i"] by (simp add: add.commute)
  moreover have "1 + of_nat ?n = (of_nat (Suc ?n) :: u64)" by simp
  ultimately have "vector_insert vec (of_nat i) src st = Some (Inr (st\<lparr>kmem := write64 m2 (vec + vec_offset Vec_size) (of_nat (Suc ?n))\<rparr>))"
    using v(1-3) elem_addr[OF assms(1), of i] ins(2)[of Data_size] ins(3)[of Vec_size] vector_grow_spare[OF assms(1,4)]
    by (cases "i = ?n") (simp_all add: vector_insert_def vector_put_elem_def m1_def[symmetric] m2_def[symmetric] add.commute
        del: of_nat_mult of_nat_Suc mult_Suc vec_offset.simps)
  moreover have "vec_frame vec buf (cap * ds) (kmem st) (write64 m2 (vec + vec_offset Vec_size) (of_nat (Suc ?n)))"
    by (rule vec_frame_size(2)) (rule ins(4))
  ultimately show thesis using that ins(1) by simp
qed

lemma vector_add_insert:
  assumes "vec_rel st U vec buf cap ds xs" "length xs < cap"
  shows "vector_add vec src st = vector_insert vec (of_nat (length xs)) src st"
proof -
  obtain k l where v: "vec \<noteq> 0" "vfld (kmem st) Vec_size vec = of_nat (length xs)" by (rule vec_relD[OF assms(1)])
  then show ?thesis
    using vector_grow_spare[OF assms] elem_addr[OF assms(1), of "length xs"]
    by (simp add: vector_add_def vector_insert_def del: vec_offset.simps)
qed

lemma vector_get_rel:
  assumes "vec_rel st U vec buf cap ds xs" "i < length xs"
  shows "vector_get vec (of_nat i) st = Inr (buf + of_nat (i * ds), st)" "bytes_at (kmem st) (buf + of_nat (i * ds)) ds = xs ! i"
proof -
  obtain k l where v: "vec \<noteq> 0" "vfld (kmem st) Vec_size vec = of_nat (length xs)" "length xs \<le> cap" "cap < 2 ^ 64"
    "\<forall>x\<in>set xs. length x = ds" "bytes_at (kmem st) buf (length xs * ds) = concat xs"
    by (rule vec_relD[OF assms(1)])
  have "\<not> of_nat (length xs) \<le> (of_nat i :: u64)" using assms(2) v(3,4) by (simp add: word_le_nat_alt)
  then show "vector_get vec (of_nat i) st = Inr (buf + of_nat (i * ds), st)"
    using v(1,2) elem_addr[OF assms(1), of i] by (simp add: vector_get_def del: vec_offset.simps of_nat_mult)
  show "bytes_at (kmem st) (buf + of_nat (i * ds)) ds = xs ! i"
    using concat_slice[OF v(6,5), of i 1] assms(2) by (simp add: take_Suc hd_drop_conv_nth drop_eq_Nil)
qed

text \<open>An index out of range is reported and changes nothing.\<close>

lemma vector_out_of_range:
  assumes "vec_rel st U vec buf cap ds xs" "length xs \<le> unat idx"
  shows "\<exists>msg. vector_get vec idx st = Inr (0, log_msg ERROR msg st)"
    "\<exists>msg. vector_set vec idx src st = Inr (log_msg ERROR msg st)"
    "\<exists>msg. vector_remove vec idx st = Inr (log_msg ERROR msg st)"
    "length xs < unat idx \<Longrightarrow> \<exists>msg. vector_insert vec idx src st = Some (Inr (log_msg ERROR msg st))"
proof -
  obtain k l where v: "vec \<noteq> 0" "vfld (kmem st) Vec_size vec = of_nat (length xs)" "length xs \<le> cap" "cap < 2 ^ 64"
    by (rule vec_relD[OF assms(1)])
  have "of_nat (length xs) \<le> idx" using assms(2) v(3,4) by (simp add: word_le_nat_alt)
  then show "\<exists>msg. vector_get vec idx st = Inr (0, log_msg ERROR msg st)"
    "\<exists>msg. vector_set vec idx src st = Inr (log_msg ERROR msg st)"
    "\<exists>msg. vector_remove vec idx st = Inr (log_msg ERROR msg st)"
    using v(1,2) by (auto simp: vector_get_def vector_set_def vector_remove_def simp del: vec_offset.simps)
  assume "length xs < unat idx"
  then have "of_nat (length xs) < idx" using v(3,4) by (simp add: word_less_nat_alt)
  then show "\<exists>msg. vector_insert vec idx src st = Some (Inr (log_msg ERROR msg st))"
    using v(1,2) by (auto simp: vector_insert_def simp del: vec_offset.simps)
qed

section \<open>Sequences of operations\<close>

text \<open>The calls that change a vector, on memory and on the list; the elements come from fixed places whose
  contents \<open>D\<close> gives.\<close>

datatype vec_op = Op_set u64 addr | Op_add addr | Op_remove u64 | Op_insert u64 addr

fun vec_step :: "addr \<Rightarrow> vec_op \<Rightarrow> 'a kheap_state_scheme \<Rightarrow> 'a kheap_state_scheme kres option" where
  "vec_step vec (Op_set idx src) st = Some (vector_set vec idx src st)"
| "vec_step vec (Op_add src) st = vector_add vec src st"
| "vec_step vec (Op_remove idx) st = Some (vector_remove vec idx st)"
| "vec_step vec (Op_insert idx src) st = vector_insert vec idx src st"

fun list_step :: "(addr \<Rightarrow> 'e) \<Rightarrow> vec_op \<Rightarrow> 'e list \<Rightarrow> 'e list" where
  "list_step D (Op_set idx src) xs = xs[unat idx := D src]"
| "list_step D (Op_add src) xs = xs @ [D src]"
| "list_step D (Op_remove idx) xs = take (unat idx) xs @ drop (Suc (unat idx)) xs"
| "list_step D (Op_insert idx src) xs =
     (if unat idx \<le> length xs then take (unat idx) xs @ D src # drop (unat idx) xs else xs)"

text \<open>The operation needs no growth and takes its element from a known place.\<close>

fun vec_op_ok :: "addr set \<Rightarrow> nat \<Rightarrow> vec_op \<Rightarrow> 'e list \<Rightarrow> bool" where
  "vec_op_ok P cap (Op_set idx src) xs \<longleftrightarrow> src \<in> P"
| "vec_op_ok P cap (Op_add src) xs \<longleftrightarrow> src \<in> P \<and> length xs < cap"
| "vec_op_ok P cap (Op_remove idx) xs \<longleftrightarrow> True"
| "vec_op_ok P cap (Op_insert idx src) xs \<longleftrightarrow> src \<in> P \<and> length xs < cap"

primrec run_ops :: "('op \<Rightarrow> 's \<Rightarrow> 's kres option) \<Rightarrow> 'op list \<Rightarrow> 's \<Rightarrow> 's kres option" where
  "run_ops step [] s = Some (Inr s)"
| "run_ops step (op # ops) s = obind (step op s) (run_ops step ops)"

primrec ops_ok :: "('op \<Rightarrow> 'a \<Rightarrow> bool) \<Rightarrow> ('op \<Rightarrow> 'a \<Rightarrow> 'a) \<Rightarrow> 'op list \<Rightarrow> 'a \<Rightarrow> bool" where
  "ops_ok ok spec [] a \<longleftrightarrow> True"
| "ops_ok ok spec (op # ops) a \<longleftrightarrow> ok op a \<and> ops_ok ok spec ops (spec op a)"

text \<open>An implementation whose every step simulates the step of a specification.\<close>

locale stepwise_refinement =
  fixes rel :: "'s \<Rightarrow> 'a \<Rightarrow> bool"
    and step :: "'op \<Rightarrow> 's \<Rightarrow> 's kres option"
    and spec :: "'op \<Rightarrow> 'a \<Rightarrow> 'a"
    and ok :: "'op \<Rightarrow> 'a \<Rightarrow> bool"
  assumes step_refines: "rel s a \<Longrightarrow> ok op a \<Longrightarrow> \<exists>s'. step op s = Some (Inr s') \<and> rel s' (spec op a)"
begin

lemma run_refines:
  assumes "rel s a" "ops_ok ok spec ops a"
  shows "\<exists>s'. run_ops step ops s = Some (Inr s') \<and> rel s' (fold spec ops a)"
  using assms
proof (induction ops arbitrary: s a)
  case (Cons op ops)
  then obtain s1 where "step op s = Some (Inr s1)" "rel s1 (spec op a)" using step_refines[of s a op] by auto
  with Cons.IH[of s1 "spec op a"] Cons.prems(2) show ?case by simp
qed simp

end

text \<open>A vector together with the places its elements come from.\<close>

definition vec_sim :: "(addr \<rightharpoonup> nat) \<Rightarrow> addr \<Rightarrow> addr \<Rightarrow> nat \<Rightarrow> nat \<Rightarrow> addr set \<Rightarrow> (addr \<Rightarrow> byte list) \<Rightarrow>
    'a kheap_state_scheme \<Rightarrow> byte list list \<Rightarrow> bool" where
  "vec_sim U vec buf cap ds P D st xs \<longleftrightarrow>
     vec_rel st U vec buf cap ds xs \<and> (\<forall>p\<in>P. vec_source U vec buf ds p \<and> bytes_at (kmem st) p ds = D p)"

lemma vec_sim_frame:
  assumes "vec_sim U vec buf cap ds P D st xs" "vec_frame vec buf (cap * ds) (kmem st) (kmem st')" "vec_rel st' U vec buf cap ds ys"
  shows "vec_sim U vec buf cap ds P D st' ys"
proof -
  have rel: "vec_rel st U vec buf cap ds xs" using assms(1) by (simp add: vec_sim_def)
  obtain k l where v: "U vec = Some k" "32 \<le> k" "U buf = Some l" "cap * ds \<le> l" "ds < 2 ^ 64" by (rule vec_relD[OF rel])
  have "bytes_at (kmem st') p ds = bytes_at (kmem st) p ds" if "p \<in> P" for p
  proof (rule bytes_at_cong)
    fix x assume x: "in_region p ds x"
    have "vec_source U vec buf ds p" using assms(1) that by (simp add: vec_sim_def)
    then have "\<not> in_region vec k x" "\<not> in_region buf l x" using x v unfolding vec_source_def by blast+
    then have "\<not> in_region vec 32 x" "\<not> in_region buf (cap * ds) x" using v(2,4) by (simp_all add: in_region_def)
    then show "kmem st' x = kmem st x" using assms(2) by (simp add: vec_frame_def)
  qed (use v(5) in simp)
  then show ?thesis using assms(1,3) by (simp add: vec_sim_def)
qed

lemma vec_frame_refl [simp]: "vec_frame vec buf n m m"
  by (simp add: vec_frame_def)

lemma vec_step_refines:
  assumes sim: "vec_sim U vec buf cap ds P D st xs" and ok: "vec_op_ok P cap op xs"
  shows "\<exists>st'. vec_step vec op st = Some (Inr st') \<and> vec_rel st' U vec buf cap ds (list_step D op xs) \<and>
    vec_frame vec buf (cap * ds) (kmem st) (kmem st')"
proof -
  have rel: "vec_rel st U vec buf cap ds xs"
    and src: "p \<in> P \<Longrightarrow> vec_source U vec buf ds p" "p \<in> P \<Longrightarrow> bytes_at (kmem st) p ds = D p" for p
    using sim by (auto simp: vec_sim_def)
  show ?thesis
  proof (cases op)
    case (Op_set idx p)
    then have p: "p \<in> P" using ok by simp
    show ?thesis
    proof (cases "unat idx < length xs")
      case True
      let ?m = "snd (memcpy (kmem st) (buf + of_nat (unat idx * ds)) p (of_nat ds))"
      have "unat idx < cap" using True rel by (simp add: vec_rel_def)
      then have "vec_frame vec buf (cap * ds) (kmem st) ?m"
        by (intro vec_frame_size(1)) (rule vec_put_bytes(2)[OF rel src(1)[OF p]])
      then show ?thesis using vector_set_rel[OF rel src(1)[OF p] True src(2)[OF p]] Op_set by (simp del: of_nat_mult)
    next
      case False
      then show ?thesis using vector_out_of_range(2)[OF rel, of idx p] rel Op_set by (auto simp: list_update_beyond)
    qed
  next
    case (Op_add p)
    then have p: "p \<in> P" "length xs < cap" using ok by simp_all
    show ?thesis
      by (rule vector_insert_rel[OF rel src(1)[OF p(1)] order_refl p(2) src(2)[OF p(1)]])
        (simp add: Op_add vector_add_insert[OF rel p(2)])
  next
    case (Op_remove idx)
    show ?thesis
    proof (cases "unat idx < length xs")
      case True
      let ?n = "length xs" and ?i = "unat idx"
      obtain k l where v: "cap * ds \<le> l" "l < 2 ^ 64" "length xs \<le> cap" by (rule vec_relD[OF rel])
      have "vec_frame vec buf (cap * ds) (kmem st) (write64 (snd (memmove (kmem st) (buf + of_nat (?i * ds)) (buf + of_nat (Suc ?i * ds))
          (of_nat ((?n - Suc ?i) * ds)))) (vec + vec_offset Vec_size) (of_nat (?n - 1)))"
        by (intro vec_frame_size(2)) (rule vec_move_bytes(2), use v True in auto)
      then show ?thesis using vector_remove_rel[OF rel True] Op_remove
        by (simp del: of_nat_mult of_nat_Suc mult_Suc vec_offset.simps)
    next
      case False
      then show ?thesis using vector_out_of_range(3)[OF rel, of idx] rel Op_remove by auto
    qed
  next
    case (Op_insert idx p)
    then have p: "p \<in> P" "length xs < cap" using ok by simp_all
    show ?thesis
    proof (cases "unat idx \<le> length xs")
      case True
      show ?thesis
        by (rule vector_insert_rel[OF rel src(1)[OF p(1)] True p(2) src(2)[OF p(1)]]) (use True Op_insert in simp)
    next
      case False
      then show ?thesis using vector_out_of_range(4)[OF rel, of idx p] rel Op_insert by auto
    qed
  qed
qed

interpretation vector: stepwise_refinement "vec_sim U vec buf cap ds P D" "vec_step vec" "list_step D" "vec_op_ok P cap"
  for U vec buf cap ds P D
proof unfold_locales
  fix s :: "'a kheap_state_scheme" and a op assume "vec_sim U vec buf cap ds P D s a" "vec_op_ok P cap op a"
  then show "\<exists>s'. vec_step vec op s = Some (Inr s') \<and> vec_sim U vec buf cap ds P D s' (list_step D op a)"
    using vec_step_refines[of U vec buf cap ds P D s a op] vec_sim_frame by blast
qed

section \<open>Creation and destruction\<close>

lemma vec_field_write:
  assumes "heap_rel st V" "V vec = Some k" "32 \<le> k"
  shows "heap_rel (st\<lparr>kmem := write64 (kmem st) (vec + vec_offset f) v\<rparr>) V"
    "keeps (V(vec := None)) (kmem st) (write64 (kmem st) (vec + vec_offset f) v)"
proof -
  have out: "write64 (kmem st) (vec + vec_offset f) v x = kmem st x" if "\<not> in_region vec k x" for x
    using that vec_field_region[OF _ assms(3)] by (intro store_outside) blast
  show "heap_rel (st\<lparr>kmem := write64 (kmem st) (vec + vec_offset f) v\<rparr>) V" by (rule heap_write[OF assms(1,2) out])
  show "keeps (V(vec := None)) (kmem st) (write64 (kmem st) (vec + vec_offset f) v)"
    unfolding keeps_def
  proof (intro allI impI, elim conjE)
    fix p n x assume p: "(V(vec := None)) p = Some n" "in_region p n x"
    then have "V p = Some n" "p \<noteq> vec" by (auto split: if_splits)
    then show "write64 (kmem st) (vec + vec_offset f) v x = kmem st x"
      using p(2) assms(2) by (intro out heap_areas_apart[OF assms(1)]) auto
  qed
qed

lemma vec_rel_Nil:
  assumes "heap_rel st U" "vec \<noteq> buf" "U vec = Some k" "32 \<le> k" "U buf = Some l" "cap * ds \<le> l" "vec_fields (kmem st) vec buf cap 0 ds"
  shows "vec_rel st U vec buf cap ds []"
  using assms by (simp add: vec_rel_def bytes_at_def)

lemma vector_create_rel:
  assumes rel: "heap_rel st U" and n: "ds \<noteq> 0" "cap \<noteq> 0" "unat ds * unat cap \<le> 2 ^ 61"
  obtains (fail) msg where "vector_create ds cap st = Some (Inl (Panic msg))"
  | (go) vec buf k l st' where "vector_create ds cap st = Some (Inr (vec, st'))" "U vec = None" "U buf = None" "vec \<noteq> buf"
      "vec_rel st' (U(vec \<mapsto> k, buf \<mapsto> l)) vec buf (unat cap) (unat ds) []" "keeps U (kmem st) (kmem st')"
proof (rule kmalloc_wf[OF rel, of sizeof_vector])
  show "sizeof_vector \<noteq> 0" "unat sizeof_vector \<le> 2 ^ 61" by (simp_all add: sizeof_vector_def)
  fix msg assume "kmalloc sizeof_vector st = Some (Inl (Panic msg))"
  then show thesis by (intro fail) (simp add: vector_create_def)
next
  fix vec k st1
  assume a: "kmalloc sizeof_vector st = Some (Inr (vec, st1))" "heap_rel st1 (U(vec \<mapsto> k))" "U vec = None"
    "unat sizeof_vector \<le> k" "keeps U (kmem st) (kmem st1)"
  let ?V = "U(vec \<mapsto> k)"
  have k: "32 \<le> k" and V: "?V vec = Some k" "?V(vec := None) = U" using a(3,4) by (auto simp: sizeof_vector_def)
  have vec: "vec \<noteq> 0" using heap_area_nonnull[OF a(2) V(1)] k by simp
  define st2 where "st2 = st1\<lparr>kmem := write64 (kmem st1) (vec + vec_offset Capacity) cap\<rparr>"
  define st3 where "st3 = st2\<lparr>kmem := write64 (kmem st2) (vec + vec_offset Vec_size) 0\<rparr>"
  define st4 where "st4 = st3\<lparr>kmem := write64 (kmem st3) (vec + vec_offset Data_size) ds\<rparr>"
  have w: "heap_rel (s\<lparr>kmem := write64 (kmem s) (vec + vec_offset f) v\<rparr>) ?V"
      "keeps U (kmem s) (write64 (kmem s) (vec + vec_offset f) v)" if "heap_rel s ?V" for s :: "'a kheap_state_scheme" and f v
    using vec_field_write[OF that V(1) k, of f v] unfolding V(2) .
  have r2: "heap_rel st2 ?V" "keeps U (kmem st1) (kmem st2)"
    unfolding st2_def using w[OF a(2), of Capacity cap] by (simp_all del: vec_offset.simps fun_upd_apply)
  have r3: "heap_rel st3 ?V" "keeps U (kmem st2) (kmem st3)"
    unfolding st3_def using w[OF r2(1), of Vec_size 0] by (simp_all del: vec_offset.simps fun_upd_apply)
  have r4: "heap_rel st4 ?V" "keeps U (kmem st3) (kmem st4)"
    unfolding st4_def using w[OF r3(1), of Data_size ds] by (simp_all del: vec_offset.simps fun_upd_apply)
  have f4: "vfld (kmem st4) Capacity vec = cap" "vfld (kmem st4) Vec_size vec = 0" "vfld (kmem st4) Data_size vec = ds"
    by (simp_all add: st4_def st3_def st2_def vfld_write del: vec_offset.simps)
  have eq: "vector_create ds cap st = obind (kmalloc (ds * cap) st4) (\<lambda>(buf, st). obind (Some (vec_put Buf vec buf st)) (\<lambda>st. Some (Inr (vec, st))))"
    using vec by (simp add: vector_create_def a(1) st2_def st3_def st4_def vfld_write del: vec_offset.simps)
  have n2: "unat (ds * cap) = unat ds * unat cap" using n(3) by (subst unat_mult_lem[THEN iffD1]) auto
  then have n3: "ds * cap \<noteq> 0" "unat (ds * cap) \<le> 2 ^ 61" using n by (auto simp: unat_eq_zero[symmetric])
  show thesis
  proof (rule kmalloc_wf[OF r4(1) n3])
    fix msg assume "kmalloc (ds * cap) st4 = Some (Inl (Panic msg))"
    then show thesis by (intro fail) (simp add: eq)
  next
    fix buf l st5
    assume b: "kmalloc (ds * cap) st4 = Some (Inr (buf, st5))" "heap_rel st5 (?V(buf \<mapsto> l))" "?V buf = None" "unat (ds * cap) \<le> l"
      "keeps ?V (kmem st4) (kmem st5)"
    let ?W = "?V(buf \<mapsto> l)"
    let ?st = "st5\<lparr>kmem := write64 (kmem st5) (vec + vec_offset Buf) buf\<rparr>"
    have ne: "vec \<noteq> buf" and buf: "U buf = None" and W: "?W vec = Some k" using b(3) V(1) by (auto split: if_splits)
    have U: "U \<subseteq>\<^sub>m ?V" "U \<subseteq>\<^sub>m ?W(vec := None)" using a(3) buf by (auto simp: map_le_def)
    note r5 = vec_field_write[OF b(2) W k]
    have "keeps U (kmem st) (kmem ?st)"
      using keeps_trans[OF a(5) keeps_trans[OF r2(2) keeps_trans[OF r3(2) keeps_trans[OF r4(2)
              keeps_trans[OF keeps_sub[OF b(5) U(1)] keeps_sub[OF r5(2) U(2), of Buf buf]]]]]] by simp
    moreover have "vfld (kmem st5) f vec = vfld (kmem st4) f vec" for f
      by (rule vfld_cong[OF _ k]) (rule keepsD[OF b(5) V(1)])
    then have "vec_fields (kmem ?st) vec buf (unat cap) 0 (unat ds)"
      using f4 by (simp add: vec_fields_def vfld_write del: vec_offset.simps)
    then have "vec_rel ?st ?W vec buf (unat cap) (unat ds) []"
      using b(4) n2 by (intro vec_rel_Nil[OF r5(1) ne W k]) (simp_all add: mult.commute)
    moreover have "vector_create ds cap st = Some (Inr (vec, ?st))" using b(1) vec by (simp add: eq)
    ultimately show thesis using go a(3) buf ne by blast
  qed
qed

lemma vector_destroy_rel:
  assumes "vec_rel st U vec buf cap ds xs"
  obtains st' where "vector_destroy vec st = Inr st'" "heap_rel st' (U(buf := None, vec := None))"
    "keeps (U(buf := None, vec := None)) (kmem st) (kmem st')"
proof -
  obtain k l where v: "heap_rel st U" "vec \<noteq> buf" "vec \<noteq> 0" "U vec = Some k" "U buf = Some l" "vfld (kmem st) Buf vec = buf"
    by (rule vec_relD[OF assms])
  obtain st1 where a: "kfree buf st = Inr st1" "heap_rel st1 (U(buf := None))" "keeps (U(buf := None)) (kmem st) (kmem st1)"
    using kheap.free_old[OF v(1,5)] by blast
  have "(U(buf := None)) vec = Some k" using v(2,4) by simp
  then obtain st2 where b: "kfree vec st1 = Inr st2" "heap_rel st2 (U(buf := None, vec := None))"
    "keeps (U(buf := None, vec := None)) (kmem st1) (kmem st2)"
    using kheap.free_old[OF a(2)] by blast
  have "U(buf := None, vec := None) \<subseteq>\<^sub>m U(buf := None)" by (auto simp: map_le_def)
  then have "keeps (U(buf := None, vec := None)) (kmem st) (kmem st2)"
    using keeps_sub[OF a(3)] keeps_trans[OF _ b(3)] by blast
  then show thesis using that[of st2] a(1) b(1,2) v(3,6) by (simp add: vector_destroy_def del: vec_offset.simps)
qed

section \<open>Properties\<close>

text \<open>C20. A vector behaves as a list: any sequence of \<open>vector_set\<close>, \<open>vector_add\<close>, \<open>vector_remove\<close> and
  \<open>vector_insert\<close> calls that stays within the capacity succeeds and leads to the list that the
  corresponding list operations give (an index out of range changes nothing); afterwards
  \<open>vector_get\<close> points to the bytes of each element and returns NULL beyond the last one.\<close>

theorem vector_refines_list:
  assumes "vec_sim U vec buf cap ds P D st xs" "ops_ok (vec_op_ok P cap) (list_step D) ops xs"
  shows "\<exists>st' ys. run_ops (vec_step vec) ops st = Some (Inr st') \<and> ys = fold (list_step D) ops xs \<and>
    vec_rel st' U vec buf cap ds ys \<and>
    (\<forall>idx. if unat idx < length ys then \<exists>a. vector_get vec idx st' = Inr (a, st') \<and> bytes_at (kmem st') a ds = ys ! unat idx
       else \<exists>msg. vector_get vec idx st' = Inr (0, log_msg ERROR msg st'))"
proof -
  obtain st' where st': "run_ops (vec_step vec) ops st = Some (Inr st')" "vec_sim U vec buf cap ds P D st' (fold (list_step D) ops xs)"
    using vector.run_refines[OF assms] by blast
  let ?ys = "fold (list_step D) ops xs"
  have rel: "vec_rel st' U vec buf cap ds ?ys" using st'(2) by (simp add: vec_sim_def)
  moreover have "if unat idx < length ?ys then \<exists>a. vector_get vec idx st' = Inr (a, st') \<and> bytes_at (kmem st') a ds = ?ys ! unat idx
      else \<exists>msg. vector_get vec idx st' = Inr (0, log_msg ERROR msg st')" for idx
    using vector_get_rel[OF rel, of "unat idx"] vector_out_of_range(1)[OF rel, of idx] by auto
  ultimately show ?thesis using st'(1) by blast
qed

text \<open>A vector of two 8-byte elements on the small machine.\<close>

lemma empty_heap_block:
  assumes "heap_rel st Map.empty"
  obtains b where "kheap_wf st [b] [b]" "unat (fld (kmem st) Size b) + 40 + unat (kheap_top st) = 2 ^ 64"
proof -
  obtain bs fl where w: "kheap_wf st bs fl" "Map.empty = live (kmem st) bs fl" using assms by (auto simp: heap_rel_def)
  obtain q where k: "lists_wf st bs fl" "heap_env st" "coalesced (set fl) bs" "tile (kmem st) 0 (kheap_top st) bs q 0"
    "distinct bs" "distinct fl" "set fl \<subseteq> set bs"
    by (rule kheap_wfE[OF w(1)])
  have "x \<in> set fl" if "x \<in> set bs" for x
    using fun_cong[OF w(2), of "x + 40"] that by (auto simp: live_def split: if_splits)
  then have fl: "set fl = set bs" using k(7) by auto
  have top: "kheap_top st \<noteq> 0" using heap_envD(3,4)[OF k(2)] by auto
  then obtain b bs' where bs: "bs = b # bs'" using k(4) by (cases bs) auto
  moreover have "bs' = []" using k(3) fl bs by (cases bs') (auto simp: coalesced_Cons)
  moreover from calculation have "length fl = 1" using distinct_card[OF k(6)] fl by simp
  moreover from calculation have "fl = [b]" using fl by (cases fl) auto
  moreover have "unat (fld (kmem st) Size b) + 40 + unat (kheap_top st) = 2 ^ 64"
  proof -
    let ?s = "fld (kmem st) Size b"
    have t: "b = kheap_top st" "kheap_top st + 40 + ?s = 0" "unat (kheap_top st) + 40 + unat ?s \<le> 2 ^ 64"
      using k(4) calculation by (auto simp: block_at_def)
    have "(of_nat (unat (kheap_top st) + 40 + unat ?s) :: u64) = 0" using t(2) by simp
    then have "2 ^ 64 dvd unat (kheap_top st) + 40 + unat ?s" by (simp only: word_of_nat_eq_0_iff) simp
    then have "2 ^ 64 \<le> unat (kheap_top st) + 40 + unat ?s" by (rule dvd_imp_le) simp
    then show ?thesis using t(3) by simp
  qed
  ultimately show thesis using that[of b] w(1) by simp
qed

lemma low_source:
  assumes "vec_rel st U vec buf cap ds xs" "unat src + ds \<le> 2 ^ 63"
  shows "vec_source U vec buf ds src"
  unfolding vec_source_def
proof (intro ballI allI impI notI)
  obtain k l where v: "heap_rel st U" by (rule vec_relD[OF assms(1)])
  fix p n x assume p: "U p = Some n" "in_region p n x" "in_region src ds x"
  have "unat (kheap_top st) + 40 \<le> unat x" by (rule heap_area_bounds[OF v p(1,2)])
  moreover have "2 ^ 63 \<le> unat (kheap_top st)" using v heap_envD(3,4) by (fastforce simp: heap_rel_def kheap_wf_def)
  moreover have "unat x < unat src + ds" using in_region_unat[of src ds x] assms(2) p(3) by simp
  ultimately show False using assms(2) by linarith
qed

lemma demo_vector:
  obtains st U vec buf where "vec_rel (st :: kheap_state) U vec buf 2 8 []"
proof -
  obtain st :: kheap_state where d: "heap_rel st Map.empty" "unat (kheap_top st) = 2 ^ 64 - 4096" by (rule demo_heap)
  obtain b where b: "kheap_wf st [b] [b]" "unat (fld (kmem st) Size b) = 4056"
    by (rule empty_heap_block[OF d(1)]) (use d(2) in auto)
  have al: "ALIGN_UP 32 8 = 32" "ALIGN_UP 16 8 = 16" by (simp_all add: ALIGN_UP_def)
  obtain vec st1 bs1 where v: "kmalloc 32 st = Some (Inr (vec, st1))" "kheap_wf st1 bs1 [b]"
    "live (kmem st1) bs1 [b] = (live (kmem st) [b] [b])(vec \<mapsto> unat (32 :: u64))" "live (kmem st) [b] [b] vec = None"
    "keeps (live (kmem st) [b] [b]) (kmem st) (kmem st1)"
    "unat (fld (kmem st1) Size b) = unat (fld (kmem st) Size b) - unat (32 :: u64) - 40"
    by (rule kmalloc_first_block[OF b(1) _ al(1)]) (use b(2) in auto)
  obtain buf st2 bs2 where w: "kmalloc 16 st1 = Some (Inr (buf, st2))" "kheap_wf st2 bs2 [b]"
    "live (kmem st2) bs2 [b] = (live (kmem st1) bs1 [b])(buf \<mapsto> unat (16 :: u64))" "live (kmem st1) bs1 [b] buf = None"
    "keeps (live (kmem st1) bs1 [b]) (kmem st1) (kmem st2)"
    "unat (fld (kmem st2) Size b) = unat (fld (kmem st1) Size b) - unat (16 :: u64) - 40"
    by (rule kmalloc_first_block[OF v(2) _ al(2)]) (use b(2) v(6) in auto)
  define U where "U = live (kmem st2) bs2 [b]"
  have U: "vec \<noteq> buf" "U vec = Some 32" "U buf = Some 16" using w(3,4) v(3) unfolding U_def by auto
  have wr: "heap_rel (s\<lparr>kmem := write64 (kmem s) (vec + vec_offset f) v\<rparr>) U" if "heap_rel s U" for s :: kheap_state and f v
    by (rule vec_field_write(1)[OF that U(2)]) simp
  let ?st = "\<lambda>f v st. st\<lparr>kmem := write64 (kmem st) (vec + vec_offset f) v\<rparr>"
  let ?st3 = "?st Data_size 8 (?st Vec_size 0 (?st Capacity 2 (?st Buf buf st2)))"
  have "heap_rel st2 U" using heap_relI[OF w(2)] by (simp add: U_def)
  then have "heap_rel ?st3 U" by (intro wr)
  moreover have "vec_fields (kmem ?st3) vec buf 2 0 8" by (simp add: vec_fields_def vfld_write del: vec_offset.simps)
  ultimately have "vec_rel ?st3 U vec buf 2 8 []" using U by (intro vec_rel_Nil) auto
  then show thesis by (rule that)
qed

theorem vector_refines_list_witness:
  "\<exists>(st :: kheap_state) vec st'. run_ops (vec_step vec) [Op_add 0x8000, Op_insert 0 0x9000, Op_remove 1] st = Some (Inr st')"
proof -
  obtain st U vec buf where v: "vec_rel (st :: kheap_state) U vec buf 2 8 []" by (rule demo_vector)
  let ?D = "\<lambda>p. bytes_at (kmem st) p 8"
  have "vec_sim U vec buf 2 8 {0x8000, 0x9000} ?D st []"
    using v low_source[OF v, of "0x8000"] low_source[OF v, of "0x9000"] by (simp add: vec_sim_def)
  moreover have "ops_ok (vec_op_ok {0x8000, 0x9000} 2) (list_step ?D) [Op_add 0x8000, Op_insert 0 0x9000, Op_remove 1] []"
    by simp
  ultimately show ?thesis using vector_refines_list by blast
qed

text \<open>The life of a vector: \<open>vector_create\<close> on a well-formed heap panics for want of memory or returns a
  vector that stands for the empty list, in two areas that were not in use; \<open>vector_destroy\<close> gives both areas
  back. Neither changes the contents of the areas in use.\<close>

theorem vector_create_destroy:
  assumes "heap_rel st U" "data_size \<noteq> 0" "capacity \<noteq> 0" "unat data_size * unat capacity \<le> 2 ^ 61"
  shows "(\<exists>msg. vector_create data_size capacity st = Some (Inl (Panic msg))) \<or>
    (\<exists>vec buf U' st' st''. vector_create data_size capacity st = Some (Inr (vec, st')) \<and> U vec = None \<and> U buf = None \<and>
       vec_rel st' U' vec buf (unat capacity) (unat data_size) [] \<and> U'(buf := None, vec := None) = U \<and> keeps U (kmem st) (kmem st') \<and>
       vector_destroy vec st' = Inr st'' \<and> heap_rel st'' U \<and> keeps U (kmem st') (kmem st''))"
proof (rule vector_create_rel[OF assms])
  fix vec buf k l st'
  assume a: "vector_create data_size capacity st = Some (Inr (vec, st'))" "U vec = None" "U buf = None" "vec \<noteq> buf"
    "vec_rel st' (U(vec \<mapsto> k, buf \<mapsto> l)) vec buf (unat capacity) (unat data_size) []" "keeps U (kmem st) (kmem st')"
  have U: "(U(vec \<mapsto> k, buf \<mapsto> l))(buf := None, vec := None) = U" using a(2,3) by auto
  obtain st'' where "vector_destroy vec st' = Inr st''" "heap_rel st'' U" "keeps U (kmem st') (kmem st'')"
    by (rule vector_destroy_rel[OF a(5), unfolded U])
  then show ?thesis using a U by blast
qed auto

theorem vector_create_destroy_witness: "\<exists>(st :: kheap_state) r. vector_create 8 2 st = Some r"
proof -
  obtain st :: kheap_state where d: "heap_rel st Map.empty" by (rule demo_heap)
  then show ?thesis using vector_create_destroy[OF d, of 8 2] by auto
qed

end
