(* ===== verification/Queue.thy ===== *)
theory Queue
  imports Vector
begin

text \<open>
  The queue of lib/ds/queue.c: a doubly linked list of nodes on the kernel heap, each with a pointer to a copy of
  its element. Elements enter at the head (the back of the queue) and leave at the tail (its front). A queue of
  elements of \<open>ds\<close> bytes stands for a list of byte lists, the back first.
\<close>

section \<open>Definitions\<close>

text \<open>\<^verbatim>\<open>qnode_t\<close> and \<^verbatim>\<open>queue_t\<close>: structures of 8-byte fields, each field a cell of the structure.\<close>

datatype qnode_field = Node_next | Node_prev | Node_data

fun qnode_cell :: "qnode_field \<Rightarrow> nat" where
  "qnode_cell Node_next = 0"
| "qnode_cell Node_prev = 1"
| "qnode_cell Node_data = 2"

datatype queue_field = Q_head | Q_tail | Q_data_size | Q_size

fun queue_cell :: "queue_field \<Rightarrow> nat" where
  "queue_cell Q_head = 0"
| "queue_cell Q_tail = 1"
| "queue_cell Q_data_size = 2"
| "queue_cell Q_size = 3"

definition sizeof_qnode :: u64 where "sizeof_qnode = 24"
definition sizeof_queue :: u64 where "sizeof_queue = 32"

text \<open>Access through a pointer.\<close>

definition get_at :: "addr \<Rightarrow> nat \<Rightarrow> 'a kstate_scheme \<Rightarrow> u64 kres" where
  "get_at p i st = (if p = 0 then Inl Null_deref else Inr (cell (kmem st) p i))"

definition put_at :: "addr \<Rightarrow> nat \<Rightarrow> u64 \<Rightarrow> 'a kstate_scheme \<Rightarrow> 'a kstate_scheme kres" where
  "put_at p i v st = (if p = 0 then Inl Null_deref else Inr (st\<lparr>kmem := put_cell (kmem st) p i v\<rparr>))"

definition queue_create :: "u64 \<Rightarrow> 'a kheap_state_scheme \<Rightarrow> (addr \<times> 'a kheap_state_scheme) kres option" where
  "queue_create data_size st =
     obind (kmalloc sizeof_queue st) (\<lambda>(q, st). Some (
     kbind (put_at q (queue_cell Q_head) 0 st) (\<lambda>st.
     kbind (put_at q (queue_cell Q_tail) 0 st) (\<lambda>st.
     kbind (put_at q (queue_cell Q_data_size) data_size st) (\<lambda>st.
     kbind (put_at q (queue_cell Q_size) 0 st) (\<lambda>st.
     Inr (q, st)))))))"

text \<open>The loop of \<open>queue_destroy\<close>; the size is read again in each round, the state carries \<^verbatim>\<open>i\<close> and \<^verbatim>\<open>temp\<close>.\<close>

partial_function (option) queue_destroy_loop :: "addr \<Rightarrow> u64 \<Rightarrow> addr \<Rightarrow> 'a kheap_state_scheme \<Rightarrow> 'a kheap_state_scheme kres option" where
  "queue_destroy_loop q i temp st =
     (case get_at q (queue_cell Q_size) st of Inl e \<Rightarrow> Some (Inl e) | Inr sz \<Rightarrow>
      if i < sz then
        (case kbind (get_at q (queue_cell Q_head) st) (\<lambda>hd.
              kbind (get_at hd (qnode_cell Node_next) st) (\<lambda>nxt.
              kbind (put_at q (queue_cell Q_head) nxt st) (\<lambda>st.
              kbind (get_at temp (qnode_cell Node_data) st) (\<lambda>p.
              kbind (kfree p st) (\<lambda>st.
              kbind (kfree temp st) (\<lambda>st.
              kbind (get_at q (queue_cell Q_head) st) (\<lambda>temp. Inr (temp, st)))))))) of
           Inl e \<Rightarrow> Some (Inl e)
         | Inr (temp, st) \<Rightarrow> queue_destroy_loop q (i + 1) temp st)
      else Some (Inr st))"

definition queue_destroy :: "addr \<Rightarrow> 'a kheap_state_scheme \<Rightarrow> 'a kheap_state_scheme kres option" where
  "queue_destroy q st =
     obind (Some (get_at q (queue_cell Q_head) st)) (\<lambda>temp.
     obind (queue_destroy_loop q 0 temp st) (\<lambda>st.
     Some (kfree q st)))"

definition queue_front :: "addr \<Rightarrow> 'a kstate_scheme \<Rightarrow> (addr \<times> 'a kstate_scheme) kres" where
  "queue_front q st =
     kbind (get_at q (queue_cell Q_tail) st) (\<lambda>tail.
     if tail = 0 then
       kbind (get_at q (queue_cell Q_size) st) (\<lambda>sz.
       Inr (0, if sz \<noteq> 0 then
           log_msg ERROR ''[queue_front] access attempt on non-empty queue with no tail. Size of queue: %lu'' st
         else st))
     else kbind (get_at tail (qnode_cell Node_data) st) (\<lambda>p. Inr (p, st)))"

definition queue_back :: "addr \<Rightarrow> 'a kstate_scheme \<Rightarrow> (addr \<times> 'a kstate_scheme) kres" where
  "queue_back q st =
     kbind (get_at q (queue_cell Q_head) st) (\<lambda>head.
     if head = 0 then
       kbind (get_at q (queue_cell Q_size) st) (\<lambda>sz.
       Inr (0, if sz \<noteq> 0 then
           log_msg ERROR ''[queue_back] access attempt on non-empty queue with no head. Size of queue: %lu'' st
         else st))
     else kbind (get_at head (qnode_cell Node_data) st) (\<lambda>p. Inr (p, st)))"

definition queue_dequeue :: "addr \<Rightarrow> 'a kheap_state_scheme \<Rightarrow> 'a kheap_state_scheme kres" where
  "queue_dequeue q st =
     kbind (get_at q (queue_cell Q_tail) st) (\<lambda>tail.
     if tail = 0 then
       Inr (log_msg ERROR ''[queue_dequeue] dequeue attempt on queue with no tail. Size of queue: %lu'' st)
     else
       kbind (get_at tail (qnode_cell Node_prev) st) (\<lambda>prev.
       kbind (if prev \<noteq> 0 then put_at prev (qnode_cell Node_next) 0 st else Inr st) (\<lambda>st.
       kbind (get_at q (queue_cell Q_tail) st) (\<lambda>tail.
       kbind (kfree tail st) (\<lambda>st.
       kbind (put_at q (queue_cell Q_tail) prev st) (\<lambda>st.
       kbind (get_at q (queue_cell Q_size) st) (\<lambda>sz.
       put_at q (queue_cell Q_size) (sz - 1) st)))))))"

text \<open>The second half of \<open>queue_enqueue\<close>: the new node is linked in at the head.\<close>

definition queue_link :: "addr \<Rightarrow> addr \<Rightarrow> 'a kstate_scheme \<Rightarrow> 'a kstate_scheme kres" where
  "queue_link q node st =
     kbind (get_at q (queue_cell Q_head) st) (\<lambda>head.
     if head = 0 then
       kbind (put_at node (qnode_cell Node_next) 0 st) (\<lambda>st.
       kbind (put_at q (queue_cell Q_head) node st) (\<lambda>st.
       put_at q (queue_cell Q_tail) node st))
     else
       kbind (put_at node (qnode_cell Node_next) head st) (\<lambda>st.
       kbind (put_at head (qnode_cell Node_prev) node st) (\<lambda>st.
       put_at q (queue_cell Q_head) node st)))"

text \<open>What \<open>queue_enqueue\<close> does once it has the two areas.\<close>

definition queue_fill :: "addr \<Rightarrow> addr \<Rightarrow> addr \<Rightarrow> addr \<Rightarrow> 'a kstate_scheme \<Rightarrow> 'a kstate_scheme kres" where
  "queue_fill q node p src st =
     kbind (put_at node (qnode_cell Node_data) p st) (\<lambda>st.
     kbind (get_at node (qnode_cell Node_data) st) (\<lambda>p.
     kbind (get_at q (queue_cell Q_data_size) st) (\<lambda>data_size.
       let st = st\<lparr>kmem := snd (memcpy (kmem st) p src data_size)\<rparr> in
     kbind (get_at q (queue_cell Q_size) st) (\<lambda>sz.
     kbind (put_at q (queue_cell Q_size) (sz + 1) st) (\<lambda>st.
     queue_link q node st)))))"

definition queue_enqueue :: "addr \<Rightarrow> addr \<Rightarrow> 'a kheap_state_scheme \<Rightarrow> 'a kheap_state_scheme kres option" where
  "queue_enqueue q src st =
     obind (kmalloc sizeof_qnode st) (\<lambda>(node, st).
     obind (Some (put_at node (qnode_cell Node_prev) 0 st)) (\<lambda>st.
     obind (Some (get_at q (queue_cell Q_data_size) st)) (\<lambda>data_size.
     obind (kmalloc data_size st) (\<lambda>(p, st).
     Some (queue_fill q node p src st)))))"

section \<open>The list a queue stands for\<close>

text \<open>The nodes from the head to the tail, linked in both directions.\<close>

primrec qchain :: "mem \<Rightarrow> addr \<Rightarrow> addr list \<Rightarrow> bool" where
  "qchain m p [] \<longleftrightarrow> True"
| "qchain m p (n # ns) \<longleftrightarrow>
     cell m n 1 = p \<and> cell m n 0 = (case ns of [] \<Rightarrow> 0 | n' # _ \<Rightarrow> n') \<and> qchain m n ns"

definition queue_fields :: "mem \<Rightarrow> addr \<Rightarrow> nat \<Rightarrow> addr list \<Rightarrow> bool" where
  "queue_fields m q ds ns \<longleftrightarrow>
     cell m q 0 = (if ns = [] then 0 else hd ns) \<and> cell m q 1 = (if ns = [] then 0 else last ns) \<and>
     cell m q 2 = of_nat ds \<and> cell m q 3 = of_nat (length ns)"

text \<open>A node and the place of its element.\<close>

definition queue_node :: "(addr \<rightharpoonup> nat) \<Rightarrow> mem \<Rightarrow> nat \<Rightarrow> addr \<times> addr \<Rightarrow> bool" where
  "queue_node U m ds p \<longleftrightarrow> has_area U (fst p) 24 \<and> has_area U (snd p) ds \<and> cell m (fst p) 2 = snd p"

definition queue_rel :: "'a kheap_state_scheme \<Rightarrow> (addr \<rightharpoonup> nat) \<Rightarrow> addr \<Rightarrow> nat \<Rightarrow> (addr \<times> addr) list \<Rightarrow> byte list list \<Rightarrow> bool" where
  "queue_rel st U q ds ps xs \<longleftrightarrow>
     heap_rel st U \<and> has_area U q 32 \<and> 0 < ds \<and> ds \<le> 2 ^ 61 \<and>
     queue_fields (kmem st) q ds (map fst ps) \<and> qchain (kmem st) 0 (map fst ps) \<and>
     (\<forall>p\<in>set ps. queue_node U (kmem st) ds p) \<and> distinct (q # map fst ps @ map snd ps) \<and>
     xs = map (\<lambda>p. bytes_at (kmem st) (snd p) ds) ps"

definition queue_areas :: "addr \<Rightarrow> (addr \<times> addr) list \<Rightarrow> addr set" where
  "queue_areas q ps = insert q (set (map fst ps) \<union> set (map snd ps))"

lemma qchain_cong:
  assumes "\<And>n. n \<in> set ns \<Longrightarrow> cell m' n 0 = cell m n 0" "\<And>n. n \<in> set ns \<Longrightarrow> cell m' n 1 = cell m n 1"
  shows "qchain m' p ns = qchain m p ns"
  using assms by (induction ns arbitrary: p) auto

lemma qchain_snoc:
  "qchain m p (ns @ [n]) \<Longrightarrow> cell m n 1 = (if ns = [] then p else last ns)"
  by (induction ns arbitrary: p) auto

text \<open>Cutting off the last node.\<close>

lemma qchain_butlast:
  assumes "qchain m p (ns @ [n])" "distinct ns" "\<And>x. x \<in> set ns \<Longrightarrow> cell m' x 1 = cell m x 1"
    "\<And>x. x \<in> set ns \<Longrightarrow> cell m' x 0 = (if x = last ns then 0 else cell m x 0)"
  shows "qchain m' p ns"
  using assms
proof (induction ns arbitrary: p)
  case (Cons x ns)
  show ?case
  proof (cases ns)
    case (Cons y ys)
    have "x \<noteq> last ns" using Cons.prems(2) Cons last_in_set[of ns] by auto
    moreover have "qchain m' x ns" by (rule Cons.IH) (use Cons.prems Cons in auto)
    ultimately show ?thesis using Cons.prems Cons by auto
  qed (use Cons.prems in auto)
qed simp

lemma get_put_at [simp]:
  "p \<noteq> 0 \<Longrightarrow> get_at p i st = Inr (cell (kmem st) p i)"
  "p \<noteq> 0 \<Longrightarrow> put_at p i v st = Inr (st\<lparr>kmem := put_cell (kmem st) p i v\<rparr>)"
  by (simp_all add: get_at_def put_at_def)

lemma queue_relD:
  assumes "queue_rel st U q ds ps xs"
  shows "heap_rel st U" "has_area U q 32" "0 < ds" "ds \<le> 2 ^ 61" "queue_fields (kmem st) q ds (map fst ps)"
    "qchain (kmem st) 0 (map fst ps)" "\<forall>p\<in>set ps. queue_node U (kmem st) ds p" "distinct (q # map fst ps @ map snd ps)"
    "xs = map (\<lambda>p. bytes_at (kmem st) (snd p) ds) ps"
  using assms by (simp_all add: queue_rel_def)

lemma queue_nonnull:
  assumes "queue_rel st U q ds ps xs"
  shows "q \<noteq> 0" "n \<in> set (map fst ps) \<Longrightarrow> n \<noteq> 0" "n \<in> set (map snd ps) \<Longrightarrow> n \<noteq> 0"
    "n \<in> set (map fst ps) \<Longrightarrow> has_area U n 24" "n \<in> set (map snd ps) \<Longrightarrow> has_area U n ds"
    "n \<in> queue_areas q ps \<Longrightarrow> U n \<noteq> None"
proof -
  note q = queue_relD[OF assms]
  show n: "n \<in> set (map fst ps) \<Longrightarrow> has_area U n 24" "n \<in> set (map snd ps) \<Longrightarrow> has_area U n ds"
    using q(7) by (auto simp: queue_node_def)
  show "q \<noteq> 0" "n \<in> set (map fst ps) \<Longrightarrow> n \<noteq> 0" "n \<in> set (map snd ps) \<Longrightarrow> n \<noteq> 0"
    using has_area_nonnull[OF q(1)] q(2,3) n by auto
  show "n \<in> queue_areas q ps \<Longrightarrow> U n \<noteq> None"
    using n q(2) by (auto simp: queue_areas_def has_area_def)
qed

text \<open>What the parts of a queue say after the allocator has worked.\<close>

lemma queue_rel_keeps:
  assumes rel: "queue_rel st U q ds ps xs" and st': "heap_rel st' U'" "U \<subseteq>\<^sub>m U'" "keeps U (kmem st) (kmem st')"
  shows "queue_rel st' U' q ds ps xs"
proof -
  note q = queue_relD[OF rel]
  have area: "has_area U' p n" if "has_area U p n" for p n
    using that st'(2) unfolding has_area_def by (metis domI map_le_def)
  have cq: "cell (kmem st') q i = cell (kmem st) q i" if "i < 4" for i
    by (rule cell_keeps[OF st'(3) q(1) has_area_mono[OF q(2)]]) (use that in simp)
  have cn: "cell (kmem st') n i = cell (kmem st) n i" if "n \<in> set (map fst ps)" "i < 3" for n i
    by (rule cell_keeps[OF st'(3) q(1) has_area_mono[OF queue_nonnull(4)[OF rel that(1)]]]) (use that in simp)
  have b: "bytes_at (kmem st') (snd p) ds = bytes_at (kmem st) (snd p) ds" if "p \<in> set ps" for p
    by (rule bytes_keeps[OF st'(3) q(1)]) (use that queue_nonnull(5)[OF rel] in auto)
  have "queue_fields (kmem st') q ds (map fst ps)" using q(5) cq by (simp add: queue_fields_def)
  moreover have "qchain (kmem st') 0 (map fst ps)" using q(6) cn by (subst qchain_cong[of _ _ "kmem st"]) auto
  moreover have "queue_node U' (kmem st') ds p" if "p \<in> set ps" for p
    using q(7) that cn[of "fst p" 2] area by (auto simp: queue_node_def)
  ultimately show ?thesis using q(2-4,8,9) area b st'(1) by (auto simp: queue_rel_def)
qed

section \<open>Enqueue\<close>

lemma queue_rel_cons:
  assumes old: "queue_rel s V q ds ps xs"
    and new: "heap_rel s' V" "has_area V n 24" "has_area V d ds" "n \<notin> queue_areas q ps" "d \<notin> queue_areas q ps" "n \<noteq> d"
    and cq: "cell (kmem s') q 0 = n" "cell (kmem s') q 1 = (if ps = [] then n else cell (kmem s) q 1)"
      "cell (kmem s') q 2 = cell (kmem s) q 2" "cell (kmem s') q 3 = cell (kmem s) q 3 + 1"
    and cn: "cell (kmem s') n 0 = cell (kmem s) q 0" "cell (kmem s') n 1 = 0" "cell (kmem s') n 2 = d"
    and cx: "\<And>x. x \<in> set (map fst ps) \<Longrightarrow> cell (kmem s') x 0 = cell (kmem s) x 0"
      "\<And>x. x \<in> set (map fst ps) \<Longrightarrow> cell (kmem s') x 2 = cell (kmem s) x 2"
      "\<And>x. x \<in> set (map fst ps) \<Longrightarrow> cell (kmem s') x 1 = (if x = cell (kmem s) q 0 then n else cell (kmem s) x 1)"
    and b: "\<And>x. x \<in> set (map snd ps) \<Longrightarrow> bytes_at (kmem s') x ds = bytes_at (kmem s) x ds" "bytes_at (kmem s') d ds = e"
  shows "queue_rel s' V q ds ((n, d) # ps) (e # xs)"
proof -
  note r = queue_relD[OF old]
  have f: "cell (kmem s) q 0 = (if ps = [] then 0 else hd (map fst ps))" "cell (kmem s) q 1 = (if ps = [] then 0 else last (map fst ps))"
    "cell (kmem s) q 2 = of_nat ds" "cell (kmem s) q 3 = of_nat (length ps)"
    using r(5) by (simp_all add: queue_fields_def)
  have "queue_fields (kmem s') q ds (n # map fst ps)" using cq f by (simp add: queue_fields_def)
  moreover have "qchain (kmem s') 0 (n # map fst ps)"
  proof (cases ps)
    case (Cons y ys)
    have ne: "x \<noteq> fst y" if "x \<in> set (map fst ys)" for x using r(8) Cons that by (auto simp del: set_map)
    have "qchain (kmem s') (fst y) (map fst ys) = qchain (kmem s) (fst y) (map fst ys)"
      by (rule qchain_cong) (use cx ne f(1) Cons in simp_all)
    then show ?thesis using r(6) cn cx(1,3)[of "fst y"] f(1) Cons by (auto split: list.splits)
  qed (use cn f in simp)
  moreover have "queue_node V (kmem s') ds p" if "p \<in> set ((n, d) # ps)" for p
    using that r(7) new(2,3) cn(3) cx(2)[of "fst p"] by (auto simp: queue_node_def)
  moreover have "distinct (q # map fst ((n, d) # ps) @ map snd ((n, d) # ps))"
    using r(8) new(4-6) by (auto simp: queue_areas_def)
  ultimately show ?thesis using r(2-4,9) new(1) b by (simp add: queue_rel_def)
qed

text \<open>Linking in a node that has been filled.\<close>

lemma queue_link_rel:
  assumes old: "queue_rel s V q ds ps xs" and w: "works s V A s1" and A: "A = insert n (insert d (queue_areas q ps))"
    and new: "has_area V n 24" "has_area V d ds" "n \<notin> queue_areas q ps" "d \<notin> queue_areas q ps" "n \<noteq> d"
    and c: "cell (kmem s1) n 1 = 0" "cell (kmem s1) n 2 = d" "bytes_at (kmem s1) d ds = e" "cell (kmem s1) q 3 = cell (kmem s) q 3 + 1"
    and cq: "\<And>i. i < 3 \<Longrightarrow> cell (kmem s1) q i = cell (kmem s) q i"
    and cx: "\<And>x i. x \<in> set (map fst ps) \<Longrightarrow> i < 3 \<Longrightarrow> cell (kmem s1) x i = cell (kmem s) x i"
    and b: "\<And>x. x \<in> set (map snd ps) \<Longrightarrow> bytes_at (kmem s1) x ds = bytes_at (kmem s) x ds"
  obtains s' where "queue_link q n s1 = Inr s'" "queue_rel s' V q ds ((n, d) # ps) (e # xs)" "works s V A s'"
proof -
  note r = queue_relD[OF old]
  define h where "h = cell (kmem s) q 0"
  have h: "h = 0 \<longleftrightarrow> ps = []" "ps \<noteq> [] \<Longrightarrow> h \<in> set (map fst ps)"
    using r(5) queue_nonnull(2)[OF old, of h] by (cases ps; auto simp: queue_fields_def h_def)+
  have nz: "q \<noteq> 0" "n \<noteq> 0" using queue_nonnull(1)[OF old] has_area_nonnull[OF r(1) new(1)] by auto
  have ar: "has_area V q 8" "has_area V q 16" "has_area V q 24" "has_area V q 32" "has_area V n 8" "has_area V n 16" "has_area V n 24"
    using r(2) new(1) by (auto elim: has_area_mono)
  have ax: "has_area V x 8" "has_area V x 16" "has_area V x 24" if "x \<in> set (map fst ps)" for x
    using queue_nonnull(4)[OF old that] by (auto elim: has_area_mono)
  have in_A: "n \<in> A" "q \<in> A" "ps \<noteq> [] \<Longrightarrow> h \<in> A" using h(2) by (auto simp: A queue_areas_def)
  have qn: "q \<noteq> n" "n \<noteq> q" "x \<in> set (map fst ps) \<Longrightarrow> n \<noteq> x \<and> q \<noteq> x" "x \<in> set (map snd ps) \<Longrightarrow> n \<noteq> x \<and> q \<noteq> x" "q \<noteq> d" for x
    using new(3,4) r(8) by (auto simp: queue_areas_def)
  have sn: "x \<in> set (map fst ps) \<Longrightarrow> y \<in> set (map snd ps) \<Longrightarrow> x \<noteq> y" "x \<in> set (map fst ps) \<Longrightarrow> x \<noteq> d" for x y
    using r(8) new(4) by (auto simp: queue_areas_def)
  note cp = cell_put_cell[OF r(1)] and bp = bytes_put_cell[OF r(1)]
  define m2 where "m2 = put_cell (kmem s1) n 0 h"
  define m3 where "m3 = (if ps = [] then put_cell m2 q 0 n else put_cell m2 h 1 n)"
  define m4 where "m4 = (if ps = [] then put_cell m3 q 1 n else put_cell m3 q 0 n)"
  let ?s = "s1\<lparr>kmem := m4\<rparr>"
  have run: "queue_link q n s1 = Inr ?s"
    using nz h cq[of 0] by (auto simp: queue_link_def m4_def m3_def m2_def h_def[symmetric])
  have w2: "works s V A (s1\<lparr>kmem := m2\<rparr>)" unfolding m2_def by (rule works_put[OF w in_A(1)]) (use ar in simp)
  have w3: "works s V A (s1\<lparr>kmem := m3\<rparr>)"
    using works_put[OF w2 in_A(2), of 0 n] works_put[OF w2 in_A(3), of 1 n] ar ax(2)[OF h(2)] by (simp add: m3_def)
  have w4: "works s V A ?s"
    using works_put[OF w3 in_A(2), of 1 n] works_put[OF w3 in_A(2), of 0 n] ar by (simp add: m4_def)
  have hq: "ps \<noteq> [] \<Longrightarrow> h \<noteq> q" "ps \<noteq> [] \<Longrightarrow> h \<noteq> n" using qn(3)[of h] h(2) by auto
  have "queue_rel ?s V q ds ((n, d) # ps) (e # xs)"
  proof (rule queue_rel_cons[OF old _ new])
    show "heap_rel ?s V" using w4 by (simp add: works_def)
    show "cell (kmem ?s) q 0 = n" "cell (kmem ?s) q 1 = (if ps = [] then n else cell (kmem s) q 1)"
      "cell (kmem ?s) q 2 = cell (kmem s) q 2" "cell (kmem ?s) q 3 = cell (kmem s) q 3 + 1"
      "cell (kmem ?s) n 0 = cell (kmem s) q 0" "cell (kmem ?s) n 1 = 0" "cell (kmem ?s) n 2 = d"
      using ar ax[OF h(2)] qn(1,2) hq c(1,2,4) cq[of 1] cq[of 2] by (auto simp: m4_def m3_def m2_def cp h_def[symmetric])
    show "cell (kmem ?s) x 0 = cell (kmem s) x 0" "cell (kmem ?s) x 2 = cell (kmem s) x 2"
      "cell (kmem ?s) x 1 = (if x = cell (kmem s) q 0 then n else cell (kmem s) x 1)" if x: "x \<in> set (map fst ps)" for x
      using ar ax[OF h(2)] ax[OF x] qn(3)[OF x] cx[OF x, of 0] cx[OF x, of 1] cx[OF x, of 2] x
      by (auto simp: m4_def m3_def m2_def cp h_def[symmetric])
    show "bytes_at (kmem ?s) x ds = bytes_at (kmem s) x ds" if x: "x \<in> set (map snd ps)" for x
      using ar ax[OF h(2)] qn(4)[OF x] queue_nonnull(5)[OF old x] sn(1)[OF h(2) x] b[OF x] x
      by (auto simp: m4_def m3_def m2_def bp)
    show "bytes_at (kmem ?s) d ds = e"
      using ar ax[OF h(2)] qn(5) new(2,5) sn(2)[OF h(2)] c(3) by (auto simp: m4_def m3_def m2_def bp)
  qed
  then show thesis using that run w4 by blast
qed

lemma queue_areas_fresh: "queue_rel st U q ds ps xs \<Longrightarrow> U n = None \<Longrightarrow> n \<notin> queue_areas q ps"
  using queue_nonnull(6) by blast

lemma queue_fill_rel:
  assumes rel: "queue_rel st V q ds ps xs" and A: "A = insert n (insert d (queue_areas q ps))"
    and new: "has_area V n 24" "has_area V d ds" "n \<notin> queue_areas q ps" "d \<notin> queue_areas q ps" "n \<noteq> d" "cell (kmem st) n 1 = 0"
    and src: "\<And>x. in_region src ds x \<Longrightarrow> \<not> in_region d ds x" "\<And>x. in_region src ds x \<Longrightarrow> \<not> in_region n 24 x"
  obtains st' where "queue_fill q n d src st = Inr st'" "queue_rel st' V q ds ((n, d) # ps) (bytes_at (kmem st) src ds # xs)" "works st V A st'"
proof -
  note r = queue_relD[OF rel]
  have ar: "has_area V n (8 * 1 + 8)" "has_area V n (8 * 2 + 8)" "has_area V q (8 * 3 + 8)" "has_area V q (8 * 2 + 8)"
    using new(1) r(2) by (auto elim: has_area_mono)
  have nz: "n \<noteq> 0" "q \<noteq> 0" using has_area_nonnull[OF r(1) new(1)] queue_nonnull(1)[OF rel] by auto
  define st1 where "st1 = st\<lparr>kmem := put_cell (kmem st) n 2 d\<rparr>"
  define st2 where "st2 = st1\<lparr>kmem := snd (memcpy (kmem st1) d src (of_nat ds))\<rparr>"
  define st3 where "st3 = st2\<lparr>kmem := put_cell (kmem st2) q 3 (cell (kmem st2) q 3 + 1)\<rparr>"
  have w1: "works st V A st1" unfolding st1_def by (rule works_put[OF works_refl[OF r(1)] _ ar(2)]) (simp add: A)
  have w2: "works st V A st2" unfolding st2_def by (rule works_memcpy[OF w1 _ new(2) src(1)]) (simp add: A)
  have w3: "works st V A st3" unfolding st3_def by (rule works_put[OF w2 _ ar(3)]) (simp add: A queue_areas_def)
  note cp = cell_put_cell[OF r(1)] and cm = cell_memcpy[OF r(1) new(2)] and bp = bytes_put_cell[OF r(1)]
  have ne: "d \<noteq> n" "d \<noteq> q" "n \<noteq> q" using new(3-5) by (auto simp: queue_areas_def)
  have cells: "cell (kmem st3) x i = (if x = q \<and> i = 3 then cell (kmem st) q 3 + 1 else if x = n \<and> i = 2 then d else cell (kmem st) x i)"
    if "has_area V x (8 * i + 8)" "x \<noteq> d" for x i
    using that ar ne by (auto simp: st3_def st2_def st1_def cp cm)
  have own: "bytes_at (kmem st3) d ds = bytes_at (kmem st) src ds"
  proof -
    have "kmem st1 x = kmem st x" if x: "in_region src ds x" for x
    proof -
      have "\<not> in_region (n + of_nat (8 * 2)) 8 x" using src(2)[OF x] in_region_offset[of "8 * 2" 8 n x] by (auto simp: in_region_def)
      then show ?thesis unfolding st1_def put_cell_def using store_outside by simp
    qed
    moreover have "ds \<le> 2 ^ 64" by (rule order_trans[OF r(4)]) simp
    ultimately have "bytes_at (kmem st1) src ds = bytes_at (kmem st) src ds" by (rule bytes_at_cong)
    moreover have "bytes_at (kmem st2) d ds = bytes_at (kmem st1) src ds"
      using memcpy_area(4)[OF _ new(2) src(1), of st1] w1 by (simp add: st2_def works_def)
    moreover have "bytes_at (kmem st3) d ds = bytes_at (kmem st2) d ds" unfolding st3_def using bp[OF ar(3) new(2)] ne by simp
    ultimately show ?thesis by simp
  qed
  have other: "bytes_at (kmem st3) x ds = bytes_at (kmem st) x ds" if x: "x \<in> set (map snd ps)" for x
  proof -
    have ax: "has_area V x ds" "x \<noteq> d" "n \<noteq> x" "q \<noteq> x"
      using queue_nonnull(5)[OF rel x] new(3,4) x r(8) by (auto simp: queue_areas_def)
    then show ?thesis
      using bytes_memcpy[OF r(1) new(2) ax(1)] bp[OF ar(3) ax(1)] bp[OF ar(2) ax(1)] by (simp add: st3_def st2_def st1_def)
  qed
  obtain st' where st': "queue_link q n st3 = Inr st'" "queue_rel st' V q ds ((n, d) # ps) (bytes_at (kmem st) src ds # xs)" "works st V A st'"
  proof (rule queue_link_rel[OF rel w3 A new(1-5)])
    show "bytes_at (kmem st3) d ds = bytes_at (kmem st) src ds" by (rule own)
    show "cell (kmem st3) n 1 = 0" "cell (kmem st3) n 2 = d" "cell (kmem st3) q 3 = cell (kmem st) q 3 + 1"
      using cells[OF ar(1)] cells[OF ar(2)] cells[OF ar(3)] ne new(6) by simp_all
    show "cell (kmem st3) q i = cell (kmem st) q i" if "i < 3" for i
      using cells[of q i] has_area_mono[OF r(2), of "8 * i + 8"] that ne by auto
    show "cell (kmem st3) x i = cell (kmem st) x i" if x: "x \<in> set (map fst ps)" "i < 3" for x i
    proof -
      have ne: "x \<noteq> d" "x \<noteq> n" using x(1) new(3,4) by (auto simp: queue_areas_def simp del: set_map)
      show ?thesis using cells[of x i, OF has_area_mono[OF queue_nonnull(4)[OF rel x(1)]] ne(1)] x(2) ne(2) by simp
    qed
  qed (use other in blast)
  have "cell (put_cell (kmem st) n 2 d) n 2 = d" "cell (put_cell (kmem st) n 2 d) q 2 = of_nat ds"
    using cp[OF ar(2,2)] cp[OF ar(2,4)] r(5) ne by (simp_all add: queue_fields_def)
  then have "queue_fill q n d src st = Inr st'"
    using nz st'(1) by (simp add: queue_fill_def st1_def st2_def st3_def Let_def)
  then show thesis using that st'(2,3) by blast
qed

text \<open>The first allocation, with the write that follows it.\<close>

lemma queue_new_node:
  assumes rel: "queue_rel st U q ds ps xs" and a: "kmalloc sizeof_qnode st = Some (Inr (n, st1))" "heap_rel st1 (U(n \<mapsto> k))" "U n = None"
    "unat sizeof_qnode \<le> k" "keeps U (kmem st) (kmem st1)" "spares (heap_pages (unat sizeof_qnode)) st st1"
  defines "st2 \<equiv> st1\<lparr>kmem := put_cell (kmem st1) n 1 0\<rparr>"
  shows "queue_rel st2 (U(n \<mapsto> k)) q ds ps xs" "keeps U (kmem st) (kmem st2)" "spares 1 st st2" "has_area (U(n \<mapsto> k)) n 24"
    "cell (kmem st2) n 1 = 0" "n \<noteq> 0"
    "queue_enqueue q src st = obind (kmalloc (of_nat ds) st2) (\<lambda>(p, st). Some (queue_fill q n p src st))"
proof -
  let ?U = "U(n \<mapsto> k)"
  show an: "has_area ?U n 24" using a(4) by (simp add: sizeof_qnode_def)
  then have an1: "has_area ?U n (8 * 1 + 8)" by (auto elim: has_area_mono)
  have U: "?U(n := None) = U" "U \<subseteq>\<^sub>m ?U" using a(3) by (auto simp: map_le_def)
  note w = put_cell_area[OF a(2) an1, of 0, folded st2_def, unfolded U(1)]
  show k: "keeps U (kmem st) (kmem st2)" by (rule keeps_trans[OF a(5) w(2)])
  show "spares 1 st st2" using spares_trans[OF a(6) w(3)] by (simp add: sizeof_qnode_def)
  show rel2: "queue_rel st2 ?U q ds ps xs" by (rule queue_rel_keeps[OF rel w(1) U(2) k])
  show "cell (kmem st2) n 1 = 0" using cell_put_cell[OF a(2) an1 an1] by (simp add: st2_def)
  show n: "n \<noteq> 0" using has_area_nonnull[OF a(2) an] by simp
  show "queue_enqueue q src st = obind (kmalloc (of_nat ds) st2) (\<lambda>(p, st). Some (queue_fill q n p src st))"
    using a(1) n queue_nonnull(1)[OF rel] queue_relD(5)[OF rel2] by (simp add: queue_enqueue_def queue_fields_def st2_def)
qed

lemma queue_enqueue_rel:
  assumes rel: "queue_rel st U q ds ps xs" and src: "settled st U src ds"
  obtains (fail) msg where "queue_enqueue q src st = Some (Inl (Panic msg))" "short_of (1 + heap_pages ds) st"
  | (go) n d U' st' where "queue_enqueue q src st = Some (Inr st')" "U n = None" "U d = None" "U \<subseteq>\<^sub>m U'" "dom U' = insert n (insert d (dom U))"
      "queue_rel st' U' q ds ((n, d) # ps) (bytes_at (kmem st) src ds # xs)" "spares (1 + heap_pages ds) st st'"
      "keeps (U |` (- queue_areas q ps)) (kmem st) (kmem st')"
proof (rule kmalloc_wf[OF queue_relD(1)[OF rel], of sizeof_qnode])
  show "sizeof_qnode \<noteq> 0" "unat sizeof_qnode \<le> 2 ^ 61" by (simp_all add: sizeof_qnode_def)
  fix msg assume "kmalloc sizeof_qnode st = Some (Inl (Panic msg))"
    "avail st < 4 * heap_pages (unat sizeof_qnode) \<or> unat (kheap_top st) < unat (kheap_max st) + 4096 * heap_pages (unat sizeof_qnode)"
  then show thesis by (intro fail) (auto simp: queue_enqueue_def short_of_def sizeof_qnode_def)
next
  note r = queue_relD[OF rel]
  have ds: "unat (of_nat ds :: u64) = ds" "(of_nat ds :: u64) \<noteq> 0" using r(3,4) by (auto simp: unat_eq_zero[symmetric])
  fix n k st1 assume a: "kmalloc sizeof_qnode st = Some (Inr (n, st1))" "heap_rel st1 (U(n \<mapsto> k))" "U n = None"
    "unat sizeof_qnode \<le> k" "keeps U (kmem st) (kmem st1)" "spares (heap_pages (unat sizeof_qnode)) st st1"
  define st2 where "st2 = st1\<lparr>kmem := put_cell (kmem st1) n 1 0\<rparr>"
  let ?U = "U(n \<mapsto> k)"
  note n = queue_new_node[OF rel a, folded st2_def]
  show thesis
  proof (rule kmalloc_wf[OF queue_relD(1)[OF n(1)] ds(2)])
    show "unat (of_nat ds :: u64) \<le> 2 ^ 61" using ds(1) r(4) by simp
    fix msg assume f: "kmalloc (of_nat ds) st2 = Some (Inl (Panic msg))"
      "avail st2 < 4 * heap_pages (unat (of_nat ds :: u64)) \<or> unat (kheap_top st2) < unat (kheap_max st2) + 4096 * heap_pages (unat (of_nat ds :: u64))"
    have "short_of (1 + heap_pages ds) st" using f(2) n(3) unfolding ds(1) short_of_def spares_def by auto
    then show thesis using f(1) n(7)[of src] by (intro fail) simp_all
  next
    fix d l st3 assume b: "kmalloc (of_nat ds) st2 = Some (Inr (d, st3))" "heap_rel st3 (?U(d \<mapsto> l))" "?U d = None"
      "unat (of_nat ds :: u64) \<le> l" "keeps ?U (kmem st2) (kmem st3)" "spares (heap_pages (unat (of_nat ds :: u64))) st2 st3"
    let ?V = "?U(d \<mapsto> l)" and ?A = "insert n (insert d (queue_areas q ps))"
    have d: "U d = None" "n \<noteq> d" using b(3) by (auto split: if_splits)
    have le: "U \<subseteq>\<^sub>m ?U" "?U \<subseteq>\<^sub>m ?V" "U \<subseteq>\<^sub>m ?V" using b(3) d a(3) by (auto simp: map_le_def)
    have rel3: "queue_rel st3 ?V q ds ps xs" by (rule queue_rel_keeps[OF n(1) b(2) le(2) b(5)])
    have ar: "has_area ?V n 24" "has_area ?V d ds" using n(4) b(4) ds(1) d(2) by simp_all
    have fresh: "n \<notin> queue_areas q ps" "d \<notin> queue_areas q ps" using queue_areas_fresh[OF rel] a(3) d(1) by auto
    have c3: "cell (kmem st3) n 1 = 0"
      using cell_keeps[OF b(5) queue_relD(1)[OF n(1)] has_area_mono[OF n(4)], of 1] n(5) by simp
    have k3: "keeps U (kmem st) (kmem st3)" by (rule keeps_trans[OF n(2) keeps_sub[OF b(5) le(1)]])
    have s3: "spares (1 + heap_pages ds) st st3" using spares_trans[OF n(3) b(6)] unfolding ds(1) .
    have sd: "\<not> in_region d ds x" if x: "in_region src ds x" for x
      using settled_fresh[OF settled_step[OF src le(1) s3] b(2,3) x] b(4) ds(1) by (simp add: in_region_def)
    have sn: "\<not> in_region n 24 x" if x: "in_region src ds x" for x
      using settled_fresh[OF settled_step[OF src map_le_refl a(6)] a(2,3) x] a(4) by (simp add: in_region_def sizeof_qnode_def)
    have "ds \<le> 2 ^ 64" by (rule order_trans[OF r(4)]) simp
    then have e: "bytes_at (kmem st3) src ds = bytes_at (kmem st) src ds" by (intro bytes_at_cong settled_same[OF src k3 s3])
    obtain st' where st': "queue_fill q n d src st3 = Inr st'" "queue_rel st' ?V q ds ((n, d) # ps) (bytes_at (kmem st3) src ds # xs)" "works st3 ?V ?A st'"
      by (rule queue_fill_rel[OF rel3 refl ar fresh d(2) c3 sd sn])
    have "queue_enqueue q src st = Some (Inr st')" using n(7)[of src] b(1) st'(1) by simp
    moreover have "spares (1 + heap_pages ds) st st'" using spares_trans[OF s3] st'(3) by (fastforce simp: works_def)
    moreover have "keeps (U |` (- queue_areas q ps)) (kmem st) (kmem st')"
    proof -
      have le': "U |` (- queue_areas q ps) \<subseteq>\<^sub>m ?V |` (- ?A)" "U |` (- queue_areas q ps) \<subseteq>\<^sub>m U"
        using a(3) d(1) by (auto simp: map_le_def restrict_map_def split: if_splits)
      have "keeps (U |` (- queue_areas q ps)) (kmem st3) (kmem st')" using st'(3) keeps_sub[OF _ le'(1)] by (auto simp: works_def)
      then show ?thesis by (rule keeps_trans[OF keeps_sub[OF k3 le'(2)]])
    qed
    moreover have "dom ?V = insert n (insert d (dom U))" by auto
    ultimately show thesis using go a(3) d(1) le(3) st'(2)[unfolded e] by blast
  qed
qed

section \<open>Dequeue\<close>

text \<open>The run on a queue with elements: the fields afterwards and what is kept.\<close>

lemma queue_dequeue_run:
  assumes rel: "queue_rel st U q ds (ps @ [(n, d)]) xs"
  defines "prev \<equiv> if ps = [] then 0 else fst (last ps)"
  obtains st' where "queue_dequeue q st = Inr st'" "heap_rel st' (U(n := None))" "spares 0 st st'"
    "keeps ((U(n := None)) |` (- queue_areas q ps)) (kmem st) (kmem st')"
    "\<And>i. i < 4 \<Longrightarrow> cell (kmem st') q i = (if i = 1 then prev else if i = 3 then cell (kmem st) q 3 - 1 else cell (kmem st) q i)"
    "\<And>x i. x \<in> set (map fst ps) \<Longrightarrow> i < 3 \<Longrightarrow> cell (kmem st') x i = (if x = prev \<and> i = 0 then 0 else cell (kmem st) x i)"
    "\<And>x. x \<in> set (map snd (ps @ [(n, d)])) \<Longrightarrow> bytes_at (kmem st') x ds = bytes_at (kmem st) x ds"
proof -
  note r = queue_relD[OF rel]
  let ?V = "U(n := None)"
  have dist: "q \<noteq> n" "n \<notin> set (map fst ps)" "n \<notin> set (map snd (ps @ [(n, d)]))" "q \<notin> set (map fst ps)" "q \<notin> set (map snd (ps @ [(n, d)]))"
    "x \<in> set (map fst ps) \<Longrightarrow> x \<notin> set (map snd (ps @ [(n, d)]))" for x
    using r(8) by auto
  have nz: "q \<noteq> 0" "n \<noteq> 0" using queue_nonnull(1,2)[OF rel] by auto
  have f: "cell (kmem st) q 1 = n" "cell (kmem st) n 1 = prev"
    using r(5) qchain_snoc[of "kmem st" 0 "map fst ps" n] r(6) by (auto simp: queue_fields_def prev_def last_map)
  have prev: "prev \<noteq> 0 \<Longrightarrow> prev \<in> set (map fst ps)" by (auto simp: prev_def split: if_splits)
  have an: "has_area U n 24" using queue_nonnull(4)[OF rel, of n] by simp
  have ax: "has_area U x 24" if "x \<in> set (map fst ps)" for x using queue_nonnull(4)[OF rel, of x] that by simp
  have ad: "has_area U x ds" if "x \<in> set (map snd (ps @ [(n, d)]))" for x by (rule queue_nonnull(5)[OF rel that])
  define st1 where "st1 = (if prev \<noteq> 0 then st\<lparr>kmem := put_cell (kmem st) prev 0 0\<rparr> else st)"
  have w1: "works st U (queue_areas q ps) st1"
    using works_put[OF works_refl[OF r(1)], of prev "queue_areas q ps" 0 0] works_refl[OF r(1)] prev has_area_mono[OF ax[OF prev], of 8]
    by (auto simp: st1_def queue_areas_def)
  have c1: "cell (kmem st1) x i = (if x = prev \<and> i = 0 then 0 else cell (kmem st) x i)" if "has_area U x (8 * i + 8)" for x i
    using cell_put_cell[OF r(1) _ that, of prev 0] has_area_mono[OF ax[OF prev], of 8] has_area_nonnull[OF r(1) that] by (auto simp: st1_def)
  have b1: "bytes_at (kmem st1) x ds = bytes_at (kmem st) x ds" if "x \<in> set (map snd (ps @ [(n, d)]))" for x
    using bytes_put_cell[OF r(1) _ ad[OF that], of prev 0] has_area_mono[OF ax[OF prev], of 8] dist(6)[OF prev] that by (auto simp: st1_def)
  have q1: "cell (kmem st1) q i = cell (kmem st) q i" if "i < 4" for i
    using c1[of q i] has_area_mono[OF r(2), of "8 * i + 8"] that prev dist(4) nz(1) by auto
  obtain k where k: "U n = Some k" using an by (auto simp: has_area_def)
  have h1: "heap_rel st1 U" using w1 by (simp add: works_def)
  obtain st2 where st2: "kfree n st1 = Inr st2" "heap_rel st2 ?V" "keeps ?V (kmem st1) (kmem st2)" "spares 0 st1 st2"
    by (rule kfree_wf[OF h1 k])
  have aq: "has_area ?V q (8 * i + 8)" if "i < 4" for i using has_area_mono[OF r(2), of "8 * i + 8"] that dist(1) by simp
  have bk: "bytes_at (kmem st2) x ds = bytes_at (kmem st1) x ds" if "has_area U x ds" "x \<noteq> n" for x
    using bytes_keeps[OF st2(3) st2(2), of x ds] that by simp
  have ck: "cell (kmem st2) x i = cell (kmem st1) x i" if "has_area U x (8 * i + 8)" "x \<noteq> n" for x i
    using cell_keeps[OF st2(3) st2(2), of x i] that by simp
  define st3 where "st3 = st2\<lparr>kmem := put_cell (kmem st2) q 1 prev\<rparr>"
  define st4 where "st4 = st3\<lparr>kmem := put_cell (kmem st3) q 3 (cell (kmem st3) q 3 - 1)\<rparr>"
  have w4: "works st2 ?V {q} st4"
    unfolding st4_def st3_def by (intro works_put works_refl st2(2)) (use aq[of 1] aq[of 3] in simp_all)
  have c4: "cell (kmem st4) x i = (if x = q \<and> i = 3 then cell (kmem st2) q 3 - 1 else if x = q \<and> i = 1 then prev else cell (kmem st2) x i)"
    if "has_area ?V x (8 * i + 8)" for x i
    using cell_put_cell[OF st2(2) aq[of 1] that] cell_put_cell[OF st2(2) aq[of 3] that] cell_put_cell[OF st2(2) aq[of 1] aq[of 3]]
    by (auto simp: st4_def st3_def)
  have b4: "bytes_at (kmem st4) x ds = bytes_at (kmem st2) x ds" if "has_area ?V x ds" "x \<noteq> q" for x
    using bytes_put_cell[OF st2(2) aq[of 1] that(1)] bytes_put_cell[OF st2(2) aq[of 3] that(1)] that(2) by (simp add: st4_def st3_def)
  have "cell (kmem st1) q 1 = n" using q1[of 1] f(1) by simp
  then have run: "queue_dequeue q st = Inr st4"
    using nz f st2(1) by (simp add: queue_dequeue_def st1_def st3_def st4_def split: if_splits)
  show thesis
  proof (rule that[OF run])
    show "heap_rel st4 ?V" using w4 by (simp add: works_def)
    show "spares 0 st st4" using spares_trans[OF spares_trans[OF _ st2(4)], of 0 st 0 st4] w1 w4 by (simp add: works_def)
    show "cell (kmem st4) q i = (if i = 1 then prev else if i = 3 then cell (kmem st) q 3 - 1 else cell (kmem st) q i)" if "i < 4" for i
      using c4[OF aq[OF that]] ck[of q i] ck[of q 3] q1[OF that] q1[of 3] has_area_mono[OF r(2), of "8 * i + 8"] r(2) dist(1) that by auto
    show "cell (kmem st4) x i = (if x = prev \<and> i = 0 then 0 else cell (kmem st) x i)" if x: "x \<in> set (map fst ps)" "i < 3" for x i
    proof -
      have a: "has_area U x (8 * i + 8)" using has_area_mono[OF ax[OF x(1)], of "8 * i + 8"] x(2) by simp
      have ne: "x \<noteq> n" "x \<noteq> q" using dist x(1) by auto
      show ?thesis using c4[of x i] ck[OF a ne(1)] c1[OF a] a ne by simp
    qed
    show "bytes_at (kmem st4) x ds = bytes_at (kmem st) x ds" if x: "x \<in> set (map snd (ps @ [(n, d)]))" for x
    proof -
      have ne: "x \<noteq> n" "x \<noteq> q" using dist x by auto
      show ?thesis using b4[of x] bk[OF ad[OF x] ne(1)] b1[OF x] ad[OF x] ne by simp
    qed
    let ?W = "?V |` (- queue_areas q ps)"
    have "q \<in> queue_areas q ps" by (simp add: queue_areas_def)
    then have le: "?W \<subseteq>\<^sub>m U |` (- queue_areas q ps)" "?W \<subseteq>\<^sub>m ?V" "?W \<subseteq>\<^sub>m ?V |` (- {q})"
      by (auto simp: map_le_def restrict_map_def split: if_splits)
    show "keeps ?W (kmem st) (kmem st4)"
      using keeps_trans[OF keeps_trans[OF keeps_sub[OF _ le(1)] keeps_sub[OF st2(3) le(2)]] keeps_sub[OF _ le(3)]] w1 w4 by (simp add: works_def)
  qed
qed

lemma queue_dequeue_rel:
  assumes rel: "queue_rel st U q ds (ps @ [(n, d)]) xs" and ne: "ps \<noteq> []"
  obtains st' where "queue_dequeue q st = Inr st'" "queue_rel st' (U(n := None)) q ds ps (butlast xs)" "spares 0 st st'"
    "keeps ((U(n := None)) |` (- queue_areas q ps)) (kmem st) (kmem st')"
proof (rule queue_dequeue_run[OF rel])
  note r = queue_relD[OF rel]
  let ?p = "if ps = [] then 0 else fst (last ps)"
  have p: "?p = last (map fst ps)" using ne by (simp add: last_map)
  fix st' assume a: "queue_dequeue q st = Inr st'" "heap_rel st' (U(n := None))" "spares 0 st st'"
    "keeps ((U(n := None)) |` (- queue_areas q ps)) (kmem st) (kmem st')"
    "\<And>i. i < 4 \<Longrightarrow> cell (kmem st') q i = (if i = 1 then ?p else if i = 3 then cell (kmem st) q 3 - 1 else cell (kmem st) q i)"
    "\<And>x i. x \<in> set (map fst ps) \<Longrightarrow> i < 3 \<Longrightarrow> cell (kmem st') x i = (if x = ?p \<and> i = 0 then 0 else cell (kmem st) x i)"
    "\<And>x. x \<in> set (map snd (ps @ [(n, d)])) \<Longrightarrow> bytes_at (kmem st') x ds = bytes_at (kmem st) x ds"
  have f: "cell (kmem st) q 0 = hd (map fst ps)" "cell (kmem st) q 2 = of_nat ds" "cell (kmem st) q 3 = of_nat (length ps) + 1"
    using r(5) ne by (simp_all add: queue_fields_def hd_append)
  have "queue_fields (kmem st') q ds (map fst ps)"
    using a(5)[of 0] a(5)[of 1] a(5)[of 2] a(5)[of 3] f ne p by (simp add: queue_fields_def)
  moreover have "qchain (kmem st') 0 (map fst ps)"
  proof (rule qchain_butlast)
    show "qchain (kmem st) 0 (map fst ps @ [n])" "distinct (map fst ps)" using r(6,8) by simp_all
    show "cell (kmem st') x 1 = cell (kmem st) x 1" "cell (kmem st') x 0 = (if x = last (map fst ps) then 0 else cell (kmem st) x 0)"
      if "x \<in> set (map fst ps)" for x using a(6)[OF that, of 1] a(6)[OF that, of 0] p by simp_all
  qed
  moreover have "queue_node (U(n := None)) (kmem st') ds x" if "x \<in> set ps" for x
  proof -
    have m: "fst x \<in> set (map fst ps)" "snd x \<in> set (map snd ps)" using that by simp_all
    moreover have "n \<notin> set (map fst ps)" "n \<notin> set (map snd ps)" using r(8) by simp_all
    ultimately have "fst x \<noteq> n" "snd x \<noteq> n" by metis+
    moreover have "queue_node U (kmem st) ds x" using r(7) that by simp
    ultimately show ?thesis using a(6)[OF m(1), of 2] by (simp add: queue_node_def)
  qed
  ultimately have "queue_rel st' (U(n := None)) q ds ps (butlast xs)"
    using a(2) a(7) r(2-4,8,9) by (simp add: queue_rel_def)
  then show thesis using that a(1,3,4) by blast
qed

text \<open>The other routines.\<close>

lemma queue_empty_dequeue:
  assumes "queue_rel st U q ds [] xs"
  shows "queue_dequeue q st = Inr (log_msg ERROR ''[queue_dequeue] dequeue attempt on queue with no tail. Size of queue: %lu'' st)"
  using queue_relD(5)[OF assms] queue_nonnull(1)[OF assms] by (simp add: queue_dequeue_def queue_fields_def)

lemma queue_rel_log [simp]: "queue_rel (log_msg l s st) U q ds ps xs = queue_rel st U q ds ps xs"
  by (simp add: queue_rel_def heap_rel_def kheap_wf_log)

lemma queue_ends_rel:
  assumes rel: "queue_rel st U q ds ps xs"
  shows "if xs = [] then queue_front q st = Inr (0, st) \<and> queue_back q st = Inr (0, st)
    else (\<exists>a. queue_front q st = Inr (a, st) \<and> a \<noteq> 0 \<and> bytes_at (kmem st) a ds = last xs) \<and>
         (\<exists>a. queue_back q st = Inr (a, st) \<and> a \<noteq> 0 \<and> bytes_at (kmem st) a ds = hd xs)"
proof -
  note r = queue_relD[OF rel]
  have q: "q \<noteq> 0" by (rule queue_nonnull(1)[OF rel])
  show ?thesis
  proof (cases "ps = []")
    case True
    then show ?thesis using r(5,9) q by (simp add: queue_front_def queue_back_def queue_fields_def)
  next
    case False
    have front: "queue_front q st = Inr (snd p, st)" "queue_back q st = Inr (snd p', st)" "snd p \<noteq> 0" "snd p' \<noteq> 0"
      if "p = last ps" "p' = hd ps" for p p'
    proof -
      have p: "p \<in> set ps" "p' \<in> set ps" using False that by simp_all
      then have nz: "fst p \<noteq> 0" "fst p' \<noteq> 0" "snd p \<noteq> 0" "snd p' \<noteq> 0" using queue_nonnull(2,3)[OF rel] by auto
      have c: "cell (kmem st) q 1 = fst p" "cell (kmem st) q 0 = fst p'" using r(5) False that by (simp_all add: queue_fields_def last_map hd_map)
      have "cell (kmem st) (fst p) 2 = snd p" "cell (kmem st) (fst p') 2 = snd p'" using r(7) p by (auto simp: queue_node_def)
      then show "queue_front q st = Inr (snd p, st)" "queue_back q st = Inr (snd p', st)" "snd p \<noteq> 0" "snd p' \<noteq> 0"
        using q nz c by (simp_all add: queue_front_def queue_back_def)
    qed
    then show ?thesis using False r(9) by (auto simp: last_map hd_map)
  qed
qed

lemma queue_create_rel:
  assumes rel: "heap_rel st U" and n: "data_size \<noteq> 0" "unat data_size \<le> 2 ^ 61"
  obtains (fail) msg where "queue_create data_size st = Some (Inl (Panic msg))" "short_of 1 st"
  | (go) q k st' where "queue_create data_size st = Some (Inr (q, st'))" "U q = None" "queue_rel st' (U(q \<mapsto> k)) q (unat data_size) [] []"
      "keeps U (kmem st) (kmem st')" "spares 1 st st'"
proof (rule kmalloc_wf[OF rel, of sizeof_queue])
  show "sizeof_queue \<noteq> 0" "unat sizeof_queue \<le> 2 ^ 61" by (simp_all add: sizeof_queue_def)
  fix msg assume "kmalloc sizeof_queue st = Some (Inl (Panic msg))"
    "avail st < 4 * heap_pages (unat sizeof_queue) \<or> unat (kheap_top st) < unat (kheap_max st) + 4096 * heap_pages (unat sizeof_queue)"
  then show thesis by (intro fail) (auto simp: queue_create_def short_of_def sizeof_queue_def)
next
  fix q k st1 assume a: "kmalloc sizeof_queue st = Some (Inr (q, st1))" "heap_rel st1 (U(q \<mapsto> k))" "U q = None"
    "unat sizeof_queue \<le> k" "keeps U (kmem st) (kmem st1)" "spares (heap_pages (unat sizeof_queue)) st st1"
  let ?U = "U(q \<mapsto> k)"
  have a32: "has_area ?U q 32" using a(4) by (simp add: sizeof_queue_def)
  have aq: "has_area ?U q (8 * i + 8)" if "i < 4" for i using has_area_mono[OF a32, of "8 * i + 8"] that by simp
  have nz: "q \<noteq> 0" using has_area_nonnull[OF a(2) a32] by simp
  define put where "put i v s = s\<lparr>kmem := put_cell (kmem s) q i v\<rparr>" for i v and s :: "'a kheap_state_scheme"
  define st5 where "st5 = put 3 0 (put 2 data_size (put 1 0 (put 0 0 st1)))"
  have w: "works st1 ?U {q} (put i v s)" if "works st1 ?U {q} s" "i < 4" for s i v
    unfolding put_def by (rule works_put[OF that(1) _ aq[OF that(2)]]) simp
  have w5: "works st1 ?U {q} st5" unfolding st5_def by (intro w works_refl[OF a(2)]) simp_all
  have "cell (kmem (put i v s)) q j = (if i = j then v else cell (kmem s) q j)" if "i < 4" "j < 4" for i v j s
    using cell_put_cell[OF a(2) aq[OF that(1)] aq[OF that(2)]] by (simp add: put_def)
  then have "queue_fields (kmem st5) q (unat data_size) []" by (simp add: queue_fields_def st5_def)
  then have "queue_rel st5 ?U q (unat data_size) [] []" using w5 a32 n by (simp add: queue_rel_def works_def unat_gt_0)
  moreover have "queue_create data_size st = Some (Inr (q, st5))"
    using a(1) nz by (simp add: queue_create_def st5_def put_def)
  moreover have "?U |` (- {q}) = U" using a(3) by (auto simp: restrict_map_def)
  then have "keeps U (kmem st) (kmem st5)" using keeps_trans[OF a(5)] w5 by (simp add: works_def)
  moreover have "spares 1 st st5" using spares_trans[OF a(6), of 0 st5] w5 by (simp add: works_def sizeof_queue_def)
  ultimately show thesis using go a(3) by blast
qed

section \<open>Destruction\<close>

text \<open>The nodes that are still to be freed, \<open>n\<close> of them having been there at first.\<close>

definition queue_rest :: "'a kheap_state_scheme \<Rightarrow> (addr \<rightharpoonup> nat) \<Rightarrow> addr \<Rightarrow> nat \<Rightarrow> nat \<Rightarrow> (addr \<times> addr) list \<Rightarrow> bool" where
  "queue_rest st U q ds n ps \<longleftrightarrow>
     heap_rel st U \<and> has_area U q 32 \<and> 0 < ds \<and> cell (kmem st) q 0 = (if ps = [] then 0 else fst (hd ps)) \<and>
     cell (kmem st) q 3 = of_nat n \<and> (\<exists>p. qchain (kmem st) p (map fst ps)) \<and>
     (\<forall>p\<in>set ps. queue_node U (kmem st) ds p) \<and> distinct (q # map fst ps @ map snd ps)"

lemma queue_destroy_round:
  assumes r: "queue_rest st U q ds n ((x, d) # ps)"
  obtains st' where "\<forall>i. queue_destroy_loop q i x st = (if i < of_nat n then queue_destroy_loop q (i + 1) (if ps = [] then 0 else fst (hd ps)) st' else Some (Inr st))"
    "queue_rest st' (U(d := None, x := None)) q ds n ps" "keeps (U(d := None, x := None, q := None)) (kmem st) (kmem st')" "spares 0 st st'"
proof -
  have h: "heap_rel st U" "has_area U q 32" "0 < ds" "cell (kmem st) q 0 = x" "cell (kmem st) q 3 = of_nat n"
    "\<And>p. p \<in> set ps \<Longrightarrow> queue_node U (kmem st) ds p" "has_area U x 24" "has_area U d ds" "cell (kmem st) x 2 = d"
    "distinct (q # map fst ps @ map snd ps)" "q \<noteq> x" "q \<noteq> d" "x \<noteq> d"
    using r by (auto simp: queue_rest_def queue_node_def)
  have fr: "x \<notin> set (map fst ps)" "x \<notin> set (map snd ps)" "d \<notin> set (map fst ps)" "d \<notin> set (map snd ps)" "q \<notin> set (map fst ps)" "q \<notin> set (map snd ps)"
    using r by (auto simp: queue_rest_def simp del: set_map)
  have ch: "cell (kmem st) x 0 = (if ps = [] then 0 else fst (hd ps))" "qchain (kmem st) x (map fst ps)"
    using r by (cases ps; auto simp: queue_rest_def)+
  define nxt where "nxt = (if ps = [] then 0 else fst (hd ps))"
  define st1 where "st1 = st\<lparr>kmem := put_cell (kmem st) q 0 nxt\<rparr>"
  let ?V = "U(d := None, x := None)"
  have w1: "works st U {q} st1" unfolding st1_def by (rule works_put[OF works_refl[OF h(1)]]) (use has_area_mono[OF h(2), of 8] in simp_all)
  have c1: "cell (kmem st1) y j = (if y = q \<and> j = 0 then nxt else cell (kmem st) y j)" if "has_area U y (8 * j + 8)" for y j
    using cell_put_cell[OF h(1) _ that, of q 0 "kmem st" nxt] has_area_mono[OF h(2), of 8] by (auto simp: st1_def)
  obtain k l where kl: "U d = Some k" "U x = Some l" using h(7,8) by (auto simp: has_area_def)
  have h1: "heap_rel st1 U" using w1 by (simp add: works_def)
  obtain st2 where st2: "kfree d st1 = Inr st2" "heap_rel st2 (U(d := None))" "keeps (U(d := None)) (kmem st1) (kmem st2)" "spares 0 st1 st2"
    by (rule kfree_wf[OF h1 kl(1)])
  have kx: "(U(d := None)) x = Some l" using kl(2) h(13) by simp
  obtain st3 where st3: "kfree x st2 = Inr st3" "heap_rel st3 ?V" "keeps ?V (kmem st2) (kmem st3)" "spares 0 st2 st3"
    by (rule kfree_wf[OF st2(2) kx])
  have le: "?V \<subseteq>\<^sub>m U(d := None)" "?V(q := None) \<subseteq>\<^sub>m U |` (- {q})" "?V(q := None) \<subseteq>\<^sub>m ?V" by (auto simp: map_le_def restrict_map_def)
  have k13: "keeps ?V (kmem st1) (kmem st3)" by (rule keeps_trans[OF keeps_sub[OF st2(3) le(1)] st3(3)])
  have c3: "cell (kmem st3) y j = (if y = q \<and> j = 0 then nxt else cell (kmem st) y j)" if a: "has_area U y (8 * j + 8)" "y \<noteq> x" "y \<noteq> d" for y j
    using cell_keeps[OF k13 st3(2), of y j] c1[OF a(1)] a by simp
  have cq: "cell (kmem st3) q 0 = nxt" "cell (kmem st3) q 3 = of_nat n" using c3[of q 0] c3[of q 3] has_area_mono[OF h(2), of 8] h by auto
  have other: "cell (kmem st3) y j = cell (kmem st) y j" "has_area ?V y 24" if y: "y \<in> set (map fst ps)" "j < 3" for y j
  proof -
    have ne: "y \<noteq> x" "y \<noteq> d" "y \<noteq> q" using y(1) fr by metis+
    obtain p where p: "p \<in> set ps" "y = fst p" using y(1) by auto
    have a: "has_area U y 24" using h(6)[OF p(1)] p(2) by (simp add: queue_node_def)
    show "has_area ?V y 24" using a ne by simp
    show "cell (kmem st3) y j = cell (kmem st) y j" using c3[of y j] has_area_mono[OF a, of "8 * j + 8"] y(2) ne by simp
  qed
  have "qchain (kmem st3) x (map fst ps)" using ch(2) other(1) by (subst qchain_cong[of _ _ "kmem st"]) auto
  moreover have "queue_node ?V (kmem st3) ds p" if p: "p \<in> set ps" for p
  proof -
    have m: "fst p \<in> set (map fst ps)" "snd p \<in> set (map snd ps)" using p by simp_all
    then have "snd p \<noteq> x" "snd p \<noteq> d" using fr by metis+
    then show ?thesis using h(6)[OF p] other[OF m(1), of 2] by (simp add: queue_node_def)
  qed
  ultimately have "queue_rest st3 ?V q ds n ps" using st3(2) h(2,3,10-12) cq by (auto simp: queue_rest_def nxt_def)
  moreover have "keeps (?V(q := None)) (kmem st) (kmem st3)"
    using keeps_trans[OF keeps_sub[OF _ le(2)] keeps_sub[OF k13 le(3)]] w1 by (simp add: works_def)
  moreover have "spares 0 st st3" using spares_trans[OF spares_trans[OF _ st2(4)] st3(4), of 0 st] w1 by (simp add: works_def)
  moreover have "queue_destroy_loop q i x st = (if i < of_nat n then queue_destroy_loop q (i + 1) nxt st3 else Some (Inr st))" for i
  proof -
    have nz: "q \<noteq> 0" "x \<noteq> 0" "d \<noteq> 0" using has_area_nonnull[OF h(1)] h(2,3,7,8) by auto
    have d1: "cell (kmem st1) x 2 = d" using c1[of x 2] h(7,9) by simp
    have nx: "cell (kmem st) x 0 = nxt" using ch(1) by (simp add: nxt_def)
    show ?thesis
      using nz h(4,5) d1 nx st2(1) st3(1) cq(1) by (subst queue_destroy_loop.simps) (simp add: st1_def)
  qed
  ultimately show thesis using that[of st3] by (simp add: nxt_def)
qed

lemma queue_areas_Cons:
  "queue_areas q (p # ps) = insert (fst p) (insert (snd p) (queue_areas q ps))" "q \<in> queue_areas q ps"
  by (auto simp: queue_areas_def)

lemma queue_destroy_loop_rest:
  assumes "queue_rest st U q ds n ps" "length ps \<le> n" "n < 2 ^ 64" "x = (if ps = [] then 0 else fst (hd ps))"
  shows "\<exists>st'. queue_destroy_loop q (of_nat (n - length ps)) x st = Some (Inr st') \<and>
    heap_rel st' (U |` (- (set (map fst ps) \<union> set (map snd ps)))) \<and> has_area U q 32 \<and>
    keeps (U |` (- queue_areas q ps)) (kmem st) (kmem st') \<and> spares 0 st st'"
  using assms
proof (induction ps arbitrary: st U x)
  case Nil
  then have "q \<noteq> 0" using has_area_nonnull[of st U q 32] by (simp add: queue_rest_def)
  then show ?case using Nil by (subst queue_destroy_loop.simps) (auto simp: queue_rest_def restrict_map_def)
next
  case (Cons p ps)
  obtain y d where p: "p = (y, d)" by (cases p)
  let ?V = "U(d := None, y := None)"
  obtain st1 where st1: "\<forall>i. queue_destroy_loop q i y st = (if i < of_nat n then queue_destroy_loop q (i + 1) (if ps = [] then 0 else fst (hd ps)) st1 else Some (Inr st))"
    "queue_rest st1 ?V q ds n ps" "keeps (?V(q := None)) (kmem st) (kmem st1)" "spares 0 st st1"
    by (rule queue_destroy_round[OF Cons.prems(1)[unfolded p]])
  have n: "of_nat (n - length (p # ps)) < (of_nat n :: u64)" "of_nat (n - length (p # ps)) + 1 = (of_nat (n - length ps) :: u64)"
  proof -
    have "n - length ps = Suc (n - length (p # ps))" using Cons.prems(2) by simp
    then show "of_nat (n - length (p # ps)) + 1 = (of_nat (n - length ps) :: u64)" by simp
    show "of_nat (n - length (p # ps)) < (of_nat n :: u64)"
      using Cons.prems(2,3) unat_of_nat_u64[of n] unat_of_nat_u64[of "n - length (p # ps)"] by (simp add: word_less_nat_alt)
  qed
  have len: "length ps \<le> n" using Cons.prems(2) by simp
  obtain st' where st': "queue_destroy_loop q (of_nat (n - length ps)) (if ps = [] then 0 else fst (hd ps)) st1 = Some (Inr st')"
    "heap_rel st' (?V |` (- (set (map fst ps) \<union> set (map snd ps))))" "keeps (?V |` (- queue_areas q ps)) (kmem st1) (kmem st')" "spares 0 st1 st'"
    using Cons.IH[OF st1(2) len Cons.prems(3) refl] by blast
  have "?V |` (- (set (map fst ps) \<union> set (map snd ps))) = U |` (- (set (map fst (p # ps)) \<union> set (map snd (p # ps))))"
    by (auto simp: restrict_map_def p fun_eq_iff)
  moreover have "U |` (- queue_areas q (p # ps)) \<subseteq>\<^sub>m ?V(q := None)" "U |` (- queue_areas q (p # ps)) \<subseteq>\<^sub>m ?V |` (- queue_areas q ps)"
    using queue_areas_Cons(2)[of q ps] by (auto simp: map_le_def restrict_map_def queue_areas_Cons(1) p split: if_splits)
  then have "keeps (U |` (- queue_areas q (p # ps))) (kmem st) (kmem st')"
    using keeps_trans[OF keeps_sub[OF st1(3)] keeps_sub[OF st'(3)]] by blast
  moreover have "has_area U q 32" using Cons.prems(1) by (simp add: queue_rest_def)
  moreover have "queue_destroy_loop q (of_nat (n - length (p # ps))) x st = Some (Inr st')"
    using st1(1)[rule_format, of "of_nat (n - length (p # ps))"] st'(1) n Cons.prems(4) p by simp
  ultimately show ?case using st'(2) spares_trans[OF st1(4) st'(4)] by simp
qed

lemma distinct_addr_length: "distinct (xs :: addr list) \<Longrightarrow> length xs \<le> 2 ^ 64"
  using card_mono[of UNIV "set xs"] by (simp add: distinct_card card_word)

lemma queue_destroy_rel:
  assumes rel: "queue_rel st U q ds ps xs"
  obtains st' where "queue_destroy q st = Some (Inr st')" "heap_rel st' (U |` (- queue_areas q ps))"
    "keeps (U |` (- queue_areas q ps)) (kmem st) (kmem st')" "spares 0 st st'"
proof -
  note r = queue_relD[OF rel]
  have c: "cell (kmem st) q 0 = (if ps = [] then 0 else fst (hd ps))" "cell (kmem st) q 3 = of_nat (length ps)"
    using r(5) by (simp_all add: queue_fields_def hd_map)
  have rest: "queue_rest st U q ds (length ps) ps" using r c by (auto simp: queue_rest_def)
  have len: "length ps < 2 ^ 64" using distinct_addr_length[OF r(8)] by simp
  have z: "of_nat (length ps - length ps) = (0 :: u64)" by simp
  obtain st1 where st1: "queue_destroy_loop q 0 (cell (kmem st) q 0) st = Some (Inr st1)"
    "heap_rel st1 (U |` (- (set (map fst ps) \<union> set (map snd ps))))" "keeps (U |` (- queue_areas q ps)) (kmem st) (kmem st1)" "spares 0 st st1"
    using queue_destroy_loop_rest[OF rest order_refl len c(1)] unfolding z by blast
  let ?V = "U |` (- (set (map fst ps) \<union> set (map snd ps)))"
  obtain k where k: "?V q = Some k" using r(2,8) by (auto simp: has_area_def restrict_map_def)
  have V: "?V(q := None) = U |` (- queue_areas q ps)" by (auto simp: restrict_map_def queue_areas_def)
  obtain st2 where st2: "kfree q st1 = Inr st2" "heap_rel st2 (U |` (- queue_areas q ps))" "keeps (U |` (- queue_areas q ps)) (kmem st1) (kmem st2)" "spares 0 st1 st2"
    by (rule kfree_wf[OF st1(2) k, unfolded V])
  have "queue_destroy q st = Some (Inr st2)" using queue_nonnull(1)[OF rel] st1(1) st2(1) by (simp add: queue_destroy_def)
  then show thesis using that st2(2) keeps_trans[OF st1(3) st2(3)] spares_trans[OF st1(4) st2(4)] by simp
qed

section \<open>After the last element has left\<close>

text \<open>The head still points to the node that was freed, so the next \<open>queue_enqueue\<close> takes the queue for one with
  elements: it does not set the tail.\<close>

lemma queue_enqueue_stale:
  assumes rel: "heap_rel st U" and q: "has_area U q 32" "cell (kmem st) q 0 = n" "cell (kmem st) q 1 = 0" "cell (kmem st) q 2 = of_nat ds"
    and n: "n \<noteq> 0" "heap_rel st0 U0" "has_area U0 q 32" "has_area U0 n 24" "n \<noteq> q" and ds: "0 < ds" "ds \<le> 2 ^ 61"
    and run: "queue_enqueue q src st = Some (Inr st')"
  shows "cell (kmem st') q 1 = 0" "cell (kmem st') q 3 = cell (kmem st) q 3 + 1"
proof -
  have qz: "q \<noteq> 0" using has_area_nonnull[OF rel q(1)] by simp
  have fits: "kmalloc_fits sizeof_qnode" "kmalloc_fits (of_nat ds)" and dsu: "unat (of_nat ds :: u64) = ds"
    using ds by (auto simp: kmalloc_fits_def sizeof_qnode_def unat_eq_zero[symmetric])
  obtain x s1 where a: "kmalloc sizeof_qnode st = Some (Inr (x, s1))"
    using run by (auto simp: queue_enqueue_def obind_def split: option.splits sum.splits)
  obtain k where k: "U x = None" "unat sizeof_qnode \<le> k" "heap_rel s1 (U(x \<mapsto> k))" "keeps U (kmem st) (kmem s1)"
    using kheap.malloc_new[OF rel fits(1) a] by blast
  let ?U1 = "U(x \<mapsto> k)"
  have ax: "has_area ?U1 x 24" using k(2) by (simp add: sizeof_qnode_def)
  have xq: "x \<noteq> q" "x \<noteq> 0" using has_area_fresh[OF q(1) k(1)] has_area_nonnull[OF k(3) ax] by auto
  have aq1: "has_area ?U1 q (8 * i + 8)" if "i < 4" for i using has_area_mono[OF q(1), of "8 * i + 8"] that xq by simp
  have ax1: "has_area ?U1 x (8 * i + 8)" if "i < 3" for i using has_area_mono[OF ax, of "8 * i + 8"] that by simp
  define s2 where "s2 = s1\<lparr>kmem := put_cell (kmem s1) x 1 0\<rparr>"
  have r2: "heap_rel s2 ?U1" unfolding s2_def by (rule put_cell_area(1)[OF k(3) ax1]) simp
  have c2: "cell (kmem s2) q i = cell (kmem st) q i" if "i < 4" for i
    using cell_put_cell[OF k(3) ax1[of 1] aq1[OF that]] cell_keeps[OF k(4) rel has_area_mono[OF q(1)], of i] that xq by (simp add: s2_def)
  have e2: "queue_enqueue q src st = obind (kmalloc (of_nat ds) s2) (\<lambda>(p, st). Some (queue_fill q x p src st))"
    using a xq qz c2[of 2] q(4) by (simp add: queue_enqueue_def s2_def)
  then obtain d s3 where b: "kmalloc (of_nat ds) s2 = Some (Inr (d, s3))" "queue_fill q x d src s3 = Inr st'"
    using run by (auto simp: obind_def split: option.splits sum.splits)
  obtain l where l: "?U1 d = None" "ds \<le> l" "heap_rel s3 (?U1(d \<mapsto> l))" "keeps ?U1 (kmem s2) (kmem s3)"
    using kheap.malloc_new[OF r2 fits(2) b(1)] dsu by auto
  let ?V = "?U1(d \<mapsto> l)"
  have ne: "d \<noteq> q" "d \<noteq> x" using has_area_fresh[OF aq1[of 0] l(1)] has_area_fresh[OF ax1[of 0] l(1)] by auto
  have aq: "has_area ?V q (8 * i + 8)" if "i < 4" for i using aq1[OF that] ne by simp
  have av: "has_area ?V x (8 * i + 8)" if "i < 3" for i using ax1[OF that] ne by simp
  have ad: "has_area ?V d ds" using l(2) by simp
  have c3: "cell (kmem s3) q i = cell (kmem st) q i" if "i < 4" for i using cell_keeps[OF l(4) r2 aq1[OF that]] c2[OF that] by simp
  note cp = cell_put_cell[OF l(3)] and cm = cell_memcpy[OF l(3) ad]
  define s4 where "s4 = s3\<lparr>kmem := snd (memcpy (put_cell (kmem s3) x 2 d) d src (of_nat ds))\<rparr>"
  define s5 where "s5 = s4\<lparr>kmem := put_cell (kmem s4) q 3 (cell (kmem s4) q 3 + 1)\<rparr>"
  have c4: "cell (kmem s4) q i = cell (kmem st) q i" if "i < 4" for i
    using cm[OF aq[OF that]] cp[OF av[of 2] aq[OF that]] c3[OF that] ne xq by (simp add: s4_def)
  have c5: "cell (kmem s5) q i = (if i = 3 then cell (kmem st) q 3 + 1 else cell (kmem st) q i)" if "i < 4" for i
    using cp[OF aq[of 3] aq[OF that]] c4[OF that] c4[of 3] by (auto simp: s5_def)
  have "cell (put_cell (kmem s3) x 2 d) x 2 = d" "cell (put_cell (kmem s3) x 2 d) q 2 = of_nat ds"
    using cp[OF av[of 2] av[of 2]] cp[OF av[of 2] aq[of 2]] c3[of 2] q(4) xq by simp_all
  then have "queue_fill q x d src s3 = queue_link q x s5"
    using xq qz by (simp add: queue_fill_def s4_def s5_def Let_def)
  then have "st' = s5\<lparr>kmem := put_cell (put_cell (put_cell (kmem s5) x 0 n) n 1 x) q 0 x\<rparr>"
    using b(2) xq qz n(1) c5[of 0] q(2) by (simp add: queue_link_def)
  moreover have "cell (put_cell (put_cell (put_cell m x 0 n) n 1 x) q 0 x) q i = cell m q i" if "i = 1 \<or> i = 3" for i m
  proof -
    have i: "i < 4" "i \<noteq> 0" using that by auto
    have "cell (put_cell m' n 1 x) q i = cell m' q i" for m'
      using cell_put_cell[OF n(2) has_area_mono[OF n(4)] has_area_mono[OF n(3)], of 1 i] i n(5) by simp
    then show ?thesis using cp[OF aq[of 0] aq[OF i(1)]] cp[OF av[of 0] aq[OF i(1)]] i xq by simp
  qed
  ultimately show "cell (kmem st') q 1 = 0" "cell (kmem st') q 3 = cell (kmem st) q 3 + 1"
    using c5[of 1] c5[of 3] q(3) by simp_all
qed

section \<open>Sequences of operations\<close>

text \<open>An implementation whose every step simulates the step of a specification or stops for want of memory; a
  step has a cost.\<close>

locale costed_refinement =
  fixes rel :: "'s \<Rightarrow> 'a \<Rightarrow> bool"
    and step :: "'op \<Rightarrow> 's \<Rightarrow> 's kres option"
    and spec :: "'op \<Rightarrow> 'a \<Rightarrow> 'a"
    and ok :: "'op \<Rightarrow> 'a \<Rightarrow> bool"
    and cost :: "'op \<Rightarrow> nat"
    and short :: "nat \<Rightarrow> 's \<Rightarrow> bool"
    and spend :: "nat \<Rightarrow> 's \<Rightarrow> 's \<Rightarrow> bool"
  assumes step_or_short: "rel s a \<Longrightarrow> ok op a \<Longrightarrow>
      (\<exists>msg. step op s = Some (Inl (Panic msg))) \<and> short (cost op) s \<or>
      (\<exists>s'. step op s = Some (Inr s') \<and> rel s' (spec op a) \<and> spend (cost op) s s')"
    and short_mono: "short j s \<Longrightarrow> j \<le> k \<Longrightarrow> short k s"
    and short_after: "spend j s s' \<Longrightarrow> short k s' \<Longrightarrow> short (j + k) s"
begin

lemma run_or_short:
  assumes "rel s a" "ops_ok ok spec ops a"
  shows "(\<exists>msg. run_ops step ops s = Some (Inl (Panic msg))) \<and> short (sum_list (map cost ops)) s \<or>
    (\<exists>s'. run_ops step ops s = Some (Inr s') \<and> rel s' (fold spec ops a))"
  using assms
proof (induction ops arbitrary: s a)
  case (Cons op ops)
  then have ok: "ok op a" "ops_ok ok spec ops (spec op a)" by simp_all
  from step_or_short[OF Cons.prems(1) ok(1)] show ?case
  proof (elim disjE exE conjE)
    fix msg assume "step op s = Some (Inl (Panic msg))" "short (cost op) s"
    then show ?thesis using short_mono[of "cost op" s] by simp
  next
    fix s1 assume s1: "step op s = Some (Inr s1)" "rel s1 (spec op a)" "spend (cost op) s s1"
    from Cons.IH[OF s1(2) ok(2)] show ?thesis using s1(1) short_after[OF s1(3)] by auto
  qed
qed simp

end

sublocale stepwise_refinement \<subseteq> free: costed_refinement rel step spec ok "\<lambda>_. 0" "\<lambda>_ _. False" "\<lambda>_ _ _. True"
  by unfold_locales (use step_refines in auto)

datatype queue_op = Enqueue addr | Dequeue

fun queue_step :: "addr \<Rightarrow> queue_op \<Rightarrow> 'a kheap_state_scheme \<Rightarrow> 'a kheap_state_scheme kres option" where
  "queue_step q (Enqueue src) st = queue_enqueue q src st"
| "queue_step q Dequeue st = Some (queue_dequeue q st)"

fun fifo_step :: "(addr \<Rightarrow> 'e) \<Rightarrow> queue_op \<Rightarrow> 'e list \<Rightarrow> 'e list" where
  "fifo_step D (Enqueue src) xs = D src # xs"
| "fifo_step D Dequeue xs = butlast xs"

fun queue_op_ok :: "addr set \<Rightarrow> queue_op \<Rightarrow> 'e list \<Rightarrow> bool" where
  "queue_op_ok P (Enqueue src) xs \<longleftrightarrow> src \<in> P"
| "queue_op_ok P Dequeue xs \<longleftrightarrow> length xs \<noteq> 1"

fun queue_cost :: "nat \<Rightarrow> queue_op \<Rightarrow> nat" where
  "queue_cost ds (Enqueue src) = 1 + heap_pages ds"
| "queue_cost ds Dequeue = 0"

text \<open>A queue together with places outside the heap, of which \<open>D\<close> gives the contents.\<close>

definition low_place :: "'a kheap_state_scheme \<Rightarrow> addr \<Rightarrow> nat \<Rightarrow> bool" where
  "low_place st a n \<longleftrightarrow> n \<le> 2 ^ 64 \<and> (\<forall>x. in_region a n x \<longrightarrow> above_phys st x \<and> unat x < unat (kheap_max st))"

definition queue_sim :: "addr \<Rightarrow> nat \<Rightarrow> addr set \<Rightarrow> (addr \<Rightarrow> byte list) \<Rightarrow> 'a kheap_state_scheme \<Rightarrow> byte list list \<Rightarrow> bool" where
  "queue_sim q ds P D st xs \<longleftrightarrow> (\<exists>U ps. queue_rel st U q ds ps xs) \<and> (\<forall>p\<in>P. low_place st p ds \<and> bytes_at (kmem st) p ds = D p)"

lemma low_place_step:
  assumes "low_place st a n" "spares k st st'"
  shows "low_place st' a n" "bytes_at (kmem st') a n = bytes_at (kmem st) a n"
proof -
  have same: "kmem st' x = kmem st x" if "in_region a n x" for x using assms that by (simp add: low_place_def spares_def)
  show "low_place st' a n" using assms by (simp add: low_place_def spares_def)
  show "bytes_at (kmem st') a n = bytes_at (kmem st) a n" by (rule bytes_at_cong[OF same]) (use assms(1) in \<open>simp_all add: low_place_def\<close>)
qed

lemma queue_sim_step:
  assumes "queue_sim q ds P D st xs" "spares k st st'" "queue_rel st' U q ds ps ys"
  shows "queue_sim q ds P D st' ys"
  using assms low_place_step[OF _ assms(2)] unfolding queue_sim_def by fastforce

lemma queue_step_refines:
  assumes sim: "queue_sim q ds P D st xs" and ok: "queue_op_ok P op xs"
  shows "(\<exists>msg. queue_step q op st = Some (Inl (Panic msg))) \<and> short_of (queue_cost ds op) st \<or>
    (\<exists>st'. queue_step q op st = Some (Inr st') \<and> queue_sim q ds P D st' (fifo_step D op xs) \<and> spares (queue_cost ds op) st st')"
proof -
  obtain U ps where rel: "queue_rel st U q ds ps xs" using sim by (auto simp: queue_sim_def)
  show ?thesis
  proof (cases op)
    case (Enqueue src)
    then have src: "low_place st src ds" "bytes_at (kmem st) src ds = D src" using sim ok by (auto simp: queue_sim_def)
    then have "settled st U src ds" by (simp add: settled_def low_place_def)
    then show ?thesis
    proof (rule queue_enqueue_rel[OF rel])
      fix msg assume "queue_enqueue q src st = Some (Inl (Panic msg))" "short_of (1 + heap_pages ds) st"
      then show ?thesis using Enqueue by simp
    next
      fix n d U' st' assume a: "queue_enqueue q src st = Some (Inr st')"
        "queue_rel st' U' q ds ((n, d) # ps) (bytes_at (kmem st) src ds # xs)" "spares (1 + heap_pages ds) st st'"
      from queue_sim_step[OF sim a(3,2)] show ?thesis using a(1,3) src(2) Enqueue by simp
    qed
  next
    case Dequeue
    have len: "length xs = length ps" using queue_relD(9)[OF rel] by simp
    show ?thesis
    proof (cases ps rule: rev_cases)
      case Nil
      have "queue_sim q ds P D (log_msg l s st) xs" for l s
        by (rule queue_sim_step[OF sim, of 0]) (use rel spares_log(2)[of 0 st l s st] in simp_all)
      then show ?thesis using queue_empty_dequeue[of st U q ds xs] rel Nil len Dequeue spares_log(2)[of 0 st _ _ st] by simp
    next
      case (snoc ps' p)
      then have ne: "ps' \<noteq> []" using ok Dequeue len by auto
      have rel': "queue_rel st U q ds (ps' @ [(fst p, snd p)]) xs" using rel snoc by simp
      obtain st' where st': "queue_dequeue q st = Inr st'" "queue_rel st' (U(fst p := None)) q ds ps' (butlast xs)" "spares 0 st st'"
        by (rule queue_dequeue_rel[OF rel' ne])
      from queue_sim_step[OF sim st'(3,2)] show ?thesis using st'(1,3) Dequeue by simp
    qed
  qed
qed

interpretation queue: costed_refinement "queue_sim q ds P D" "queue_step q" "fifo_step D" "queue_op_ok P" "queue_cost ds" short_of spares
  for q ds P D
proof unfold_locales
  show "spares j s s' \<Longrightarrow> short_of k s' \<Longrightarrow> short_of (j + k) s" for j k and s s' :: "'a kheap_state_scheme"
    by (auto simp: spares_def short_of_def)
  show "short_of j s \<Longrightarrow> j \<le> k \<Longrightarrow> short_of k s" for j k and s :: "'a kheap_state_scheme"
    by (auto simp: short_of_def)
qed (rule queue_step_refines)

section \<open>Properties\<close>

text \<open>C21. A queue that is never emptied again behaves as a first-in first-out list: a sequence of \<open>queue_enqueue\<close> and
  \<open>queue_dequeue\<close> calls in which no \<open>queue_dequeue\<close> takes the only element either panics, which it does only if
  the frames or the address space do not suffice for its allocations (one page for each node and the pages of each
  element), or leads to the list that the list operations give, whatever the allocator does in between; then
  \<open>queue_front\<close> and \<open>queue_back\<close> point to the oldest and to the newest element, or return NULL for an empty queue.\<close>

theorem queue_refines_fifo:
  assumes "queue_sim q ds P D st xs" "ops_ok (queue_op_ok P) (fifo_step D) ops xs"
  shows "(\<exists>msg. run_ops (queue_step q) ops st = Some (Inl (Panic msg))) \<and> short_of (sum_list (map (queue_cost ds) ops)) st \<or>
    (\<exists>st' ys. run_ops (queue_step q) ops st = Some (Inr st') \<and> ys = fold (fifo_step D) ops xs \<and> queue_sim q ds P D st' ys \<and>
       (if ys = [] then queue_front q st' = Inr (0, st') \<and> queue_back q st' = Inr (0, st')
        else (\<exists>a. queue_front q st' = Inr (a, st') \<and> a \<noteq> 0 \<and> bytes_at (kmem st') a ds = last ys) \<and>
             (\<exists>a. queue_back q st' = Inr (a, st') \<and> a \<noteq> 0 \<and> bytes_at (kmem st') a ds = hd ys)))"
  using queue.run_or_short[OF assms]
proof (elim disjE)
  assume "\<exists>st'. run_ops (queue_step q) ops st = Some (Inr st') \<and> queue_sim q ds P D st' (fold (fifo_step D) ops xs)"
  then obtain st' where st': "run_ops (queue_step q) ops st = Some (Inr st')" "queue_sim q ds P D st' (fold (fifo_step D) ops xs)" by blast
  then obtain U ps where "queue_rel st' U q ds ps (fold (fifo_step D) ops xs)" by (auto simp: queue_sim_def)
  from queue_ends_rel[OF this] show ?thesis using st' by blast
qed simp

text \<open>A new queue on the small machine, and two places to take elements from.\<close>

lemma demo_queue:
  fixes f :: mem
  obtains st :: kheap_state and q where "queue_sim q 8 {0x2000000, 0x2000100} (\<lambda>p. bytes_at f p 8) st []"
    "11 \<le> avail st + 4" "unat (kheap_top st) + 4096 \<ge> 2 ^ 64 - 4096" "kheap_max st = 0xffffffff80203000"
proof -
  obtain st :: kheap_state where d: "heap_rel st Map.empty" "11 \<le> avail st" "unat (kheap_top st) = 2 ^ 64 - 4096"
    "kheap_max st = 0xffffffff80203000" "\<forall>x. 0x2000000 \<le> unat x \<longrightarrow> above_phys st x"
    "\<forall>x. 0x2000000 \<le> unat x \<and> unat x < unat (0xffffffff80203000 :: u64) \<longrightarrow> kmem st x = f x"
    by (rule demo_program[of "()" f]) simp
  have low: "low_place st p 8" "bytes_at (kmem st) p 8 = bytes_at f p 8" if "p = 0x2000000 \<or> p = 0x2000100" for p
  proof -
    have x: "0x2000000 \<le> unat x \<and> unat x < unat (0xffffffff80203000 :: u64)" if "in_region p 8 x" for x
      using that \<open>p = 0x2000000 \<or> p = 0x2000100\<close> in_region_unat[of p 8 x] by auto
    then show "low_place st p 8" using d(4,5) by (simp add: low_place_def)
    show "bytes_at (kmem st) p 8 = bytes_at f p 8" by (rule bytes_at_cong) (use x d(6) in auto)
  qed
  show thesis
  proof (rule queue_create_rel[OF d(1), of 8])
    fix msg assume "short_of 1 st"
    then show thesis using d(2-4) by (simp add: short_of_def)
  next
    fix q k st' assume a: "queue_rel st' ([q \<mapsto> k]) q (unat (8 :: u64)) [] []" "spares 1 st st'"
    have "low_place st' p 8 \<and> bytes_at (kmem st') p 8 = bytes_at f p 8" if "p \<in> {0x2000000, 0x2000100}" for p
      using low_place_step[OF low(1) a(2), of p] low(2)[of p] that by auto
    moreover have "queue_rel st' [q \<mapsto> k] q 8 [] []" using a(1) by simp
    ultimately have "queue_sim q 8 {0x2000000, 0x2000100} (\<lambda>p. bytes_at f p 8) st' []" unfolding queue_sim_def by blast
    then show thesis using that a(2) d(2-4) by (auto simp: spares_def)
  qed simp_all
qed

theorem queue_refines_fifo_witness:
  "\<exists>(st :: kheap_state) q r. run_ops (queue_step q) [Enqueue 0x2000000, Enqueue 0x2000100, Dequeue] st = Some r"
proof -
  obtain st :: kheap_state and q where s: "queue_sim q 8 {0x2000000, 0x2000100} (\<lambda>p. bytes_at (\<lambda>_. 0) p 8) st []"
    by (rule demo_queue[of "\<lambda>_. 0"])
  have "\<exists>r. run_ops (queue_step q) [Enqueue 0x2000000, Enqueue 0x2000100, Dequeue] st = Some r"
    using queue_refines_fifo[OF s, of "[Enqueue 0x2000000, Enqueue 0x2000100, Dequeue]"] by (simp del: run_ops.simps) blast
  then show ?thesis by blast
qed

text \<open>C22. The life of a queue: \<open>queue_create\<close> panics only for want of one page or returns an empty queue in a new area;
  \<open>queue_destroy\<close> returns for any queue, however long, and gives back exactly its areas: the structure, the nodes and
  the elements. The contents of all other areas stay.\<close>

theorem queue_create_destroy:
  assumes "heap_rel st U" "data_size \<noteq> 0" "unat data_size \<le> 2 ^ 61" "queue_rel st' U' q ds ps xs"
  shows "((\<exists>msg. queue_create data_size st = Some (Inl (Panic msg))) \<and> short_of 1 st \<or>
     (\<exists>r k s. queue_create data_size st = Some (Inr (r, s)) \<and> U r = None \<and> queue_rel s (U(r \<mapsto> k)) r (unat data_size) [] [] \<and> keeps U (kmem st) (kmem s))) \<and>
    (\<exists>s. queue_destroy q st' = Some (Inr s) \<and> heap_rel s (U' |` (- queue_areas q ps)) \<and> keeps (U' |` (- queue_areas q ps)) (kmem st') (kmem s))"
proof
  show "(\<exists>msg. queue_create data_size st = Some (Inl (Panic msg))) \<and> short_of 1 st \<or>
     (\<exists>r k s. queue_create data_size st = Some (Inr (r, s)) \<and> U r = None \<and> queue_rel s (U(r \<mapsto> k)) r (unat data_size) [] [] \<and> keeps U (kmem st) (kmem s))"
    by (rule queue_create_rel[OF assms(1-3)]) blast+
  show "\<exists>s. queue_destroy q st' = Some (Inr s) \<and> heap_rel s (U' |` (- queue_areas q ps)) \<and> keeps (U' |` (- queue_areas q ps)) (kmem st') (kmem s)"
    by (rule queue_destroy_rel[OF assms(4)]) blast
qed

theorem queue_create_destroy_witness:
  "\<exists>(st :: kheap_state) q s. queue_destroy q st = Some (Inr s)"
proof -
  obtain s0 :: kheap_state and q where "queue_sim q 8 {0x2000000, 0x2000100} (\<lambda>p. bytes_at (\<lambda>_. 0) p 8) s0 []"
    by (rule demo_queue[of "\<lambda>_. 0"])
  then obtain U ps where r: "queue_rel s0 U q 8 ps []" by (auto simp: queue_sim_def)
  show ?thesis using queue_create_destroy[OF queue_relD(1)[OF r] _ _ r, of 8] by auto
qed


text \<open>A queue with one element on the small machine.\<close>

lemma demo_queue_one:
  obtains st :: kheap_state and U q n d where "queue_rel st U q 8 [(n, d)] [bytes_at (kmem st) d 8]"
proof -
  obtain st :: kheap_state where d: "heap_rel st Map.empty" "unat (kheap_top st) = 2 ^ 64 - 4096" by (rule demo_heap)
  obtain b where b: "kheap_wf st [b] [b]" "unat (fld (kmem st) Size b) = 4056"
    by (rule empty_heap_block[OF d(1)]) (use d(2) in auto)
  have al: "ALIGN_UP 32 8 = 32" "ALIGN_UP 24 8 = 24" "ALIGN_UP 8 8 = 8" by (simp_all add: ALIGN_UP_def)
  obtain q st1 bs1 where v: "kmalloc 32 st = Some (Inr (q, st1))" "kheap_wf st1 bs1 [b]"
    "live (kmem st1) bs1 [b] = (live (kmem st) [b] [b])(q \<mapsto> unat (32 :: u64))" "live (kmem st) [b] [b] q = None"
    "keeps (live (kmem st) [b] [b]) (kmem st) (kmem st1)"
    "unat (fld (kmem st1) Size b) = unat (fld (kmem st) Size b) - unat (32 :: u64) - 40"
    by (rule kmalloc_first_block[OF b(1) _ al(1)]) (use b(2)  in auto)
  obtain n st2 bs2 where w: "kmalloc 24 st1 = Some (Inr (n, st2))" "kheap_wf st2 bs2 [b]"
    "live (kmem st2) bs2 [b] = (live (kmem st1) bs1 [b])(n \<mapsto> unat (24 :: u64))" "live (kmem st1) bs1 [b] n = None"
    "keeps (live (kmem st1) bs1 [b]) (kmem st1) (kmem st2)"
    "unat (fld (kmem st2) Size b) = unat (fld (kmem st1) Size b) - unat (24 :: u64) - 40"
    by (rule kmalloc_first_block[OF v(2) _ al(2)]) (use b(2) v(6) in auto)
  obtain e st3 bs3 where x: "kmalloc 8 st2 = Some (Inr (e, st3))" "kheap_wf st3 bs3 [b]"
    "live (kmem st3) bs3 [b] = (live (kmem st2) bs2 [b])(e \<mapsto> unat (8 :: u64))" "live (kmem st2) bs2 [b] e = None"
    "keeps (live (kmem st2) bs2 [b]) (kmem st2) (kmem st3)"
    "unat (fld (kmem st3) Size b) = unat (fld (kmem st2) Size b) - unat (8 :: u64) - 40"
    by (rule kmalloc_first_block[OF w(2) _ al(3)]) (use b(2) v(6) w(6) in auto)
  define U where "U = live (kmem st3) bs3 [b]"
  have rel: "heap_rel st3 U" using heap_relI[OF x(2)] by (simp add: U_def)
  have U: "U q = Some 32" "U n = Some 24" "U e = Some 8" "q \<noteq> n" "q \<noteq> e" "n \<noteq> e"
    using v(3) w(3,4) x(3,4) unfolding U_def by (auto split: if_splits)
  have ar: "has_area U q (8 * i + 8)" if "i < 4" for i using U(1) that by (simp add: has_area_def)
  have an: "has_area U n (8 * i + 8)" if "i < 3" for i using U(2) that by (simp add: has_area_def)
  define put where "put p i v s = s\<lparr>kmem := put_cell (kmem s) p i v\<rparr>" for p i v and s :: kheap_state
  have wp: "works st3 U {q, n} (put p i v s)" if "works st3 U {q, n} s" "p = q \<and> i < 4 \<or> p = n \<and> i < 3" for s p i v
    unfolding put_def by (rule works_put[OF that(1)]) (use that(2) ar an in auto)
  have cell: "cell (kmem (put p i v s)) p' j = (if p = p' \<and> i = j then v else cell (kmem s) p' j)"
    if "p = q \<and> i < 4 \<or> p = n \<and> i < 3" "p' = q \<and> j < 4 \<or> p' = n \<and> j < 3" for p p' i j v s
    using cell_put_cell[OF rel, of p i p' j] that ar an by (auto simp: put_def)
  define st4 where "st4 = put n 2 e (put n 1 0 (put n 0 0 (put q 3 1 (put q 2 8 (put q 1 n (put q 0 n st3))))))"
  have "works st3 U {q, n} st4" unfolding st4_def by (intro wp works_refl[OF rel]) simp_all
  moreover have "queue_fields (kmem st4) q 8 [n]" "qchain (kmem st4) 0 [n]" "cell (kmem st4) n 2 = e"
    using U(4) by (simp_all add: queue_fields_def st4_def cell)
  ultimately have "queue_rel st4 U q 8 [(n, e)] [bytes_at (kmem st4) e 8]"
    using U by (simp add: queue_rel_def queue_node_def has_area_def works_def)
  then show thesis by (rule that)
qed


end
