(* ===== verification/Pmm_Init.thy ===== *)
theory Pmm_Init
  imports Pmm
begin

text \<open>
  The start of the physical memory manager: from a memory map as the boot loader's protocol promises it,
  \<open>pmm_init\<close> builds the state that \<open>pmm_alloc\<close> and \<open>pmm_free\<close> work on, in which exactly the frames
  of the usable entries are free.
\<close>

section \<open>Memory maps\<close>

abbreviation entry_end :: "mmap_entry \<Rightarrow> nat" where
  "entry_end e \<equiv> unat (base e) + unat (len e)"

abbreviation usable :: "mmap_entry \<Rightarrow> bool" where
  "usable e \<equiv> kind e = MEM_USABLE"

text \<open>The numbers of the frames of an entry.\<close>

definition entry_frames :: "mmap_entry \<Rightarrow> nat set" where
  "entry_frames e = {unat (base e) div 4096 ..< entry_end e div 4096}"

definition usable_frames :: "mmap_entry list \<Rightarrow> nat set" where
  "usable_frames es = (\<Union>e \<in> {e \<in> set es. usable e}. entry_frames e)"

lemma usable_frames_simps [simp]:
  "usable_frames [] = {}"
  "usable_frames (e # es) = (if usable e then entry_frames e else {}) \<union> usable_frames es"
  by (auto simp: usable_frames_def)

text \<open>What the stivale2 protocol promises: the entries are sorted by base, usable ones are page aligned and
  overlap no other entry; the end of each entry is an address.\<close>

fun memmap_ok :: "mmap_entry list \<Rightarrow> bool" where
  "memmap_ok [] \<longleftrightarrow> True"
| "memmap_ok (e # es) \<longleftrightarrow>
     entry_end e < 2 ^ 64 \<and> (usable e \<longrightarrow> unat (base e) mod 4096 = 0 \<and> unat (len e) mod 4096 = 0) \<and>
     (\<forall>e' \<in> set es. unat (base e) \<le> unat (base e') \<and> (usable e \<longrightarrow> entry_end e \<le> unat (base e'))) \<and> memmap_ok es"

lemma memmap_ok_last:
  "memmap_ok es \<Longrightarrow> e \<in> set es \<Longrightarrow> usable e \<Longrightarrow> entry_end e \<le> entry_end (last es)"
  by (induction es) (fastforce dest: last_in_set)+

section \<open>One run of pages\<close>

text \<open>The state after the frames \<open>F\<close> have been freed.\<close>

definition freed :: "nat set \<Rightarrow> 'a pmm_state_scheme \<Rightarrow> bool" where
  "freed F st \<longleftrightarrow>
     pmm_wf st \<and> zone_base st 0 = 0 \<and> zone_base st 1 = 4096 * 4096 \<and> num_pages st 0 = 4096 \<and>
     4096 * 4096 \<le> unat (mem_size st) \<and> num_pages st 1 = unat (mem_size st) div 4096 - 4096 \<and>
     (\<forall>z < PMM_NUM_ZONES. zone_accounts st z \<and>
        (\<forall>k < num_pages st z. (page_used st z k \<longleftrightarrow> z * 4096 + k \<notin> F) \<and>
           (z * 4096 + k \<in> F \<longrightarrow> unat (first_free_idx (mem_zone st ! z)) \<le> k)))"

text \<open>What the step that frees frames leaves alone.\<close>

definition init_frame :: "'a pmm_state_scheme \<Rightarrow> 'a pmm_state_scheme \<Rightarrow> bool" where
  "init_frame st st' \<longleftrightarrow>
     mem_size st' = mem_size st \<and> pmm_state.more st' = pmm_state.more st \<and> length (mem_zone st') = length (mem_zone st) \<and>
     (\<forall>z < PMM_NUM_ZONES. bitmap (mem_zone st' ! z) = bitmap (mem_zone st ! z) \<and> offset (mem_zone st' ! z) = offset (mem_zone st ! z)) \<and>
     (\<forall>x. (\<forall>z < PMM_NUM_ZONES. \<not> bitmap_region (bitmap (mem_zone st ! z)) x) \<longrightarrow> kmem st' x = kmem st x)"

lemma init_frame_trans: "init_frame a b \<Longrightarrow> init_frame b c \<Longrightarrow> init_frame a c"
  by (simp add: init_frame_def)

lemma init_frame_refl [simp]: "init_frame st st"
  by (simp add: init_frame_def)

lemma pmm_free_chunk_eq:
  assumes "z < length (mem_zone st)"
  shows "pmm_free_chunk st z idx num =
    Inr (update_zone z (\<lambda>zn. zn\<lparr>mem_free := mem_free zn + num * PAGE_SIZE, mem_used := mem_used zn - num * PAGE_SIZE,
           first_free_idx := (if idx < first_free_idx zn then idx else first_free_idx zn)\<rparr>)
         (st\<lparr>kmem := bitmap_clear_range (bitmap (mem_zone st ! z)) (kmem st) idx num\<rparr>))"
  using assms by (cases "mem_zone st ! z") (simp add: pmm_free_chunk_def pmm_set_unused_def update_zone_def)

text \<open>Inside a zone it is what \<open>pmm_free\<close> does.\<close>

lemma pmm_free_chunk_is_free:
  assumes "pmm_wf st" "z < PMM_NUM_ZONES" "unat idx < num_pages st z"
  shows "pmm_free_chunk st z idx num = pmm_free st (offset (mem_zone st ! z) + PAGE_SIZE * idx) num"
proof -
  let ?a = "offset (mem_zone st ! z) + PAGE_SIZE * idx"
  note a = unat_frame_addr[OF assms]
  have "(?a - offset (mem_zone st ! z)) div PAGE_SIZE = idx"
    using pmm_free_eq(1)[OF assms a] by (simp add: word_unat_eq_iff)
  from pmm_free_eq(2)[OF assms a, of num, unfolded this] show ?thesis using assms(1,2) by (simp only: pmm_free_chunk_eq pmm_wf_length)
qed

lemma pmm_free_chunk_freed:
  assumes inv: "freed F st" and z: "z < PMM_NUM_ZONES" and range: "unat idx + unat num \<le> num_pages st z"
    and new: "\<forall>f \<in> F. f < z * 4096 + unat idx"
  obtains st' where "pmm_free_chunk st z idx num = Inr st'" "init_frame st st'"
    "freed (F \<union> {z * 4096 + unat idx ..< z * 4096 + unat idx + unat num}) st'"
proof -
  have wf: "pmm_wf st" using inv by (simp add: freed_def)
  have zl: "z < length (mem_zone st)" using wf z by simp
  define st' where "st' = update_zone z (\<lambda>zn. zn\<lparr>mem_free := mem_free zn + num * PAGE_SIZE, mem_used := mem_used zn - num * PAGE_SIZE,
           first_free_idx := (if idx < first_free_idx zn then idx else first_free_idx zn)\<rparr>)
         (st\<lparr>kmem := bitmap_clear_range (bitmap (mem_zone st ! z)) (kmem st) idx num\<rparr>)"
  have eq: "pmm_free_chunk st z idx num = Inr st'" unfolding st'_def by (rule pmm_free_chunk_eq[OF zl])
  have np: "num_pages st' y = num_pages st y" and zb: "zone_base st' y = zone_base st y"
    and bm: "bitmap (mem_zone st' ! y) = bitmap (mem_zone st ! y)" and off: "offset (mem_zone st' ! y) = offset (mem_zone st ! y)" for y
    using zl by (cases "y = z"; simp add: st'_def zone_base_def num_pages_def)+
  have out: "kmem st' x = kmem st x" if "\<not> bitmap_region (bitmap (mem_zone st ! z)) x" for x
    using that range by (simp add: st'_def num_pages_def bitmap_range_outside)
  have frame: "init_frame st st'"
    using z out bm off by (auto simp: init_frame_def) (simp_all add: st'_def update_zone_def)
  have wf': "pmm_wf st'" using wf by (simp add: pmm_wf_def np zb bm) (simp add: st'_def)
  have used: "page_used st' y k \<longleftrightarrow> page_used st y k \<and> \<not> (y = z \<and> unat idx \<le> k \<and> k < unat idx + unat num)"
    if "y < PMM_NUM_ZONES" "k < num_pages st y" for y k
    using bit_at_range(2)[OF wf z that range] by (simp add: page_used_def bm) (simp add: st'_def)
  have ff: "unat (first_free_idx (mem_zone st' ! y)) =
      (if y = z then min (unat idx) (unat (first_free_idx (mem_zone st ! y))) else unat (first_free_idx (mem_zone st ! y)))" for y
    using zl by (auto simp: st'_def word_less_nat_alt)
  let ?F = "F \<union> {z * 4096 + unat idx ..< z * 4096 + unat idx + unat num}"
  have "zone_accounts st' y" if "y < PMM_NUM_ZONES" for y
  proof (cases "num = 0")
    case True
    then have "mem_free (mem_zone st' ! y) = mem_free (mem_zone st ! y)" "mem_used (mem_zone st' ! y) = mem_used (mem_zone st ! y)"
      "mem_total (mem_zone st' ! y) = mem_total (mem_zone st ! y)"
      using zl by (cases "y = z"; simp add: st'_def)+
    moreover have "free_pages st' y = free_pages st y"
      using used[OF that] True by (auto simp: free_pages_def np)
    ultimately show ?thesis using inv that by (simp add: freed_def zone_accounts_def)
  next
    case False
    then have "0 < unat num" by (simp add: unat_gt_0)
    then have i: "unat idx < num_pages st z" using range by linarith
    have all: "\<forall>k. unat idx \<le> k \<and> k < unat idx + unat num \<longrightarrow> page_used st z k"
    proof (intro allI impI)
      fix k assume k: "unat idx \<le> k \<and> k < unat idx + unat num"
      then have "z * 4096 + k \<notin> F" "k < num_pages st z" using new range by (auto dest: bspec)
      then show "page_used st z k" using inv z by (simp add: freed_def)
    qed
    show ?thesis
      by (rule pmm_free_accounts[OF wf z False range all unat_frame_addr[OF wf z i] _ that])
        (use eq pmm_free_chunk_is_free[OF wf z i] inv that in \<open>simp_all add: freed_def\<close>)
  qed
  moreover have "page_used st' y k \<longleftrightarrow> y * 4096 + k \<notin> ?F" "y * 4096 + k \<in> ?F \<longrightarrow> unat (first_free_idx (mem_zone st' ! y)) \<le> k"
    if y: "y < PMM_NUM_ZONES" "k < num_pages st y" for y k
  proof -
    have o: "page_used st y k \<longleftrightarrow> y * 4096 + k \<notin> F" "y * 4096 + k \<in> F \<longrightarrow> unat (first_free_idx (mem_zone st ! y)) \<le> k"
      "num_pages st 0 = 4096" using inv y by (simp_all add: freed_def)
    have in_new: "y * 4096 + k \<in> {z * 4096 + unat idx ..< z * 4096 + unat idx + unat num} \<longleftrightarrow>
        y = z \<and> unat idx \<le> k \<and> k < unat idx + unat num"
      using y z range o(3) by (auto simp: two_zones)
    show "page_used st' y k \<longleftrightarrow> y * 4096 + k \<notin> ?F" using used[OF y] o(1) in_new by blast
    show "y * 4096 + k \<in> ?F \<longrightarrow> unat (first_free_idx (mem_zone st' ! y)) \<le> k"
      using ff[of y] o(2) in_new by auto
  qed
  moreover have "mem_size st' = mem_size st" using frame by (simp add: init_frame_def)
  ultimately have "freed ?F st'" using inv wf' by (simp add: freed_def np zb)
  then show thesis using eq frame that by blast
qed

section \<open>One entry\<close>

lemma freedD:
  assumes "freed F st"
  shows "pmm_wf st" "length (mem_zone st) = 2" "unat (offset (mem_zone st ! 0)) = 0" "unat (offset (mem_zone st ! 1)) = 4096 * 4096"
    "num_pages st 0 = 4096" "num_pages st 1 = unat (mem_size st) div 4096 - 4096" "4096 * 4096 \<le> unat (mem_size st)"
  using assms by (simp_all add: freed_def zone_base_def PMM_NUM_ZONES_def pmm_wf_def)

text \<open>The numbers of pages that the source computes from addresses.\<close>

lemma unat_pages_between:
  assumes "unat (b :: u64) \<le> unat a"
  shows "unat ((a - b) div PAGE_SIZE) = (unat a - unat b) div 4096"
  using assms by (simp add: unat_div unat_sub word_le_nat_alt PAGE_SIZE_eq)

lemma unat_MIN: "unat (MIN_u64 a b) = min (unat a) (unat b)"
  by (auto simp: MIN_u64_def word_less_nat_alt)

lemma page_count: "a mod 4096 = 0 \<Longrightarrow> a \<le> b \<Longrightarrow> (b - a) div 4096 = b div 4096 - a div 4096" for a b :: nat
  by (auto simp: mod_eq_0_iff_dvd elim!: dvdE)

text \<open>A run of pages of one zone, given by its addresses.\<close>

lemma pmm_free_chunk_addrs:
  assumes inv: "freed F st" and z: "z < PMM_NUM_ZONES" and s: "unat s mod 4096 = 0" "z * 4096 \<le> unat s div 4096"
    and e: "unat s \<le> unat e" "unat e div 4096 \<le> z * 4096 + num_pages st z" and new: "\<forall>f \<in> F. f < unat s div 4096"
  obtains st' where "pmm_free_chunk st z ((s - offset (mem_zone st ! z)) div PAGE_SIZE) ((e - s) div PAGE_SIZE) = Inr st'"
    "init_frame st st'" "freed (F \<union> {unat s div 4096 ..< unat e div 4096}) st'"
proof -
  note d = freedD[OF inv]
  have off: "unat (offset (mem_zone st ! z)) = 4096 * (z * 4096)" using d(3,4) z by (auto simp: two_zones)
  have idx: "unat ((s - offset (mem_zone st ! z)) div PAGE_SIZE) = unat s div 4096 - z * 4096"
    using s unat_pages_between[of "offset (mem_zone st ! z)" s] page_count[of "4096 * (z * 4096)" "unat s"] unfolding off by auto
  have num: "unat ((e - s) div PAGE_SIZE) = unat e div 4096 - unat s div 4096"
    using unat_pages_between[OF e(1)] page_count[OF s(1) e(1)] by simp
  have le: "unat s div 4096 \<le> unat e div 4096" using e(1) by (rule div_le_mono)
  have r: "unat s div 4096 - z * 4096 + (unat e div 4096 - unat s div 4096) \<le> num_pages st z"
    using e(2) s(2) le by linarith
  have sets: "z * 4096 + (unat s div 4096 - z * 4096) = unat s div 4096"
    "unat s div 4096 + (unat e div 4096 - unat s div 4096) = unat e div 4096"
    using s(2) le by simp_all
  obtain st' where "pmm_free_chunk st z ((s - offset (mem_zone st ! z)) div PAGE_SIZE) ((e - s) div PAGE_SIZE) = Inr st'"
    "init_frame st st'" "freed (F \<union> {unat s div 4096 ..< unat e div 4096}) st'"
    by (rule pmm_free_chunk_freed[OF inv z, of "(s - offset (mem_zone st ! z)) div PAGE_SIZE" "(e - s) div PAGE_SIZE", unfolded idx num sets, OF r new])
  then show thesis by (rule that)
qed

lemma pmm_free_entry_step:
  assumes "pmm_free_chunk st z ((s - zs) div PAGE_SIZE) ((MIN_u64 e ze - s) div PAGE_SIZE) = Inr st'"
  shows "pmm_free_entry st z zs ze s e =
    (if e \<le> ze then Inr (z, st')
     else pmm_free_entry st' (z + 1)
       (if z + 1 + 1 > PMM_NUM_ZONES then mem_size st' else offset (mem_zone st' ! (z + 1)))
       (if z + 1 + 1 \<ge> PMM_NUM_ZONES then mem_size st' else offset (mem_zone st' ! (z + 1 + 1)))
       (MIN_u64 ze e) e)"
  using assms by (subst pmm_free_entry.simps) simp

lemma pmm_seek_zone_1:
  assumes "freed F st" "unat s \<le> unat (mem_size st)"
  shows "pmm_seek_zone st 1 s = Inr (1, offset (mem_zone st ! 1), mem_size st)"
  using freedD[OF assms(1)] assms(2)
  by (simp add: pmm_seek_zone.simps zone_start_def zone_end_def PMM_NUM_ZONES_def word_less_nat_alt)

lemma pmm_seek_zone_0:
  assumes "freed F st" "unat s \<le> unat (mem_size st)"
  shows "pmm_seek_zone st 0 s =
    (if 4096 * 4096 < unat s then Inr (1, offset (mem_zone st ! 1), mem_size st)
     else Inr (0, offset (mem_zone st ! 0), offset (mem_zone st ! 1)))"
proof -
  have "pmm_seek_zone st 0 s = (if 4096 * 4096 < unat s then pmm_seek_zone st 1 s else Inr (0, offset (mem_zone st ! 0), offset (mem_zone st ! 1)))"
    using freedD[OF assms(1)]
    by (subst pmm_seek_zone.simps) (simp add: zone_start_def zone_end_def PMM_NUM_ZONES_def word_less_nat_alt)
  then show ?thesis using pmm_seek_zone_1[OF assms] by simp
qed

text \<open>The part of an entry in the upper zone, and the whole of an entry that starts in the lower one.\<close>

lemma pmm_free_entry_1:
  assumes inv: "freed F st" and s: "unat s mod 4096 = 0" "4096 * 4096 \<le> unat s" and e: "unat s \<le> unat e" "unat e \<le> unat (mem_size st)"
    and new: "\<forall>f \<in> F. f < unat s div 4096"
  obtains st' where "pmm_free_entry st 1 (offset (mem_zone st ! 1)) (mem_size st) s e = Inr (1, st')"
    "init_frame st st'" "freed (F \<union> {unat s div 4096 ..< unat e div 4096}) st'"
proof -
  note d = freedD[OF inv]
  have m: "MIN_u64 e (mem_size st) = e" using e(2) by (auto simp: MIN_u64_def word_less_nat_alt word_unat_eq_iff)
  have "unat e div 4096 \<le> unat (mem_size st) div 4096" using e(2) by (rule div_le_mono)
  then have pr: "1 * 4096 \<le> unat s div 4096" "unat e div 4096 \<le> 1 * 4096 + num_pages st 1"
    using s(2) d(6,7) by auto
  obtain st' where st': "pmm_free_chunk st 1 ((s - offset (mem_zone st ! 1)) div PAGE_SIZE) ((e - s) div PAGE_SIZE) = Inr st'"
    "init_frame st st'" "freed (F \<union> {unat s div 4096 ..< unat e div 4096}) st'"
    by (rule pmm_free_chunk_addrs[OF inv _ s(1) pr(1) e(1) pr(2) new]) (simp add: PMM_NUM_ZONES_def)
  then show thesis using that[of st'] e(2) pmm_free_entry_step[of st 1 s _ e "mem_size st" st', unfolded m] by (simp add: word_le_nat_alt)
qed

lemma pmm_free_entry_0:
  assumes inv: "freed F st" and s: "unat s mod 4096 = 0" "unat s \<le> 4096 * 4096" and e: "unat s \<le> unat e" "unat e \<le> unat (mem_size st)"
    and new: "\<forall>f \<in> F. f < unat s div 4096"
  obtains z st' where "pmm_free_entry st 0 (offset (mem_zone st ! 0)) (offset (mem_zone st ! 1)) s e = Inr (z, st')"
    "init_frame st st'" "freed (F \<union> {unat s div 4096 ..< unat e div 4096}) st'" "z = 0 \<or> z = 1 \<and> 4096 * 4096 \<le> unat e"
proof -
  note d = freedD[OF inv]
  let ?m = "MIN_u64 e (offset (mem_zone st ! 1))"
  have m: "unat ?m = min (unat e) (4096 * 4096)" by (simp only: unat_MIN d(4))
  have pr: "unat s \<le> unat ?m" "unat ?m div 4096 \<le> 0 * 4096 + num_pages st 0" using m e(1) s(2) d(5) by auto
  obtain st1 where st1: "pmm_free_chunk st 0 ((s - offset (mem_zone st ! 0)) div PAGE_SIZE) ((?m - s) div PAGE_SIZE) = Inr st1"
    "init_frame st st1" "freed (F \<union> {unat s div 4096 ..< unat ?m div 4096}) st1"
    by (rule pmm_free_chunk_addrs[OF inv _ s(1) _ pr new]) (simp_all add: PMM_NUM_ZONES_def)
  show thesis
  proof (cases "unat e \<le> 4096 * 4096")
    case True
    then have "e \<le> offset (mem_zone st ! 1)" "unat ?m = unat e" using d(4) m by (auto simp: word_le_nat_alt)
    then show thesis using that[of 0 st1] st1 pmm_free_entry_step[OF st1(1)] by simp
  next
    case False
    have f: "mem_size st1 = mem_size st" "offset (mem_zone st1 ! 1) = offset (mem_zone st ! 1)"
      using st1(2) by (simp_all add: init_frame_def PMM_NUM_ZONES_def)
    let ?o = "offset (mem_zone st1 ! 1)"
    have o: "unat ?o = 4096 * 4096" "MIN_u64 ?o e = ?o" "\<not> e \<le> ?o" "unat ?m = 4096 * 4096" using False d(4) f(2) m
      by (auto simp: MIN_u64_def word_less_nat_alt word_le_nat_alt)
    have eq: "pmm_free_entry st 0 (offset (mem_zone st ! 0)) (offset (mem_zone st ! 1)) s e = pmm_free_entry st1 1 ?o (mem_size st1) ?o e"
      using pmm_free_entry_step[OF st1(1)] o(2,3) f(2) by (simp add: PMM_NUM_ZONES_def)
    have "\<forall>x \<in> F \<union> {unat s div 4096 ..< unat ?m div 4096}. x < unat ?o div 4096" using new s(2) o by fastforce
    from pmm_free_entry_1[OF st1(3) _ _ _ _ this, of e] obtain st2 where st2:
      "pmm_free_entry st1 1 ?o (mem_size st1) ?o e = Inr (1, st2)" "init_frame st1 st2"
      "freed (F \<union> {unat s div 4096 ..< unat ?m div 4096} \<union> {unat ?o div 4096 ..< unat e div 4096}) st2"
      using o(1) False e(2) f(1) by auto
    have "{unat s div 4096 ..< unat ?m div 4096} \<union> {unat ?o div 4096 ..< unat e div 4096} = {unat s div 4096 ..< unat e div 4096}"
      using o(1,4) s(2) False by (intro ivl_disj_un_two(3)[of "unat s div 4096" 4096 "unat e div 4096", THEN trans[rotated]]) auto
    then show thesis using that[of 1 st2] eq st2 init_frame_trans[OF st1(2) st2(2)] False by (simp add: Un_assoc)
  qed
qed

section \<open>All entries\<close>

lemma unat_ALIGN_page_aligned:
  assumes "unat a mod 4096 = 0"
  shows "ALIGN_UP a (4 * KiB) = a" "ALIGN_DOWN a (4 * KiB) = a"
proof -
  have d: "unat (ALIGN_DOWN b (4 * KiB)) = unat b - unat b mod 4096" for b
    using unat_ALIGN_DOWN_page[of b] by (simp only: PAGE_SIZE_def)
  then show "ALIGN_DOWN a (4 * KiB) = a" using assms by (simp add: word_unat_eq_iff)
  obtain q where q: "unat a = 4096 * q" using assms by (auto simp: mod_eq_0_iff_dvd elim!: dvdE)
  have "unat a < 2 ^ 64" by (rule unat_u64_bound)
  then have "q < 2 ^ 52" by (simp add: q)
  then have "unat a \<le> 2 ^ 64 - 4096" by (simp add: q)
  then have "unat (a + 0xfff) = unat a + 0xfff" by (simp add: unat_plus_if')
  moreover have "ALIGN_UP a (4 * KiB) = ALIGN_DOWN (a + 0xfff) (4 * KiB)"
    by (simp add: ALIGN_UP_def ALIGN_DOWN_def KiB_eq add.commute)
  moreover have "(unat a + 0xfff) mod 4096 = 0xfff" using assms by (simp add: mod_add_eq[of "unat a", symmetric])
  ultimately show "ALIGN_UP a (4 * KiB) = a" using d[of "a + 0xfff"] by (simp add: word_unat_eq_iff)
qed

text \<open>The current zone is the one that all entries still to come start in or after.\<close>

definition zone_ok :: "zone_e \<Rightarrow> mmap_entry list \<Rightarrow> bool" where
  "zone_ok z es \<longleftrightarrow> z = 0 \<or> z = 1 \<and> (\<forall>e \<in> set es. usable e \<longrightarrow> 4096 * 4096 \<le> unat (base e))"

lemma pmm_init_entry_freed:
  assumes inv: "freed F st" and ok: "memmap_ok (e # es)" and u: "usable e" and z: "zone_ok z (e # es)"
    and top: "entry_end e \<le> unat (mem_size st)" and new: "\<forall>f \<in> F. f < unat (base e) div 4096"
  obtains z' st' where "pmm_init_entry e (z, st) = Inr (z', st')" "init_frame st st'" "freed (F \<union> entry_frames e) st'" "zone_ok z' es"
proof -
  let ?s = "base e" and ?e = "base e + len e"
  have e: "unat ?e = entry_end e" using ok by (simp add: unat_plus_if')
  have al: "unat ?s mod 4096 = 0" "unat (len e) mod 4096 = 0" using ok u by auto
  then have "unat ?e mod 4096 = 0" by (simp add: e mod_add_eq[of "unat (base e)", symmetric])
  then have eq: "pmm_init_entry e (z, st) = kbind (pmm_seek_zone st z ?s) (\<lambda>(z, zs, ze). pmm_free_entry st z zs ze ?s ?e)"
    using u al(1) by (simp add: pmm_init_entry_def unat_ALIGN_page_aligned Let_def)
  have pr: "unat ?s \<le> unat ?e" "unat ?e \<le> unat (mem_size st)" "unat ?s \<le> unat (mem_size st)" using top by (simp_all add: e)
  have fr: "{unat ?s div 4096 ..< unat ?e div 4096} = entry_frames e" by (simp add: entry_frames_def e)
  show thesis
  proof (cases "z = 1 \<or> 4096 * 4096 < unat ?s")
    case True
    then have s: "4096 * 4096 \<le> unat ?s" and sk: "pmm_seek_zone st z ?s = Inr (1, offset (mem_zone st ! 1), mem_size st)"
      using z u pmm_seek_zone_1[OF inv pr(3)] pmm_seek_zone_0[OF inv pr(3)] by (auto simp: zone_ok_def)
    have later: "zone_ok 1 es" using s ok by (auto simp: zone_ok_def)
    obtain st' where "pmm_free_entry st 1 (offset (mem_zone st ! 1)) (mem_size st) ?s ?e = Inr (1, st')" "init_frame st st'"
      "freed (F \<union> entry_frames e) st'"
      by (rule pmm_free_entry_1[OF inv al(1) s pr(1,2) new, unfolded fr])
    then show thesis using that[of 1 st'] eq sk later by simp
  next
    case False
    then have s: "unat ?s \<le> 4096 * 4096" and sk: "pmm_seek_zone st z ?s = Inr (0, offset (mem_zone st ! 0), offset (mem_zone st ! 1))"
      using z pmm_seek_zone_0[OF inv pr(3)] by (auto simp: zone_ok_def)
    obtain z' st' where st': "pmm_free_entry st 0 (offset (mem_zone st ! 0)) (offset (mem_zone st ! 1)) ?s ?e = Inr (z', st')" "init_frame st st'"
      "freed (F \<union> entry_frames e) st'" "z' = 0 \<or> z' = 1 \<and> 4096 * 4096 \<le> unat ?e"
      by (rule pmm_free_entry_0[OF inv al(1) s pr(1,2) new, unfolded fr])
    have "zone_ok z' es" using st'(4) ok u by (auto simp: zone_ok_def e)
    then show thesis using that[of z' st'] eq sk st' by simp
  qed
qed

lemma pmm_init_entries_freed:
  assumes "freed F st" "memmap_ok es" "zone_ok z es" "\<forall>e \<in> set es. usable e \<longrightarrow> entry_end e \<le> unat (mem_size st)"
    "\<forall>e \<in> set es. usable e \<longrightarrow> (\<forall>f \<in> F. f < unat (base e) div 4096)"
  shows "\<exists>z' st'. pmm_init_entries es (z, st) = Inr (z', st') \<and> init_frame st st' \<and> freed (F \<union> usable_frames es) st'"
  using assms
proof (induction es arbitrary: F st z)
  case Nil
  then show ?case by auto
next
  case (Cons e es)
  show ?case
  proof (cases "usable e")
    case False
    then show ?thesis using Cons.IH[of F st z] Cons.prems False by (auto simp: pmm_init_entry_def zone_ok_def)
  next
    case True
    obtain z' st' where st': "pmm_init_entry e (z, st) = Inr (z', st')" "init_frame st st'" "freed (F \<union> entry_frames e) st'" "zone_ok z' es"
      by (rule pmm_init_entry_freed[OF Cons.prems(1,2) True Cons.prems(3)]) (use Cons.prems(4,5) True in auto)
    have ms: "mem_size st' = mem_size st" using st'(2) by (simp add: init_frame_def)
    have "f < unat (base e') div 4096" if "e' \<in> set es" "usable e'" "f \<in> F \<union> entry_frames e" for e' f
    proof -
      have "entry_end e \<le> unat (base e')" using Cons.prems(2) that(1) True by auto
      then have "entry_end e div 4096 \<le> unat (base e') div 4096" by (rule div_le_mono)
      then show ?thesis using that Cons.prems(5) by (auto simp: entry_frames_def)
    qed
    then obtain z2 st2 where "pmm_init_entries es (z', st') = Inr (z2, st2)" "init_frame st' st2" "freed (F \<union> entry_frames e \<union> usable_frames es) st2"
      using Cons.IH[OF st'(3) _ st'(4)] Cons.prems(2,4) ms by auto
    then show ?thesis using st'(1) init_frame_trans[OF st'(2)] using True by (auto simp: Un_assoc)
  qed
qed

section \<open>The zone structures\<close>

lemma ALIGN_UP_8_aligned:
  assumes "unat a mod 8 = 0"
  shows "ALIGN_UP a 8 = a"
proof -
  obtain q where q: "unat a = 8 * q" using assms by (auto simp: mod_eq_0_iff_dvd elim!: dvdE)
  have "unat a < 2 ^ 64" by (rule unat_u64_bound)
  then have "unat a + 7 < 2 ^ 64" by (simp add: q)
  then have "unat (ALIGN_UP a 8) = (unat a + 7) div 8 * 8" by (rule unat_ALIGN_UP_8)
  then show ?thesis by (simp add: q word_unat_eq_iff)
qed

text \<open>One zone: all its pages are in use, its bitmap is the next piece of \<^verbatim>\<open>alloc_area\<close>.\<close>

lemma pmm_init_zone_views:
  fixes st :: "'a pmm_state_scheme"
  assumes z: "z < length (mem_zone st)" and al: "unat (alloc_ptr st) mod 8 = 0"
  defines "tot \<equiv> (if z = PMM_NUM_ZONES - 1 then mem_size st else offset (mem_zone st ! (z + 1))) - offset (mem_zone st ! z)"
  defines "bm \<equiv> \<lparr>size_bits = tot div PAGE_SIZE, data = alloc_ptr st\<rparr>"
  shows "mem_zone (pmm_init_zone z st) =
      (mem_zone st)[z := (mem_zone st ! z)\<lparr>mem_total := tot, mem_used := tot, mem_free := 0, bitmap := bm\<rparr>]"
    "alloc_ptr (pmm_init_zone z st) = alloc_ptr st + bitmap_size_bytes bm" "mem_size (pmm_init_zone z st) = mem_size st"
    "pmm_state.more (pmm_init_zone z st) = pmm_state.more st"
    "\<not> bitmap_region bm x \<Longrightarrow> kmem (pmm_init_zone z st) x = kmem st x"
    "k < unat (size_bits bm) \<Longrightarrow> bit_at bm (kmem (pmm_init_zone z st)) k"
proof -
  let ?m = "memset (kmem st) (alloc_ptr st) 0 (bitmap_size_bytes bm)"
  have eq: "pmm_init_zone z st =
    (update_zone z (\<lambda>zn. zn\<lparr>mem_total := tot, mem_used := tot, mem_free := 0, bitmap := bm\<rparr>)
      (st\<lparr>kmem := ?m, alloc_ptr := alloc_ptr st + bitmap_size_bytes bm\<rparr>))\<lparr>kmem := bitmap_set_range bm ?m 0 (size_bits bm)\<rparr>"
    by (cases "bitmap (mem_zone st ! z)")
      (simp add: pmm_init_zone_def pmm_area_alloc_def Let_def ALIGN_UP_8_aligned[OF al] tot_def bm_def bitmap_size_bytes_def)
  show "mem_zone (pmm_init_zone z st) =
      (mem_zone st)[z := (mem_zone st ! z)\<lparr>mem_total := tot, mem_used := tot, mem_free := 0, bitmap := bm\<rparr>]"
    "alloc_ptr (pmm_init_zone z st) = alloc_ptr st + bitmap_size_bytes bm" "mem_size (pmm_init_zone z st) = mem_size st"
    "pmm_state.more (pmm_init_zone z st) = pmm_state.more st"
    by (simp_all add: eq) (simp_all add: update_zone_def)
  show "kmem (pmm_init_zone z st) x = kmem st x" if "\<not> bitmap_region bm x"
    using that bitmap_range_outside(1)[of 0 "size_bits bm" bm x] by (simp add: eq memset_apply) (simp add: bm_def)
  show "bit_at bm (kmem (pmm_init_zone z st)) k" if "k < unat (size_bits bm)"
  proof -
    have "k < 2 ^ 64" using that unat_u64_bound[of "size_bits bm"] by linarith
    then show ?thesis using that by (simp add: eq bit_at_def bitmap_get_set_range in_region_def)
  qed
qed

text \<open>The bytes of \<^verbatim>\<open>alloc_area\<close> that the two bitmaps take for a memory of \<open>n\<close> bytes.\<close>

definition area_bytes :: "nat \<Rightarrow> nat" where
  "area_bytes n = 512 + (n div 4096 - 4096 + 7) div 8"

lemma pmm_init_zones_freed:
  fixes st :: "'a pmm_state_scheme"
  assumes zones: "mem_zone st = mem_zone (pmm_boot a m)" and al: "unat (alloc_ptr st) mod 8 = 0"
    and ms: "2 ^ 24 \<le> unat (mem_size st)" and room: "unat (alloc_ptr st) + area_bytes (unat (mem_size st)) < 2 ^ 64"
  defines "st2 \<equiv> pmm_init_zone PMM_ZONE_NORMAL (pmm_init_zone PMM_ZONE_DMA st)"
  shows "freed {} st2" "mem_size st2 = mem_size st" "pmm_state.more st2 = pmm_state.more st"
    "\<not> in_region (alloc_ptr st) (area_bytes (unat (mem_size st))) x \<Longrightarrow> kmem st2 x = kmem st x"
    "z < PMM_NUM_ZONES \<Longrightarrow> bitmap_region (bitmap (mem_zone st2 ! z)) x \<Longrightarrow> in_region (alloc_ptr st) (area_bytes (unat (mem_size st))) x"
proof -
  let ?ap = "alloc_ptr st" and ?sz = "mem_size st"
  define st1 where "st1 = pmm_init_zone 0 st"
  define b0 where "b0 = \<lparr>size_bits = 0x1000 :: u64, data = ?ap\<rparr>"
  define b1 where "b1 = \<lparr>size_bits = (?sz - 0x1000000) div PAGE_SIZE, data = ?ap + 512\<rparr>"
  define z0 where "z0 = (mem_zone st ! 0)\<lparr>mem_total := 0x1000000, mem_used := 0x1000000, mem_free := 0, bitmap := b0\<rparr>"
  define z1 where "z1 = (mem_zone st ! 1)\<lparr>mem_total := ?sz - 0x1000000, mem_used := ?sz - 0x1000000, mem_free := 0, bitmap := b1\<rparr>"
  have len: "length (mem_zone st) = 2" "offset (mem_zone st ! 0) = 0" "offset (mem_zone st ! Suc 0) = 0x1000000"
    by (simp_all add: zones pmm_boot_def MiB_eq)
  have s0: "unat (bitmap_size_bytes b0) = 512" "bitmap_size_bytes b0 = 512" by (simp_all add: b0_def bitmap_size_bytes_def)
  note v0 = pmm_init_zone_views[of 0 st, OF _ al]
  have f0: "mem_zone st1 = (mem_zone st)[0 := z0]" "alloc_ptr st1 = ?ap + 512" "mem_size st1 = ?sz" "pmm_state.more st1 = pmm_state.more st"
    "\<not> bitmap_region b0 x \<Longrightarrow> kmem st1 x = kmem st x" "k < 4096 \<Longrightarrow> bit_at b0 (kmem st1) k" for x k
    using v0 len s0 unfolding st1_def by (simp_all add: PMM_NUM_ZONES_def PAGE_SIZE_eq z0_def b0_def)
  have n1: "unat (size_bits b1) = unat ?sz div 4096 - 4096" "unat (bitmap_size_bytes b1) = (unat ?sz div 4096 - 4096 + 7) div 8"
    using ms unat_pages_between[of "0x1000000" ?sz] page_count[of "0x1000000" "unat ?sz"] by (simp_all add: b1_def unat_bitmap_size_bytes)
  let ?n1 = "unat (bitmap_size_bytes b1)"
  have n: "area_bytes (unat ?sz) = 512 + ?n1" by (simp add: area_bytes_def n1)
  have ap: "unat (?ap + 512) = unat ?ap + 512" "?n1 < 2 ^ 64 - 512" using room n by (simp_all add: unat_plus_if')
  have al1: "unat (alloc_ptr st1) mod 8 = 0" using al by (simp add: f0(2) ap mod_add_eq[of "unat ?ap", symmetric])
  have l1: "1 < length (mem_zone st1)" using len by (simp add: f0(1))
  note v1 = pmm_init_zone_views[OF l1 al1]
  have st2: "st2 = pmm_init_zone 1 st1" by (simp add: st2_def st1_def PMM_ZONE_NORMAL_def PMM_ZONE_DMA_def)
  have f1: "mem_zone st2 = (mem_zone st)[0 := z0, 1 := z1]" "mem_size st2 = ?sz" "pmm_state.more st2 = pmm_state.more st"
    "\<not> bitmap_region b1 x \<Longrightarrow> kmem st2 x = kmem st1 x" "k < unat (size_bits b1) \<Longrightarrow> bit_at b1 (kmem st2) k" for x k
    using v1 len f0(1-4) unfolding st2 by (simp_all add: PMM_NUM_ZONES_def z1_def b1_def)
  have apart: "apart (data b0) (unat (bitmap_size_bytes b0)) (data b1) ?n1"
    using ap(2) s0(1) by (simp add: b0_def b1_def apart_def)
  show "mem_size st2 = mem_size st" "pmm_state.more st2 = pmm_state.more st" by (rule f1(2,3))+
  have in1: "in_region ?ap (area_bytes (unat ?sz)) x" if "bitmap_region b1 x" for x
  proof -
    define y where "y = x - (?ap + 512)"
    have y: "unat y < ?n1" using that by (simp add: b1_def in_region_def y_def)
    then have "unat (y + 512) = unat y + 512" using ap(2) by (simp add: unat_plus_if')
    moreover have "y + 512 = x - ?ap" by (simp add: y_def)
    ultimately show ?thesis using y by (simp add: in_region_def n)
  qed
  have in0: "in_region ?ap (area_bytes (unat ?sz)) x" if "bitmap_region b0 x" for x
    using that unfolding s0 by (simp add: in_region_def n b0_def)
  have bms: "bitmap (mem_zone st2 ! 0) = b0" "bitmap (mem_zone st2 ! 1) = b1" "mem_zone st2 ! 0 = z0" "mem_zone st2 ! 1 = z1"
    using len(1) by (simp_all add: f1(1) z0_def z1_def)
  note bms = bms bms[unfolded One_nat_def]
  show "\<not> in_region (alloc_ptr st) (area_bytes (unat (mem_size st))) x \<Longrightarrow> kmem st2 x = kmem st x"
    using f1(4)[of x] f0(5)[of x] in0[of x] in1[of x] by metis
  show "z < PMM_NUM_ZONES \<Longrightarrow> bitmap_region (bitmap (mem_zone st2 ! z)) x \<Longrightarrow> in_region (alloc_ptr st) (area_bytes (unat (mem_size st))) x"
    using bms in0[of x] in1[of x] by (auto simp: two_zones)
  have pages: "num_pages st2 0 = 4096" "num_pages st2 1 = unat ?sz div 4096 - 4096" "zone_base st2 0 = 0" "zone_base st2 1 = 4096 * 4096"
    using len n1 by (simp_all add: num_pages_def zone_base_def bms z0_def z1_def b0_def)
  have "bit_at b0 (kmem st2) k" if "k < 4096" for k
  proof -
    have "bit_at b0 (kmem st2) k = bit_at b0 (kmem st1) k"
      unfolding bit_at_def using that apart f1(4) by (intro bitmap_get_cong) (auto simp: b0_def dest: apartD)
    then show ?thesis using f0(6)[OF that] by simp
  qed
  then have used: "page_used st2 y k" if "y < PMM_NUM_ZONES" "k < num_pages st2 y" for y k
    using that pages n1(1) f1(5)[of k] by (auto simp: two_zones page_used_def bms z0_def z1_def)
  have "zone_accounts st2 y" if "y < PMM_NUM_ZONES" for y
  proof -
    have "free_pages st2 y = {}" using used[OF that] by (auto simp: free_pages_def)
    then show ?thesis using that bms by (auto simp: zone_accounts_def two_zones z0_def z1_def)
  qed
  moreover have "pmm_wf st2"
    using pages ms apart len(1) by (simp add: pmm_wf_def PMM_NUM_ZONES_def bms z0_def z1_def f1(2) Let_def) (simp add: f1(1))
  ultimately show "freed {} st2" using used pages ms by (simp add: freed_def f1(2))
qed

section \<open>Properties\<close>

lemma area_bytes_limit: "area_bytes n \<le> 2 ^ 20 \<longleftrightarrow> n < 2 ^ 35 + 4096"
proof -
  have "area_bytes n \<le> 2 ^ 20 \<longleftrightarrow> n div 4096 \<le> 2 ^ 23" by (simp add: area_bytes_def) linarith
  also have "\<dots> \<longleftrightarrow> n < 2 ^ 35 + 4096" by (simp add: less_Suc_eq_le[symmetric] div_less_iff_less_mult)
  finally show ?thesis .
qed

text \<open>A state in which the frames \<open>F\<close> are free, seen from the frames.\<close>

lemma freed_frame_used:
  assumes "freed F st" "f < unat (mem_size st) div 4096"
  shows "frame_used st (of_nat (4096 * f)) \<longleftrightarrow> f \<notin> F"
proof -
  note d = freedD[OF assms(1)]
  define z where "z = (if f < 4096 then 0 else 1 :: nat)"
  define k where "k = (if f < 4096 then f else f - 4096)"
  have "4096 * f < 2 ^ 64" using assms(2) unat_u64_bound[of "mem_size st"] by linarith
  then have u: "unat (of_nat (4096 * f) :: u64) = 4096 * f" by (rule unat_of_nat_u64)
  have zk: "z < PMM_NUM_ZONES" "k < num_pages st z" "4096 * f = zone_base st z + 4096 * k" "z * 4096 + k = f"
    using d(3-7) assms(2) by (auto simp: z_def k_def zone_base_def PMM_NUM_ZONES_def)
  have "frame_used st (of_nat (4096 * f)) \<longleftrightarrow> page_used st z k"
    using zk(1-3) frame_unique[OF d(1), of z _ k] unfolding frame_used_def u by metis
  then show ?thesis using assms(1) zk by (simp add: freed_def)
qed

lemma pmm_init_run:
  assumes "memmap_ok es" "es \<noteq> []" and zones: "mem_zone st = mem_zone (pmm_boot (alloc_ptr st) (kmem st))"
    and al: "unat (alloc_ptr st) mod 8 = 0" and room: "unat (alloc_ptr st) + area_bytes (entry_end (last es)) < 2 ^ 64"
  obtains (small) msg where "entry_end (last es) < 2 ^ 24" "pmm_init (Some es) st = Inl (Panic msg)"
  | (go) st' where "2 ^ 24 \<le> entry_end (last es)" "pmm_init (Some es) st = Inr st'" "freed (usable_frames es) st'"
      "unat (mem_size st') = entry_end (last es)" "pmm_state.more st' = pmm_state.more st"
      "\<forall>x. \<not> in_region (alloc_ptr st) (area_bytes (entry_end (last es))) x \<longrightarrow> kmem st' x = kmem st x"
      "\<forall>z x. z < PMM_NUM_ZONES \<and> bitmap_region (bitmap (mem_zone st' ! z)) x \<longrightarrow> in_region (alloc_ptr st) (area_bytes (entry_end (last es))) x"
proof -
  let ?n = "entry_end (last es)"
  let ?st0 = "st\<lparr>mem_size := base (last es) + len (last es)\<rparr>"
  have "?n < 2 ^ 64" using assms(1,2) by (induction es rule: memmap_ok.induct) (auto split: if_splits)
  then have n: "unat (base (last es) + len (last es)) = ?n" by (simp add: unat_plus_if')
  have eq: "pmm_init (Some es) st =
    (if ?n < 2 ^ 24 then Inl (Panic ''pmm_init found less than 16 MiB of memory.'')
     else kbind (pmm_init_entries es (0, pmm_init_zone PMM_ZONE_NORMAL (pmm_init_zone PMM_ZONE_DMA ?st0))) (\<lambda>(_, st3). Inr st3))"
    using assms(2) by (simp add: pmm_init_def get_mem_size_def Let_def word_less_nat_alt n MiB_eq PMM_ZONE_DMA_def)
  show thesis
  proof (cases "?n < 2 ^ 24")
    case True
    then show thesis using eq small by simp
  next
    case False
    define st2 where "st2 = pmm_init_zone PMM_ZONE_NORMAL (pmm_init_zone PMM_ZONE_DMA ?st0)"
    have z: "mem_zone ?st0 = mem_zone (pmm_boot (alloc_ptr st) (kmem st))" using zones by simp
    have i: "freed {} st2" "unat (mem_size st2) = ?n" "pmm_state.more st2 = pmm_state.more st"
      "\<not> in_region (alloc_ptr st) (area_bytes ?n) x \<Longrightarrow> kmem st2 x = kmem st x"
      "y < PMM_NUM_ZONES \<Longrightarrow> bitmap_region (bitmap (mem_zone st2 ! y)) x \<Longrightarrow> in_region (alloc_ptr st) (area_bytes ?n) x" for x y
      using pmm_init_zones_freed[of ?st0, OF z, folded st2_def] al room False n by (auto simp del: One_nat_def)
    have "\<forall>e \<in> set es. usable e \<longrightarrow> entry_end e \<le> unat (mem_size st2)" using memmap_ok_last[OF assms(1)] i(2) by simp
    then obtain z' st' where st': "pmm_init_entries es (0, st2) = Inr (z', st')" "init_frame st2 st'" "freed (usable_frames es) st'"
      using pmm_init_entries_freed[OF i(1) assms(1), of 0] by (auto simp: zone_ok_def)
    have f: "mem_size st' = mem_size st2" "pmm_state.more st' = pmm_state.more st2"
      "\<forall>z < PMM_NUM_ZONES. bitmap (mem_zone st' ! z) = bitmap (mem_zone st2 ! z)" using st'(2) by (simp_all add: init_frame_def)
    have "kmem st' x = kmem st x" if "\<not> in_region (alloc_ptr st) (area_bytes ?n) x" for x
    proof -
      have "kmem st' x = kmem st2 x" using st'(2) i(5) that unfolding init_frame_def by blast
      then show ?thesis using i(4)[OF that] by simp
    qed
    moreover have "pmm_init (Some es) st = Inr st'" using eq False st'(1) by (simp add: st2_def)
    ultimately show thesis using False st'(3) f i(2,3,5) by (intro go[of st']) auto
  qed
qed


text \<open>A memory map with reserved low memory and 32 MiB.\<close>

definition demo_memmap :: "mmap_entry list" where
  "demo_memmap =
     [\<lparr>base = 0, len = 0x9fc00, kind = 2\<rparr>, \<lparr>base = 0x100000, len = 0x1f00000, kind = MEM_USABLE\<rparr>]"


end
