(* ===== verification/Memory_Start.thy ===== *)
theory Memory_Start
  imports Pmm_Init Kheap_Client
begin

text \<open>
  The three calls of \<^verbatim>\<open>_start\<close> (kernel/boot/boot.c) that bring up memory: \<open>pmm_init\<close>, \<open>paging_init\<close> and
  \<open>kheap_init\<close>. Each relies on what the one before it has set up; here the laws are put together, from the memory
  map of the boot loader to an empty heap.
\<close>

section \<open>Definitions\<close>

text \<open>The structures of the boot loader that the kernel looks up, each present or not.\<close>

record handover =
  memmap_tag :: "mmap_entry list option"
  kernel_base_tag :: "(u64 \<times> u64) option"
  pmrs_tag :: "pmr list option"
  hhdm_tag :: "u64 option"

definition KHEAP_INIT_PAGES :: u64 where "KHEAP_INIT_PAGES = 1"

definition start_memory :: "u64 \<Rightarrow> addr \<Rightarrow> 'b handover_scheme \<Rightarrow> 'a kheap_state_scheme \<Rightarrow> 'a kheap_state_scheme kres" where
  "start_memory PMR_WRITABLE wrapper_page_fault_intr_handler h st =
     kbind (pmm_init (memmap_tag h) st) (\<lambda>st.
     kbind (paging_init PMR_WRITABLE wrapper_page_fault_intr_handler (kernel_base_tag h) (pmrs_tag h) (hhdm_tag h) (memmap_tag h) st) (\<lambda>st.
     kheap_init (pmrs_tag h) KHEAP_INIT_PAGES st))"

section \<open>Page tables\<close>

text \<open>Where the last-level table exists, the walk creates nothing.\<close>

lemma walk_existing:
  assumes "pt_wf st r" "i \<le> 3" "st_tab st r (take (3 - i) (vpath v)) = Some t" "st_tab st r (take 3 (vpath v)) = Some t'"
  shows "paging_walk_loop t v 0 True i st = Inr (t' + 8 * of_nat (vidx v 0), st)"
  using assms
proof (induction i arbitrary: t)
  case 0
  then show ?case by (subst paging_walk_loop.simps) (simp add: paging_vaddr_idx_eq)
next
  case (Suc i)
  let ?k = "vidx v (Suc i)"
  have nxt: "st_tab st r (take (3 - i) (vpath v)) = child (mem_ents (kmem st)) t ?k"
    using Suc.prems by (simp add: take_vpath_Suc[OF Suc.prems(2)] tab_snoc)
  have "t \<in> tables (mem_ents (kmem st)) r" using Suc.prems take_vpath_in[of "3 - Suc i" v] by (blast intro: tablesI diff_le_self)
  then have nz: "t + 8 * of_nat ?k \<noteq> 0" using entry_not_null[OF Suc.prems(1)] by simp
  have "take 3 (vpath v) = take (3 - i) (vpath v) @ take i (drop (3 - i) (vpath v))"
    using Suc.prems(2) by (metis Suc_leD le_add_diff_inverse2 take_add)
  then have p: "present (mem_ents (kmem st) t ?k)"
    using nxt Suc.prems(4) by (cases "present (mem_ents (kmem st) t ?k)") (simp_all add: tab_append child_def)
  then show ?case using Suc.IH[OF Suc.prems(1) _ nxt[unfolded child_def, simplified p if_True] Suc.prems(4)] Suc.prems(2) nz
    by (subst paging_walk_loop.simps) (simp add: paging_vaddr_idx_eq paging_entry_ops mem_ents_def[symmetric])
qed

lemma present_page_entry: "present flags \<Longrightarrow> present (page_entry e p flags)"
  by (auto simp: present_def page_entry_def bit_simps bit_addr_bits)

text \<open>One mapping takes at most three frames, and none where the table exists; afterwards it exists.\<close>

lemma map_in_cost:
  assumes wf: "pt_wf st r" and fl: "flags AND addr_bits = 0" "present flags"
  obtains (fail) msg where "paging_map_in r v p flags st = Inl (Panic msg)" "avail st < 3" "st_tab st r (take 3 (vpath v)) = None"
  | (go) st' where "paging_map_in r v p flags st = Inr st'" "pt_wf st' r" "phys_step st st'" "avail st \<le> avail st' + 3"
      "st_tab st r (take 3 (vpath v)) \<noteq> None \<Longrightarrow> avail st' = avail st" "st_tab st' r (take 3 (vpath v)) \<noteq> None"
proof -
  have tab: "st_tab st' r (take 3 (vpath v)) \<noteq> None" if "present (st_leaf st' r (vpath v))" for st' :: "'a pmm_state_scheme"
    using that aspace_table[of st' r v] by (fastforce simp: aspace_vpage)
  have free: "\<exists>s. paging_map_in r v p flags st = Inr s \<and> avail s = avail st" if t: "st_tab st r (take 3 (vpath v)) = Some t" for t
  proof -
    let ?v = "ALIGN_DOWN v PAGE_SIZE" and ?pe = "t + 8 * of_nat (vidx v 0)"
    obtain l where eq: "paging_map_in r v p flags st =
       kbind (paging_walk_loop r ?v 0 True 3 (st\<lparr>klog := l\<rparr>)) (\<lambda>(pentry, st). paging_map_entry (ALIGN_DOWN p PAGE_SIZE) flags pentry st)"
      by (rule paging_map_in_eq[OF pt_wf_root(1)[OF wf]])
    let ?st = "st\<lparr>klog := l\<rparr>"
    have wf0: "pt_wf ?st r" and t0: "st_tab ?st r (take 3 (vpath ?v)) = Some t" "st_tab ?st r (take 3 (vpath v)) = Some t"
      using wf t by simp_all
    have walk: "paging_walk_loop r ?v 0 True 3 ?st = Inr (?pe, ?st)"
      using walk_existing[OF wf0 _ pt_wf_root(2)[OF wf0] t0(1)] by simp
    have p3: "take 3 (vpath v) \<in> paths" "length (take 3 (vpath v)) = 3" "take 3 (vpath v) @ [vidx v 0] = vpath v"
      using take_vpath_in[of 3 v] by (simp_all add: vpath_def)
    have tin: "t \<in> tables (mem_ents (kmem ?st)) r" using t0(2) p3(1) by (auto intro: tablesI)
    have nz: "?pe \<noteq> 0" by (rule entry_not_null[OF wf0 tin]) simp
    note wl = pt_wf_write_leaf[where i = "vidx v 0", OF wf0 t0(2) p3(1,2) vidx_less, unfolded p3(3)]
    show ?thesis
    proof (cases "present (read64 (kmem st) ?pe)")
      case True
      then show ?thesis using eq walk nz by (simp add: paging_map_entry_def paging_entry_ops)
    next
      case False
      then have "paging_map_in r v p flags st = Inr (?st\<lparr>kmem := write64 (kmem ?st) ?pe (page_entry (read64 (kmem st) ?pe) p flags)\<rparr>)"
        using eq walk nz fl(1) ALIGN_DOWN_mod(1)[of p]
        by (simp add: paging_map_entry_def paging_entry_ops PAGE_ADDR_eq store_store_same page_entry_def)
      then show ?thesis using wl(3) by simp
    qed
  qed
  show thesis
  proof (rule paging_map_in_cases[OF wf fl(1) refl, of v p])
    fix msg assume f: "paging_map_in r v p flags st = Inl (Panic msg)" "avail st < 3"
    then show thesis using fail free by (cases "st_tab st r (take 3 (vpath v))") auto
  next
    fix st' assume m: "paging_map_in r v p flags st = Inr st'" "pt_wf st' r" "phys_step st st'" "present (st_leaf st r (vpath v))"
      "\<forall>q\<in>page_paths. st_leaf st' r q = st_leaf st r q" "avail st \<le> avail st' + 3"
    then show thesis using go[OF m(1-3,6)] free tab[of st'] by auto
  next
    fix st' assume m: "paging_map_in r v p flags st = Inr st'" "pt_wf st' r" "phys_step st st'"
      "\<forall>q\<in>page_paths. st_leaf st' r q = (if q = vpath v then page_entry (st_leaf st r (vpath v)) p flags else st_leaf st r q)"
      "avail st \<le> avail st' + 3"
    then show thesis using go[OF m(1-3,5)] free tab[of st'] present_page_entry[OF fl(2)] by auto
  qed
qed

text \<open>Neighbouring pages share their last-level table except across a multiple of 512.\<close>

lemma same_table:
  assumes "(vpage v + Suc n) mod 512 \<noteq> 0"
  shows "take 3 (vpath (v + of_nat (Suc n) * PAGE_SIZE)) = take 3 (vpath (v + of_nat n * PAGE_SIZE))"
proof -
  let ?m = "vpage v + Suc n"
  define q where "q = ?m mod 2 ^ 36"
  have "q mod 512 \<noteq> 0" using assms by (simp add: q_def mod_mod_cancel)
  then have "Suc (q - 1) = q" and nz: "Suc (q - 1) mod 512 \<noteq> 0" by (cases q; simp)+
  then have d: "q div 512 = (q - 1) div 512" using div_Suc[of "q - 1" 512] by simp
  have "?m = Suc (vpage v + n)" by simp
  then have "(vpage v + n) mod 2 ^ 36 = q - 1"
    using \<open>Suc (q - 1) = q\<close> mod_Suc[of "vpage v + n" "2 ^ 36"] unfolding q_def by (auto split: if_splits)
  then have p: "vpage (v + of_nat (Suc n) * PAGE_SIZE) div 512 = vpage (v + of_nat n * PAGE_SIZE) div 512"
    using d unfolding vpage_plus by (simp add: q_def)
  have "vidx w i = vpage w div 512 div 512 ^ (i - 1) mod 512" if "0 < i" "i \<le> 3" for w i
    using that vidx_eq[of i w] by (cases i) (simp_all add: div_mult2_eq)
  then show ?thesis using p by (simp add: vpath_def)
qed

text \<open>The last-level tables of \<open>n\<close> pages.\<close>

definition table_count :: "nat \<Rightarrow> nat \<Rightarrow> nat" where
  "table_count a n = (if n = 0 then 0 else (a + n - 1) div 512 + 1)"

lemma table_count_Suc:
  "table_count a (Suc n) = (if 0 < n \<and> (a + n) mod 512 \<noteq> 0 then table_count a n else if 0 < n then table_count a n + 1 else a div 512 + 1)"
proof (cases n)
  case (Suc k)
  have "(a + n) div 512 = (if (a + n) mod 512 = 0 then Suc ((a + k) div 512) else (a + k) div 512)"
    using div_Suc[of "a + k" 512] by (simp add: Suc)
  then show ?thesis by (simp add: table_count_def Suc)
qed (simp add: table_count_def)

lemma table_count_bound: "a < 512 \<Longrightarrow> table_count a n \<le> n div 512 + 2"
proof -
  assume "a < 512"
  then have "(a + n - 1) div 512 \<le> (n + 1 * 512) div 512" by (intro div_le_mono) simp
  then have "(a + n - 1) div 512 \<le> n div 512 + 1" by (simp only: div_mult_self1[of 512 n 1])
  then show ?thesis by (simp add: table_count_def)
qed

lemma maps_in_step:
  assumes wf: "pt_wf st r" and fl: "flags AND addr_bits = 0" "present flags"
  shows "(\<exists>msg. paging_maps_in r v p num flags st = Inl (Panic msg)) \<and> avail st < 3 * (unat num div 512 + 2) \<or>
    (\<exists>st'. paging_maps_in r v p num flags st = Inr st' \<and> pt_wf st' r \<and> phys_step st st' \<and> avail st \<le> avail st' + 3 * (unat num div 512 + 2))"
proof -
  let ?body = "\<lambda>i :: u64. \<lambda>(vaddr, paddr, st). kbind (paging_map_in r vaddr paddr flags st) (\<lambda>st. Inr (vaddr + PAGE_SIZE, paddr + PAGE_SIZE, st))"
  let ?C = "\<lambda>n. 3 * table_count (vpage v mod 512) n" and ?v = "\<lambda>n. v + of_nat n * PAGE_SIZE"
  have "(\<exists>msg. for_natE n ?body (v, p, st) = Inl (Panic msg)) \<and> avail st < ?C n \<or>
    (\<exists>p' st'. for_natE n ?body (v, p, st) = Inr (?v n, p', st') \<and> pt_wf st' r \<and> phys_step st st' \<and> avail st \<le> avail st' + ?C n \<and>
       (0 < n \<longrightarrow> st_tab st' r (take 3 (vpath (?v (n - 1)))) \<noteq> None))" for n
  proof (induction n)
    case (Suc n)
    have mono: "?C n \<le> ?C (Suc n)" by (simp add: table_count_Suc) (simp add: table_count_def)
    from Suc.IH show ?case
    proof (elim disjE exE conjE)
      fix msg assume "for_natE n ?body (v, p, st) = Inl (Panic msg)" "avail st < ?C n"
      then show ?thesis using mono by auto
    next
      fix p' s assume s: "for_natE n ?body (v, p, st) = Inr (?v n, p', s)" "pt_wf s r" "phys_step st s" "avail st \<le> avail s + ?C n"
        "0 < n \<longrightarrow> st_tab s r (take 3 (vpath (?v (n - 1)))) \<noteq> None"
      have eq: "for_natE (Suc n) ?body (v, p, st) = kbind (paging_map_in r (?v n) p' flags s) (\<lambda>st. Inr (?v (Suc n), p' + PAGE_SIZE, st))"
        using s(1) by (simp add: algebra_simps)
      have more: "?C (Suc n) = ?C n + 3" if "st_tab s r (take 3 (vpath (?v n))) = None"
      proof (cases n)
        case (Suc k)
        have "(vpage v + n) mod 512 = 0" using same_table[of v k] s(5) that Suc by (metis One_nat_def diff_Suc_Suc diff_zero zero_less_Suc)
        then have "(vpage v mod 512 + n) mod 512 = 0" by (simp add: mod_add_left_eq)
        then show ?thesis using Suc table_count_Suc[of "vpage v mod 512" n] by simp
      qed (simp add: table_count_def)
      show ?thesis
      proof (rule map_in_cost[OF s(2) fl, of "?v n" p'])
        fix msg assume "paging_map_in r (?v n) p' flags s = Inl (Panic msg)" "avail s < 3" "st_tab s r (take 3 (vpath (?v n))) = None"
        then show ?thesis using eq s(4) more by auto
      next
        fix s' assume m: "paging_map_in r (?v n) p' flags s = Inr s'" "pt_wf s' r" "phys_step s s'" "avail s \<le> avail s' + 3"
          "st_tab s r (take 3 (vpath (?v n))) \<noteq> None \<Longrightarrow> avail s' = avail s" "st_tab s' r (take 3 (vpath (?v n))) \<noteq> None"
        have "avail st \<le> avail s' + ?C (Suc n)"
          using s(4) m(4,5) more mono by (cases "st_tab s r (take 3 (vpath (?v n))) = None") auto
        then show ?thesis using eq m(1,2,6) phys_step_trans[OF s(3) m(3)] by auto
      qed
    qed
  qed (use wf in \<open>simp add: table_count_def\<close>)
  from this[of "unat num"] table_count_bound[of "vpage v mod 512" "unat num"] show ?thesis
    by (auto simp: paging_maps_in_def for_u64E_def)
qed

lemma kernel_flag_bits:
  "PAGE_PRESENT AND addr_bits = 0" "(PAGE_PRESENT OR PAGE_WRITABLE) AND addr_bits = 0"
  "present PAGE_PRESENT" "present (PAGE_PRESENT OR PAGE_WRITABLE)"
  by (simp_all add: PAGE_ADDR_eq[symmetric] PAGE_ADDR_def PAGE_PRESENT_def PAGE_WRITABLE_def present_def bit_simps)

text \<open>The regions of 512 pages that the ranges of the kernel image can touch.\<close>

definition image_regions :: "pmr list \<Rightarrow> nat" where
  "image_regions pmrs = sum_list (map (\<lambda>e. unat (pmr_length e div PAGE_SIZE) div 512 + 2) pmrs)"

lemma map_pmrs_step:
  assumes "pt_wf st r"
  shows "(\<exists>msg. paging_map_pmrs W r pbase vbase es st = Inl (Panic msg)) \<and> avail st < 3 * image_regions es \<or>
    (\<exists>st'. paging_map_pmrs W r pbase vbase es st = Inr st' \<and> pt_wf st' r \<and> phys_step st st' \<and> avail st \<le> avail st' + 3 * image_regions es)"
  using assms
proof (induction es arbitrary: st)
  case (Cons e es)
  let ?fl = "if pmr_permissions e AND W \<noteq> 0 then PAGE_PRESENT OR PAGE_WRITABLE else PAGE_PRESENT"
  obtain l where eq: "paging_map_pmr W r pbase vbase e st =
    paging_maps_in r (pmr_base e) (pbase + (pmr_base e - vbase)) (pmr_length e div PAGE_SIZE) ?fl (st\<lparr>klog := l\<rparr>)"
    by (rule pmr_log)
  have fl: "?fl AND addr_bits = 0" "present ?fl" using kernel_flag_bits by simp_all
  from maps_in_step[of "st\<lparr>klog := l\<rparr>" r ?fl, OF _ fl, of "pmr_base e" "pbase + (pmr_base e - vbase)" "pmr_length e div PAGE_SIZE"] Cons.prems
  consider (f) msg where "paging_map_pmr W r pbase vbase e st = Inl (Panic msg)" "avail st < 3 * (unat (pmr_length e div PAGE_SIZE) div 512 + 2)"
    | (g) s where "paging_map_pmr W r pbase vbase e st = Inr s" "pt_wf s r" "phys_step st s" "avail st \<le> avail s + 3 * (unat (pmr_length e div PAGE_SIZE) div 512 + 2)"
    unfolding eq by auto
  then show ?case
  proof cases
    case f
    then show ?thesis by (auto simp: image_regions_def)
  next
    case g
    from Cons.IH[OF g(2)] show ?thesis
      using g(1,3,4) phys_step_trans[OF g(3)] by (auto simp: image_regions_def)
  qed
qed (simp add: image_regions_def)

lemma direct_maps_step:
  assumes "pt_wf st r" "get_mem_size memmap = Inr mem_end" "4096 \<le> unat mem_end"
  shows "(\<exists>msg. paging_direct_maps r memmap st = Inl (Panic msg)) \<and> avail st < 6 * (unat mem_end div 2097152 + 2) \<or>
    (\<exists>st'. paging_direct_maps r memmap st = Inr st' \<and> pt_wf st' r \<and> phys_step st st' \<and> avail st \<le> avail st' + 6 * (unat mem_end div 2097152 + 2))"
proof -
  let ?num = "(mem_end - PAGE_SIZE) div PAGE_SIZE" and ?fl = "PAGE_PRESENT OR PAGE_WRITABLE"
  let ?w = "[(WARNING, ''[paging_init] mem_length is not a multiple of page size: 0x%lx'')]"
  let ?st = "st\<lparr>klog := klog st @ (if (mem_end - PAGE_SIZE) mod PAGE_SIZE \<noteq> 0 then ?w else [])\<rparr>"
  have eq: "paging_direct_maps r memmap st =
      kbind (paging_maps_in r PAGE_SIZE PAGE_SIZE ?num ?fl ?st) (paging_maps_in r (P2V PAGE_SIZE) PAGE_SIZE ?num ?fl)"
    using assms(2) by (simp add: paging_direct_maps_def Let_def log_msg_def)
  have "unat ?num \<le> unat mem_end div 4096"
    using unat_pages_between[of PAGE_SIZE mem_end] assms(3) by (simp add: PAGE_SIZE_eq div_le_mono)
  then have num: "unat ?num div 512 \<le> unat mem_end div 2097152"
    using div_le_mono[of "unat ?num" "unat mem_end div 4096" 512] by (simp add: div_mult2_eq[symmetric])
  consider (f) msg where "paging_maps_in r PAGE_SIZE PAGE_SIZE ?num ?fl ?st = Inl (Panic msg)" "avail st < 3 * (unat ?num div 512 + 2)"
    | (g) s where "paging_maps_in r PAGE_SIZE PAGE_SIZE ?num ?fl ?st = Inr s" "pt_wf s r" "phys_step st s" "avail st \<le> avail s + 3 * (unat ?num div 512 + 2)"
    using maps_in_step[of ?st r ?fl PAGE_SIZE PAGE_SIZE ?num] assms(1) kernel_flag_bits(2,4) by auto
  then show ?thesis
  proof cases
    case f
    then show ?thesis using num by (auto simp: eq)
  next
    case g
    from maps_in_step[OF g(2) kernel_flag_bits(2,4), of "P2V PAGE_SIZE" PAGE_SIZE ?num] show ?thesis
      using g(1,3,4) num phys_step_trans[OF g(3)] by (auto simp: eq)
  qed
qed

text \<open>What \<open>paging_init\<close> takes in frames and what it leaves alone.\<close>

definition tables_cost :: "pmr list \<Rightarrow> nat \<Rightarrow> nat" where
  "tables_cost pmrs mem_end = 1 + 3 * image_regions pmrs + 6 * (mem_end div 2097152 + 2)"

lemma paging_init_step:
  fixes st :: "'a kheap_state_scheme"
  assumes "pmm_wf st" "free_frames_ready st" "intr_wf (intr st)" "get_mem_size memmap = Inr mem_end" "4096 \<le> unat mem_end"
  obtains (fail) msg where "paging_init W h (Some (pbase, vbase)) (Some pmrs) (Some hh) (Some memmap) st = Inl (Panic msg)"
      "avail st < tables_cost pmrs (unat mem_end)"
  | (go) st' where "paging_init W h (Some (pbase, vbase)) (Some pmrs) (Some hh) (Some memmap) st = Inr st'"
      "pt_wf st' (paging_cr3 st')" "above_phys st' = above_phys st" "\<forall>x. above_phys st x \<longrightarrow> kmem st' x = kmem st x"
      "register_intr_handler h PAGE_FAULT_IRQ_VEC (intr st) = Inr (intr st')" "paging_state.more st' = paging_state.more st"
      "avail st \<le> avail st' + tables_cost pmrs (unat mem_end)"
proof -
  obtain l where l: "print_memmap memmap (paging_log_tags pmrs st) = st\<lparr>klog := l\<rparr>"
    using init_logs[of st memmap pmrs] by (auto simp: log_only_def)
  let ?log = "log_msg NONE ''[paging_init] pml4_table: 0x%lx''"
  have "unat PAGE_FAULT_IRQ_VEC < 256" by (simp add: PAGE_FAULT_IRQ_VEC_def)
  then obtain i' where i': "register_intr_handler h PAGE_FAULT_IRQ_VEC (intr st) = Inr i'"
    using assms(3) by (auto simp: register_intr_handler_def intr_wf_def IDT_MAX_ENTRIES_def Let_def)
  let ?st = "st\<lparr>klog := l, intr := i'\<rparr>" and ?res = "paging_init W h (Some (pbase, vbase)) (Some pmrs) (Some hh) (Some memmap) st"
  have ready: "pmm_wf ?st" "free_frames_ready ?st" using assms(1,2) by simp_all
  have av: "avail ?st = avail st" "above_phys ?st = above_phys st" by (simp_all add: above_phys_def fun_eq_iff)
  have eq: "?res = kbind (paging_create ?st) (\<lambda>(r, st).
      kbind (paging_map_pmrs W r pbase vbase pmrs (?log st)) (\<lambda>st.
      kbind (paging_direct_maps r memmap st) (\<lambda>st. Inr (st\<lparr>cr3 := r\<rparr>))))"
    by (simp add: paging_init_def l i' Let_def)
  show thesis
  proof (cases "paging_create ?st")
    case (Inl e)
    then show thesis using fail paging_create_panics[OF ready(1) Inl] eq av(1) by (auto simp: tables_cost_def)
  next
    case (Inr rs)
    obtain r st1 where c: "paging_create ?st = Inr (r, st1)" using Inr by (cases rs) auto
    have wf1: "pt_wf (?log st1) r" using pt_wf_create(1)[OF ready c] by simp
    have ph1: "phys_step ?st (?log st1)" using phys_step_create[OF ready(1) c] by simp
    have a1: "avail st = Suc (avail (?log st1))" using paging_create_facts(7)[OF ready c] av(1) by simp
    from map_pmrs_step[OF wf1, of W pbase vbase pmrs] show thesis
    proof (elim disjE exE conjE)
      fix msg assume "paging_map_pmrs W r pbase vbase pmrs (?log st1) = Inl (Panic msg)" "avail (?log st1) < 3 * image_regions pmrs"
      then show thesis using fail eq c a1 by (auto simp: tables_cost_def)
    next
      fix st2 assume s2: "paging_map_pmrs W r pbase vbase pmrs (?log st1) = Inr st2" "pt_wf st2 r" "phys_step (?log st1) st2"
        "avail (?log st1) \<le> avail st2 + 3 * image_regions pmrs"
      from direct_maps_step[OF s2(2) assms(4,5)] show thesis
      proof (elim disjE exE conjE)
        fix msg assume "paging_direct_maps r memmap st2 = Inl (Panic msg)" "avail st2 < 6 * (unat mem_end div 2097152 + 2)"
        then show thesis using fail eq c a1 s2(1,4) by (auto simp: tables_cost_def)
      next
        fix st3 assume s3: "paging_direct_maps r memmap st2 = Inr st3" "pt_wf st3 r" "phys_step st2 st3"
          "avail st2 \<le> avail st3 + 6 * (unat mem_end div 2097152 + 2)"
        let ?st4 = "st3\<lparr>cr3 := r\<rparr>"
        have ph: "phys_step ?st st3" using phys_step_trans[OF ph1 phys_step_trans[OF s2(3) s3(3)]] .
        have more: "pmm_state.more st3 = pmm_state.more ?st" using ph by (simp add: phys_step_def)
        have "ALIGN_DOWN r PAGE_SIZE = r" by (rule ALIGN_DOWN_id[OF kres_page_aligned[OF pt_wf_table(2)[OF s3(2) tables_root]]])
        then have "pt_wf ?st4 (paging_cr3 ?st4)" using s3(2) by (simp add: paging_cr3_def)
        moreover have "above_phys ?st4 = above_phys st" "\<forall>x. above_phys st x \<longrightarrow> kmem ?st4 x = kmem st x"
          using ph av(2) by (auto simp: phys_step_def above_phys_def fun_eq_iff)
        moreover have "intr ?st4 = i'" "paging_state.more ?st4 = paging_state.more st"
          using more by (cases st, cases st3, simp)+
        moreover have "avail st \<le> avail ?st4 + tables_cost pmrs (unat mem_end)"
          using a1 s2(4) s3(4) by (simp add: tables_cost_def avail_def free_pages_def num_pages_def page_used_def)
        ultimately show thesis using go[of ?st4] eq c s2(1) s3(1) i' by simp
      qed
    qed
  qed
qed

section \<open>From the memory map to the heap\<close>

text \<open>The frames of the upper zone are ready to become page tables: they are zero and the bitmaps lie elsewhere.\<close>

definition frames_zero :: "mem \<Rightarrow> nat set \<Rightarrow> bool" where
  "frames_zero m F \<longleftrightarrow> (\<forall>f \<in> F. 4096 \<le> f \<longrightarrow> (\<forall>x. in_region (of_nat (4096 * f)) 4096 x \<longrightarrow> m x = 0))"

lemma mem_ents_zero_frame:
  assumes "\<And>x. in_region f 4096 x \<Longrightarrow> m x = 0" "i < 512"
  shows "mem_ents m f i = 0"
proof -
  have "read64 m (f + 8 * of_nat i) = read64 (\<lambda>_. 0) (f + 8 * of_nat i)"
  proof (rule load_cong)
    fix x assume "in_region (f + 8 * of_nat i) 8 x"
    then have "in_region (f + of_nat (8 * i)) 8 x" by simp
    then have "in_region f 4096 x" using assms(2) in_region_offset[of "8 * i" 8 f x] by (simp add: in_region_def)
    then show "m x = 0" by (rule assms(1))
  qed simp
  then show ?thesis using mem_ents_zero[of f i] by (simp add: mem_ents_def)
qed

lemma freed_ready:
  fixes F :: "nat set"
  assumes inv: "freed F st" and ms: "unat (mem_size st) \<le> 2 ^ 52"
    and low: "\<forall>z x. z < PMM_NUM_ZONES \<and> bitmap_region (bitmap (mem_zone st ! z)) x \<longrightarrow> unat (mem_size st) \<le> unat x"
    and zero: "frames_zero (kmem st) F"
  shows "free_frames_ready st" "avail st = card {f \<in> F. 4096 \<le> f \<and> f < unat (mem_size st) div 4096}"
proof -
  note d = freedD[OF inv]
  have zb: "zone_base st PMM_ZONE_NORMAL = 4096 * 4096" "num_pages st PMM_ZONE_NORMAL = unat (mem_size st) div 4096 - 4096"
    using d(4,6) by (simp_all add: zone_base_def PMM_ZONE_NORMAL_def)
  have used: "page_used st PMM_ZONE_NORMAL k \<longleftrightarrow> 4096 + k \<notin> F"
    "4096 + k \<in> F \<Longrightarrow> unat (first_free_idx (mem_zone st ! PMM_ZONE_NORMAL)) \<le> k"
    if "k < num_pages st PMM_ZONE_NORMAL" for k
    using inv that by (simp_all add: freed_def PMM_ZONE_NORMAL_def PMM_NUM_ZONES_def)
  show "free_frames_ready st"
    unfolding free_frames_ready_def
  proof (intro allI impI)
    fix f assume "free_frame st f"
    then obtain k where k: "k < num_pages st PMM_ZONE_NORMAL" "unat f = 4096 * (4096 + k)" "4096 + k \<in> F"
      using used(1) by (auto simp: free_frame_def zb)
    have "4096 + k + 1 \<le> unat (mem_size st) div 4096" using k(1) zb(2) by linarith
    then have top: "4096 * (4096 + k) + 4096 \<le> unat (mem_size st)" by (simp add: less_eq_div_iff_mult_less_eq)
    have f: "of_nat (4096 * (4096 + k)) = f" using k(2)[symmetric] by simp
    have reg: "unat x < unat (mem_size st)" if "in_region f 4096 x" for x
    proof -
      have "unat f + 4096 \<le> 2 ^ 64" using top k(2) ms by simp
      then show ?thesis using that top k(2) by (simp add: in_region_unat)
    qed
    then have "clear_frame st f" using low unfolding clear_frame_def by (metis linorder_not_le)
    moreover have "mem_ents (kmem st) f i = 0" if "i < 512" for i
      by (rule mem_ents_zero_frame[OF _ that]) (use zero k(3) f in \<open>auto simp: frames_zero_def\<close>)
    ultimately show "f \<noteq> 0 \<and> unat f < 2 ^ 52 \<and> clear_frame st f \<and> (\<forall>i<512. mem_ents (kmem st) f i = 0)"
      using k(2) top ms by auto
  qed
  have "{f \<in> F. 4096 \<le> f \<and> f < unat (mem_size st) div 4096} =
      (\<lambda>k. 4096 + k) ` {k \<in> free_pages st PMM_ZONE_NORMAL. unat (first_free_idx (mem_zone st ! PMM_ZONE_NORMAL)) \<le> k}"
  proof (intro equalityI subsetI)
    fix f assume f: "f \<in> {f \<in> F. 4096 \<le> f \<and> f < unat (mem_size st) div 4096}"
    then have "f - 4096 < num_pages st PMM_ZONE_NORMAL" "4096 + (f - 4096) = f" using zb(2) by auto
    then have "f - 4096 \<in> {k \<in> free_pages st PMM_ZONE_NORMAL. unat (first_free_idx (mem_zone st ! PMM_ZONE_NORMAL)) \<le> k}"
      using used[of "f - 4096"] f by (auto simp: free_pages_def)
    then show "f \<in> (\<lambda>k. 4096 + k) ` {k \<in> free_pages st PMM_ZONE_NORMAL. unat (first_free_idx (mem_zone st ! PMM_ZONE_NORMAL)) \<le> k}"
      by (rule rev_image_eqI) (use f in simp)
  qed (use used zb(2) in \<open>auto simp: free_pages_def\<close>)
  then show "avail st = card {f \<in> F. 4096 \<le> f \<and> f < unat (mem_size st) div 4096}"
    by (simp add: avail_def card_image)
qed

text \<open>The machine as the boot loader hands it over: the static variables have their initial values, the memory map
  is as promised, usable memory is zero, physical memory ends below \<^verbatim>\<open>alloc_area\<close>, and \<^verbatim>\<open>alloc_area\<close> lies in the
  kernel image, which lies in the higher half.\<close>

definition boot_ok :: "mmap_entry list \<Rightarrow> pmr list \<Rightarrow> 'a kheap_state_scheme \<Rightarrow> bool" where
  "boot_ok es pmrs st \<longleftrightarrow>
     es \<noteq> [] \<and> memmap_ok es \<and> 2 ^ 24 \<le> entry_end (last es) \<and> entry_end (last es) \<le> 2 ^ 52 \<and>
     mem_zone st = mem_zone (pmm_boot (alloc_ptr st) (kmem st)) \<and> kheap_max st = 0 \<and> intr_wf (intr st) \<and>
     unat (alloc_ptr st) mod 8 = 0 \<and> entry_end (last es) \<le> unat (alloc_ptr st) \<and>
     unat (alloc_ptr st) + area_bytes (entry_end (last es)) \<le> unat (pmrs_end pmrs 0) \<and> 2 ^ 63 \<le> unat (pmrs_end pmrs 0) \<and>
     frames_zero (kmem st) (usable_frames es)"

text \<open>Memory that the start leaves alone: above physical memory and below the heap, without the bitmaps.\<close>

definition boot_kept :: "mmap_entry list \<Rightarrow> addr \<Rightarrow> addr \<Rightarrow> bool" where
  "boot_kept es area x \<longleftrightarrow>
     entry_end (last es) \<le> unat x \<and> unat x < 2 ^ 64 - 4096 \<and> \<not> in_region area (area_bytes (entry_end (last es))) x"

definition upper_frames :: "mmap_entry list \<Rightarrow> nat set" where
  "upper_frames es = {f \<in> usable_frames es. 4096 \<le> f}"

lemma get_mem_size_last: "es \<noteq> [] \<Longrightarrow> get_mem_size es = Inr (base (last es) + len (last es))"
  by (simp add: get_mem_size_def)

lemma memmap_ok_end: "memmap_ok es \<Longrightarrow> es \<noteq> [] \<Longrightarrow> entry_end (last es) < 2 ^ 64"
  by (induction es rule: memmap_ok.induct) (auto split: if_splits)

lemma usable_frames_below:
  assumes "memmap_ok es" "f \<in> usable_frames es"
  shows "f < entry_end (last es) div 4096"
proof -
  obtain e where e: "e \<in> set es" "usable e" "f < entry_end e div 4096" using assms(2) by (auto simp: usable_frames_def entry_frames_def)
  have "entry_end e div 4096 \<le> entry_end (last es) div 4096" using memmap_ok_last[OF assms(1) e(1,2)] by (rule div_le_mono)
  then show ?thesis using e(3) by linarith
qed

lemma start_memory_run:
  fixes st :: "'a kheap_state_scheme"
  assumes ok: "boot_ok es pmrs st" and h: "memmap_tag h = Some es" "kernel_base_tag h = Some (pbase, vbase)" "pmrs_tag h = Some pmrs" "hhdm_tag h = Some hh"
  obtains (fail) msg where "start_memory W w h st = Inl (Panic msg)"
      "card (upper_frames es) < tables_cost pmrs (entry_end (last es)) + 4 \<or> 2 ^ 64 < unat (pmrs_end pmrs 0) + 4096"
  | (go) st' where "start_memory W w h st = Inr st'" "heap_rel st' Map.empty" "unat (kheap_top st') = 2 ^ 64 - 4096" "kheap_max st' = pmrs_end pmrs 0"
      "kheap_state.more st' = kheap_state.more st" "\<forall>x. boot_kept es (alloc_ptr st) x \<longrightarrow> above_phys st' x \<and> kmem st' x = kmem st x"
      "register_intr_handler w PAGE_FAULT_IRQ_VEC (intr st) = Inr (intr st')"
      "card (upper_frames es) \<le> avail st' + tables_cost pmrs (entry_end (last es)) + 4"
proof -
  let ?n = "entry_end (last es)"
  note o = ok[unfolded boot_ok_def]
  have room: "unat (alloc_ptr st) + area_bytes ?n < 2 ^ 64" using o unat_u64_bound[of "pmrs_end pmrs 0"] by linarith
  have n64: "?n < 2 ^ 64" using memmap_ok_end o by blast
  have area: "?n \<le> unat x \<and> unat x < unat (pmrs_end pmrs 0)" if "in_region (alloc_ptr st) (area_bytes ?n) x" for x
    using that in_region_unat[of "alloc_ptr st" "area_bytes ?n" x] o room by auto
  obtain st1 where p1: "pmm_init (Some es) st = Inr st1" "freed (usable_frames es) st1" "unat (mem_size st1) = ?n" "pmm_state.more st1 = pmm_state.more st"
      "\<forall>x. \<not> in_region (alloc_ptr st) (area_bytes ?n) x \<longrightarrow> kmem st1 x = kmem st x"
      "\<forall>z x. z < PMM_NUM_ZONES \<and> bitmap_region (bitmap (mem_zone st1 ! z)) x \<longrightarrow> in_region (alloc_ptr st) (area_bytes ?n) x"
    by (rule pmm_init_run[of es st, OF _ _ _ _ room]) (use o in auto)
  have m1: "intr st1 = intr st" "kheap_max st1 = 0" "kheap_state.more st1 = kheap_state.more st"
    using p1(4) o by (cases st, cases st1, simp)+
  have low: "\<forall>z x. z < PMM_NUM_ZONES \<and> bitmap_region (bitmap (mem_zone st1 ! z)) x \<longrightarrow> unat (mem_size st1) \<le> unat x"
    using p1(3,6) area by simp
  have zero: "frames_zero (kmem st1) (usable_frames es)"
    unfolding frames_zero_def
  proof (intro ballI allI impI)
    fix f x assume f: "f \<in> usable_frames es" "4096 \<le> f" "in_region (of_nat (4096 * f)) 4096 x"
    have "f < ?n div 4096" using usable_frames_below o f(1) by blast
    then have "4096 * f + 4096 \<le> ?n" by (simp add: less_eq_div_iff_mult_less_eq Suc_le_eq[symmetric])
    moreover from this have "unat (of_nat (4096 * f) :: u64) = 4096 * f" using n64 by (intro unat_of_nat_u64) linarith
    ultimately have "unat x < ?n" using f(3) n64 by (simp add: in_region_unat)
    then have "kmem st1 x = kmem st x" using p1(5) area by (metis linorder_not_le)
    moreover have "kmem st x = 0" using o f unfolding frames_zero_def by blast
    ultimately show "kmem st1 x = 0" by simp
  qed
  note r1 = freed_ready[OF p1(2) _ low zero]
  have av1: "avail st1 = card (upper_frames es)"
    using r1(2) o p1(3) usable_frames_below[of es] by (auto simp: upper_frames_def intro!: arg_cong[where f = card])
  have above1: "above_phys st1 x" if "boot_kept es (alloc_ptr st) x \<or> unat (pmrs_end pmrs 0) \<le> unat x" for x
    unfolding above_phys_def
  proof (intro conjI allI impI notI)
    have top: "?n \<le> unat (pmrs_end pmrs 0)" using o by linarith
    then show "unat (mem_size st1) \<le> unat x" using that unfolding p1(3) boot_kept_def by linarith
    fix z assume "z < PMM_NUM_ZONES" "bitmap_region (bitmap (mem_zone st1 ! z)) x"
    then have "in_region (alloc_ptr st) (area_bytes ?n) x" using p1(6) by blast
    then show False using that area[of x] unfolding boot_kept_def by linarith
  qed
  have sz: "get_mem_size es = Inr (base (last es) + len (last es))" "unat (base (last es) + len (last es)) = ?n"
    using o n64 by (simp_all add: get_mem_size_last unat_plus_if')
  have i1: "intr_wf (intr st1)" "free_frames_ready st1" "pmm_wf st1" using o m1(1) r1(1) p1(3) freedD(1)[OF p1(2)] by auto
  have run: "start_memory W w h st = kbind (paging_init W w (Some (pbase, vbase)) (Some pmrs) (Some hh) (Some es) st1) (kheap_init (Some pmrs) 1)"
    using p1(1) h by (simp add: start_memory_def KHEAP_INIT_PAGES_def)
  show thesis
  proof (rule paging_init_step[OF i1(3,2,1) sz(1), of W w pbase vbase pmrs hh, unfolded sz(2)])
    show "4096 \<le> ?n" using o by auto
    fix msg assume "paging_init W w (Some (pbase, vbase)) (Some pmrs) (Some hh) (Some es) st1 = Inl (Panic msg)" "avail st1 < tables_cost pmrs ?n"
    then show thesis using fail run av1 by simp
  next
    fix st2 assume p2: "paging_init W w (Some (pbase, vbase)) (Some pmrs) (Some hh) (Some es) st1 = Inr st2" "pt_wf st2 (paging_cr3 st2)"
      "above_phys st2 = above_phys st1" "\<forall>x. above_phys st1 x \<longrightarrow> kmem st2 x = kmem st1 x"
      "register_intr_handler w PAGE_FAULT_IRQ_VEC (intr st1) = Inr (intr st2)" "paging_state.more st2 = paging_state.more st1"
      "avail st1 \<le> avail st2 + tables_cost pmrs ?n"
    have m2: "kheap_max st2 = 0" "kheap_state.more st2 = kheap_state.more st" using p2(6) m1 by (cases st1, cases st2, simp)+
    show thesis
    proof (rule kheap_init_wf[OF p2(2), of 1 pmrs, unfolded m2])
      show "(1 :: u64) \<noteq> 0" "4096 * unat (1 :: u64) \<le> 2 ^ 62" by simp_all
      show "2 ^ 63 \<le> unat (pmrs_end pmrs 0)" using o by simp
      show "above_phys st2 x" if "unat (pmrs_end pmrs 0) \<le> unat x" for x using above1 that by (simp add: p2(3))
      fix msg assume "kheap_init (Some pmrs) 1 st2 = Inl (Panic msg)" "avail st2 < 4 * unat (1 :: u64) \<or> 2 ^ 64 < unat (pmrs_end pmrs 0) + 4096 * unat (1 :: u64)"
      then show thesis using fail run p2(1,7) av1 by auto
    next
      fix st3 assume p3: "kheap_init (Some pmrs) 1 st2 = Inr st3" "heap_rel st3 Map.empty" "unat (kheap_top st3) = 2 ^ 64 - 4096 * unat (1 :: u64)"
        "kheap_max st3 = pmrs_end pmrs 0" "avail st2 \<le> avail st3 + 4 * unat (1 :: u64)" "above_phys st3 = above_phys st2"
        "kheap_state.more st3 = kheap_state.more st" "intr st3 = intr st2"
        "\<forall>x. above_phys st2 x \<and> unat x < unat (kheap_top st3) \<longrightarrow> kmem st3 x = kmem st2 x"
      have "above_phys st3 x \<and> kmem st3 x = kmem st x" if x: "boot_kept es (alloc_ptr st) x" for x
      proof -
        have a: "above_phys st1 x" using above1 x by blast
        then have "kmem st3 x = kmem st2 x" using p3(3,9) x by (simp add: boot_kept_def p2(3))
        also have "\<dots> = kmem st x" using a p2(4) p1(5) x by (simp add: boot_kept_def)
        finally show ?thesis using a by (simp add: p3(6) p2(3))
      qed
      then show thesis using go[of st3] run p2(1,5,7) p3 av1 m1(1) by auto
    qed
  qed
qed

section \<open>Properties\<close>


text \<open>A machine of 32 MiB before the kernel starts.\<close>

definition demo_unstarted :: kheap_state where
  "demo_unstarted = \<lparr>kmem = (\<lambda>_. 0), klog = [], alloc_ptr = 0xffffffff80201000, mem_size = 0, mem_zone = mem_zone (pmm_boot 0 (\<lambda>_. 0)),
     cr3 = 0, invalidated = [], intr = demo_intr, kheap_top = 0, kheap_max = 0, free_head = 0, block_head = 0\<rparr>"

definition demo_handover :: handover where
  "demo_handover = \<lparr>memmap_tag = Some demo_memmap, kernel_base_tag = Some (0x200000, 0xffffffff80200000), pmrs_tag = Some demo_pmrs,
     hhdm_tag = Some VA_HHDM\<rparr>"

lemma demo_memmap_frames: "usable_frames demo_memmap = entry_frames \<lparr>base = 0x100000, len = 0x1f00000, kind = MEM_USABLE\<rparr>"
  by (simp add: demo_memmap_def MEM_USABLE_def)

lemma demo_upper_frames: "card (upper_frames demo_memmap) = 4096"
proof -
  have "upper_frames demo_memmap = {4096 ..< 8192}"
  proof (rule set_eqI)
    fix f :: nat
    show "f \<in> upper_frames demo_memmap \<longleftrightarrow> f \<in> {4096 ..< 8192}"
      unfolding upper_frames_def demo_memmap_frames entry_frames_def mem_Collect_eq atLeastLessThan_iff by auto
  qed
  then show ?thesis by (simp only: card_atLeastLessThan)
qed

lemma demo_boot_facts: "boot_ok demo_memmap demo_pmrs demo_unstarted" "pmrs_end demo_pmrs 0 = 0xffffffff80203000" "entry_end (last demo_memmap) = 0x2000000"
proof -
  show e: "pmrs_end demo_pmrs 0 = 0xffffffff80203000" "entry_end (last demo_memmap) = 0x2000000"
    by (simp_all add: pmrs_end_def demo_pmrs_def MAX_u64_def demo_memmap_def)
  have "memmap_ok demo_memmap" "demo_memmap \<noteq> []" by (simp_all add: demo_memmap_def MEM_USABLE_def)
  then show "boot_ok demo_memmap demo_pmrs demo_unstarted"
    unfolding boot_ok_def e by (simp add: demo_unstarted_def pmm_boot_def demo_intr_wf area_bytes_def frames_zero_def)
qed


end
