(* ===== verification/Sdt.thy ===== *)
theory Sdt
  imports Kernel_Memory
begin

text \<open>
  System description tables: the header of kernel/include/acpi/sdt.h, packed and little-endian in memory, and the
  checksum of kernel/acpi/sdt.c. The checksum of the root pointer (kernel/acpi/acpi.c) is the same loop.
\<close>

section \<open>Definitions\<close>

definition sizeof_sdt_header :: u64 where "sizeof_sdt_header = 36"

definition sdt_length :: "mem \<Rightarrow> addr \<Rightarrow> u32" where "sdt_length m hdr = load 4 m (hdr + 4)"

text \<open>\<^verbatim>\<open>for (i = 0; i < n; i++) { checksum += *ptr; ptr++; }\<close>\<close>

definition checksum_loop :: "mem \<Rightarrow> nat \<Rightarrow> u8 \<times> addr \<Rightarrow> u8 \<times> addr" where
  "checksum_loop m n s = for_nat n (\<lambda>_ (checksum, p). (checksum + m p, p + 1)) s"

definition verify_sdt_checksum :: "mem \<Rightarrow> addr \<Rightarrow> bool" where
  "verify_sdt_checksum m sdt_hdr = (fst (checksum_loop m (unat (sdt_length m sdt_hdr)) (0, sdt_hdr)) AND 0xff = 0)"

section \<open>The sum of the bytes\<close>

definition byte_sum :: "mem \<Rightarrow> addr \<Rightarrow> nat \<Rightarrow> nat" where
  "byte_sum m a n = (\<Sum>i<n. unat (m (a + of_nat i)))"

lemma byte_sum_add: "byte_sum m a (n + k) = byte_sum m a n + byte_sum m (a + of_nat n) k"
  by (induction k) (simp_all add: byte_sum_def add.assoc)

lemma byte_sum_cong: "(\<And>x. in_region a n x \<Longrightarrow> m' x = m x) \<Longrightarrow> n \<le> 2 ^ 64 \<Longrightarrow> byte_sum m' a n = byte_sum m a n"
  unfolding byte_sum_def by (intro sum.cong) (auto simp: in_region_def)

lemma byte_sum_zero [simp]: "byte_sum (\<lambda>_. 0) a n = 0"
  by (simp add: byte_sum_def)

lemma byte_sum_upd:
  assumes "n \<le> 2 ^ 64" "m x = 0"
  shows "byte_sum (m(x := v)) a n = byte_sum m a n + (if in_region a n x then unat v else 0)"
proof (cases "in_region a n x")
  case True
  let ?k = "unat (x - a)"
  have k: "?k < n" "a + of_nat ?k = x" using True by (simp_all add: in_region_def)
  have "a + of_nat i \<noteq> x" if "i < n" "i \<noteq> ?k" for i
  proof
    assume "a + of_nat i = x"
    then have "?k = unat (of_nat i :: u64)" by auto
    then show False using that assms(1) by simp
  qed
  then have "(\<Sum>i\<in>{..<n} - {?k}. unat ((m(x := v)) (a + of_nat i))) = (\<Sum>i\<in>{..<n} - {?k}. unat (m (a + of_nat i)))"
    by (intro sum.cong) auto
  then show ?thesis using k assms(2) True by (simp add: byte_sum_def sum.remove[of "{..<n}" ?k])
next
  case False
  then show ?thesis using assms(1) by (simp del: fun_upd_apply) (intro byte_sum_cong; auto)
qed

lemma checksum_loop_eq: "checksum_loop m n (c, p) = (c + of_nat (byte_sum m p n), p + of_nat n)"
proof (induction n)
  case (Suc n)
  then show ?case by (simp add: checksum_loop_def byte_sum_def add.assoc)
qed (simp add: checksum_loop_def byte_sum_def)

lemma and_ff: "c AND 0xff = (c :: u8)"
  using take_bit_word_eq_self[of 8 c] by (simp add: take_bit_eq_mask mask_eq_exp_minus_1)

lemma u8_of_nat_zero: "(of_nat k :: u8) = 0 \<longleftrightarrow> k mod 256 = 0"
  by (simp add: word_of_nat_eq_0_iff dvd_eq_mod_eq_0)

lemma verify_sdt_checksum_iff: "verify_sdt_checksum m hdr \<longleftrightarrow> byte_sum m hdr (unat (sdt_length m hdr)) mod 256 = 0"
  by (simp add: verify_sdt_checksum_def checksum_loop_eq and_ff u8_of_nat_zero)

end
