(* ===== verification/Madt.thy ===== *)
theory Madt
  imports Kheap_Client Sdt
begin

text \<open>
  The parser of the Multiple APIC Description Table, kernel/acpi/madt.c. The table lies in memory; the
  parser walks its entries twice with a \<^verbatim>\<open>uint8_t\<close> index, first to count them by type and then to store
  pointers to them in lists on the kernel heap. A walk need not end, so the two loops are partial.
\<close>

section \<open>Definitions\<close>

definition MADT_LAPIC :: u8 where "MADT_LAPIC = 0"
definition MADT_IOAPIC :: u8 where "MADT_IOAPIC = 1"
definition MADT_INTR_SRC_OVERRIDE :: u8 where "MADT_INTR_SRC_OVERRIDE = 2"
definition MADT_APIC_NMI_SRC :: u8 where "MADT_APIC_NMI_SRC = 3"
definition MADT_LAPIC_NMI :: u8 where "MADT_LAPIC_NMI = 4"
definition MADT_LAPIC_ADDR_OVERRIDE :: u8 where "MADT_LAPIC_ADDR_OVERRIDE = 5"
definition MADT_LX2APIC :: u8 where "MADT_LX2APIC = 9"
definition MADT_OFFSET :: u8 where "MADT_OFFSET = 0x2c"
definition MAX_ENTRY_TYPE :: nat where "MAX_ENTRY_TYPE = 10"

record madt_info_t =
  num_lapic :: u64
  lapics :: addr
  num_io_apic :: u64
  io_apics :: addr
  num_intr_src_override :: u64
  intr_src_overrides :: addr
  num_apic_nmi_src :: u64
  nmi_srcs :: addr
  num_lapic_nmi :: u64
  lapic_nmis :: addr
  lapic_addr_override :: addr
  num_lx2apic :: u64
  lx2apics :: addr
  lapic_paddr :: u64

record madt_state = kheap_state +
  madt_info :: madt_info_t

definition madt_info_0 :: madt_info_t where
  "madt_info_0 = \<lparr>num_lapic = 0, lapics = 0, num_io_apic = 0, io_apics = 0, num_intr_src_override = 0,
     intr_src_overrides = 0, num_apic_nmi_src = 0, nmi_srcs = 0, num_lapic_nmi = 0, lapic_nmis = 0,
     lapic_addr_override = 0, num_lx2apic = 0, lx2apics = 0, lapic_paddr = 0\<rparr>"

text \<open>Fields of the packed structures: the address of the local APIC, the entries, the type and the length of an
  entry, and the address in an override.\<close>

definition madt_lapic_addr :: "mem \<Rightarrow> addr \<Rightarrow> u32" where "madt_lapic_addr m madt = load 4 m (madt + 36)"
definition madt_data :: "addr \<Rightarrow> u8 \<Rightarrow> addr" where "madt_data madt i = madt + 44 + ucast i"
definition entry_type :: "mem \<Rightarrow> addr \<Rightarrow> u8" where "entry_type m e = m e"
definition entry_length :: "mem \<Rightarrow> addr \<Rightarrow> u8" where "entry_length m e = m (e + 1)"
definition override_paddr :: "mem \<Rightarrow> addr \<Rightarrow> u64" where "override_paddr m e = load 8 m (e + 4)"

definition upd_info :: "(madt_info_t \<Rightarrow> madt_info_t) \<Rightarrow> 'a madt_state_scheme \<Rightarrow> 'a madt_state_scheme" where
  "upd_info f st = st\<lparr>madt_info := f (madt_info st)\<rparr>"

text \<open>\<^verbatim>\<open>if (p) kfree(p);\<close>\<close>

definition free_list :: "addr \<Rightarrow> 'a kheap_state_scheme \<Rightarrow> 'a kheap_state_scheme kres" where
  "free_list p st = (if p \<noteq> 0 then kfree p st else Inr st)"

definition reset_madt_info :: "'a madt_state_scheme \<Rightarrow> 'a madt_state_scheme kres" where
  "reset_madt_info st =
     kbind (free_list (lapics (madt_info st)) st) (\<lambda>st.
     kbind (free_list (io_apics (madt_info st)) st) (\<lambda>st.
     kbind (free_list (intr_src_overrides (madt_info st)) st) (\<lambda>st.
     kbind (free_list (nmi_srcs (madt_info st)) st) (\<lambda>st.
     kbind (free_list (lapic_nmis (madt_info st)) st) (\<lambda>st.
     kbind (free_list (lx2apics (madt_info st)) st) (\<lambda>st.
     Inr (st\<lparr>madt_info := madt_info_0\<rparr>)))))))"

definition get_madt_info :: "'a madt_state_scheme \<Rightarrow> madt_info_t" where
  "get_madt_info st = madt_info st"

text \<open>The body of the first loop on one entry.\<close>

definition madt_count :: "addr \<Rightarrow> 'a madt_state_scheme \<Rightarrow> 'a madt_state_scheme kres" where
  "madt_count e st =
     (let t = entry_type (kmem st) e in
      if t = MADT_LAPIC then
        Inr (upd_info (\<lambda>i. i\<lparr>num_lapic := num_lapic i + 1\<rparr>) (log_msg NONE ''[parse_madt] MADT_LAPIC:\<newline>acpi_processor_id: %u, apic_id: %u'' st))
      else if t = MADT_IOAPIC then
        Inr (upd_info (\<lambda>i. i\<lparr>num_io_apic := num_io_apic i + 1\<rparr>) (log_msg NONE ''[parse_madt] MADT_IOAPIC:\<newline>io_apic_id: %u, io_apic_addr: 0x%x, gsi_base: %u'' st))
      else if t = MADT_INTR_SRC_OVERRIDE then
        Inr (upd_info (\<lambda>i. i\<lparr>num_intr_src_override := num_intr_src_override i + 1\<rparr>)
               (log_msg NONE ''[parse_madt] MADT_INTR_SRC_OVERRIDE:\<newline>bus_src: %u, irq_src: %u, gsi: %u, flags: 0x%x'' st))
      else if t = MADT_APIC_NMI_SRC then
        Inr (upd_info (\<lambda>i. i\<lparr>num_apic_nmi_src := num_apic_nmi_src i + 1\<rparr>)
               (log_msg NONE ''[parse_madt] MADT_APIC_NMI_SRC:\<newline>nmi_src: %u, flags: %u, gsi: %u'' st))
      else if t = MADT_LAPIC_NMI then
        Inr (upd_info (\<lambda>i. i\<lparr>num_lapic_nmi := num_lapic_nmi i + 1\<rparr>) (log_msg NONE ''[parse_madt] MADT_LAPIC_NMI:\<newline>acpi_processor_id: 0x%x, flags: %u, lint: %u'' st))
      else if t = MADT_LAPIC_ADDR_OVERRIDE then
        if lapic_addr_override (madt_info st) \<noteq> 0 then
          Inl (Panic ''MADT contains more than one lapic address override entry.'')
        else
          Inr (log_msg NONE ''[parse_madt] MADT_LAPIC_ADDR_OVERRIDE:\<newline>lapic_paddr: 0x%lx'' (upd_info (\<lambda>i. i\<lparr>lapic_addr_override := e\<rparr>) st))
      else if t = MADT_LX2APIC then
        Inr (upd_info (\<lambda>i. i\<lparr>num_lx2apic := num_lx2apic i + 1\<rparr>) (log_msg NONE ''[parse_madt] MADT_LX2APIC:\<newline>lx2apic_id: %u, flags: %u, acpi_id: %u'' st))
      else Inr (log_msg WARNING ''[parse_madt] unknown entry type was detected: %u'' st))"

text \<open>The condition of both loops, in 32-bit arithmetic: the index against the length without the header.\<close>

definition madt_more :: "addr \<Rightarrow> u8 \<Rightarrow> mem \<Rightarrow> bool" where
  "madt_more madt i m \<longleftrightarrow> ucast i < sdt_length m madt - ucast MADT_OFFSET"

partial_function (option) madt_count_loop ::
  "addr \<Rightarrow> u8 \<Rightarrow> 'a madt_state_scheme \<Rightarrow> 'a madt_state_scheme kres option" where
  "madt_count_loop madt i st =
     (if madt_more madt i (kmem st) then
        case madt_count (madt_data madt i) st of
          Inl e \<Rightarrow> Some (Inl e)
        | Inr st \<Rightarrow>
            let st = log_msg NONE ''---------------------------'' st
            in madt_count_loop madt (i + entry_length (kmem st) (madt_data madt i)) st
      else Some (Inr st))"

text \<open>\<^verbatim>\<open>if (num) list = kmalloc(num * 8);\<close>\<close>

definition alloc_list :: "u64 \<Rightarrow> (addr \<Rightarrow> madt_info_t \<Rightarrow> madt_info_t) \<Rightarrow> 'a madt_state_scheme \<Rightarrow> 'a madt_state_scheme kres option" where
  "alloc_list num set_list st =
     (if num \<noteq> 0 then obind (kmalloc (num * 8) st) (\<lambda>(p, st). Some (Inr (upd_info (set_list p) st)))
      else Some (Inr st))"

definition madt_alloc :: "'a madt_state_scheme \<Rightarrow> 'a madt_state_scheme kres option" where
  "madt_alloc st =
     obind (alloc_list (num_lapic (madt_info st)) (\<lambda>p i. i\<lparr>lapics := p\<rparr>) st) (\<lambda>st.
     obind (alloc_list (num_io_apic (madt_info st)) (\<lambda>p i. i\<lparr>io_apics := p\<rparr>) st) (\<lambda>st.
     obind (alloc_list (num_intr_src_override (madt_info st)) (\<lambda>p i. i\<lparr>intr_src_overrides := p\<rparr>) st) (\<lambda>st.
     obind (alloc_list (num_apic_nmi_src (madt_info st)) (\<lambda>p i. i\<lparr>nmi_srcs := p\<rparr>) st) (\<lambda>st.
     obind (alloc_list (num_lapic_nmi (madt_info st)) (\<lambda>p i. i\<lparr>lapic_nmis := p\<rparr>) st) (\<lambda>st.
     alloc_list (num_lx2apic (madt_info st)) (\<lambda>p i. i\<lparr>lx2apics := p\<rparr>) st)))))"

text \<open>\<^verbatim>\<open>list[entry_counters[t]++] = entry_hdr;\<close>\<close>

definition store_entry :: "addr \<Rightarrow> u8 \<Rightarrow> addr \<Rightarrow> u64 list \<times> 'a kstate_scheme \<Rightarrow> (u64 list \<times> 'a kstate_scheme) kres" where
  "store_entry ptrs t e cst =
     (case cst of (counters, st) \<Rightarrow>
        if ptrs = 0 then Inl Null_deref
        else if length counters \<le> unat t then Inl Out_of_bounds
        else Inr (counters[unat t := counters ! unat t + 1],
                  st\<lparr>kmem := write64 (kmem st) (ptrs + 8 * (counters ! unat t)) e\<rparr>))"

text \<open>The body of the second loop.\<close>

definition madt_fill :: "addr \<Rightarrow> u64 list \<times> 'a madt_state_scheme \<Rightarrow> (u64 list \<times> 'a madt_state_scheme) kres" where
  "madt_fill e cst =
     (case cst of (counters, st) \<Rightarrow>
      let t = entry_type (kmem st) e; info = madt_info st in
      if t = MADT_LAPIC then store_entry (lapics info) t e cst
      else if t = MADT_IOAPIC then store_entry (io_apics info) t e cst
      else if t = MADT_INTR_SRC_OVERRIDE then store_entry (intr_src_overrides info) t e cst
      else if t = MADT_APIC_NMI_SRC then store_entry (nmi_srcs info) t e cst
      else if t = MADT_LAPIC_NMI then store_entry (lapic_nmis info) t e cst
      else if t = MADT_LAPIC_ADDR_OVERRIDE then
        if lapic_addr_override info = 0 then Inl Null_deref
        else Inr (counters, upd_info (\<lambda>i. i\<lparr>lapic_paddr := override_paddr (kmem st) (lapic_addr_override info)\<rparr>) st)
      else if t = MADT_LX2APIC then store_entry (lx2apics info) t e cst
      else Inr (counters, log_msg WARNING ''[parse_madt] unknown entry type was detected: %u'' st))"

partial_function (option) madt_fill_loop ::
  "addr \<Rightarrow> u8 \<Rightarrow> u64 list \<times> 'a madt_state_scheme \<Rightarrow> 'a madt_state_scheme kres option" where
  "madt_fill_loop madt i cst =
     (if madt_more madt i (kmem (snd cst)) then
        case madt_fill (madt_data madt i) cst of
          Inl e \<Rightarrow> Some (Inl e)
        | Inr cst \<Rightarrow> madt_fill_loop madt (i + entry_length (kmem (snd cst)) (madt_data madt i)) cst
      else Some (Inr (snd cst)))"

definition parse_madt :: "addr \<Rightarrow> 'a madt_state_scheme \<Rightarrow> 'a madt_state_scheme kres option" where
  "parse_madt madt st =
     (let st = log_msg INFO ''[parse_madt] MADT information:'' st;
          st = log_msg NONE ''---------------------------'' st;
          st = log_msg NONE ''[parse_madt] lapic address: 0x%lx'' st;
          st = log_msg NONE ''[parse_madt] madt length: %u'' st
      in obind (Some (reset_madt_info st)) (\<lambda>st.
         let st = upd_info (\<lambda>i. i\<lparr>lapic_paddr := ucast (madt_lapic_addr (kmem st) madt)\<rparr>) st;
             st = log_msg NONE ''---------------------------'' st
         in obind (madt_count_loop madt 0 st) (\<lambda>st.
            obind (madt_alloc st) (\<lambda>st.
            madt_fill_loop madt 0 (replicate MAX_ENTRY_TYPE 0, st)))))"

section \<open>What the parser is to find\<close>

lemmas madt_types = MADT_LAPIC_def MADT_IOAPIC_def MADT_INTR_SRC_OVERRIDE_def MADT_APIC_NMI_SRC_def MADT_LAPIC_NMI_def
  MADT_LAPIC_ADDR_OVERRIDE_def MADT_LX2APIC_def

text \<open>The types whose entries are listed.\<close>

definition list_types :: "u8 set" where
  "list_types = {MADT_LAPIC, MADT_IOAPIC, MADT_INTR_SRC_OVERRIDE, MADT_APIC_NMI_SRC, MADT_LAPIC_NMI, MADT_LX2APIC}"

definition num_of :: "u8 \<Rightarrow> madt_info_t \<Rightarrow> u64" where
  "num_of t i = (if t = MADT_LAPIC then num_lapic i else if t = MADT_IOAPIC then num_io_apic i
     else if t = MADT_INTR_SRC_OVERRIDE then num_intr_src_override i else if t = MADT_APIC_NMI_SRC then num_apic_nmi_src i
     else if t = MADT_LAPIC_NMI then num_lapic_nmi i else if t = MADT_LX2APIC then num_lx2apic i else 0)"

definition ptrs_of :: "u8 \<Rightarrow> madt_info_t \<Rightarrow> addr" where
  "ptrs_of t i = (if t = MADT_LAPIC then lapics i else if t = MADT_IOAPIC then io_apics i
     else if t = MADT_INTR_SRC_OVERRIDE then intr_src_overrides i else if t = MADT_APIC_NMI_SRC then nmi_srcs i
     else if t = MADT_LAPIC_NMI then lapic_nmis i else if t = MADT_LX2APIC then lx2apics i else 0)"

text \<open>The entries follow one another from offset \<open>o1\<close> to offset \<open>o2\<close>; each has its header, and an override is long enough to hold its address.\<close>

primrec entries_at :: "mem \<Rightarrow> addr \<Rightarrow> nat \<Rightarrow> nat list \<Rightarrow> nat \<Rightarrow> bool" where
  "entries_at m d o1 [] o2 \<longleftrightarrow> o1 = o2"
| "entries_at m d o1 (k # ks) o2 \<longleftrightarrow>
     k = o1 \<and> 2 \<le> unat (entry_length m (d + of_nat o1)) \<and>
     (entry_type m (d + of_nat o1) = MADT_LAPIC_ADDR_OVERRIDE \<longrightarrow> 12 \<le> unat (entry_length m (d + of_nat o1))) \<and>
     entries_at m d (o1 + unat (entry_length m (d + of_nat o1))) ks o2"

definition madt_entries :: "addr \<Rightarrow> nat list \<Rightarrow> addr list" where
  "madt_entries madt ks = map (\<lambda>k. madt + 44 + of_nat k) ks"

definition of_type :: "mem \<Rightarrow> u8 \<Rightarrow> addr list \<Rightarrow> addr list" where
  "of_type m t es = filter (\<lambda>e. entry_type m e = t) es"

text \<open>A table whose entries fill at most 255 bytes, with at most one override, in memory that neither the heap nor the
  physical memory manager uses.\<close>

definition madt_table :: "'a kheap_state_scheme \<Rightarrow> addr \<Rightarrow> nat list \<Rightarrow> nat \<Rightarrow> bool" where
  "madt_table st madt ks n \<longleftrightarrow>
     n \<le> 255 \<and> madt \<noteq> 0 \<and> unat madt + 44 + n < 2 ^ 64 \<and> sdt_length (kmem st) madt = of_nat (44 + n) \<and> entries_at (kmem st) (madt + 44) 0 ks n \<and>
     length (of_type (kmem st) MADT_LAPIC_ADDR_OVERRIDE (madt_entries madt ks)) \<le> 1 \<and>
     (\<forall>x. in_region madt (44 + n) x \<longrightarrow> above_phys st x \<and> unat x < unat (kheap_max st))"

text \<open>The list of a type: its length and its pointers.\<close>

definition madt_listed :: "mem \<Rightarrow> madt_info_t \<Rightarrow> u8 \<Rightarrow> addr list \<Rightarrow> bool" where
  "madt_listed m info t es \<longleftrightarrow>
     num_of t info = of_nat (length es) \<and> (es = [] \<or> ptrs_of t info \<noteq> 0) \<and>
     (\<forall>j < length es. read64 m (ptrs_of t info + 8 * of_nat j) = es ! j)"

lemma madt_listed_nth:
  assumes "madt_listed m info t es" "0 \<notin> set es" "n < length es"
  shows "read64 m (ptrs_of t info + 8 * of_nat n) = es ! n" "ptrs_of t info \<noteq> 0" "es ! n \<noteq> 0"
proof -
  show "es ! n \<noteq> 0" using assms(2) nth_mem[OF assms(3)] by metis
  show "read64 m (ptrs_of t info + 8 * of_nat n) = es ! n" "ptrs_of t info \<noteq> 0" using assms(1,3) by (auto simp: madt_listed_def)
qed

section \<open>Counting\<close>

text \<open>A step that changes only the log and \<^verbatim>\<open>madt_info\<close>.\<close>

definition quiet :: "'a madt_state_scheme \<Rightarrow> 'a madt_state_scheme \<Rightarrow> bool" where
  "quiet st st' \<longleftrightarrow>
     kmem st' = kmem st \<and> kheap_max st' = kheap_max st \<and> above_phys st' = above_phys st \<and> avail st' = avail st \<and> kheap_top st' = kheap_top st \<and>
     intr st' = intr st \<and> madt_state.more st' = madt_state.more st \<and> (\<forall>U. heap_rel st' U = heap_rel st U)"

lemma heap_rel_info [simp]: "heap_rel (upd_info f st) U = heap_rel st U"
  by (rule heap_more) (simp add: upd_info_def kheap_state.truncate_def)

lemma upd_info_simps [simp]:
  "kmem (upd_info f st) = kmem st" "kheap_max (upd_info f st) = kheap_max st" "kheap_top (upd_info f st) = kheap_top st"
  "madt_info (upd_info f st) = f (madt_info st)" "above_phys (upd_info f st) = above_phys st" "avail (upd_info f st) = avail st"
  "intr (upd_info f st) = intr st" "madt_state.more (upd_info f st) = madt_state.more st"
  using heap_more(2,3)[of "upd_info f st" st] by (simp_all add: upd_info_def kheap_state.truncate_def)

lemma log_info_simps [simp]:
  "madt_info (log_msg l s st) = madt_info st" "kheap_max (log_msg l s st) = kheap_max st"
  "kheap_top (log_msg l s st) = kheap_top st" "avail (log_msg l s st) = avail st"
  "intr (log_msg l s st) = intr st" "madt_state.more (log_msg l s st) = madt_state.more st"
  by (simp_all add: log_msg_def avail_def free_pages_def num_pages_def page_used_def)

lemma heap_rel_log [simp]: "heap_rel (log_msg l s st) U = heap_rel st U"
  by (simp add: heap_rel_def kheap_wf_log)

lemma quiet_simps [simp]:
  "quiet st st" "quiet st (log_msg l s st') = quiet st st'" "quiet st (upd_info f st') = quiet st st'"
  by (simp_all add: quiet_def)

lemma quiet_trans: "quiet a b \<Longrightarrow> quiet b c \<Longrightarrow> quiet a c"
  by (simp add: quiet_def)

definition count_info :: "u8 \<Rightarrow> addr \<Rightarrow> madt_info_t \<Rightarrow> madt_info_t" where
  "count_info t e i =
     (if t = MADT_LAPIC then i\<lparr>num_lapic := num_lapic i + 1\<rparr> else if t = MADT_IOAPIC then i\<lparr>num_io_apic := num_io_apic i + 1\<rparr>
      else if t = MADT_INTR_SRC_OVERRIDE then i\<lparr>num_intr_src_override := num_intr_src_override i + 1\<rparr>
      else if t = MADT_APIC_NMI_SRC then i\<lparr>num_apic_nmi_src := num_apic_nmi_src i + 1\<rparr>
      else if t = MADT_LAPIC_NMI then i\<lparr>num_lapic_nmi := num_lapic_nmi i + 1\<rparr>
      else if t = MADT_LAPIC_ADDR_OVERRIDE then i\<lparr>lapic_addr_override := e\<rparr>
      else if t = MADT_LX2APIC then i\<lparr>num_lx2apic := num_lx2apic i + 1\<rparr> else i)"

lemma madt_count_step:
  assumes "entry_type (kmem st) e = MADT_LAPIC_ADDR_OVERRIDE \<Longrightarrow> lapic_addr_override (madt_info st) = 0"
  obtains st' where "madt_count e st = Inr st'" "quiet st st'" "madt_info st' = count_info (entry_type (kmem st) e) e (madt_info st)"
proof -
  have "\<exists>st'. madt_count e st = Inr st' \<and> quiet st st' \<and> madt_info st' = count_info (entry_type (kmem st) e) e (madt_info st)"
    using assms by (auto simp: madt_count_def count_info_def Let_def)
  then show thesis using that by blast
qed

lemma count_info_simps:
  "ptrs_of t' (count_info t e i) = ptrs_of t' i" "lapic_paddr (count_info t e i) = lapic_paddr i"
  "t' \<in> list_types \<Longrightarrow> num_of t' (count_info t e i) = num_of t' i + (if t' = t then 1 else 0)"
  "lapic_addr_override (count_info t e i) = (if t = MADT_LAPIC_ADDR_OVERRIDE then e else lapic_addr_override i)"
  by (auto simp: count_info_def ptrs_of_def num_of_def list_types_def madt_types)

lemma entries_at_le: "entries_at m d a ks b \<Longrightarrow> a \<le> b"
  by (induction ks arbitrary: a) fastforce+

lemma entries_at_bounds:
  "entries_at m d a ks b \<Longrightarrow> k \<in> set ks \<Longrightarrow>
   a \<le> k \<and> k + 2 \<le> b \<and> (entry_type m (d + of_nat k) = MADT_LAPIC_ADDR_OVERRIDE \<longrightarrow> k + 12 \<le> b)"
proof (induction ks arbitrary: a)
  case (Cons j ks)
  then show ?case using entries_at_le[of m d "a + unat (entry_length m (d + of_nat a))" ks b] by fastforce
qed simp

lemma ucast_of_nat_u8:
  assumes "k \<le> 255"
  shows "ucast (of_nat k :: u8) = (of_nat k :: 'a::len word)"
proof -
  have "unat (of_nat k :: u8) = k" using assms by simp
  moreover have "ucast (of_nat k :: u8) = (of_nat (unat (of_nat k :: u8)) :: 'a word)" by (simp only: of_nat_unat)
  ultimately show ?thesis by simp
qed

text \<open>The loop condition at an offset.\<close>

lemma madt_more_at:
  assumes "sdt_length m madt = of_nat (44 + n)" "n \<le> 255" "k \<le> n"
  shows "madt_more madt (of_nat k) m \<longleftrightarrow> k < n"
proof -
  have "sdt_length m madt - ucast MADT_OFFSET = of_nat n" using assms(1) by (simp add: MADT_OFFSET_def)
  moreover have "ucast (of_nat k :: u8) = (of_nat k :: u32)" using assms(2,3) by (intro ucast_of_nat_u8) simp
  ultimately show ?thesis using assms(2,3) by (simp add: madt_more_def word_less_nat_alt)
qed

lemma madt_data_at: "k \<le> 255 \<Longrightarrow> madt_data madt (of_nat k) = madt + 44 + of_nat k"
  by (simp add: madt_data_def ucast_of_nat_u8)

definition count_all :: "mem \<Rightarrow> addr list \<Rightarrow> madt_info_t \<Rightarrow> madt_info_t" where
  "count_all m es i = fold (\<lambda>e. count_info (entry_type m e) e) es i"

lemma count_all_simps:
  "ptrs_of t (count_all m es i) = ptrs_of t i" "lapic_paddr (count_all m es i) = lapic_paddr i"
  "t \<in> list_types \<Longrightarrow> num_of t (count_all m es i) = num_of t i + of_nat (length (of_type m t es))"
  by (induction es arbitrary: i) (auto simp: count_all_def of_type_def count_info_simps)

lemma count_all_override:
  assumes "length (of_type m MADT_LAPIC_ADDR_OVERRIDE es) \<le> 1" "lapic_addr_override i = 0"
  shows "lapic_addr_override (count_all m es i) = (case of_type m MADT_LAPIC_ADDR_OVERRIDE es of [] \<Rightarrow> 0 | e # _ \<Rightarrow> e)"
proof -
  have none: "lapic_addr_override (count_all m es i) = lapic_addr_override i" if "of_type m MADT_LAPIC_ADDR_OVERRIDE es = []" for es i
    using that by (induction es arbitrary: i) (auto simp: count_all_def of_type_def count_info_simps split: if_splits)
  show ?thesis using assms
  proof (induction es arbitrary: i)
    case (Cons e es)
    then show ?case using none[of es "count_info (entry_type m e) e i"]
      by (cases "entry_type m e = MADT_LAPIC_ADDR_OVERRIDE") (simp_all add: count_all_def of_type_def count_info_simps)
  qed (simp add: count_all_def of_type_def)
qed

lemma entry_next: "a \<le> 255 \<Longrightarrow> (of_nat a :: u8) + l = of_nat (a + unat l)" for l :: u8
  by simp

lemma madt_count_loop_run:
  assumes "sdt_length (kmem st) madt = of_nat (44 + n)" "n \<le> 255" "entries_at (kmem st) (madt + 44) a ks n"
    "length (of_type (kmem st) MADT_LAPIC_ADDR_OVERRIDE (madt_entries madt ks)) \<le> 1"
    "lapic_addr_override (madt_info st) \<noteq> 0 \<Longrightarrow> of_type (kmem st) MADT_LAPIC_ADDR_OVERRIDE (madt_entries madt ks) = []"
  shows "\<exists>st'. madt_count_loop madt (of_nat a) st = Some (Inr st') \<and> quiet st st' \<and>
    madt_info st' = count_all (kmem st) (madt_entries madt ks) (madt_info st)"
  using assms(3-5,1)
proof (induction ks arbitrary: a st)
  case Nil
  then show ?case using madt_more_at[OF Nil(4) assms(2), of n]
    by (subst madt_count_loop.simps) (simp add: count_all_def madt_entries_def)
next
  case (Cons k ks)
  let ?e = "madt + 44 + of_nat a"
  let ?l = "entry_length (kmem st) ?e"
  have k: "k = a" "entries_at (kmem st) (madt + 44) (a + unat ?l) ks n" "a < n"
    using Cons.prems(1) entries_at_le[of "kmem st" "madt + 44" "a + unat ?l" ks n] by auto
  have more: "madt_more madt (of_nat a) (kmem st)" using madt_more_at[OF Cons.prems(4) assms(2), of a] k(3) by simp
  have d: "madt_data madt (of_nat a) = ?e" using k(3) assms(2) by (intro madt_data_at) simp
  have e: "madt_entries madt (k # ks) = ?e # madt_entries madt ks" using k(1) by (simp add: madt_entries_def)
  obtain st1 where s: "madt_count ?e st = Inr st1" "quiet st st1" "madt_info st1 = count_info (entry_type (kmem st) ?e) ?e (madt_info st)"
    by (rule madt_count_step[of st ?e]) (use Cons.prems(3) in \<open>auto simp: e of_type_def\<close>)
  let ?st = "log_msg NONE ''---------------------------'' st1"
  have m: "kmem st1 = kmem st" using s(2) by (simp add: quiet_def)
  have "\<exists>st'. madt_count_loop madt (of_nat (a + unat ?l)) ?st = Some (Inr st') \<and> quiet ?st st' \<and>
    madt_info st' = count_all (kmem ?st) (madt_entries madt ks) (madt_info ?st)"
    by (rule Cons.IH; use k(2) Cons.prems(2,3,4) in \<open>auto simp: m e of_type_def s(3) count_info_simps split: if_splits\<close>)
  then obtain st' where st': "madt_count_loop madt (of_nat (a + unat ?l)) ?st = Some (Inr st')" "quiet ?st st'"
    "madt_info st' = count_all (kmem ?st) (madt_entries madt ks) (madt_info ?st)" by blast
  have "madt_count_loop madt (of_nat a) st = Some (Inr st')"
    using more s(1) st'(1) m by (subst madt_count_loop.simps) (simp add: d Let_def)
  moreover have "quiet st st'" using s(2) st'(2) by (simp add: quiet_def)
  moreover have "madt_info st' = count_all (kmem st) (madt_entries madt (k # ks)) (madt_info st)"
    using st'(3) m s(3) by (simp add: e count_all_def)
  ultimately show ?case by blast
qed

section \<open>Allocation\<close>

text \<open>The types with entries, one allocation for each.\<close>

definition used_types :: "mem \<Rightarrow> addr list \<Rightarrow> u8 set \<Rightarrow> u8 set" where
  "used_types m es T = {t \<in> T. of_type m t es \<noteq> []}"

lemma low_same_quiet: "quiet st st' \<Longrightarrow> low_same st st'"
  by (simp add: low_same_def quiet_def)

text \<open>The lists of the types \<open>T\<close> are areas of their own, large enough for their entries, and nothing else of
  the heap has changed since the areas in use were \<open>U0\<close>.\<close>

definition lists_ok :: "mem \<Rightarrow> (addr \<rightharpoonup> nat) \<Rightarrow> addr list \<Rightarrow> u8 set \<Rightarrow> 'a madt_state_scheme \<Rightarrow> (addr \<rightharpoonup> nat) \<Rightarrow> bool" where
  "lists_ok m0 U0 es T st U \<longleftrightarrow>
     heap_rel st U \<and> U0 \<subseteq>\<^sub>m U \<and> keeps U0 m0 (kmem st) \<and>
     (\<forall>t\<in>list_types. num_of t (madt_info st) = of_nat (length (of_type m0 t es))) \<and>
     (\<forall>t\<in>T. of_type m0 t es \<noteq> [] \<longrightarrow> U0 (ptrs_of t (madt_info st)) = None \<and>
        (\<exists>k. U (ptrs_of t (madt_info st)) = Some k \<and> 8 * length (of_type m0 t es) \<le> k)) \<and>
     inj_on (\<lambda>t. ptrs_of t (madt_info st)) (used_types m0 es T)"

definition alloc_inv :: "'a madt_state_scheme \<Rightarrow> (addr \<rightharpoonup> nat) \<Rightarrow> addr list \<Rightarrow> madt_info_t \<Rightarrow> u8 set \<Rightarrow> 'a madt_state_scheme \<Rightarrow> bool" where
  "alloc_inv st0 U0 es i0 T st \<longleftrightarrow> low_same st0 st \<and> madt_state.more st = madt_state.more st0 \<and> costs (card (used_types (kmem st0) es T)) st0 st \<and> lapic_paddr (madt_info st) = lapic_paddr i0 \<and>
     lapic_addr_override (madt_info st) = lapic_addr_override i0 \<and> (\<exists>U. lists_ok (kmem st0) U0 es T st U)"

definition sets_list :: "u8 \<Rightarrow> (addr \<Rightarrow> madt_info_t \<Rightarrow> madt_info_t) \<Rightarrow> bool" where
  "sets_list t f \<longleftrightarrow> (\<forall>p i. (\<forall>t'. ptrs_of t' (f p i) = (if t' = t then p else ptrs_of t' i)) \<and>
     (\<forall>t'. num_of t' (f p i) = num_of t' i) \<and> lapic_paddr (f p i) = lapic_paddr i \<and> lapic_addr_override (f p i) = lapic_addr_override i)"

lemma sets_list_updates:
  "sets_list MADT_LAPIC (\<lambda>p i. i\<lparr>lapics := p\<rparr>)" "sets_list MADT_IOAPIC (\<lambda>p i. i\<lparr>io_apics := p\<rparr>)"
  "sets_list MADT_INTR_SRC_OVERRIDE (\<lambda>p i. i\<lparr>intr_src_overrides := p\<rparr>)" "sets_list MADT_APIC_NMI_SRC (\<lambda>p i. i\<lparr>nmi_srcs := p\<rparr>)"
  "sets_list MADT_LAPIC_NMI (\<lambda>p i. i\<lparr>lapic_nmis := p\<rparr>)" "sets_list MADT_LX2APIC (\<lambda>p i. i\<lparr>lx2apics := p\<rparr>)"
  by (simp_all add: sets_list_def ptrs_of_def num_of_def madt_types)

lemma info_more:
  assumes "kheap_state.more st' = kheap_state.more st"
  shows "madt_info st' = madt_info st" "madt_state.more st' = madt_state.more st"
  using assms by (cases st; cases st'; simp)+

lemma lists_ok_new:
  assumes l: "lists_ok m0 U0 es T st U" and st1: "heap_rel st1 (U(p \<mapsto> k))" "U p = None" "keeps U (kmem st) (kmem st1)"
    "madt_info st1 = madt_info st" and t: "t \<notin> T" "sets_list t f" "8 * length (of_type m0 t es) \<le> k"
  shows "lists_ok m0 U0 es (insert t T) (upd_info (f p) st1) (U(p \<mapsto> k))"
proof -
  let ?P = "\<lambda>t. of_type m0 t es \<noteq> []"
  have old: "U0 \<subseteq>\<^sub>m U" "keeps U0 m0 (kmem st)" "inj_on (\<lambda>t. ptrs_of t (madt_info st)) (used_types m0 es T)"
    using l by (auto simp: lists_ok_def)
  have p: "ptrs_of t' (f p i) = (if t' = t then p else ptrs_of t' i)" "num_of t' (f p i) = num_of t' i" for t' i
    using t(2) by (auto simp: sets_list_def)
  have ne: "ptrs_of t' (madt_info st) \<noteq> p" if "t' \<in> T" "?P t'" for t' using l st1(2) that by (fastforce simp: lists_ok_def)
  have U0: "U0 p = None" using old(1) st1(2) by (metis domIff map_le_def)
  have "keeps U0 m0 (kmem st1)" by (rule keeps_trans[OF old(2) keeps_sub[OF st1(3) old(1)]])
  moreover have "U0 \<subseteq>\<^sub>m U(p \<mapsto> k)" using old(1) U0 by (auto simp: map_le_def dom_def)
  moreover have "inj_on (\<lambda>t'. ptrs_of t' (f p (madt_info st))) (used_types m0 es (insert t T))"
    using old(3) ne t(1) by (auto simp: inj_on_def p used_types_def)
  moreover have "\<exists>k'. (U(p \<mapsto> k)) (ptrs_of t' (f p (madt_info st))) = Some k' \<and> 8 * length (of_type m0 t' es) \<le> k'"
    "U0 (ptrs_of t' (f p (madt_info st))) = None" if "t' \<in> insert t T" "?P t'" for t'
    using l that ne[of t'] t(3) U0 by (auto simp: lists_ok_def p)
  ultimately show ?thesis using l st1(1,4) by (simp add: lists_ok_def p(2))
qed

lemma alloc_list_inv:
  assumes inv: "alloc_inv st0 U0 es i0 T st" and t: "t \<notin> T" "insert t T \<subseteq> list_types" "sets_list t f" and es: "length es \<le> 255"
  shows "panics_if_or (short_of (card (used_types (kmem st0) es list_types)) st0) (alloc_inv st0 U0 es i0 (insert t T)) (alloc_list (num_of t (madt_info st)) f st)"
proof -
  let ?L = "of_type (kmem st0) t es"
  obtain U where l: "lists_ok (kmem st0) U0 es T st U" using inv by (auto simp: alloc_inv_def)
  have num: "num_of t (madt_info st) = of_nat (length ?L)" using l t(2) by (simp add: lists_ok_def)
  have fin: "finite T" "finite list_types" using finite_subset[OF t(2)] by (auto simp: list_types_def)
  have cost: "costs (card (used_types (kmem st0) es T)) st0 st" "kheap_max st = kheap_max st0" using inv by (auto simp: alloc_inv_def low_same_def)
  have len: "length ?L \<le> 255" using es le_trans[OF length_filter_le] by (auto simp: of_type_def)
  show ?thesis
  proof (cases "?L = []")
    case True
    then have "used_types (kmem st0) es (insert t T) = used_types (kmem st0) es T" by (auto simp: used_types_def)
    then show ?thesis using inv True num by (auto simp: alloc_list_def alloc_inv_def lists_ok_def used_types_def)
  next
    case False
    have n: "unat (of_nat (length ?L) * 8 :: u64) = 8 * length ?L"
    proof -
      have "of_nat (length ?L) * 8 = (of_nat (8 * length ?L) :: u64)" by simp
      then show ?thesis using len by (simp del: of_nat_mult)
    qed
    have used: "used_types (kmem st0) es (insert t T) = insert t (used_types (kmem st0) es T)" "t \<notin> used_types (kmem st0) es T"
      using False t(1) by (auto simp: used_types_def)
    then have one: "card (used_types (kmem st0) es (insert t T)) = Suc (card (used_types (kmem st0) es T))"
      using fin(1) by (simp add: used_types_def)
    have "used_types (kmem st0) es (insert t T) \<subseteq> used_types (kmem st0) es list_types" using t(2) by (auto simp: used_types_def)
    then have "card (used_types (kmem st0) es (insert t T)) \<le> card (used_types (kmem st0) es list_types)"
      using fin(2) by (intro card_mono) (auto simp: used_types_def)
    then have all: "Suc (card (used_types (kmem st0) es T)) \<le> card (used_types (kmem st0) es list_types)" using one by simp
    have pg: "heap_pages (8 * length ?L) = 1" using len False by (simp add: heap_pages_def)
    have n0: "of_nat (length ?L) * 8 \<noteq> (0 :: u64)" "of_nat (length ?L) \<noteq> (0 :: u64)" using n False by auto
    show ?thesis
    proof (rule kmalloc_wf[of st U "of_nat (length ?L) * 8"])
      show "heap_rel st U" using l by (simp add: lists_ok_def)
      fix p k st1 assume a: "kmalloc (of_nat (length ?L) * 8) st = Some (Inr (p, st1))" "heap_rel st1 (U(p \<mapsto> k))" "U p = None"
        "unat (of_nat (length ?L) * 8 :: u64) \<le> k" "keeps U (kmem st) (kmem st1)" "spares (heap_pages (unat (of_nat (length ?L) * 8 :: u64))) st st1"
      have info: "madt_info st1 = madt_info st" using a(6) by (intro info_more) (simp add: spares_def)
      have more: "madt_state.more st1 = madt_state.more st" using a(6) by (intro info_more) (simp add: spares_def)
      have "lists_ok (kmem st0) U0 es (insert t T) (upd_info (f p) st1) (U(p \<mapsto> k))"
        using t n a(4) by (intro lists_ok_new[OF l a(2,3,5) info]) auto
      moreover have "low_same st0 (upd_info (f p) st1)" using inv low_same_trans[OF _ low_same_spares[OF a(6)]] by (simp add: alloc_inv_def low_same_def)
      moreover have "costs (Suc (card (used_types (kmem st0) es T))) st0 (upd_info (f p) st1)"
        using cost(1) a(6) unfolding n pg by (auto simp: costs_def spares_def)
      ultimately show ?thesis using a(1) n0 inv t(3) num info more one by (auto simp: alloc_list_def alloc_inv_def sets_list_def)
    next
      fix msg assume f: "kmalloc (of_nat (length ?L) * 8) st = Some (Inl (Panic msg))"
        "avail st < 4 * heap_pages (unat (of_nat (length ?L) * 8 :: u64)) \<or>
         unat (kheap_top st) < unat (kheap_max st) + 4096 * heap_pages (unat (of_nat (length ?L) * 8 :: u64))"
      have "short_of (card (used_types (kmem st0) es list_types)) st0"
        using f(2) cost all unfolding n pg costs_def short_of_def by auto
      then show ?thesis using f(1) n0 num by (auto simp: alloc_list_def panics_if_or_def)
    qed (use n n0 len in auto)
  qed
qed

lemma madt_alloc_inv:
  assumes "alloc_inv st0 U0 es i0 {} st" "length es \<le> 255"
  shows "panics_if_or (short_of (card (used_types (kmem st0) es list_types)) st0) (alloc_inv st0 U0 es i0 list_types) (madt_alloc st)"
proof -
  have num: "num_lapic = num_of MADT_LAPIC" "num_io_apic = num_of MADT_IOAPIC" "num_intr_src_override = num_of MADT_INTR_SRC_OVERRIDE"
    "num_apic_nmi_src = num_of MADT_APIC_NMI_SRC" "num_lapic_nmi = num_of MADT_LAPIC_NMI" "num_lx2apic = num_of MADT_LX2APIC"
    by (simp_all add: fun_eq_iff num_of_def madt_types)
  have T: "list_types = insert MADT_LX2APIC (insert MADT_LAPIC_NMI (insert MADT_APIC_NMI_SRC
      (insert MADT_INTR_SRC_OVERRIDE (insert MADT_IOAPIC (insert MADT_LAPIC {})))))"
    by (auto simp: list_types_def)
  define C where "C = short_of (card (used_types (kmem st0) es list_types)) st0"
  note step = alloc_list_inv[of st0 U0 es, OF _ _ _ _ assms(2), folded C_def]
  have "panics_if_or C (alloc_inv st0 U0 es i0 (insert MADT_LX2APIC (insert MADT_LAPIC_NMI (insert MADT_APIC_NMI_SRC
      (insert MADT_INTR_SRC_OVERRIDE (insert MADT_IOAPIC (insert MADT_LAPIC {}))))))) (madt_alloc st)"
    unfolding madt_alloc_def num
    by (rule panics_if_or_bind[OF step[OF assms(1) _ _ sets_list_updates(1)]], simp, simp add: list_types_def,
        rule panics_if_or_bind[OF step[OF _ _ _ sets_list_updates(2)]], assumption, simp add: madt_types, simp add: list_types_def,
        rule panics_if_or_bind[OF step[OF _ _ _ sets_list_updates(3)]], assumption, simp add: madt_types, simp add: list_types_def,
        rule panics_if_or_bind[OF step[OF _ _ _ sets_list_updates(4)]], assumption, simp add: madt_types, simp add: list_types_def,
        rule panics_if_or_bind[OF step[OF _ _ _ sets_list_updates(5)]], assumption, simp add: madt_types, simp add: list_types_def,
        rule step[OF _ _ _ sets_list_updates(6)], assumption, simp add: madt_types, simp add: list_types_def)
  then show ?thesis by (simp only: T[symmetric] C_def)
qed

section \<open>Filling\<close>

lemma madt_fill_listed:
  "entry_type (kmem st) e \<in> list_types \<Longrightarrow>
   madt_fill e (counters, st) = store_entry (ptrs_of (entry_type (kmem st) e) (madt_info st)) (entry_type (kmem st) e) e (counters, st)"
  by (auto simp: madt_fill_def list_types_def ptrs_of_def madt_types)

definition listed_at :: "mem \<Rightarrow> addr \<Rightarrow> addr list \<Rightarrow> bool" where
  "listed_at m p xs \<longleftrightarrow> (\<forall>j < length xs. read64 m (p + 8 * of_nat j) = xs ! j)"

lemma unat_slot: "c < 256 \<Longrightarrow> unat (8 * of_nat c :: u64) = 8 * c"
proof -
  assume c: "c < 256"
  have "8 * of_nat c = (of_nat (8 * c) :: u64)" by simp
  then show ?thesis using c by (simp del: of_nat_mult)
qed

lemma slots_apart: "c < 256 \<Longrightarrow> j < 256 \<Longrightarrow> c \<noteq> j \<Longrightarrow> apart (p + 8 * of_nat c) 8 (p + 8 * of_nat j) 8"
  by (cases "c < j") (simp_all add: apart_def unat_sub_if' unat_slot, linarith+)

lemma slot_region:
  assumes "c < L" "8 * L \<le> k" "L \<le> 255" "in_region (p + 8 * of_nat c) 8 x"
  shows "in_region p k x"
proof -
  have d: "unat (x - (p + 8 * of_nat c)) < 8" using assms(4) by (simp add: in_region_def)
  have o: "unat (8 * of_nat c :: u64) = 8 * c" using assms(1,3) by (intro unat_slot) simp
  have "x - p = (x - (p + 8 * of_nat c)) + 8 * of_nat c" by simp
  then have "unat (x - p) = unat (x - (p + 8 * of_nat c)) + 8 * c"
    using d o assms by (simp only: unat_word_ariths) simp
  then show ?thesis using d assms by (simp add: in_region_def)
qed

lemma listed_snoc:
  assumes "listed_at m p xs" "length xs < 255"
  shows "listed_at (write64 m (p + 8 * of_nat (length xs)) e) p (xs @ [e])"
proof -
  have "read64 (write64 m (p + 8 * of_nat (length xs)) e) (p + 8 * of_nat j) = xs ! j" if "j < length xs" for j
  proof -
    have "apart (p + 8 * of_nat (length xs)) 8 (p + 8 * of_nat j) 8"
      using that assms(2) by (intro slots_apart) auto
    then show ?thesis using assms(1) that by (simp add: load_store_apart listed_at_def)
  qed
  then show ?thesis by (auto simp: listed_at_def less_Suc_eq nth_append)
qed

text \<open>The invariant of the second loop after the entries \<open>done\<close>.\<close>

definition fill_inv :: "'a madt_state_scheme \<Rightarrow> (addr \<rightharpoonup> nat) \<Rightarrow> addr list \<Rightarrow> madt_info_t \<Rightarrow> addr list \<Rightarrow> u64 list \<times> 'a madt_state_scheme \<Rightarrow> bool" where
  "fill_inv st0 U0 es i0 ds cst \<longleftrightarrow>
     (case cst of (counters, st) \<Rightarrow>
        length counters = MAX_ENTRY_TYPE \<and> low_same st0 st \<and> madt_state.more st = madt_state.more st0 \<and>
        costs (card (used_types (kmem st0) es list_types)) st0 st \<and> lapic_addr_override (madt_info st) = lapic_addr_override i0 \<and>
        lapic_paddr (madt_info st) = (if of_type (kmem st0) MADT_LAPIC_ADDR_OVERRIDE ds = [] then lapic_paddr i0
          else override_paddr (kmem st0) (lapic_addr_override i0)) \<and>
        (\<exists>U. lists_ok (kmem st0) U0 es list_types st U) \<and>
        (\<forall>t\<in>list_types. counters ! unat t = of_nat (length (of_type (kmem st0) t ds)) \<and>
           listed_at (kmem st) (ptrs_of t (madt_info st)) (of_type (kmem st0) t ds)))"

lemma lists_ok_write:
  fixes e :: addr
  assumes l: "lists_ok m0 U0 es list_types st U" and t: "t \<in> list_types" "c < length (of_type m0 t es)" "length es \<le> 255"
  defines "m \<equiv> write64 (kmem st) (ptrs_of t (madt_info st) + 8 * of_nat c) e"
  shows "lists_ok m0 U0 es list_types (st\<lparr>kmem := m\<rparr>) U" "low_same st (st\<lparr>kmem := m\<rparr>)" "ptrs_of t (madt_info st) \<noteq> 0"
    "costs n st0 st \<Longrightarrow> costs n st0 (st\<lparr>kmem := m\<rparr>)"
    "t' \<in> list_types \<Longrightarrow> t' \<noteq> t \<Longrightarrow> xs = [] \<or> length xs \<le> length (of_type m0 t' es) \<Longrightarrow>
       listed_at m (ptrs_of t' (madt_info st)) xs = listed_at (kmem st) (ptrs_of t' (madt_info st)) xs"
proof -
  let ?p = "\<lambda>t. ptrs_of t (madt_info st)"
  have len: "length (of_type m0 t es) \<le> 255" for t using t(3) le_trans[OF length_filter_le] by (auto simp: of_type_def)
  have area: "\<exists>k. U (?p t) = Some k \<and> 8 * length (of_type m0 t es) \<le> k" "U0 (?p t) = None"
    if "t \<in> list_types" "of_type m0 t es \<noteq> []" for t using l that by (auto simp: lists_ok_def)
  have r: "heap_rel st U" "U0 \<subseteq>\<^sub>m U" "keeps U0 m0 (kmem st)" "inj_on ?p (used_types m0 es list_types)"
    using l by (auto simp: lists_ok_def)
  have ne: "of_type m0 t es \<noteq> []" using t(2) by auto
  obtain k where k: "U (?p t) = Some k" "8 * length (of_type m0 t es) \<le> k" using area(1)[OF t(1) ne] by blast
  have out: "m x = kmem st x" if "\<not> in_region (?p t) k x" for x
    unfolding m_def using that slot_region[OF t(2) k(2) len] by (intro store_outside) blast
  show "low_same st (st\<lparr>kmem := m\<rparr>)" by (rule low_same_write[OF r(1) k(1) out])
  have "spares 0 st (st\<lparr>kmem := m\<rparr>)" by (rule area_write(3)[OF r(1) _ out]) (use k(1) in \<open>auto simp: has_area_def\<close>)
  then show "costs n st0 st \<Longrightarrow> costs n st0 (st\<lparr>kmem := m\<rparr>)" by (simp add: costs_def spares_def)
  show "?p t \<noteq> 0" using heap_area_nonnull[OF r(1) k(1)] k(2) t(2) by auto
  have keep: "m x = kmem st x" if "U q = Some j" "q \<noteq> ?p t" "in_region q j x" for q j x
    using heap_areas_apart[OF r(1) that(1) k(1) that(2,3)] by (rule out)
  have "m x = kmem st x" if "U0 q = Some j" "in_region q j x" for q j x
  proof -
    have "U q = Some j" using r(2) that(1) by (auto simp: map_le_def dom_def)
    moreover have "q \<noteq> ?p t" using area(2)[OF t(1) ne] that(1) by auto
    ultimately show ?thesis using keep that(2) by blast
  qed
  then have "keeps U0 (kmem st) m" by (auto simp: keeps_def)
  then have "keeps U0 m0 m" by (rule keeps_trans[OF r(3)])
  then show "lists_ok m0 U0 es list_types (st\<lparr>kmem := m\<rparr>) U"
    using l heap_write[OF r(1) k(1) out] by (simp add: lists_ok_def)
  assume t': "t' \<in> list_types" "t' \<noteq> t" and xs: "xs = [] \<or> length xs \<le> length (of_type m0 t' es)"
  show "listed_at m (?p t') xs = listed_at (kmem st) (?p t') xs"
  proof (cases "xs = []")
    case False
    then have ne': "of_type m0 t' es \<noteq> []" using xs by auto
    then obtain k' where k': "U (?p t') = Some k'" "8 * length (of_type m0 t' es) \<le> k'" using area(1)[OF t'(1)] by blast
    have pp: "?p t' \<noteq> ?p t" using inj_onD[OF r(4), of t' t] ne ne' t' t(1) by (auto simp: used_types_def)
    have "read64 m (?p t' + 8 * of_nat j) = read64 (kmem st) (?p t' + 8 * of_nat j)" if "j < length xs" for j
    proof (rule load_cong)
      fix x assume "in_region (?p t' + 8 * of_nat j) 8 x"
      then have "in_region (?p t') k' x" using that xs False by (intro slot_region[of j, OF _ k'(2) len]) auto
      then show "m x = kmem st x" by (rule keep[OF k'(1) pp])
    qed simp
    then show ?thesis by (simp add: listed_at_def)
  qed (simp add: listed_at_def)
qed

lemma list_types_bound: "t \<in> list_types \<Longrightarrow> unat t < MAX_ENTRY_TYPE"
  by (auto simp: list_types_def madt_types MAX_ENTRY_TYPE_def)

lemma of_type_snoc: "of_type m t (ds @ [e]) = of_type m t ds @ (if entry_type m e = t then [e] else [])"
  by (simp add: of_type_def)

lemma lists_ok_nonnull:
  assumes l: "lists_ok m0 U0 es list_types st U" and t: "t \<in> list_types" "of_type m0 t es \<noteq> []"
  shows "ptrs_of t (madt_info st) \<noteq> 0"
proof -
  obtain k where "U (ptrs_of t (madt_info st)) = Some k" "8 * length (of_type m0 t es) \<le> k" using l t by (auto simp: lists_ok_def)
  moreover from this have "0 < k" using t(2) by (cases "of_type m0 t es") auto
  ultimately show ?thesis using l heap_area_nonnull by (fastforce simp: lists_ok_def)
qed

lemma madt_fill_step:
  assumes inv: "fill_inv st0 U0 es i0 ds (cs, st)" and es: "es = ds @ e # rest" "length es \<le> 255"
    and e: "entry_type (kmem st) e = entry_type (kmem st0) e"
    and ov: "entry_type (kmem st0) e = MADT_LAPIC_ADDR_OVERRIDE \<Longrightarrow> lapic_addr_override i0 \<noteq> 0 \<and>
      override_paddr (kmem st) (lapic_addr_override i0) = override_paddr (kmem st0) (lapic_addr_override i0)"
  obtains cst where "madt_fill e (cs, st) = Inr cst" "fill_inv st0 U0 es i0 (ds @ [e]) cst"
proof -
  let ?m0 = "kmem st0" and ?p = "\<lambda>t. ptrs_of t (madt_info st)"
  let ?t = "entry_type ?m0 e"
  obtain U where l: "lists_ok ?m0 U0 es list_types st U" using inv by (auto simp: fill_inv_def)
  note i = inv[unfolded fill_inv_def prod.case]
  consider (listed) "?t \<in> list_types" | (override) "?t = MADT_LAPIC_ADDR_OVERRIDE" | (other) "?t \<notin> list_types" "?t \<noteq> MADT_LAPIC_ADDR_OVERRIDE"
    by blast
  then show thesis
  proof cases
    case listed
    let ?c = "length (of_type ?m0 ?t ds)"
    have c: "?c < length (of_type ?m0 ?t es)" "?c < 255" using es by (auto simp: of_type_def intro: le_less_trans[OF length_filter_le])
    have cs: "cs ! unat ?t = of_nat ?c" using i listed by blast
    let ?st = "st\<lparr>kmem := write64 (kmem st) (?p ?t + 8 * of_nat ?c) e\<rparr>"
    note w = lists_ok_write[OF l listed c(1) es(2)]
    have fill: "madt_fill e (cs, st) = Inr (cs[unat ?t := of_nat ?c + 1], ?st)"
      using madt_fill_listed[of st e cs] e listed w(3) cs i list_types_bound[OF listed] by (simp add: store_entry_def)
    have ot: "?t \<noteq> MADT_LAPIC_ADDR_OVERRIDE" using listed by (auto simp: list_types_def madt_types)
    have "(cs[unat ?t := of_nat ?c + 1]) ! unat t = of_nat (length (of_type ?m0 t (ds @ [e]))) \<and>
        listed_at (kmem ?st) (?p t) (of_type ?m0 t (ds @ [e]))" if t: "t \<in> list_types" for t
    proof (cases "t = ?t")
      case True
      then show ?thesis using i list_types_bound[OF t] t listed_snoc[of "kmem st" "?p ?t" "of_type ?m0 ?t ds" e] c(2)
        by (simp add: of_type_snoc)
    next
      case False
      moreover have "unat ?t \<noteq> unat t" using False by (simp add: word_unat_eq_iff)
      moreover have "length (of_type ?m0 t ds) \<le> length (of_type ?m0 t es)" by (simp add: es(1) of_type_def)
      ultimately show ?thesis using i t w(5)[OF t False] by (simp add: of_type_snoc)
    qed
    moreover have "low_same st0 ?st" using i w(2) low_same_trans by blast
    ultimately have "fill_inv st0 U0 es i0 (ds @ [e]) (cs[unat ?t := of_nat ?c + 1], ?st)"
      using i w(1,4) ot by (auto simp: fill_inv_def of_type_snoc)
    then show thesis using that fill by blast
  next
    case override
    then have nt: "?t \<notin> list_types" by (auto simp: list_types_def madt_types)
    let ?st = "upd_info (\<lambda>i. i\<lparr>lapic_paddr := override_paddr (kmem st) (lapic_addr_override (madt_info st))\<rparr>) st"
    have "madt_fill e (cs, st) = Inr (cs, ?st)" using ov override e i by (simp add: madt_fill_def madt_types)
    moreover have "ptrs_of t (i\<lparr>lapic_paddr := a\<rparr>) = ptrs_of t i" "num_of t (i\<lparr>lapic_paddr := a\<rparr>) = num_of t i" for t a i
      by (simp_all add: ptrs_of_def num_of_def)
    then have "fill_inv st0 U0 es i0 (ds @ [e]) (cs, ?st)"
      using i nt override ov by (auto simp: fill_inv_def of_type_snoc lists_ok_def low_same_def costs_def)
    ultimately show thesis using that by blast
  next
    case other
    let ?st = "log_msg WARNING ''[parse_madt] unknown entry type was detected: %u'' st"
    have "madt_fill e (cs, st) = Inr (cs, ?st)" using other e by (simp add: madt_fill_def list_types_def)
    moreover have "fill_inv st0 U0 es i0 (ds @ [e]) (cs, ?st)"
      using i other by (auto simp: fill_inv_def of_type_snoc lists_ok_def low_same_def costs_def)
    ultimately show thesis using that by blast
  qed
qed

subsection \<open>The table is not disturbed\<close>

lemma table_same:
  assumes "madt_table st0 madt ks n" "low_same st0 st" "j < 44 + n"
  shows "kmem st (madt + of_nat j) = kmem st0 (madt + of_nat j)"
proof -
  have "in_region madt (44 + n) (madt + of_nat j)" using assms(1,3) by (simp add: in_region_def madt_table_def)
  then show ?thesis using assms(1,2) by (simp add: madt_table_def low_same_def)
qed

lemma table_load:
  assumes "madt_table st0 madt ks n" "low_same st0 st" "j + w \<le> 44 + n"
  shows "load w (kmem st) (madt + of_nat j) = load w (kmem st0) (madt + of_nat j)"
proof -
  have "map (\<lambda>i. kmem st (madt + of_nat j + of_nat i)) [0..<w] = map (\<lambda>i. kmem st0 (madt + of_nat j + of_nat i)) [0..<w]"
  proof (rule map_cong[OF refl])
    fix i assume "i \<in> set [0..<w]"
    then show "kmem st (madt + of_nat j + of_nat i) = kmem st0 (madt + of_nat j + of_nat i)"
      using table_same[OF assms(1,2), of "j + i"] assms(3) by (simp add: add.assoc)
  qed
  then show ?thesis unfolding load_def by (rule arg_cong)
qed

lemma table_views:
  assumes t: "madt_table st0 madt ks n" "low_same st0 st"
  shows "sdt_length (kmem st) madt = of_nat (44 + n)"
    "k \<in> set ks \<Longrightarrow> entry_type (kmem st) (madt + 44 + of_nat k) = entry_type (kmem st0) (madt + 44 + of_nat k)"
    "k \<in> set ks \<Longrightarrow> entry_length (kmem st) (madt + 44 + of_nat k) = entry_length (kmem st0) (madt + 44 + of_nat k)"
    "k \<in> set ks \<Longrightarrow> entry_type (kmem st0) (madt + 44 + of_nat k) = MADT_LAPIC_ADDR_OVERRIDE \<Longrightarrow>
       override_paddr (kmem st) (madt + 44 + of_nat k) = override_paddr (kmem st0) (madt + 44 + of_nat k)"
proof -
  have en: "entries_at (kmem st0) (madt + 44) 0 ks n" using t(1) by (simp add: madt_table_def)
  show "sdt_length (kmem st) madt = of_nat (44 + n)"
  proof -
    have "load 4 (kmem st) (madt + of_nat 4) = (load 4 (kmem st0) (madt + of_nat 4) :: u32)" by (rule table_load[OF t]) simp
    then show ?thesis using t(1) by (simp add: sdt_length_def madt_table_def)
  qed
  assume k: "k \<in> set ks"
  note b = entries_at_bounds[OF en k]
  have at: "madt + 44 + of_nat k = madt + of_nat (44 + k)" "madt + 44 + of_nat k + 1 = madt + of_nat (44 + k + 1)"
    "madt + 44 + of_nat k + 4 = madt + of_nat (44 + k + 4)" by (simp_all add: algebra_simps)
  show "entry_type (kmem st) (madt + 44 + of_nat k) = entry_type (kmem st0) (madt + 44 + of_nat k)"
    unfolding entry_type_def at(1) by (rule table_same[OF t]) (use b in simp)
  show "entry_length (kmem st) (madt + 44 + of_nat k) = entry_length (kmem st0) (madt + 44 + of_nat k)"
    unfolding entry_length_def at(2) by (rule table_same[OF t]) (use b in simp)
  assume o: "entry_type (kmem st0) (madt + 44 + of_nat k) = MADT_LAPIC_ADDR_OVERRIDE"
  show "override_paddr (kmem st) (madt + 44 + of_nat k) = override_paddr (kmem st0) (madt + 44 + of_nat k)"
    unfolding override_paddr_def at(3) by (rule table_load[OF t]) (use b o in simp)
qed

lemma entries_at_length: "entries_at m d a ks b \<Longrightarrow> a + length ks \<le> b"
  by (induction ks arbitrary: a) fastforce+

text \<open>The override recorded by the first loop.\<close>

lemma table_override:
  assumes t: "madt_table st0 madt ks n"
    and ov: "ov = (case of_type (kmem st0) MADT_LAPIC_ADDR_OVERRIDE (madt_entries madt ks) of [] \<Rightarrow> 0 | e # _ \<Rightarrow> e)"
    and k: "k \<in> set ks" "entry_type (kmem st0) (madt + 44 + of_nat k) = MADT_LAPIC_ADDR_OVERRIDE"
  shows "ov = madt + 44 + of_nat k" "ov \<noteq> 0"
proof -
  let ?L = "of_type (kmem st0) MADT_LAPIC_ADDR_OVERRIDE (madt_entries madt ks)"
  have "madt + 44 + of_nat k \<in> set ?L" using k by (auto simp: of_type_def madt_entries_def)
  moreover have "length ?L \<le> 1" using t by (simp add: madt_table_def)
  ultimately show e: "ov = madt + 44 + of_nat k" by (cases ?L) (auto simp: ov)
  have b: "k + 2 \<le> n" using entries_at_bounds[OF _ k(1)] t by (auto simp: madt_table_def)
  have "madt + 44 + of_nat k = madt + of_nat (44 + k)" by (simp add: algebra_simps)
  moreover have "unat (madt + of_nat (44 + k)) = unat madt + (44 + k)"
    using t b by (subst unat_add_lem[THEN iffD1]) (auto simp: madt_table_def simp del: of_nat_add)
  ultimately have "unat (madt + 44 + of_nat k) \<noteq> 0" by (simp only: add_is_0) simp
  then show "ov \<noteq> 0" unfolding e by (metis unsigned_0)
qed

lemma madt_fill_loop_run:
  assumes t: "madt_table st0 madt ks0 n" and i0: "lapic_addr_override i0 =
      (case of_type (kmem st0) MADT_LAPIC_ADDR_OVERRIDE (madt_entries madt ks0) of [] \<Rightarrow> 0 | e # _ \<Rightarrow> e)"
    and run: "entries_at (kmem st0) (madt + 44) a ks n" "ks0 = js @ ks" "fill_inv st0 U0 (madt_entries madt ks0) i0 (madt_entries madt js) (cs, st)"
  shows "\<exists>cs' st'. madt_fill_loop madt (of_nat a) (cs, st) = Some (Inr st') \<and>
    fill_inv st0 U0 (madt_entries madt ks0) i0 (madt_entries madt ks0) (cs', st')"
  using run
proof (induction ks arbitrary: a js cs st)
  case Nil
  have low: "low_same st0 st" using Nil.prems(3) by (simp add: fill_inv_def)
  have "\<not> madt_more madt (of_nat a) (kmem st)"
    using madt_more_at[OF table_views(1)[OF t low], of n] Nil.prems(1) t by (simp add: madt_table_def)
  then show ?case using Nil.prems(2,3) by (subst madt_fill_loop.simps) auto
next
  case (Cons k ks)
  let ?e = "madt + 44 + of_nat a" and ?es = "madt_entries madt ks0"
  let ?l = "entry_length (kmem st0) ?e"
  have k: "k = a" "entries_at (kmem st0) (madt + 44) (a + unat ?l) ks n" "a < n"
    using Cons.prems(1) entries_at_le[of "kmem st0" "madt + 44" "a + unat ?l" ks n] by auto
  have n: "n \<le> 255" "length ?es \<le> 255" using t entries_at_length[of "kmem st0" "madt + 44" 0 ks0 n] by (auto simp: madt_table_def madt_entries_def)
  have a: "a \<in> set ks0" using Cons.prems(2) k(1) by simp
  have low: "low_same st0 st" using Cons.prems(3) by (simp add: fill_inv_def)
  have more: "madt_more madt (of_nat a) (kmem st)" using madt_more_at[OF table_views(1)[OF t low] n(1), of a] k(3) by simp
  have d: "madt_data madt (of_nat a) = ?e" using k(3) n(1) by (intro madt_data_at) simp
  have es: "?es = madt_entries madt js @ ?e # madt_entries madt ks" "madt_entries madt (js @ [k]) = madt_entries madt js @ [?e]"
    using Cons.prems(2) k(1) by (auto simp: madt_entries_def)
  have ov: "lapic_addr_override i0 \<noteq> 0 \<and> override_paddr (kmem st) (lapic_addr_override i0) = override_paddr (kmem st0) (lapic_addr_override i0)"
    if "entry_type (kmem st0) ?e = MADT_LAPIC_ADDR_OVERRIDE"
    using table_override[OF t i0 a that] table_views(4)[OF t low a that] by simp
  obtain cst where f: "madt_fill ?e (cs, st) = Inr cst" "fill_inv st0 U0 ?es i0 (madt_entries madt js @ [?e]) cst"
    using madt_fill_step[OF Cons.prems(3) es(1) n(2) table_views(2)[OF t low a] ov] by blast
  obtain cs1 st1 where cst: "cst = (cs1, st1)" by (cases cst)
  have low1: "low_same st0 st1" using f(2) cst by (simp add: fill_inv_def)
  have "\<exists>cs' st'. madt_fill_loop madt (of_nat (a + unat ?l)) (cs1, st1) = Some (Inr st') \<and> fill_inv st0 U0 ?es i0 ?es (cs', st')"
    by (rule Cons.IH[OF k(2), of "js @ [k]"]) (use Cons.prems(2) f(2) cst es(2) in auto)
  moreover have "madt_fill_loop madt (of_nat a) (cs, st) = madt_fill_loop madt (of_nat (a + unat ?l)) (cs1, st1)"
    using more f(1) cst table_views(3)[OF t low1 a] by (subst madt_fill_loop.simps) (simp add: d)
  ultimately show ?case by simp
qed

section \<open>A table that is too long\<close>

lemma madt_count_kmem: "madt_count e st = Inr st' \<Longrightarrow> kmem st' = kmem st"
  by (auto simp: madt_count_def Let_def split: if_splits)

lemma madt_count_loop_long:
  assumes "\<And>i. madt_more madt i m" "kmem st = m"
  shows "madt_count_loop madt i st \<noteq> Some (Inr st')"
proof
  assume run: "madt_count_loop madt i st = Some (Inr st')"
  have "madt = madt \<and> kmem st = m \<longrightarrow> isl (Inr st' :: 'a madt_state_scheme kres)"
  proof (rule madt_count_loop.raw_induct[where P = "\<lambda>mt i st r. mt = madt \<and> kmem st = m \<longrightarrow> isl r", OF _ run], intro impI, elim conjE)
    fix f :: "addr \<Rightarrow> u8 \<Rightarrow> 'a madt_state_scheme \<Rightarrow> 'a madt_state_scheme kres option" and mt i st r
    assume IH: "\<And>mt i st r. f mt i st = Some r \<Longrightarrow> mt = madt \<and> kmem st = m \<longrightarrow> isl r"
      and body: "(if madt_more mt i (kmem st) then
        case madt_count (madt_data mt i) st of
          Inl e \<Rightarrow> Some (Inl e)
        | Inr st \<Rightarrow>
            let st = log_msg NONE ''---------------------------'' st
            in f mt (i + entry_length (kmem st) (madt_data mt i)) st
      else Some (Inr st)) = Some r" and a: "mt = madt" "kmem st = m"
    show "isl r"
    proof (cases "madt_count (madt_data madt i) st")
      case (Inl e)
      then have "r = Inl e" using body a assms(1) by simp
      then show ?thesis by simp
    next
      case (Inr st1)
      then show ?thesis using body a assms(1) IH madt_count_kmem[OF Inr] by (simp add: Let_def)
    qed
  qed
  then show False using assms(2) by simp
qed

lemma parse_madt_start:
  assumes "madt_info st = madt_info_0"
  obtains st' where "quiet st st'" "madt_info st' = madt_info_0\<lparr>lapic_paddr := ucast (madt_lapic_addr (kmem st) madt)\<rparr>"
    "parse_madt madt st = obind (madt_count_loop madt 0 st') (\<lambda>st. obind (madt_alloc st) (\<lambda>st. madt_fill_loop madt 0 (replicate MAX_ENTRY_TYPE 0, st)))"
proof -
  let ?l = "\<lambda>s st. log_msg NONE s st :: 'a madt_state_scheme"
  define st1 where "st1 = ?l ''[parse_madt] madt length: %u'' (?l ''[parse_madt] lapic address: 0x%lx'' (?l ''---------------------------''
    (log_msg INFO ''[parse_madt] MADT information:'' st)))"
  have i1: "madt_info st1 = madt_info_0" "kmem st1 = kmem st" using assms by (simp_all add: st1_def)
  then have "reset_madt_info st1 = Inr (upd_info (\<lambda>_. madt_info_0) st1)"
    by (simp add: reset_madt_info_def free_list_def madt_info_0_def upd_info_def)
  then have eq: "parse_madt madt st = obind (madt_count_loop madt 0 (?l ''---------------------------''
      (upd_info (\<lambda>i. i\<lparr>lapic_paddr := ucast (madt_lapic_addr (kmem st) madt)\<rparr>) (upd_info (\<lambda>_. madt_info_0) st1))))
      (\<lambda>st. obind (madt_alloc st) (\<lambda>st. madt_fill_loop madt 0 (replicate MAX_ENTRY_TYPE 0, st)))"
    using i1(2) by (simp add: parse_madt_def Let_def st1_def)
  show thesis by (rule that[OF _ _ eq]) (simp_all add: st1_def)
qed

lemma parse_madt_run:
  assumes "heap_rel st U" "madt_info st = madt_info_0" "madt_table st madt ks n"
  shows "panics_if_or (short_of (card (used_types (kmem st) (madt_entries madt ks) list_types)) st) (\<lambda>st'. (\<exists>U'. heap_rel st' U' \<and> U \<subseteq>\<^sub>m U') \<and> keeps U (kmem st) (kmem st') \<and>
    (\<forall>t\<in>list_types. madt_listed (kmem st') (get_madt_info st') t (of_type (kmem st) t (madt_entries madt ks))) \<and>
    lapic_paddr (get_madt_info st') =
      (case of_type (kmem st) MADT_LAPIC_ADDR_OVERRIDE (madt_entries madt ks) of
         [] \<Rightarrow> ucast (madt_lapic_addr (kmem st) madt) | e # _ \<Rightarrow> override_paddr (kmem st) e) \<and>
    low_same st st' \<and> madt_state.more st' = madt_state.more st \<and>
    costs (card (used_types (kmem st) (madt_entries madt ks) list_types)) st st') (parse_madt madt st)"
proof -
  let ?es = "madt_entries madt ks"
  let ?ovs = "of_type (kmem st) MADT_LAPIC_ADDR_OVERRIDE ?es"
  have t: "n \<le> 255" "sdt_length (kmem st) madt = of_nat (44 + n)" "entries_at (kmem st) (madt + 44) 0 ks n" "length ?ovs \<le> 1"
    using assms(3) by (auto simp: madt_table_def)
  have es: "length ?es \<le> 255" using entries_at_length[OF t(3)] t(1) by (simp add: madt_entries_def)
  obtain st1 where s: "quiet st st1" "madt_info st1 = madt_info_0\<lparr>lapic_paddr := ucast (madt_lapic_addr (kmem st) madt)\<rparr>"
    "parse_madt madt st = obind (madt_count_loop madt 0 st1) (\<lambda>st. obind (madt_alloc st) (\<lambda>st. madt_fill_loop madt 0 (replicate MAX_ENTRY_TYPE 0, st)))"
    by (rule parse_madt_start[OF assms(2)])
  have m1: "kmem st1 = kmem st" using s(1) by (simp add: quiet_def)
  obtain st2 where c: "madt_count_loop madt 0 st1 = Some (Inr st2)" "quiet st1 st2" "madt_info st2 = count_all (kmem st) ?es (madt_info st1)"
    using madt_count_loop_run[of st1 madt n 0 ks] t m1 s(2) by (auto simp: madt_info_0_def)
  let ?i = "madt_info st2"
  have q: "quiet st st2" by (rule quiet_trans[OF s(1) c(2)])
  have i: "num_of t ?i = of_nat (length (of_type (kmem st) t ?es))" if "t \<in> list_types" for t
    using count_all_simps(3)[OF that] that by (simp add: c(3) s(2) num_of_def madt_info_0_def)
  have ov: "lapic_addr_override ?i = (case ?ovs of [] \<Rightarrow> 0 | e # _ \<Rightarrow> e)" unfolding c(3) s(2)
    by (rule count_all_override[OF t(4)]) (simp add: madt_info_0_def)
  have lp: "lapic_paddr ?i = ucast (madt_lapic_addr (kmem st) madt)" by (simp add: c(3) s(2) count_all_simps)
  have "lists_ok (kmem st) U ?es {} st2 U" using q assms(1) i by (simp add: lists_ok_def quiet_def keeps_def used_types_def)
  moreover have "costs 0 st st2" using q by (simp add: costs_def quiet_def)
  moreover have "madt_state.more st2 = madt_state.more st" using q by (simp add: quiet_def)
  ultimately have inv: "alloc_inv st U ?es ?i {} st2" using low_same_quiet[OF q] by (auto simp: alloc_inv_def used_types_def)
  show ?thesis unfolding s(3) c(1) obind_simps
  proof (rule panics_if_or_bind[OF madt_alloc_inv[OF inv es]])
    fix st3 assume a: "alloc_inv st U ?es ?i list_types st3"
    have "fill_inv st U ?es ?i (madt_entries madt []) (replicate MAX_ENTRY_TYPE 0, st3)"
      using a by (auto simp: fill_inv_def alloc_inv_def madt_entries_def of_type_def listed_at_def list_types_bound)
    then obtain cs st' where f: "madt_fill_loop madt (of_nat 0) (replicate MAX_ENTRY_TYPE 0, st3) = Some (Inr st')" "fill_inv st U ?es ?i ?es (cs, st')"
      using madt_fill_loop_run[OF assms(3) ov t(3), of "[]"] by (metis append_Nil)
    have "lapic_paddr (madt_info st') = (case ?ovs of [] \<Rightarrow> ucast (madt_lapic_addr (kmem st) madt) | e # _ \<Rightarrow> override_paddr (kmem st) e)"
      using f(2) ov lp by (auto simp: fill_inv_def split: list.splits)
    moreover obtain U' where l: "lists_ok (kmem st) U ?es list_types st' U'" using f(2) by (auto simp: fill_inv_def)
    moreover have nn: "of_type (kmem st) t ?es = [] \<or> ptrs_of t (madt_info st') \<noteq> 0" if "t \<in> list_types" for t
      using lists_ok_nonnull[OF l that] by blast
    ultimately show "panics_if_or (short_of (card (used_types (kmem st) ?es list_types)) st) (\<lambda>st'. (\<exists>U'. heap_rel st' U' \<and> U \<subseteq>\<^sub>m U') \<and> keeps U (kmem st) (kmem st') \<and>
      (\<forall>t\<in>list_types. madt_listed (kmem st') (get_madt_info st') t (of_type (kmem st) t ?es)) \<and>
      lapic_paddr (get_madt_info st') =
        (case ?ovs of [] \<Rightarrow> ucast (madt_lapic_addr (kmem st) madt) | e # _ \<Rightarrow> override_paddr (kmem st) e) \<and>
      low_same st st' \<and> madt_state.more st' = madt_state.more st \<and> costs (card (used_types (kmem st) ?es list_types)) st st')
      (madt_fill_loop madt 0 (replicate MAX_ENTRY_TYPE 0, st3))"
      using f nn by (auto simp: get_madt_info_def fill_inv_def madt_listed_def listed_at_def lists_ok_def)
  qed
qed

section \<open>Properties\<close>


text \<open>A table with an I/O APIC and an address override.\<close>

definition demo_madt :: addr where "demo_madt = 0xffff800003002000"

definition demo_table :: mem where
  "demo_table = (\<lambda>_. 0)(demo_madt + 4 := 68, demo_madt + 44 := 1, demo_madt + 45 := 12, demo_madt + 56 := 5, demo_madt + 57 := 12, demo_madt + 61 := 7)"

lemma demo_fields:
  assumes m: "\<And>x. in_region demo_madt 100 x \<Longrightarrow> m x = demo_table x"
  shows "sdt_length m demo_madt = 68" "entry_type m (demo_madt + 44) = MADT_IOAPIC" "entry_length m (demo_madt + 44) = 12"
    "entry_type m (demo_madt + 56) = MADT_LAPIC_ADDR_OVERRIDE" "entry_length m (demo_madt + 56) = 12" "override_paddr m (demo_madt + 56) = 0x700"
proof -
  note m' = m[unfolded demo_madt_def in_region_def]
  have u4: "[0..<4] = [0, 1, 2, 3]" "[0..<8] = [0, 1, 2, 3, 4, 5, 6, 7]" by (simp_all add: upt_rec)
  show "sdt_length m demo_madt = 68" by (simp add: sdt_length_def load_def u4 m' demo_table_def demo_madt_def)
  show "override_paddr m (demo_madt + 56) = 0x700"
    by (simp add: override_paddr_def load_def u4 m' demo_table_def demo_madt_def)
  show "entry_type m (demo_madt + 44) = MADT_IOAPIC" "entry_length m (demo_madt + 44) = 12"
    "entry_type m (demo_madt + 56) = MADT_LAPIC_ADDR_OVERRIDE" "entry_length m (demo_madt + 56) = 12"
    by (simp_all add: entry_type_def entry_length_def m' demo_table_def demo_madt_def madt_types)
qed

lemma demo_madt_lists:
  assumes m: "\<And>x. in_region demo_madt 100 x \<Longrightarrow> m x = demo_table x"
  shows "of_type m MADT_IOAPIC (madt_entries demo_madt [0, 12]) = [demo_madt + 44]"
    "of_type m MADT_LAPIC_ADDR_OVERRIDE (madt_entries demo_madt [0, 12]) = [demo_madt + 56]"
    "used_types m (madt_entries demo_madt [0, 12]) list_types = {MADT_IOAPIC}" "MADT_IOAPIC \<in> list_types"
proof -
  note f = demo_fields[OF m]
  have es: "madt_entries demo_madt [0, 12] = [demo_madt + 44, demo_madt + 56]" by (simp add: madt_entries_def)
  have io: "MADT_IOAPIC \<in> list_types" "MADT_LAPIC_ADDR_OVERRIDE \<notin> list_types" "MADT_IOAPIC \<noteq> MADT_LAPIC_ADDR_OVERRIDE"
    by (simp_all add: list_types_def madt_types)
  show "of_type m MADT_IOAPIC (madt_entries demo_madt [0, 12]) = [demo_madt + 44]"
    "of_type m MADT_LAPIC_ADDR_OVERRIDE (madt_entries demo_madt [0, 12]) = [demo_madt + 56]"
    "used_types m (madt_entries demo_madt [0, 12]) list_types = {MADT_IOAPIC}"
    using f(2,4) io by (auto simp: es of_type_def used_types_def)
  show "MADT_IOAPIC \<in> list_types" by (rule io)
qed

lemma demo_madt_table:
  assumes "kheap_max st = 0xffffffff80203000" "\<forall>x. 0x2000000 \<le> unat x \<longrightarrow> above_phys st x"
    and m: "\<And>x. in_region demo_madt 100 x \<Longrightarrow> kmem st x = demo_table x"
  shows "madt_table st demo_madt [0, 12] 24"
proof -
  note f = demo_fields[OF m]
  have "above_phys st x \<and> unat x < unat (kheap_max st)" if "in_region demo_madt 68 x" for x
    using that assms(1,2) by (auto simp: in_region_unat demo_madt_def)
  moreover have "demo_madt \<noteq> 0" "unat demo_madt + 44 + 24 < 2 ^ 64" by (simp_all add: demo_madt_def)
  ultimately show ?thesis
    using f f[unfolded add.commute[of demo_madt]] by (simp add: madt_table_def of_type_def madt_entries_def madt_types)
qed

lemma demo_madt_state:
  obtains st :: madt_state where "heap_rel st Map.empty" "madt_info st = madt_info_0" "\<not> short_of 1 st" "madt_table st demo_madt [0, 12] 24"
    "\<forall>x. in_region demo_madt 100 x \<longrightarrow> kmem st x = demo_table x"
proof -
  obtain st :: madt_state where d: "heap_rel st Map.empty" "11 \<le> avail st" "unat (kheap_top st) = 2 ^ 64 - 4096"
    "kheap_max st = 0xffffffff80203000" "\<forall>x. 0x2000000 \<le> unat x \<longrightarrow> above_phys st x" "kheap_state.more st = \<lparr>madt_info = madt_info_0\<rparr>"
    "\<forall>x. 0x2000000 \<le> unat x \<and> unat x < unat (0xffffffff80203000 :: u64) \<longrightarrow> kmem st x = demo_table x"
    by (rule demo_program[of "\<lparr>madt_info = madt_info_0\<rparr>" demo_table])
  have i: "madt_info st = madt_info_0" using d(6) by (cases st) simp
  have m: "kmem st x = demo_table x" if "in_region demo_madt 100 x" for x
    using d(7) that by (simp add: in_region_unat demo_madt_def)
  have "\<not> short_of 1 st" using d(2-4) by (simp add: short_of_def)
  then show thesis using that[of st] d(1) i m demo_madt_table[OF d(4,5) m] by blast
qed


text \<open>C26. The index of the walk is a \<^verbatim>\<open>uint8_t\<close>, so \<open>parse_madt\<close> never returns from a table with 256 or more bytes of
  entries: the index wraps around before it reaches the end.\<close>

theorem parse_madt_long_table:
  assumes "madt_info st = madt_info_0" "300 \<le> sdt_length (kmem st) madt"
  shows "parse_madt madt st \<noteq> Some (Inr st')"
proof -
  obtain st1 where s: "quiet st st1"
    "parse_madt madt st = obind (madt_count_loop madt 0 st1) (\<lambda>st. obind (madt_alloc st) (\<lambda>st. madt_fill_loop madt 0 (replicate MAX_ENTRY_TYPE 0, st)))"
    by (rule parse_madt_start[OF assms(1)])
  have "madt_more madt i (kmem st)" for i
  proof -
    have "unat i < 256" using unsigned_less[of i] by simp
    moreover from this have "unat (ucast i :: u32) = unat i" by (simp add: unsigned_ucast_eq take_bit_nat_eq_self)
    moreover have "unat (sdt_length (kmem st) madt - 44) = unat (sdt_length (kmem st) madt) - 44"
      using assms(2) by (subst unat_sub) (auto simp: word_le_nat_alt)
    moreover have "300 \<le> unat (sdt_length (kmem st) madt)" using assms(2) by (simp add: word_le_nat_alt)
    ultimately show ?thesis by (simp add: madt_more_def MADT_OFFSET_def word_less_nat_alt)
  qed
  moreover have "kmem st1 = kmem st" using s(1) by (simp add: quiet_def)
  ultimately have "madt_count_loop madt 0 st1 \<noteq> Some (Inr st2)" for st2 by (rule madt_count_loop_long)
  then show ?thesis unfolding s(2) by (cases "madt_count_loop madt 0 st1") (auto simp: obind_def split: sum.splits)
qed

theorem parse_madt_long_table_witness: "\<exists>st :: madt_state. \<forall>st'. parse_madt 0x1000 st \<noteq> Some (Inr st')"
proof -
  let ?st = "\<lparr>kmem = (\<lambda>_. 1), klog = [], alloc_ptr = 0, mem_size = 0, mem_zone = [], cr3 = 0, invalidated = [], intr = demo_intr,
    kheap_top = 0, kheap_max = 0, free_head = 0, block_head = 0, madt_info = madt_info_0\<rparr> :: madt_state"
  have "[0..<4] = [0, 1, 2, 3]" by (simp add: upt_rec)
  then have "300 \<le> sdt_length (kmem ?st) 0x1000" by (simp add: sdt_length_def load_def word_le_nat_alt)
  then show ?thesis using parse_madt_long_table[of ?st "0x1000"] by auto
qed

end
