(* ===== verification/Acpi.thy ===== *)
theory Acpi
  imports Madt LibMem
begin

text \<open>
  The ACPI tables, kernel/acpi/acpi.c: the root pointer and its checksum, the root table and the search for a table
  by its signature, and the start that parses the MADT. The address of the root pointer is what the boot loader's
  tag holds, and the address of the string \<^verbatim>\<open>"APIC"\<close> is where the linker put it: both are arguments.
\<close>

section \<open>Definitions\<close>

definition ACPI_V1 :: u8 where "ACPI_V1 = 0"
definition ACPI_V2 :: u8 where "ACPI_V2 = 2"
definition RSDP_DESC_SIZE_V1 :: nat where "RSDP_DESC_SIZE_V1 = 20"
definition RSDP_DESC_SIZE_V2 :: nat where "RSDP_DESC_SIZE_V2 = 36"

text \<open>Fields of \<^verbatim>\<open>rsdp_t\<close>.\<close>

definition rsdp_revision :: "mem \<Rightarrow> addr \<Rightarrow> u8" where "rsdp_revision m rsdp = m (rsdp + 15)"
definition rsdp_rsdt_address :: "mem \<Rightarrow> addr \<Rightarrow> u32" where "rsdp_rsdt_address m rsdp = load 4 m (rsdp + 16)"

record rsdt_t =
  rsdt_sdt_hdr :: addr
  acpi_version :: u8
  table_ptr :: addr

record acpi_state = madt_state +
  rsdt :: rsdt_t

definition rsdt_0 :: rsdt_t where
  "rsdt_0 = \<lparr>rsdt_sdt_hdr = 0, acpi_version = ACPI_V1, table_ptr = 0\<rparr>"

definition verify_rsdp_checksum :: "mem \<Rightarrow> addr \<Rightarrow> bool" where
  "verify_rsdp_checksum m rsdp =
     (let (checksum, p) = checksum_loop m RSDP_DESC_SIZE_V1 (0, rsdp);
          valid_v1 = (checksum AND 0xff = 0)
      in if rsdp_revision m rsdp = ACPI_V1 then valid_v1
         else let (checksum, p) = checksum_loop m (RSDP_DESC_SIZE_V2 - RSDP_DESC_SIZE_V1) (checksum, p)
              in valid_v1 \<and> checksum AND 0xff = 0)"

definition get_rsdt :: "'a acpi_state_scheme \<Rightarrow> rsdt_t" where "get_rsdt st = rsdt st"

text \<open>\<^verbatim>\<open>for (i = 0; i < rsdt_entries; i++)\<close> of \<open>acpi_find_table\<close>; \<open>entry i\<close> reads \<^verbatim>\<open>table_ptr[i]\<close>.\<close>

function acpi_find_loop :: "mem \<Rightarrow> addr \<Rightarrow> (u64 \<Rightarrow> addr) \<Rightarrow> u64 \<Rightarrow> u64 \<Rightarrow> addr option kres" where
  "acpi_find_loop m table entry rsdt_entries i =
     (if i < rsdt_entries then
        if entry i = 0 then Inl Null_deref
        else if strncmp m table (entry i) 4 = 0 then Inr (Some (entry i))
        else acpi_find_loop m table entry rsdt_entries (i + 1)
      else Inr None)"
  by pat_completeness auto
termination
proof (relation "measure (\<lambda>(m, table, entry, n, i). unat n - unat i)")
  fix m table entry and n i :: u64 assume "i < n"
  then have "unat (i + 1) = unat i + 1" "unat i < unat n"
    using unat_u64_bound[of n] by (auto simp: word_less_nat_alt intro!: unat_add_lem[THEN iffD1, of i 1, simplified])
  then show "((m, table, entry, n, i + 1), (m, table, entry, n, i)) \<in> measure (\<lambda>(m, table, entry, n, i). unat n - unat i)"
    by simp
qed simp

declare acpi_find_loop.simps [simp del]

definition rsdt_entries :: "mem \<Rightarrow> rsdt_t \<Rightarrow> u64" where
  "rsdt_entries m r = (ucast (sdt_length m (rsdt_sdt_hdr r)) - sizeof_sdt_header) div (if acpi_version r = ACPI_V1 then 4 else 8)"

definition rsdt_entry :: "mem \<Rightarrow> rsdt_t \<Rightarrow> u64 \<Rightarrow> addr" where
  "rsdt_entry m r i = (if acpi_version r = ACPI_V1 then ucast (load 4 m (table_ptr r + 4 * i) :: u32)
     else read64 m (table_ptr r + 8 * i))"

definition acpi_find_table :: "addr \<Rightarrow> 'a acpi_state_scheme \<Rightarrow> (addr \<times> 'a acpi_state_scheme) kres option" where
  "acpi_find_table table st =
     (let r = rsdt st in
      if rsdt_sdt_hdr r = 0 then Some (Inr (0, log_msg WARNING ''[acpi_find_table] sdt_hdr is NULL'' st))
      else if table_ptr r = 0 then Some (Inr (0, log_msg WARNING ''[acpi_find_table] sdt_hdr is NULL'' st))
      else Option.bind (strlen (kmem st) table) (\<lambda>n.
        if n \<noteq> 4 then Some (Inr (0, log_msg WARNING ''[acpi_find_table] table string is not of length 4: %s'' st))
        else if acpi_version r \<noteq> ACPI_V1 \<and> acpi_version r \<noteq> ACPI_V2 then
          Some (Inr (0, log_msg WARNING ''[acpi_find_table] acpi_version is not valid: %d'' st))
        else Some (kbind (acpi_find_loop (kmem st) table (rsdt_entry (kmem st) r) (rsdt_entries (kmem st) r) 0) (\<lambda>found.
          case found of
            Some hdr \<Rightarrow> Inr (hdr, st)
          | None \<Rightarrow> Inr (0, log_msg WARNING ''[acpi_find_table] table was not found'' st)))))"

definition acpi_init :: "addr option \<Rightarrow> addr \<Rightarrow> 'a acpi_state_scheme \<Rightarrow> 'a acpi_state_scheme kres option" where
  "acpi_init rsdp_tag apic st =
     (case rsdp_tag of
        None \<Rightarrow> Some (Inl (Panic ''RSDP tag not found''))
      | Some rsdp \<Rightarrow>
          if \<not> verify_rsdp_checksum (kmem st) rsdp then Some (Inl (Panic ''RSDP checksum could not be verified''))
          else
            let st = log_msg INFO ''[acpi_init] rsdp revision: %u'' st;
                hdr = P2V (ucast (rsdp_rsdt_address (kmem st) rsdp));
                st = st\<lparr>rsdt := \<lparr>rsdt_sdt_hdr = hdr, acpi_version = rsdp_revision (kmem st) rsdp, table_ptr = hdr + sizeof_sdt_header\<rparr>\<rparr>
            in if \<not> verify_sdt_checksum (kmem st) (rsdt_sdt_hdr (rsdt st)) then
                 Some (Inl (Panic ''RSDT/XSDT checksum could not be verified''))
               else obind (acpi_find_table apic st) (\<lambda>(madt_hdr, st).
                 if madt_hdr = 0 then Some (Inl (Panic ''MADT table was not found''))
                 else let madt_hdr = P2V madt_hdr;
                          st = log_msg NONE ''madt_hdr signature: %s'' st
                      in parse_madt madt_hdr st))"

section \<open>The search\<close>

text \<open>A string of four characters, the tables that the root table lists, and the first with a signature.\<close>

definition str4 :: "mem \<Rightarrow> addr \<Rightarrow> bool" where
  "str4 m s \<longleftrightarrow> (\<forall>i<4. m (s + of_nat i) \<noteq> 0) \<and> m (s + 4) = 0"

definition rsdt_tables :: "mem \<Rightarrow> rsdt_t \<Rightarrow> addr list" where
  "rsdt_tables m r =
     (let w = if acpi_version r = ACPI_V1 then 4 else 8
      in map (\<lambda>i. rsdt_entry m r (of_nat i)) [0..<(unat (sdt_length m (rsdt_sdt_hdr r)) - 36) div w])"

definition first_table :: "mem \<Rightarrow> addr \<Rightarrow> rsdt_t \<Rightarrow> addr option" where
  "first_table m table r = find (\<lambda>h. \<forall>i<4. m (h + of_nat i) = m (table + of_nat i)) (rsdt_tables m r)"

text \<open>A root table that can be searched.\<close>

definition rsdt_ok :: "mem \<Rightarrow> rsdt_t \<Rightarrow> bool" where
  "rsdt_ok m r \<longleftrightarrow> rsdt_sdt_hdr r \<noteq> 0 \<and> table_ptr r \<noteq> 0 \<and> (acpi_version r = ACPI_V1 \<or> acpi_version r = ACPI_V2) \<and>
     36 \<le> sdt_length m (rsdt_sdt_hdr r) \<and> 0 \<notin> set (rsdt_tables m r)"

lemma strncmp_4:
  assumes "str4 m s"
  shows "strncmp m s h 4 = 0 \<longleftrightarrow> (\<forall>i<4. m (h + of_nat i) = m (s + of_nat i))"
proof -
  have nz: "m (s + of_nat i) \<noteq> 0" if "i < 4" for i using assms that by (simp add: str4_def)
  have "strncmp m s h 4 = 0 \<longleftrightarrow> (\<exists>k \<le> 4. (\<forall>i<k. m (s + of_nat i) \<noteq> 0 \<and> m (s + of_nat i) = m (h + of_nat i)) \<and>
      (k = 4 \<or> m (s + of_nat k) = 0 \<and> m (h + of_nat k) = 0))"
    using memcmp_zero_iff[of m s h 4] by (simp add: memcmp_def)
  also have "\<dots> \<longleftrightarrow> (\<forall>i<4. m (h + of_nat i) = m (s + of_nat i))"
    using nz by (metis le_neq_implies_less le_refl)
  finally show ?thesis .
qed

lemma strlen_4: "str4 m s \<Longrightarrow> strlen m s = Some 4"
  using strlen_loop_Some[of m s 0 4] by (simp add: strlen_def str4_def)

lemma acpi_find_loop_eq:
  assumes "0 \<notin> set (map (\<lambda>j. entry (of_nat j)) [0..<unat n])" "i \<le> unat n"
  shows "acpi_find_loop m table entry n (of_nat i) =
    Inr (find (\<lambda>h. strncmp m table h 4 = 0) (map (\<lambda>j. entry (of_nat j)) [i..<unat n]))"
  using assms(2)
proof (induction "unat n - i" arbitrary: i)
  case 0
  then have "i = unat n" by simp
  then show ?case by (subst acpi_find_loop.simps) simp
next
  case (Suc k)
  then have i: "i < unat n" by simp
  then have u: "unat (of_nat i :: u64) = i" using unat_u64_bound[of n] by simp
  have nz: "entry (of_nat i) \<noteq> 0" using assms(1) i by (force simp: image_iff)
  have "acpi_find_loop m table entry n (of_nat (Suc i)) =
      Inr (find (\<lambda>h. strncmp m table h 4 = 0) (map (\<lambda>j. entry (of_nat j)) [Suc i..<unat n]))"
    using Suc.hyps(2) i by (intro Suc.hyps(1)) auto
  moreover have "of_nat i < n" using i u by (simp add: word_less_nat_alt)
  moreover have "[i..<unat n] = i # [Suc i..<unat n]" using i by (rule upt_conv_Cons)
  ultimately show ?case using nz by (subst acpi_find_loop.simps) (simp add: add.commute)
qed

lemma rsdt_entries_eq:
  assumes "36 \<le> sdt_length m (rsdt_sdt_hdr r)"
  shows "unat (rsdt_entries m r) = (unat (sdt_length m (rsdt_sdt_hdr r)) - 36) div (if acpi_version r = ACPI_V1 then 4 else 8)"
proof -
  let ?l = "sdt_length m (rsdt_sdt_hdr r)"
  have l: "36 \<le> unat ?l" "unat ?l < 2 ^ 32" using assms unsigned_less[of ?l] by (auto simp: word_le_nat_alt)
  then have u: "unat (ucast ?l :: u64) = unat ?l" by (simp add: unsigned_ucast_eq take_bit_nat_eq_self)
  then have "unat (ucast ?l - 36 :: u64) = unat ?l - 36" using l by (subst unat_sub) (auto simp: word_le_nat_alt)
  then show ?thesis by (simp add: rsdt_entries_def sizeof_sdt_header_def unat_div)
qed

lemma acpi_find_table_run:
  assumes "rsdt_ok (kmem st) (rsdt st)" "str4 (kmem st) table"
  shows "acpi_find_table table st = Some (Inr (case first_table (kmem st) table (rsdt st) of
    None \<Rightarrow> (0, log_msg WARNING ''[acpi_find_table] table was not found'' st) | Some h \<Rightarrow> (h, st)))"
proof -
  let ?m = "kmem st" and ?r = "rsdt st"
  have r: "rsdt_sdt_hdr ?r \<noteq> 0" "table_ptr ?r \<noteq> 0" "acpi_version ?r = ACPI_V1 \<or> acpi_version ?r = ACPI_V2"
    "36 \<le> sdt_length ?m (rsdt_sdt_hdr ?r)" "0 \<notin> set (rsdt_tables ?m ?r)" using assms(1) by (auto simp: rsdt_ok_def)
  have t: "rsdt_tables ?m ?r = map (\<lambda>j. rsdt_entry ?m ?r (of_nat j)) [0..<unat (rsdt_entries ?m ?r)]"
    by (simp add: rsdt_tables_def rsdt_entries_eq[OF r(4)] Let_def)
  have "acpi_find_loop ?m table (rsdt_entry ?m ?r) (rsdt_entries ?m ?r) (of_nat 0) = Inr (first_table ?m table ?r)"
    using r(5) unfolding t first_table_def strncmp_4[OF assms(2), symmetric] by (rule acpi_find_loop_eq) simp
  then show ?thesis using r(1-3) strlen_4[OF assms(2)] by (auto simp: acpi_find_table_def Let_def split: option.splits)
qed

section \<open>The start\<close>

definition rsdp_rsdt :: "mem \<Rightarrow> addr \<Rightarrow> rsdt_t" where
  "rsdp_rsdt m rsdp = (let hdr = P2V (ucast (rsdp_rsdt_address m rsdp))
     in \<lparr>rsdt_sdt_hdr = hdr, acpi_version = rsdp_revision m rsdp, table_ptr = hdr + 36\<rparr>)"

lemma rsdt_simps [simp]:
  fixes st :: "'a acpi_state_scheme"
  shows "heap_rel (st\<lparr>rsdt := r\<rparr>) U = heap_rel st U" "avail (st\<lparr>rsdt := r\<rparr>) = avail st" "above_phys (st\<lparr>rsdt := r\<rparr>) = above_phys st"
  by (rule heap_more; simp add: kheap_state.truncate_def)+

lemma rsdt_log [simp]: "rsdt (log_msg l s st) = rsdt st"
  by (simp add: log_msg_def)

lemma acpi_init_start:
  assumes "verify_rsdp_checksum (kmem st) rsdp" "verify_sdt_checksum (kmem st) (rsdt_sdt_hdr (rsdp_rsdt (kmem st) rsdp))"
    "rsdt_ok (kmem st) (rsdp_rsdt (kmem st) rsdp)" "str4 (kmem st) apic"
    "first_table (kmem st) apic (rsdp_rsdt (kmem st) rsdp) = Some h" "h \<noteq> 0"
  shows "acpi_init (Some rsdp) apic st = parse_madt (P2V h) (log_msg NONE ''madt_hdr signature: %s''
    ((log_msg INFO ''[acpi_init] rsdp revision: %u'' st)\<lparr>rsdt := rsdp_rsdt (kmem st) rsdp\<rparr>))"
proof -
  let ?st1 = "(log_msg INFO ''[acpi_init] rsdp revision: %u'' st)\<lparr>rsdt := rsdp_rsdt (kmem st) rsdp\<rparr>"
  have "acpi_find_table apic ?st1 = Some (Inr (h, ?st1))"
    using acpi_find_table_run[of ?st1 apic] assms(3,4,5) by simp
  then show ?thesis
    using assms(1,2,6) by (simp add: acpi_init_def Let_def rsdp_rsdt_def sizeof_sdt_header_def)
qed

text \<open>The whole start, with what it leaves alone.\<close>

lemma acpi_init_run:
  fixes st :: "'a acpi_state_scheme"
  assumes "heap_rel st U" "madt_info st = madt_info_0" "verify_rsdp_checksum (kmem st) rsdp"
    "verify_sdt_checksum (kmem st) (rsdt_sdt_hdr (rsdp_rsdt (kmem st) rsdp))" "rsdt_ok (kmem st) (rsdp_rsdt (kmem st) rsdp)"
    "str4 (kmem st) apic" "first_table (kmem st) apic (rsdp_rsdt (kmem st) rsdp) = Some h" "madt_table st (P2V h) ks n"
  shows "panics_if_or (short_of (card (used_types (kmem st) (madt_entries (P2V h) ks) list_types)) st)
    (\<lambda>st'. (\<forall>t\<in>list_types. madt_listed (kmem st') (get_madt_info st') t (of_type (kmem st) t (madt_entries (P2V h) ks))) \<and>
       lapic_paddr (get_madt_info st') = (case of_type (kmem st) MADT_LAPIC_ADDR_OVERRIDE (madt_entries (P2V h) ks) of
         [] \<Rightarrow> ucast (madt_lapic_addr (kmem st) (P2V h)) | e # _ \<Rightarrow> override_paddr (kmem st) e) \<and>
       keeps U (kmem st) (kmem st') \<and> (\<exists>U'. heap_rel st' U') \<and> low_same st st' \<and> acpi_state.more st' = acpi_state.more st \<and>
       costs (card (used_types (kmem st) (madt_entries (P2V h) ks) list_types)) st st')
    (acpi_init (Some rsdp) apic st)"
proof -
  have "h \<in> set (rsdt_tables (kmem st) (rsdp_rsdt (kmem st) rsdp))" using assms(7) by (auto simp: first_table_def find_Some_iff)
  then have "h \<noteq> 0" using assms(5) by (auto simp: rsdt_ok_def)
  note run = acpi_init_start[OF assms(3-7) this]
  define st1 where "st1 = log_msg NONE ''madt_hdr signature: %s'' ((log_msg INFO ''[acpi_init] rsdp revision: %u'' st)\<lparr>rsdt := rsdp_rsdt (kmem st) rsdp\<rparr>)"
  have q: "kmem st1 = kmem st" "heap_rel st1 U" "madt_table st1 (P2V h) ks n" "short_of k st1 = short_of k st" "madt_info st1 = madt_info_0"
    "low_same st1 st' = low_same st st'" "costs k st1 st' = costs k st st'" for k and st' :: "'a acpi_state_scheme"
    using assms(1,2,8) by (simp_all add: st1_def madt_table_def short_of_def low_same_def costs_def)
  have more: "acpi_state.more st' = acpi_state.more st" if "madt_state.more st' = madt_state.more st1" for st' :: "'a acpi_state_scheme"
    using that by (cases st, cases st') (simp add: st1_def log_msg_def)
  show ?thesis using parse_madt_run[OF q(2,5,3)] unfolding run st1_def[symmetric] q(1,4)
    by (rule panics_if_or_mono) (use q(6,7) more in blast)
qed

section \<open>A machine with tables\<close>

text \<open>A root pointer of revision 0, a root table with one entry, and the table of the theory Madt.\<close>

definition demo_rsdp :: addr where "demo_rsdp = 0x3000000"
definition demo_apic :: addr where "demo_apic = 0x3003000"

definition demo_acpi :: mem where
  "demo_acpi = demo_table(0x3000008 := 0xed, 0x3000011 := 0x10, 0x3000013 := 3,
     0xffff800003001004 := 40, 0xffff800003001009 := 181, 0xffff800003001025 := 0x20, 0xffff800003001027 := 3,
     0x3002000 := 65, 0x3002001 := 80, 0x3002002 := 73, 0x3002003 := 67,
     0x3003000 := 65, 0x3003001 := 80, 0x3003002 := 73, 0x3003003 := 67)"

lemma upt_4: "[0..<4] = [0, 1, 2, 3]"
  by (simp add: upt_rec)

lemma all4: "(\<forall>i<4. P i) = (P 0 \<and> P 1 \<and> P 2 \<and> P (3 :: nat))"
proof -
  have "(\<forall>i<4. P i) = list_all P [0..<4]" by (auto simp: list_all_iff)
  then show ?thesis unfolding upt_4 by simp
qed

lemmas demo_mem = demo_acpi_def demo_table_def demo_madt_def demo_rsdp_def demo_apic_def

definition demo_holds :: "mem \<Rightarrow> bool" where
  "demo_holds m \<longleftrightarrow> (\<forall>x. 0x2000000 \<le> unat x \<and> unat x < unat (0xffffffff80000000 :: u64) \<longrightarrow> m x = demo_acpi x)"

lemma demo_holds_table:
  assumes "demo_holds m" "in_region demo_madt 100 x"
  shows "m x = demo_table x"
proof -
  have "unat demo_madt \<le> unat x" "unat x < unat demo_madt + 100" using assms(2) by (auto simp: in_region_unat demo_madt_def)
  then show ?thesis using assms(1) by (auto simp: demo_holds_def demo_acpi_def demo_madt_def)
qed

lemma demo_rsdp_values:
  assumes "demo_holds m"
  shows "verify_rsdp_checksum m demo_rsdp" "rsdp_rsdt m demo_rsdp = \<lparr>rsdt_sdt_hdr = 0xffff800003001000, acpi_version = ACPI_V1, table_ptr = 0xffff800003001024\<rparr>"
proof -
  note m = assms[unfolded demo_holds_def, rule_format]
  have "m x = demo_acpi x" if "in_region demo_rsdp 20 x" for x using that by (intro m) (auto simp: in_region_unat demo_rsdp_def)
  then have "byte_sum m demo_rsdp 20 = byte_sum demo_acpi demo_rsdp 20" by (intro byte_sum_cong) auto
  also have "\<dots> = 256" by (simp add: demo_mem byte_sum_upd in_region_def)
  finally have "byte_sum m demo_rsdp 20 = 256" .
  moreover have "rsdp_revision m demo_rsdp = ACPI_V1" "rsdp_rsdt_address m demo_rsdp = 0x3001000"
    by (simp_all add: upt_4 m demo_mem rsdp_revision_def rsdp_rsdt_address_def load_def ACPI_V1_def)
  ultimately show "verify_rsdp_checksum m demo_rsdp" "rsdp_rsdt m demo_rsdp = \<lparr>rsdt_sdt_hdr = 0xffff800003001000, acpi_version = ACPI_V1, table_ptr = 0xffff800003001024\<rparr>"
    by (simp_all add: verify_rsdp_checksum_def checksum_loop_eq RSDP_DESC_SIZE_V1_def rsdp_rsdt_def P2V_def VA_HHDM_def)
qed

lemma demo_rsdt_values:
  assumes "demo_holds m"
  defines "r \<equiv> \<lparr>rsdt_sdt_hdr = 0xffff800003001000, acpi_version = ACPI_V1, table_ptr = 0xffff800003001024\<rparr>"
  shows "verify_sdt_checksum m 0xffff800003001000" "rsdt_ok m r" "str4 m demo_apic" "first_table m demo_apic r = Some 0x3002000"
proof -
  note m = assms(1)[unfolded demo_holds_def, rule_format]
  have "m x = demo_acpi x" if "in_region 0xffff800003001000 40 x" for x using that by (intro m) (auto simp: in_region_unat)
  then have "byte_sum m 0xffff800003001000 40 = byte_sum demo_acpi 0xffff800003001000 40" by (intro byte_sum_cong) auto
  also have "\<dots> = 256" by (simp add: demo_mem byte_sum_upd in_region_def)
  finally have sum: "byte_sum m 0xffff800003001000 40 = 256" .
  have v: "sdt_length m 0xffff800003001000 = 40" "load 4 m 0xffff800003001024 = (0x3002000 :: u32)"
    by (simp_all add: upt_4 m demo_mem sdt_length_def load_def)
  then show "verify_sdt_checksum m 0xffff800003001000" using sum by (simp add: verify_sdt_checksum_iff)
  have t: "rsdt_tables m r = [0x3002000]" using v by (simp add: rsdt_tables_def r_def rsdt_entry_def)
  then show "rsdt_ok m r" using v(1) by (simp add: rsdt_ok_def r_def)
  show "str4 m demo_apic" by (simp add: all4 str4_def m demo_mem)
  have "\<forall>i<4. m (0x3002000 + of_nat i) = m (demo_apic + of_nat i)" by (simp add: all4 m demo_mem)
  then show "first_table m demo_apic r = Some 0x3002000" by (simp add: first_table_def t)
qed

lemma demo_acpi_state:
  obtains st :: acpi_state where "heap_rel st Map.empty" "madt_info st = madt_info_0" "\<not> short_of 1 st" "demo_holds (kmem st)"
    "madt_table st (P2V 0x3002000) [0, 12] 24" "rsdt st = rsdp_rsdt (kmem st) demo_rsdp"
    "\<forall>x. in_region demo_madt 100 x \<longrightarrow> kmem st x = demo_table x"
proof -
  let ?r = "\<lparr>rsdt_sdt_hdr = 0xffff800003001000, acpi_version = ACPI_V1, table_ptr = 0xffff800003001024\<rparr> :: rsdt_t"
  obtain st :: acpi_state where d: "heap_rel st Map.empty" "11 \<le> avail st" "unat (kheap_top st) = 2 ^ 64 - 4096"
    "kheap_max st = 0xffffffff80203000" "\<forall>x. 0x2000000 \<le> unat x \<longrightarrow> above_phys st x"
    "kheap_state.more st = \<lparr>madt_info = madt_info_0, rsdt = ?r\<rparr>"
    "\<forall>x. 0x2000000 \<le> unat x \<and> unat x < unat (0xffffffff80203000 :: u64) \<longrightarrow> kmem st x = demo_acpi x"
    by (rule demo_program[of "\<lparr>madt_info = madt_info_0, rsdt = ?r\<rparr>" demo_acpi])
  have i: "madt_info st = madt_info_0" "rsdt st = ?r" using d(6) by (cases st; simp)+
  have h: "demo_holds (kmem st)" using d(7) by (auto simp: demo_holds_def)
  note tab = demo_holds_table[OF h]
  have "madt_table st demo_madt [0, 12] 24" by (rule demo_madt_table[OF d(4,5) tab])
  moreover have "P2V 0x3002000 = demo_madt" by (simp add: P2V_def VA_HHDM_def demo_madt_def)
  moreover have "\<not> short_of 1 st" using d(2-4) by (simp add: short_of_def)
  ultimately show thesis using that[of st] d(1) i h tab demo_rsdp_values(2)[OF h] by simp
qed

section \<open>Properties\<close>

text \<open>The two checksums: a table is accepted exactly if its bytes add up to 0 modulo 256; a root pointer is accepted
  exactly if its first 20 bytes do and, unless its revision is 0, all its 36 bytes do.\<close>

theorem acpi_checksums:
  "verify_sdt_checksum m hdr = (byte_sum m hdr (unat (sdt_length m hdr)) mod 256 = 0) \<and>
   verify_rsdp_checksum m rsdp = (byte_sum m rsdp 20 mod 256 = 0 \<and> (rsdp_revision m rsdp = ACPI_V1 \<or> byte_sum m rsdp 36 mod 256 = 0))"
proof -
  have "byte_sum m rsdp 36 = byte_sum m rsdp 20 + byte_sum m (rsdp + 20) 16" using byte_sum_add[of m rsdp 20 16] by simp
  moreover have "(of_nat a + of_nat b = (0 :: u8)) = ((a + b) mod 256 = 0)" for a b using u8_of_nat_zero[of "a + b"] by simp
  ultimately show ?thesis
    by (auto simp add: Let_def verify_sdt_checksum_iff verify_rsdp_checksum_def checksum_loop_eq RSDP_DESC_SIZE_V1_def RSDP_DESC_SIZE_V2_def and_ff u8_of_nat_zero)
qed

text \<open>\<open>acpi_find_table\<close> on a root table of either version: it returns the first table in the list whose four
  bytes of signature are the ones asked for, and NULL with a warning if there is none.\<close>

theorem acpi_find_table_correct:
  assumes "rsdt_ok (kmem st) (rsdt st)" "str4 (kmem st) table"
  shows "acpi_find_table table st = Some (Inr (case first_table (kmem st) table (rsdt st) of
    None \<Rightarrow> (0, log_msg WARNING ''[acpi_find_table] table was not found'' st) | Some h \<Rightarrow> (h, st)))"
  using assms by (rule acpi_find_table_run)

theorem acpi_find_table_correct_witness: "\<exists>st :: acpi_state. acpi_find_table demo_apic st = Some (Inr (0x3002000, st))"
proof -
  obtain st :: acpi_state where d: "demo_holds (kmem st)" "rsdt st = rsdp_rsdt (kmem st) demo_rsdp" by (rule demo_acpi_state)
  note v = demo_rsdt_values[OF d(1)] demo_rsdp_values[OF d(1)]
  then have "acpi_find_table demo_apic st = Some (Inr (0x3002000, st))" using acpi_find_table_correct[of st demo_apic] d(2) by simp
  then show ?thesis by blast
qed

text \<open>What stops \<open>acpi_init\<close>: it panics if there is no root pointer, if the checksum of the root pointer or of
  the root table is wrong, and if the root table does not list a MADT.\<close>

theorem acpi_init_panics:
  assumes "rsdt_ok (kmem st) (rsdp_rsdt (kmem st) rsdp)" "str4 (kmem st) apic"
  shows "acpi_init None apic st = Some (Inl (Panic ''RSDP tag not found'')) \<and>
    (\<not> verify_rsdp_checksum (kmem st) rsdp \<longrightarrow> acpi_init (Some rsdp) apic st = Some (Inl (Panic ''RSDP checksum could not be verified''))) \<and>
    (verify_rsdp_checksum (kmem st) rsdp \<and> \<not> verify_sdt_checksum (kmem st) (rsdt_sdt_hdr (rsdp_rsdt (kmem st) rsdp)) \<longrightarrow>
       acpi_init (Some rsdp) apic st = Some (Inl (Panic ''RSDT/XSDT checksum could not be verified''))) \<and>
    (verify_rsdp_checksum (kmem st) rsdp \<and> verify_sdt_checksum (kmem st) (rsdt_sdt_hdr (rsdp_rsdt (kmem st) rsdp)) \<and>
       first_table (kmem st) apic (rsdp_rsdt (kmem st) rsdp) = None \<longrightarrow>
       acpi_init (Some rsdp) apic st = Some (Inl (Panic ''MADT table was not found'')))"
proof -
  let ?st1 = "(log_msg INFO ''[acpi_init] rsdp revision: %u'' st)\<lparr>rsdt := rsdp_rsdt (kmem st) rsdp\<rparr>"
  have "acpi_find_table apic ?st1 = Some (Inr (0, log_msg WARNING ''[acpi_find_table] table was not found'' ?st1))"
    if "first_table (kmem st) apic (rsdp_rsdt (kmem st) rsdp) = None"
    using acpi_find_table_run[of ?st1 apic] assms that by simp
  then show ?thesis by (auto simp: acpi_init_def Let_def rsdp_rsdt_def sizeof_sdt_header_def)
qed

theorem acpi_init_panics_witness: "\<exists>st :: acpi_state. acpi_init None demo_apic st = Some (Inl (Panic ''RSDP tag not found''))"
proof -
  obtain st :: acpi_state where d: "demo_holds (kmem st)" "rsdt st = rsdp_rsdt (kmem st) demo_rsdp" by (rule demo_acpi_state)
  then show ?thesis using acpi_init_panics[of st demo_rsdp demo_apic] demo_rsdt_values[OF d(1)] demo_rsdp_values[OF d(1)] by auto
qed



end
