(* ===== verification/Lapic.thy ===== *)
theory Lapic
  imports Acpi
begin

text \<open>
  The local APIC, kernel/intr/lapic.c, and the access to memory-mapped registers that it shares with the I/O APIC.
  A \<^verbatim>\<open>volatile\<close> access to a register is an access to a device, not to memory: every access is recorded, in order,
  and what a read returns is up to the device, a function of the accesses so far. This function is a parameter.
\<close>

section \<open>Memory-mapped registers\<close>

datatype mmio_op = Mmio_read addr | Mmio_write addr u32

record ioapic_t =
  present :: bool
  ioapic_id :: u8
  ioregsel :: addr
  iowin :: addr
  gsi_base :: u32
  redtbl_entries :: u32

record apic_state = acpi_state +
  mmio :: "mmio_op list"
  mmio_device :: "mmio_op list \<Rightarrow> addr \<Rightarrow> u32"
  ioapics :: "ioapic_t list"
  bsp_lapic_id_var :: u32
  bsp_lapic_id_valid :: bool
  io_apic_valid :: bool

definition mmio_read :: "addr \<Rightarrow> 'a apic_state_scheme \<Rightarrow> u32 \<times> 'a apic_state_scheme" where
  "mmio_read a st = (mmio_device st (mmio st) a, st\<lparr>mmio := mmio st @ [Mmio_read a]\<rparr>)"

definition mmio_write :: "addr \<Rightarrow> u32 \<Rightarrow> 'a apic_state_scheme \<Rightarrow> 'a apic_state_scheme" where
  "mmio_write a v st = st\<lparr>mmio := mmio st @ [Mmio_write a v]\<rparr>"

text \<open>A field of a packed structure of bits: \<open>w\<close> bits from bit \<open>off\<close>; a value that is too wide loses its high bits.\<close>

definition put_field :: "nat \<Rightarrow> nat \<Rightarrow> 'a::len word \<Rightarrow> 'a word \<Rightarrow> 'a word" where
  "put_field off w v e = (e AND NOT (push_bit off (mask w))) OR push_bit off (v AND mask w)"

definition take_field :: "nat \<Rightarrow> nat \<Rightarrow> 'a::len word \<Rightarrow> 'a word" where
  "take_field off w e = drop_bit off e AND mask w"

section \<open>Definitions\<close>

definition LAPIC_ID_REG :: u64 where "LAPIC_ID_REG = 0x20"
definition LAPIC_EOI_REG :: u64 where "LAPIC_EOI_REG = 0xB0"
definition LAPIC_SPR_INTR_VEC_REG :: u64 where "LAPIC_SPR_INTR_VEC_REG = 0xF0"
definition LAPIC_ICR_LOW :: u64 where "LAPIC_ICR_LOW = 0x300"
definition LAPIC_ICR_HIGH :: u64 where "LAPIC_ICR_HIGH = 0x310"
definition LAPIC_ISR_31_0 :: u64 where "LAPIC_ISR_31_0 = 0x100"
definition LAPIC_LVT_LINT0_REG :: u64 where "LAPIC_LVT_LINT0_REG = 0x350"
definition LAPIC_LVT_LINT1_REG :: u64 where "LAPIC_LVT_LINT1_REG = 0x360"
definition LVT_NMI :: u32 where "LVT_NMI = 4"
definition LVT_HIGH :: u32 where "LVT_HIGH = 0"
definition LVT_LOW :: u32 where "LVT_LOW = 1"
definition LVT_EDGE :: u32 where "LVT_EDGE = 0"
definition LVT_LEVEL :: u32 where "LVT_LEVEL = 1"
definition LVT_UNMASK :: u32 where "LVT_UNMASK = 0"
definition LINT0 :: u8 where "LINT0 = 0"
definition LINT1 :: u8 where "LINT1 = 1"
definition LAPIC_ALL :: u8 where "LAPIC_ALL = 0xff"
definition LAPIC_ID_SHIFT :: nat where "LAPIC_ID_SHIFT = 24"
definition LAPIC_EOI :: u32 where "LAPIC_EOI = 1"
definition LAPIC_REG_OFFSET :: u64 where "LAPIC_REG_OFFSET = 0x10"
definition LAPIC_REG_DATA_WIDTH :: u8 where "LAPIC_REG_DATA_WIDTH = 32"

text \<open>Fields of \<^verbatim>\<open>madt_lapic_nmi_t\<close>.\<close>

definition nmi_processor_id :: "mem \<Rightarrow> addr \<Rightarrow> u8" where "nmi_processor_id m e = m (e + 2)"
definition nmi_flags :: "mem \<Rightarrow> addr \<Rightarrow> u16" where "nmi_flags m e = load 2 m (e + 3)"
definition nmi_lint :: "mem \<Rightarrow> addr \<Rightarrow> u8" where "nmi_lint m e = m (e + 5)"

text \<open>\<^verbatim>\<open>lvt_entry_t\<close> with the fields of the initialiser, the others 0.\<close>

definition lvt_entry :: "u32 \<Rightarrow> u32 \<Rightarrow> u32 \<Rightarrow> u32 \<Rightarrow> u32 \<Rightarrow> u32" where
  "lvt_entry vector delivery_mode pin_polarity trigger_level msk =
     put_field 16 1 msk (put_field 15 1 trigger_level (put_field 13 1 pin_polarity
       (put_field 8 3 delivery_mode (put_field 0 8 vector 0))))"

definition lapic_read :: "u64 \<Rightarrow> 'a apic_state_scheme \<Rightarrow> u32 \<times> 'a apic_state_scheme" where
  "lapic_read reg st = mmio_read (lapic_paddr (madt_info st) + reg) st"

definition lapic_write :: "u64 \<Rightarrow> u32 \<Rightarrow> 'a apic_state_scheme \<Rightarrow> 'a apic_state_scheme" where
  "lapic_write reg val st = mmio_write (lapic_paddr (madt_info st) + reg) val st"

text \<open>\<^verbatim>\<open>ipi_t\<close> is its two halves.\<close>

definition lapic_ipi :: "u32 \<times> u32 \<Rightarrow> 'a apic_state_scheme \<Rightarrow> 'a apic_state_scheme" where
  "lapic_ipi ipi st = (case ipi of (low_raw, high_raw) \<Rightarrow> lapic_write LAPIC_ICR_LOW low_raw (lapic_write LAPIC_ICR_HIGH high_raw st))"

definition lapic_id :: "'a apic_state_scheme \<Rightarrow> u8 \<times> 'a apic_state_scheme" where
  "lapic_id st = (let (v, st) = lapic_read LAPIC_ID_REG st in (ucast (drop_bit LAPIC_ID_SHIFT v), st))"

text \<open>The body of the loop of \<open>configure_nmi\<close>.\<close>

definition configure_nmi_entry :: "u64 \<Rightarrow> 'a apic_state_scheme \<Rightarrow> 'a apic_state_scheme kres" where
  "configure_nmi_entry i st =
     (if lapic_nmis (get_madt_info st) = 0 then Inl Null_deref
      else
        let nmi = read64 (kmem st) (lapic_nmis (get_madt_info st) + 8 * i)
        in if nmi = 0 then Inl Null_deref
           else
             let (id, st) = lapic_id st
             in if id = nmi_processor_id (kmem st) nmi \<or> nmi_processor_id (kmem st) nmi = LAPIC_ALL then
                  let lvt_nmi = lvt_entry 2 LVT_NMI (if nmi_flags (kmem st) nmi AND 2 \<noteq> 0 then LVT_LOW else LVT_HIGH)
                        (if nmi_flags (kmem st) nmi AND 8 \<noteq> 0 then LVT_LEVEL else LVT_EDGE) LVT_UNMASK
                  in if nmi_lint (kmem st) nmi = LINT0 then Inr (lapic_write LAPIC_LVT_LINT0_REG lvt_nmi st)
                     else if nmi_lint (kmem st) nmi = LINT1 then Inr (lapic_write LAPIC_LVT_LINT1_REG lvt_nmi st)
                     else Inl (Panic ''[lapic_enable] illegal lint value was detected: %u'')
                else Inr st)"

definition configure_nmi :: "'a apic_state_scheme \<Rightarrow> 'a apic_state_scheme kres" where
  "configure_nmi st = for_u64E (num_lapic_nmi (get_madt_info st)) configure_nmi_entry st"

definition lapic_enable :: "'a apic_state_scheme \<Rightarrow> 'a apic_state_scheme kres" where
  "lapic_enable st =
     kbind (configure_nmi st) (\<lambda>st.
     let (val, st) = lapic_read LAPIC_SPR_INTR_VEC_REG st
     in Inr (lapic_write LAPIC_SPR_INTR_VEC_REG (val OR push_bit 8 1) st))"

definition lapic_disable :: "'a apic_state_scheme \<Rightarrow> 'a apic_state_scheme" where
  "lapic_disable st =
     (let (val, st) = lapic_read LAPIC_SPR_INTR_VEC_REG st
      in lapic_write LAPIC_SPR_INTR_VEC_REG (val AND NOT (push_bit 8 1)) st)"

definition lapic_eoi :: "u8 \<Rightarrow> 'a apic_state_scheme \<Rightarrow> 'a apic_state_scheme" where
  "lapic_eoi intr_vec st =
     (let isr_reg_offset = intr_vec div LAPIC_REG_DATA_WIDTH;
          isr_reg_bit = intr_vec mod LAPIC_REG_DATA_WIDTH;
          (isr, st) = lapic_read (LAPIC_ISR_31_0 + ucast isr_reg_offset * LAPIC_REG_OFFSET) st
      in if isr AND push_bit (unat isr_reg_bit) 1 \<noteq> 0 then lapic_write LAPIC_EOI_REG LAPIC_EOI st else st)"

section \<open>Fields\<close>

lemma bit_put_field:
  "bit (put_field off w v e :: 'a::len word) n \<longleftrightarrow> n < LENGTH('a) \<and> (if off \<le> n \<and> n < off + w then bit v (n - off) else bit e n)"
  by (auto simp: put_field_def bit_simps)

lemma bit_take_field: "bit (take_field off w e :: 'a::len word) n \<longleftrightarrow> n < w \<and> n < LENGTH('a) \<and> bit e (off + n)"
  by (auto simp: take_field_def bit_simps)

text \<open>A field reads back what fits of the value, and fields that do not overlap are independent.\<close>

lemma get_set_field_same: "off + w \<le> LENGTH('a) \<Longrightarrow> take_field off w (put_field off w v e :: 'a::len word) = v AND mask w"
  by (rule bit_word_eqI) (auto simp: bit_put_field bit_take_field bit_simps)

lemma get_set_field_other:
  "off + w \<le> off' \<or> off' + w' \<le> off \<Longrightarrow> take_field off' w' (put_field off w v e :: 'a::len word) = take_field off' w' e"
  by (rule bit_word_eqI) (auto simp: bit_put_field bit_take_field dest: bit_imp_le_length)

section \<open>The accesses\<close>

definition is_write :: "mmio_op \<Rightarrow> bool" where
  "is_write acc = (case acc of Mmio_write _ _ \<Rightarrow> True | _ \<Rightarrow> False)"

definition mmio_writes :: "mmio_op list \<Rightarrow> mmio_op list" where
  "mmio_writes h = filter is_write h"

lemma mmio_writes_simps [simp]:
  "mmio_writes [] = []" "mmio_writes (h @ h') = mmio_writes h @ mmio_writes h'"
  "mmio_writes (Mmio_read a # h) = mmio_writes h" "mmio_writes (Mmio_write a v # h) = Mmio_write a v # mmio_writes h"
  by (simp_all add: mmio_writes_def is_write_def)

lemma mmio_simps [simp]:
  "mmio (snd (mmio_read a st)) = mmio st @ [Mmio_read a]" "fst (mmio_read a st) = mmio_device st (mmio st) a"
  "mmio (mmio_write a v st) = mmio st @ [Mmio_write a v]"
  "madt_info (snd (mmio_read a st)) = madt_info st" "madt_info (mmio_write a v st) = madt_info st"
  "kmem (snd (mmio_read a st)) = kmem st" "kmem (mmio_write a v st) = kmem st"
  "mem_size (snd (mmio_read a st)) = mem_size st" "mem_size (mmio_write a v st) = mem_size st"
  "mem_zone (snd (mmio_read a st)) = mem_zone st" "mem_zone (mmio_write a v st) = mem_zone st"
  "intr (snd (mmio_read a st)) = intr st" "intr (mmio_write a v st) = intr st"
  "mmio_device (snd (mmio_read a st)) = mmio_device st" "mmio_device (mmio_write a v st) = mmio_device st"
  by (simp_all add: mmio_read_def mmio_write_def)

lemma lapic_simps [simp]:
  "mmio (snd (lapic_read r st)) = mmio st @ [Mmio_read (lapic_paddr (madt_info st) + r)]"
  "fst (lapic_read r st) = mmio_device st (mmio st) (lapic_paddr (madt_info st) + r)"
  "mmio (lapic_write r v st) = mmio st @ [Mmio_write (lapic_paddr (madt_info st) + r) v]"
  "madt_info (snd (lapic_read r st)) = madt_info st" "madt_info (lapic_write r v st) = madt_info st"
  "kmem (snd (lapic_read r st)) = kmem st" "kmem (lapic_write r v st) = kmem st"
  "mem_size (snd (lapic_read r st)) = mem_size st" "mem_size (lapic_write r v st) = mem_size st"
  "mem_zone (snd (lapic_read r st)) = mem_zone st" "mem_zone (lapic_write r v st) = mem_zone st"
  "intr (snd (lapic_read r st)) = intr st" "intr (lapic_write r v st) = intr st"
  "mmio_device (snd (lapic_read r st)) = mmio_device st" "mmio_device (lapic_write r v st) = mmio_device st"
  by (simp_all add: lapic_read_def lapic_write_def)

lemma lapic_id_eq:
  "lapic_id st = (ucast (drop_bit 24 (mmio_device st (mmio st) (lapic_paddr (madt_info st) + 0x20))), snd (lapic_read LAPIC_ID_REG st))"
  by (simp add: lapic_id_def LAPIC_ID_SHIFT_def LAPIC_ID_REG_def case_prod_beta)

section \<open>Non-maskable interrupts\<close>

text \<open>The entries that concern the processor, and the register and the value of each.\<close>

definition nmi_applies :: "mem \<Rightarrow> u8 \<Rightarrow> addr \<Rightarrow> bool" where
  "nmi_applies m pid e \<longleftrightarrow> nmi_processor_id m e \<in> {pid, 0xff}"

definition lint_reg :: "u8 \<Rightarrow> u64" where "lint_reg lint = 0x350 + 0x10 * ucast lint"

definition lvt_value :: "u16 \<Rightarrow> u32" where
  "lvt_value flags = 0x402 OR (if bit flags 1 then 0x2000 else 0) OR (if bit flags 3 then 0x8000 else 0)"

definition nmi_writes :: "mem \<Rightarrow> addr \<Rightarrow> u8 \<Rightarrow> addr list \<Rightarrow> mmio_op list" where
  "nmi_writes m lapic pid es =
     map (\<lambda>e. Mmio_write (lapic + lint_reg (nmi_lint m e)) (lvt_value (nmi_flags m e))) (filter (nmi_applies m pid) es)"

lemma lvt_entry_value:
  "lvt_entry 2 LVT_NMI (if flags AND 2 \<noteq> 0 then LVT_LOW else LVT_HIGH) (if flags AND 8 \<noteq> 0 then LVT_LEVEL else LVT_EDGE) LVT_UNMASK
   = lvt_value flags" for flags :: u16
proof -
  have b: "flags AND 2 \<noteq> 0 \<longleftrightarrow> bit flags 1" "flags AND 8 \<noteq> 0 \<longleftrightarrow> bit flags 3"
    using and_exp_eq_0_iff_not_bit[of flags 1] and_exp_eq_0_iff_not_bit[of flags 3] by simp_all
  show ?thesis unfolding b by (simp add: lvt_entry_def lvt_value_def put_field_def LVT_NMI_def LVT_LOW_def LVT_HIGH_def LVT_LEVEL_def
      LVT_EDGE_def LVT_UNMASK_def mask_eq_exp_minus_1 push_bit_eq_mult)
qed

text \<open>What the loop keeps, and the processor's number as its register shows it.\<close>

definition same_machine :: "'a apic_state_scheme \<Rightarrow> 'a apic_state_scheme \<Rightarrow> bool" where
  "same_machine st st' \<longleftrightarrow> kmem st' = kmem st \<and> mem_size st' = mem_size st \<and> mem_zone st' = mem_zone st \<and> intr st' = intr st \<and> madt_info st' = madt_info st \<and> mmio_device st' = mmio_device st"

definition lapic_is :: "'a apic_state_scheme \<Rightarrow> u8 \<Rightarrow> bool" where
  "lapic_is st pid \<longleftrightarrow> (\<forall>h. ucast (drop_bit 24 (mmio_device st h (lapic_paddr (madt_info st) + 0x20))) = pid)"

definition lint_ok :: "mem \<Rightarrow> u8 \<Rightarrow> addr \<Rightarrow> bool" where
  "lint_ok m pid e = (if nmi_applies m pid e then nmi_lint m e \<in> {0, 1} else True)"

lemma configure_nmi_step:
  assumes "lapic_is st pid" "lapic_nmis (madt_info st) \<noteq> 0" "read64 (kmem st) (lapic_nmis (madt_info st) + 8 * i) = e" "e \<noteq> 0"
  shows "if lint_ok (kmem st) pid e then \<exists>st'. configure_nmi_entry i st = Inr st' \<and> same_machine st st' \<and>
      mmio_writes (mmio st') = mmio_writes (mmio st) @ nmi_writes (kmem st) (lapic_paddr (madt_info st)) pid [e]
    else \<exists>msg. configure_nmi_entry i st = Inl (Panic msg)"
proof -
  have pid: "fst (lapic_id st) = pid" using assms(1) by (simp add: lapic_is_def lapic_id_eq)
  have regs: "lint_reg LINT0 = LAPIC_LVT_LINT0_REG" "lint_reg LINT1 = LAPIC_LVT_LINT1_REG"
    by (simp_all add: lint_reg_def LINT0_def LINT1_def LAPIC_LVT_LINT0_REG_def LAPIC_LVT_LINT1_REG_def)
  show ?thesis using assms(2-4) pid regs
    by (auto simp: configure_nmi_entry_def get_madt_info_def Let_def case_prod_beta lapic_id_eq lint_ok_def nmi_applies_def nmi_writes_def
        LAPIC_ALL_def LINT0_def LINT1_def lvt_entry_value same_machine_def)
qed

lemma configure_nmi_run:
  assumes "lapic_is st pid" "n \<le> length es" "madt_listed (kmem st) (madt_info st) MADT_LAPIC_NMI es" "0 \<notin> set es"
  shows "if \<forall>e\<in>set (take n es). lint_ok (kmem st) pid e then \<exists>st'. for_natE n configure_nmi_entry st = Inr st' \<and> same_machine st st' \<and>
      mmio_writes (mmio st') = mmio_writes (mmio st) @ nmi_writes (kmem st) (lapic_paddr (madt_info st)) pid (take n es)
    else \<exists>msg. for_natE n configure_nmi_entry st = Inl (Panic msg)"
  using assms(2)
proof (induction n)
  case 0
  then show ?case by (simp add: same_machine_def nmi_writes_def)
next
  case (Suc n)
  then have n: "n < length es" by simp
  have take: "take (Suc n) es = take n es @ [es ! n]" by (rule take_Suc_conv_app_nth[OF n])
  show ?case
  proof (cases "\<forall>e\<in>set (take n es). lint_ok (kmem st) pid e")
    case True
    then obtain st1 where r: "for_natE n configure_nmi_entry st = Inr st1" "same_machine st st1"
      "mmio_writes (mmio st1) = mmio_writes (mmio st) @ nmi_writes (kmem st) (lapic_paddr (madt_info st)) pid (take n es)"
      using Suc n by auto
    have same: "kmem st1 = kmem st" "madt_info st1 = madt_info st" "mmio_device st1 = mmio_device st" using r(2) by (auto simp: same_machine_def)
    have p: "ptrs_of MADT_LAPIC_NMI (madt_info st) = lapic_nmis (madt_info st1)" using same by (simp add: ptrs_of_def madt_types)
    note e = madt_listed_nth[OF assms(3,4) n, unfolded p, folded same(1)]
    have "lapic_is st1 pid" using assms(1) same by (simp add: lapic_is_def)
    from configure_nmi_step[OF this e(2,1,3)] show ?thesis using r same True
      by (auto simp: take nmi_writes_def same_machine_def split: if_splits)
  next
    case False
    then obtain msg where "for_natE n configure_nmi_entry st = Inl (Panic msg)" using Suc.IH n unfolding if_not_P[OF False] by auto
    moreover have "\<not> (\<forall>e\<in>set (take (Suc n) es). lint_ok (kmem st) pid e)" using False by (auto simp: take)
    ultimately show ?thesis by simp
  qed
qed

lemma lapic_enable_run:
  assumes "lapic_is st pid" "madt_listed (kmem st) (madt_info st) MADT_LAPIC_NMI es" "0 \<notin> set es" "length es < 2 ^ 64"
  shows "if \<forall>e\<in>set es. lint_ok (kmem st) pid e then \<exists>st' v h. lapic_enable st = Inr st' \<and> v = mmio_device st h (lapic_paddr (madt_info st) + 0xF0) \<and>
      mmio st' = h @ [Mmio_read (lapic_paddr (madt_info st) + 0xF0), Mmio_write (lapic_paddr (madt_info st) + 0xF0) (put_field 8 1 1 v)] \<and>
      mmio_writes h = mmio_writes (mmio st) @ nmi_writes (kmem st) (lapic_paddr (madt_info st)) pid es
    else \<exists>msg. lapic_enable st = Inl (Panic msg)"
proof -
  have n: "num_lapic_nmi (madt_info st) = of_nat (length es)" using assms(2) by (simp add: madt_listed_def num_of_def madt_types)
  have conf: "configure_nmi st = for_natE (length es) configure_nmi_entry st"
    using assms(4) by (simp add: configure_nmi_def get_madt_info_def n for_u64E_def)
  have f: "v OR 256 = put_field 8 (Suc 0) 1 v" for v :: u32
  proof -
    have "(x AND NOT y) OR y = x OR y" for x y :: u32 by (rule bit_word_eqI) (auto simp: bit_simps)
    from this[of v 256] show ?thesis by (simp add: put_field_def)
  qed
  show ?thesis
  proof (cases "\<forall>e\<in>set es. lint_ok (kmem st) pid e")
    case True
    then obtain st1 where r: "configure_nmi st = Inr st1" "same_machine st st1"
      "mmio_writes (mmio st1) = mmio_writes (mmio st) @ nmi_writes (kmem st) (lapic_paddr (madt_info st)) pid es"
      using configure_nmi_run[OF assms(1) le_refl assms(2,3)] by (auto simp: conf)
    then show ?thesis using True
      by (simp add: lapic_enable_def case_prod_beta f LAPIC_SPR_INTR_VEC_REG_def same_machine_def)
  next
    case False
    then obtain msg where "configure_nmi st = Inl (Panic msg)"
      using configure_nmi_run[OF assms(1) le_refl assms(2,3)] unfolding take_all[OF le_refl] if_not_P[OF False] conf by blast
    then show ?thesis using False by (simp add: lapic_enable_def)
  qed
qed

section \<open>Properties\<close>

text \<open>\<open>lapic_enable\<close>, on the list that the MADT parser leaves: it panics exactly if an entry for this processor names
  a pin other than 0 and 1; otherwise it writes, for each entry for this processor or for all processors and in the
  order of the table, an unmasked NMI with the entry's polarity and trigger mode to the register of the entry's pin,
  and last sets bit 8 of the spurious interrupt vector register and keeps its other bits.\<close>

theorem lapic_enable_correct:
  assumes "lapic_is st pid" "madt_listed (kmem st) (madt_info st) MADT_LAPIC_NMI es" "0 \<notin> set es" "length es < 2 ^ 64"
  shows "if \<forall>e\<in>set es. lint_ok (kmem st) pid e then \<exists>st' v h. lapic_enable st = Inr st' \<and> v = mmio_device st h (lapic_paddr (madt_info st) + 0xF0) \<and>
      mmio st' = h @ [Mmio_read (lapic_paddr (madt_info st) + 0xF0), Mmio_write (lapic_paddr (madt_info st) + 0xF0) (put_field 8 1 1 v)] \<and>
      mmio_writes h = mmio_writes (mmio st) @ nmi_writes (kmem st) (lapic_paddr (madt_info st)) pid es
    else \<exists>msg. lapic_enable st = Inl (Panic msg)"
  using assms by (rule lapic_enable_run)

text \<open>One entry, for all processors and pin 1.\<close>

definition demo_lapic :: apic_state where
  "demo_lapic = \<lparr>kmem = (\<lambda>_. 0)(0x4001 := 0x50, 0x5002 := 0xff, 0x5005 := 1), klog = [], alloc_ptr = 0, mem_size = 0, mem_zone = [], cr3 = 0,
     invalidated = [], intr = demo_intr, kheap_top = 0, kheap_max = 0, free_head = 0, block_head = 0,
     madt_info = madt_info_0\<lparr>num_lapic_nmi := 1, lapic_nmis := 0x4000, lapic_paddr := 0xfee00000\<rparr>, rsdt = rsdt_0,
     mmio = [], mmio_device = (\<lambda>_ _. 0), ioapics = [], bsp_lapic_id_var = 0, bsp_lapic_id_valid = False, io_apic_valid = False\<rparr>"

theorem lapic_enable_correct_witness:
  "\<exists>st'. lapic_enable demo_lapic = Inr st' \<and> mmio_writes (mmio st') = [Mmio_write 0xfee00360 0x402, Mmio_write 0xfee000f0 0x100]"
proof -
  have u: "[0..<8] = [0, 1, 2, 3, 4, 5, 6, 7]" "[0..<2] = [0, 1]" by (simp_all add: upt_rec)
  have v: "lapic_is demo_lapic 0" "madt_listed (kmem demo_lapic) (madt_info demo_lapic) MADT_LAPIC_NMI [0x5000]"
    by (simp_all add: lapic_is_def demo_lapic_def madt_listed_def num_of_def ptrs_of_def madt_types madt_info_0_def load_def u)
  have e: "nmi_applies (kmem demo_lapic) 0 0x5000" "nmi_lint (kmem demo_lapic) 0x5000 = 1" "nmi_flags (kmem demo_lapic) 0x5000 = 0"
    by (simp_all add: nmi_applies_def nmi_processor_id_def nmi_lint_def nmi_flags_def load_def u demo_lapic_def)
  then have ok: "\<forall>e\<in>set [0x5000]. lint_ok (kmem demo_lapic) 0 e" by (simp add: lint_ok_def)
  have w: "nmi_writes (kmem demo_lapic) (lapic_paddr (madt_info demo_lapic)) 0 [0x5000] = [Mmio_write 0xfee00360 0x402]"
    using e by (simp add: nmi_writes_def lint_reg_def lvt_value_def demo_lapic_def madt_info_0_def)
  have d: "mmio_device demo_lapic h a = 0" "lapic_paddr (madt_info demo_lapic) = 0xfee00000" "mmio demo_lapic = []" for h a
    by (simp_all add: demo_lapic_def)
  have f: "put_field 8 (Suc 0) 1 (0 :: u32) = 0x100" by (simp add: put_field_def)
  show ?thesis using lapic_enable_correct[OF v] ok w by (auto simp: d f)
qed

text \<open>\<open>lapic_eoi\<close> signals the end of an interrupt exactly if the interrupt is in service: it reads the 32-bit
  register of the vector's group, one of the eight in-service registers, and writes the EOI register exactly if
  the vector's bit is set there.\<close>

theorem lapic_eoi_correct:
  fixes st :: "'a apic_state_scheme"
  shows "\<exists>a. a = lapic_paddr (madt_info st) + of_nat (0x100 + 0x10 * (unat v div 32)) \<and> 0x100 + 0x10 * (unat v div 32) \<le> 0x170 \<and>
     mmio (lapic_eoi v st) = mmio st @ Mmio_read a #
       (if bit (mmio_device st (mmio st) a) (unat v mod 32) then [Mmio_write (lapic_paddr (madt_info st) + 0xB0) 1] else [])"
proof -
  have v: "unat (v div 32) = unat v div 32" "unat (v mod 32) = unat v mod 32" "unat v < 256"
    using unsigned_less[of v] by (simp_all add: unat_div unat_mod)
  have "ucast (v div 32) = (of_nat (unat v div 32) :: u64)" using v by (metis of_nat_unat)
  then have a: "LAPIC_ISR_31_0 + ucast (v div 32) * LAPIC_REG_OFFSET = of_nat (0x100 + 0x10 * (unat v div 32))"
    by (simp add: LAPIC_ISR_31_0_def LAPIC_REG_OFFSET_def)
  have "unat v div 32 < 8" using v(3) by (intro less_mult_imp_div_less) simp
  then show ?thesis
    by (simp add: lapic_eoi_def Let_def case_prod_beta a and_exp_eq_0_iff_not_bit v(2) LAPIC_REG_DATA_WIDTH_def LAPIC_EOI_REG_def LAPIC_EOI_def
        del: of_nat_add of_nat_mult)
qed

end
