(* ===== verification/Ioapic.thy ===== *)
theory Ioapic
  imports Lapic
begin

text \<open>
  The I/O APICs, kernel/intr/ioapic.c: the table of the controllers that are present, the access to their registers
  through a select register and a window, the redirection entries; and the start of all APICs, kernel/intr/apic.c.
  A redirection entry is the 64-bit word of \<^verbatim>\<open>redtbl_entry_t\<close>. A local entry that is not initialised starts with
  arbitrary bits, an argument of the routine.
\<close>

section \<open>Definitions\<close>

definition MAX_IOAPICS :: u8 where "MAX_IOAPICS = 16"
definition IOWIN :: u32 where "IOWIN = 0x10"
definition IOAPICVER :: u8 where "IOAPICVER = 0x1"
definition IOREDTBL :: u8 where "IOREDTBL = 0x10"
definition IOREDTBL_REG_LOW :: "u8 \<Rightarrow> u8" where "IOREDTBL_REG_LOW entry = IOREDTBL + 2 * entry"
definition IOREDTBL_REG_HIGH :: "u8 \<Rightarrow> u8" where "IOREDTBL_REG_HIGH entry = IOREDTBL + 2 * entry + 1"
definition IOAPIC_FIXED :: u64 where "IOAPIC_FIXED = 0"
definition IOAPIC_PHYS_MODE :: u64 where "IOAPIC_PHYS_MODE = 0"
definition IOAPIC_HIGH :: u8 where "IOAPIC_HIGH = 0"
definition IOAPIC_LOW :: u8 where "IOAPIC_LOW = 1"
definition IOAPIC_EDGE :: u8 where "IOAPIC_EDGE = 0"
definition IOAPIC_LEVEL :: u8 where "IOAPIC_LEVEL = 1"
definition IOAPIC_UNMASK :: u64 where "IOAPIC_UNMASK = 0"
definition IOAPIC_MASK :: u64 where "IOAPIC_MASK = 1"
definition INTR_DEV_OFFSET :: u64 where "INTR_DEV_OFFSET = 0x20"

text \<open>Fields of \<^verbatim>\<open>madt_ioapic_t\<close> and \<^verbatim>\<open>madt_intr_src_override_t\<close>.\<close>

definition io_apic_id :: "mem \<Rightarrow> addr \<Rightarrow> u8" where "io_apic_id m e = m (e + 2)"
definition io_apic_addr :: "mem \<Rightarrow> addr \<Rightarrow> u32" where "io_apic_addr m e = load 4 m (e + 4)"
definition io_apic_gsi_base :: "mem \<Rightarrow> addr \<Rightarrow> u32" where "io_apic_gsi_base m e = load 4 m (e + 8)"
definition irq_src :: "mem \<Rightarrow> addr \<Rightarrow> u8" where "irq_src m e = m (e + 3)"
definition gsi :: "mem \<Rightarrow> addr \<Rightarrow> u32" where "gsi m e = load 4 m (e + 4)"
definition override_flags :: "mem \<Rightarrow> addr \<Rightarrow> u16" where "override_flags m e = load 2 m (e + 8)"

text \<open>Fields of \<^verbatim>\<open>redtbl_entry_t\<close>, and its two halves.\<close>

definition set_vector :: "u64 \<Rightarrow> u64 \<Rightarrow> u64" where "set_vector = put_field 0 8"
definition set_delivery_mode :: "u64 \<Rightarrow> u64 \<Rightarrow> u64" where "set_delivery_mode = put_field 8 3"
definition set_dest_mode :: "u64 \<Rightarrow> u64 \<Rightarrow> u64" where "set_dest_mode = put_field 11 1"
definition set_pin_polarity :: "u64 \<Rightarrow> u64 \<Rightarrow> u64" where "set_pin_polarity = put_field 13 1"
definition set_trigger_mode :: "u64 \<Rightarrow> u64 \<Rightarrow> u64" where "set_trigger_mode = put_field 15 1"
definition set_interrupt_mask :: "u64 \<Rightarrow> u64 \<Rightarrow> u64" where "set_interrupt_mask = put_field 16 1"
definition set_destination :: "u64 \<Rightarrow> u64 \<Rightarrow> u64" where "set_destination = put_field 56 8"
definition low_raw :: "u64 \<Rightarrow> u32" where "low_raw entry = ucast entry"
definition high_raw :: "u64 \<Rightarrow> u32" where "high_raw entry = ucast (drop_bit 32 entry)"
definition raw_entry :: "u32 \<Rightarrow> u32 \<Rightarrow> u64" where "raw_entry low high = push_bit 32 (ucast high) OR ucast low"

definition is_registered :: "u8 \<Rightarrow> 'a apic_state_scheme \<Rightarrow> bool" where
  "is_registered i st \<longleftrightarrow> i < MAX_IOAPICS \<and> present (ioapics st ! unat i)"

definition ioapic_gsi_pin_polarity :: "u8 \<Rightarrow> u8" where
  "ioapic_gsi_pin_polarity flags = (if flags AND 2 \<noteq> 0 then IOAPIC_LOW else IOAPIC_HIGH)"

definition ioapic_gsi_trigger_mode :: "u8 \<Rightarrow> u8" where
  "ioapic_gsi_trigger_mode flags = (if flags AND 8 \<noteq> 0 then IOAPIC_LEVEL else IOAPIC_EDGE)"

definition ioapic_read :: "u8 \<Rightarrow> u8 \<Rightarrow> 'a apic_state_scheme \<Rightarrow> u32 \<times> 'a apic_state_scheme" where
  "ioapic_read i reg st =
     (if \<not> is_registered i st then
        (0, log_msg ERROR ''[ioapic_read] io apic read either with invalid id %u or io apic is not present'' st)
      else let st = mmio_write (ioregsel (ioapics st ! unat i)) (ucast reg) st
           in mmio_read (iowin (ioapics st ! unat i)) st)"

definition ioapic_write :: "u8 \<Rightarrow> u8 \<Rightarrow> u32 \<Rightarrow> 'a apic_state_scheme \<Rightarrow> 'a apic_state_scheme" where
  "ioapic_write i reg val st =
     (if \<not> is_registered i st then
        log_msg ERROR ''[ioapic_write] io apic read either with invalid id %u or io apic is not present'' st
      else let st = mmio_write (ioregsel (ioapics st ! unat i)) (ucast reg) st
           in mmio_write (iowin (ioapics st ! unat i)) val st)"

text \<open>The version register has the number of the last redirection entry in its third byte.\<close>

definition ioapic_register :: "addr \<Rightarrow> 'a apic_state_scheme \<Rightarrow> 'a apic_state_scheme kres" where
  "ioapic_register ioapic st =
     (let i = io_apic_id (kmem st) ioapic;
          a = io_apic_addr (kmem st) ioapic
      in if length (ioapics st) \<le> unat i then Inl Out_of_bounds
         else
           let st = st\<lparr>ioapics := (ioapics st)[unat i := (ioapics st ! unat i)\<lparr>present := True, ioapic_id := i, ioregsel := ucast a,
                 iowin := ucast (a + IOWIN), gsi_base := io_apic_gsi_base (kmem st) ioapic\<rparr>]\<rparr>;
               (v, st) = ioapic_read i IOAPICVER st
           in Inr (st\<lparr>ioapics := (ioapics st)[unat i := (ioapics st ! unat i)\<lparr>redtbl_entries := take_field 16 8 v + 1\<rparr>]\<rparr>))"

definition ioapic_set_irq :: "u8 \<Rightarrow> u8 \<Rightarrow> u64 \<Rightarrow> 'a apic_state_scheme \<Rightarrow> 'a apic_state_scheme" where
  "ioapic_set_irq i irq entry st =
     (if \<not> is_registered i st then
        log_msg ERROR ''[ioapic_set_irq] io apic read either with invalid id %u or io apic is not present'' st
      else
        ioapic_write i (IOREDTBL_REG_LOW irq) (low_raw entry) (ioapic_write i (IOREDTBL_REG_HIGH irq) (high_raw entry) st))"

definition bsp_lapic_id :: "'a apic_state_scheme \<Rightarrow> u32 \<times> 'a apic_state_scheme" where
  "bsp_lapic_id st =
     (if \<not> bsp_lapic_id_valid st then
        (0, log_msg WARNING ''[bsp_lapic_id] woops! looks like the bsp_lapic_id hasn't been setup yet :('' st)
      else (bsp_lapic_id_var st, st))"

text \<open>\<^verbatim>\<open>for (uint8_t i = 0; i < MAX_IOAPICS; i++)\<close> of \<open>ioapic_set_gsi\<close>: the last controller with a lower base.\<close>

definition ioapic_for_gsi :: "u32 \<Rightarrow> ioapic_t list \<Rightarrow> u8" where
  "ioapic_for_gsi g ios = for_nat 16 (\<lambda>i found. if present (ios ! unat i) \<and> gsi_base (ios ! unat i) < g then ucast i else found) (- 1)"

definition ioapic_set_gsi :: "addr \<Rightarrow> u64 \<Rightarrow> 'a apic_state_scheme \<Rightarrow> 'a apic_state_scheme" where
  "ioapic_set_gsi override junk st =
     (let i = ioapic_for_gsi (gsi (kmem st) override) (ioapics st);
          flags = ucast (override_flags (kmem st) override)
      in if i \<ge> MAX_IOAPICS then
           log_msg ERROR ''[ioapic_set_gsi] no io apic with low enough GSI was found. Interrupt source override GSI: %u'' st
         else
           let entry = set_vector (INTR_DEV_OFFSET + ucast (irq_src (kmem st) override)) junk;
               entry = set_delivery_mode IOAPIC_FIXED entry;
               entry = set_dest_mode IOAPIC_PHYS_MODE entry;
               entry = set_pin_polarity (ucast (ioapic_gsi_pin_polarity flags)) entry;
               entry = set_trigger_mode (ucast (ioapic_gsi_trigger_mode flags)) entry;
               entry = set_interrupt_mask IOAPIC_MASK entry;
               (b, st) = bsp_lapic_id st;
               entry = set_destination (ucast b) entry
           in ioapic_set_irq i (irq_src (kmem st) override) entry st)"

definition ioapic_quickset_irq :: "u8 \<Rightarrow> u8 \<Rightarrow> u8 \<Rightarrow> u8 \<Rightarrow> 'a apic_state_scheme \<Rightarrow> 'a apic_state_scheme" where
  "ioapic_quickset_irq i irq lapic vector st =
     (if \<not> is_registered i st then
        log_msg ERROR ''[ioapic_quickset_irq] io apic read either with invalid id %u or io apic is not present'' st
      else
        let (high, st) = ioapic_read i (IOREDTBL_REG_HIGH irq) st;
            (low, st) = ioapic_read i (IOREDTBL_REG_LOW irq) st;
            entry = raw_entry low high;
            entry = set_destination (ucast (lapic AND 0xf)) entry;
            entry = set_interrupt_mask IOAPIC_UNMASK entry;
            entry = set_dest_mode IOAPIC_PHYS_MODE entry;
            entry = set_delivery_mode IOAPIC_FIXED entry;
            entry = set_vector (ucast vector) entry
        in ioapic_set_irq i irq entry st)"

text \<open>\<^verbatim>\<open>apic.c\<close>: the tag of the boot loader holds the number of the boot processor; \<open>junk\<close> gives the uninitialised
  entry of each override.\<close>

definition apic_init :: "u32 option \<Rightarrow> (u64 \<Rightarrow> u64) \<Rightarrow> 'a apic_state_scheme \<Rightarrow> 'a apic_state_scheme kres" where
  "apic_init smp junk st =
     kbind (if \<not> bsp_lapic_id_valid st then
              case smp of
                None \<Rightarrow> Inl (Panic ''[apic_init] smp struct from bootloader could not be found'')
              | Some b \<Rightarrow> Inr (st\<lparr>bsp_lapic_id_var := b, bsp_lapic_id_valid := True\<rparr>)
            else Inr st) (\<lambda>st.
     kbind (if \<not> io_apic_valid st then
              let st = log_msg NONE ''[apic_init] enabling io apics ...'' st;
                  info = get_madt_info st
              in kbind (for_u64E (num_io_apic info) (\<lambda>i st.
                   if io_apics info = 0 then Inl Null_deref
                   else if read64 (kmem st) (io_apics info + 8 * i) = 0 then Inl Null_deref
                   else ioapic_register (read64 (kmem st) (io_apics info + 8 * i)) st) st) (\<lambda>st.
                 kbind (for_u64E (num_intr_src_override info) (\<lambda>i st.
                   if intr_src_overrides info = 0 then Inl Null_deref
                   else if read64 (kmem st) (intr_src_overrides info + 8 * i) = 0 then Inl Null_deref
                   else Inr (ioapic_set_gsi (read64 (kmem st) (intr_src_overrides info + 8 * i)) (junk i) st)) st) (\<lambda>st.
                 Inr (st\<lparr>io_apic_valid := True\<rparr>)))
            else Inr st) (\<lambda>st.
     let (_, st) = lapic_id st;
         st = log_msg NONE ''[apic_init] enabling local apic with id %u ... '' st
     in lapic_enable st))"

section \<open>The registers of a controller\<close>

text \<open>What the writes so far leave in the registers behind the window: the selected register, and the values.\<close>

definition io_step :: "addr \<Rightarrow> addr \<Rightarrow> mmio_op \<Rightarrow> u32 \<times> (u32 \<rightharpoonup> u32) \<Rightarrow> u32 \<times> (u32 \<rightharpoonup> u32)" where
  "io_step sel win acc s =
     (case acc of
        Mmio_write a v \<Rightarrow> if a = sel then (v, snd s) else if a = win then (fst s, (snd s)(fst s \<mapsto> v)) else s
      | Mmio_read a \<Rightarrow> s)"

definition io_view :: "addr \<Rightarrow> addr \<Rightarrow> mmio_op list \<Rightarrow> u32 \<times> (u32 \<rightharpoonup> u32)" where
  "io_view sel win h = fold (io_step sel win) h (0, Map.empty)"

definition io_regs :: "ioapic_t \<Rightarrow> mmio_op list \<Rightarrow> u32 \<rightharpoonup> u32" where
  "io_regs io h = snd (io_view (ioregsel io) (iowin io) h)"

lemma io_view_simps [simp]:
  "io_view sel win (h @ [Mmio_read a]) = io_view sel win h"
  "io_view sel win (h @ [Mmio_write a v]) = (if a = sel then (v, snd (io_view sel win h))
     else if a = win then (fst (io_view sel win h), (snd (io_view sel win h))(fst (io_view sel win h) \<mapsto> v)) else io_view sel win h)"
  by (simp_all add: io_view_def io_step_def)

lemma io_keeps [simp]:
  "ioapics (mmio_write a v st) = ioapics st" "ioapics (snd (mmio_read a st)) = ioapics st"
  "ioapics (log_msg l s st) = ioapics st" "mmio (log_msg l s st) = mmio st"
  by (simp_all add: mmio_write_def mmio_read_def log_msg_def)

lemma ioapic_write_simps:
  assumes "is_registered i st"
  shows "mmio (ioapic_write i reg val st) = mmio st @ [Mmio_write (ioregsel (ioapics st ! unat i)) (ucast reg)] @ [Mmio_write (iowin (ioapics st ! unat i)) val]"
    "ioapics (ioapic_write i reg val st) = ioapics st" "is_registered j (ioapic_write i reg val st) = is_registered j st"
  using assms by (simp_all add: ioapic_write_def is_registered_def Let_def)

lemma ioapic_read_simps:
  assumes "is_registered i st"
  shows "mmio (snd (ioapic_read i reg st)) = mmio st @ [Mmio_write (ioregsel (ioapics st ! unat i)) (ucast reg)] @ [Mmio_read (iowin (ioapics st ! unat i))]"
    "fst (ioapic_read i reg st) = mmio_device st (mmio st @ [Mmio_write (ioregsel (ioapics st ! unat i)) (ucast reg)]) (iowin (ioapics st ! unat i))"
    "ioapics (snd (ioapic_read i reg st)) = ioapics st" "is_registered j (snd (ioapic_read i reg st)) = is_registered j st"
    "mmio_device (snd (ioapic_read i reg st)) = mmio_device st"
  using assms by (simp_all add: ioapic_read_def is_registered_def Let_def)

lemma io_view_append: "io_view sel win (h @ h') = fold (io_step sel win) h' (io_view sel win h)"
  by (simp add: io_view_def)

lemma io_regs_write:
  assumes "is_registered i st" "ioregsel (ioapics st ! unat i) \<noteq> iowin (ioapics st ! unat i)"
  shows "io_regs (ioapics st ! unat i) (mmio (ioapic_write i reg val st)) = (io_regs (ioapics st ! unat i) (mmio st))(ucast reg \<mapsto> val)"
  using assms(2) by (simp add: ioapic_write_simps[OF assms(1)] io_regs_def io_view_append io_step_def)

lemma raw_halves: "raw_entry (low_raw e) (high_raw e) = e" "low_raw (raw_entry l h) = l" "high_raw (raw_entry l h) = h"
  by (rule bit_word_eqI; auto simp: raw_entry_def low_raw_def high_raw_def bit_simps dest: bit_imp_le_length)+

text \<open>The registers of a redirection entry.\<close>

definition redir :: "u8 \<Rightarrow> u32" where "redir irq = 0x10 + 2 * ucast irq"

lemma redir_regs:
  assumes "unat irq < 120"
  shows "ucast (IOREDTBL_REG_LOW irq) = redir irq" "ucast (IOREDTBL_REG_HIGH irq) = redir irq + 1"
proof -
  have u: "unat (2 * irq) = 2 * unat irq" using assms by (subst unat_mult_lem[THEN iffD1]) auto
  then have u2: "unat (0x10 + 2 * irq) = 0x10 + 2 * unat irq" using assms by (subst unat_add_lem[THEN iffD1]) auto
  then have u3: "unat (0x10 + 2 * irq + 1) = 0x10 + 2 * unat irq + 1" using assms by (subst unat_add_lem[THEN iffD1]) auto
  have "ucast (0x10 + 2 * irq) = (of_nat (unat (0x10 + 2 * irq)) :: u32)" "ucast (0x10 + 2 * irq + 1) = (of_nat (unat (0x10 + 2 * irq + 1)) :: u32)"
    by (simp_all only: of_nat_unat)
  then show "ucast (IOREDTBL_REG_LOW irq) = redir irq" "ucast (IOREDTBL_REG_HIGH irq) = redir irq + 1"
    unfolding u2 u3 by (simp_all add: IOREDTBL_REG_LOW_def IOREDTBL_REG_HIGH_def IOREDTBL_def redir_def)
qed

lemma ioapic_set_irq_regs:
  assumes "is_registered i st" "ioregsel (ioapics st ! unat i) \<noteq> iowin (ioapics st ! unat i)" "unat irq < 120"
  shows "io_regs (ioapics st ! unat i) (mmio (ioapic_set_irq i irq entry st)) =
    (io_regs (ioapics st ! unat i) (mmio st))(redir irq + 1 \<mapsto> high_raw entry, redir irq \<mapsto> low_raw entry)"
    "ioapics (ioapic_set_irq i irq entry st) = ioapics st"
proof -
  let ?st = "ioapic_write i (IOREDTBL_REG_HIGH irq) (high_raw entry) st"
  have r: "is_registered i ?st" "ioapics ?st = ioapics st" using assms(1) by (simp_all add: ioapic_write_simps)
  show "io_regs (ioapics st ! unat i) (mmio (ioapic_set_irq i irq entry st)) =
      (io_regs (ioapics st ! unat i) (mmio st))(redir irq + 1 \<mapsto> high_raw entry, redir irq \<mapsto> low_raw entry)"
    using assms(1) io_regs_write[OF r(1), unfolded r(2), OF assms(2)] io_regs_write[OF assms(1,2)]
    by (simp add: ioapic_set_irq_def redir_regs[OF assms(3)])
  show "ioapics (ioapic_set_irq i irq entry st) = ioapics st"
    using assms(1) r by (simp add: ioapic_set_irq_def ioapic_write_simps)
qed

section \<open>The controller of an interrupt\<close>

definition serves :: "u32 \<Rightarrow> ioapic_t list \<Rightarrow> nat \<Rightarrow> bool" where
  "serves g ios k \<longleftrightarrow> k < 16 \<and> present (ios ! k) \<and> gsi_base (ios ! k) < g"

text \<open>The last controller with a base below the interrupt.\<close>

definition last_serving :: "u32 \<Rightarrow> ioapic_t list \<Rightarrow> nat option" where
  "last_serving g ios = find (serves g ios) (rev [0..<16])"

lemma for_nat_last:
  assumes "n \<le> 256"
  shows "for_nat n (\<lambda>i found. if P (unat i) then ucast i else found) d =
    (case find P (rev [0..<n]) of None \<Rightarrow> d | Some k \<Rightarrow> (of_nat k :: u8))"
  using assms
proof (induction n)
  case (Suc n)
  have "unat (of_nat n :: u64) = n" using Suc.prems by simp
  moreover from this have "ucast (of_nat n :: u64) = (of_nat n :: u8)" using of_nat_unat[of "of_nat n :: u64", where 'a = "8 word"] by simp
  ultimately show ?case using Suc by simp
qed simp

lemma ioapic_for_gsi_eq: "ioapic_for_gsi g ios = (case last_serving g ios of None \<Rightarrow> - 1 | Some k \<Rightarrow> of_nat k)"
proof -
  have "find (\<lambda>k. present (ios ! k) \<and> gsi_base (ios ! k) < g) (rev [0..<16]) = last_serving g ios"
    unfolding last_serving_def by (rule find_cong) (auto simp: serves_def)
  then show ?thesis unfolding ioapic_for_gsi_def
    using for_nat_last[of 16 "\<lambda>k. present (ios ! k) \<and> gsi_base (ios ! k) < g" "- 1"] by simp
qed

lemma last_serving_Some:
  assumes "last_serving g ios = Some k"
  shows "serves g ios k" "serves g ios j \<Longrightarrow> j \<le> k"
proof -
  have nth: "rev [0..<16] ! i = (15 - i :: nat)" if "i < 16" for i using that by (simp add: rev_nth)
  obtain i where i: "i < 16" "k = 15 - i" "serves g ios (15 - i)" "\<And>j. j < i \<Longrightarrow> \<not> serves g ios (rev [0..<16] ! j)"
    using assms nth unfolding last_serving_def find_Some_iff by auto
  then show "serves g ios k" by simp
  show "j \<le> k" if "serves g ios j"
  proof (rule ccontr)
    assume "\<not> j \<le> k"
    moreover have "j < 16" using that by (simp add: serves_def)
    ultimately have "15 - j < i" "15 - j < 16" "15 - (15 - j) = j" using i(1,2) by linarith+
    then show False using i(4)[of "15 - j"] nth[of "15 - j"] that by simp
  qed
qed

lemma serving_index:
  assumes "last_serving g ios = Some k"
  shows "unat (of_nat k :: u8) = k" "\<not> MAX_IOAPICS \<le> (of_nat k :: u8)"
  using last_serving_Some(1)[OF assms] by (simp_all add: serves_def MAX_IOAPICS_def word_le_nat_alt)

text \<open>The bits of the entry of an override.\<close>

definition gsi_entry :: "u8 \<Rightarrow> u16 \<Rightarrow> u32 \<Rightarrow> u64 \<Rightarrow> u64" where
  "gsi_entry irq flags b junk =
     set_destination (ucast b) (set_interrupt_mask IOAPIC_MASK (set_trigger_mode (ucast (ioapic_gsi_trigger_mode (ucast flags)))
       (set_pin_polarity (ucast (ioapic_gsi_pin_polarity (ucast flags))) (set_dest_mode IOAPIC_PHYS_MODE (set_delivery_mode IOAPIC_FIXED
         (set_vector (INTR_DEV_OFFSET + ucast irq) junk))))))"

lemmas entry_fields = set_vector_def set_delivery_mode_def set_dest_mode_def set_pin_polarity_def set_trigger_mode_def
  set_interrupt_mask_def set_destination_def

lemma vector_bits: "n < 8 \<Longrightarrow> bit (0x20 + ucast irq :: u64) n = bit (0x20 + irq :: u8) n"
proof -
  assume "n < 8"
  have "ucast (0x20 + ucast irq :: u64) = (0x20 + irq :: u8)" by transfer (simp add: take_bit_eq_mod mod_simps)
  then have "bit (ucast (0x20 + ucast irq :: u64) :: u8) n = bit (0x20 + irq :: u8) n" by simp
  then show ?thesis using \<open>n < 8\<close> by (simp add: bit_simps)
qed

lemma flag_bits:
  "bit (ioapic_gsi_pin_polarity (ucast flags)) n \<longleftrightarrow> n = 0 \<and> bit flags 1"
  "bit (ioapic_gsi_trigger_mode (ucast flags)) n \<longleftrightarrow> n = 0 \<and> bit flags 3" for flags :: u16
proof -
  have "ucast flags AND 2 \<noteq> (0 :: u8) \<longleftrightarrow> bit flags 1" "ucast flags AND 8 \<noteq> (0 :: u8) \<longleftrightarrow> bit flags 3"
    using and_exp_eq_0_iff_not_bit[of "ucast flags :: u8" 1] and_exp_eq_0_iff_not_bit[of "ucast flags :: u8" 3] by (simp_all add: bit_simps)
  then show "bit (ioapic_gsi_pin_polarity (ucast flags)) n \<longleftrightarrow> n = 0 \<and> bit flags 1"
    "bit (ioapic_gsi_trigger_mode (ucast flags)) n \<longleftrightarrow> n = 0 \<and> bit flags 3"
    by (auto simp: ioapic_gsi_pin_polarity_def ioapic_gsi_trigger_mode_def IOAPIC_LOW_def IOAPIC_HIGH_def IOAPIC_EDGE_def IOAPIC_LEVEL_def bit_1_iff)
qed

lemma gsi_entry_bits:
  assumes "n < 64"
  shows "bit (gsi_entry irq flags b junk) n =
    (if n < 8 then bit (0x20 + irq) n else if n \<in> {8, 9, 10, 11} then False else if n = 13 then bit flags 1 else if n = 15 then bit flags 3
     else if n = 16 then True else if 56 \<le> n then bit b (n - 56) else bit junk n)"
proof -
  have m: "bit IOAPIC_MASK k \<longleftrightarrow> k = 0" "\<not> bit IOAPIC_FIXED k" "\<not> bit IOAPIC_PHYS_MODE k" for k
    by (auto simp: IOAPIC_MASK_def IOAPIC_FIXED_def IOAPIC_PHYS_MODE_def bit_1_iff)
  have "n < 8 \<or> n \<in> {8, 9, 10, 11} \<or> n \<in> {12, 14} \<or> n = 13 \<or> n = 15 \<or> n = 16 \<or> 16 < n \<and> n < 56 \<or> 56 \<le> n" by auto
  then show ?thesis using assms
    by (elim disjE) (auto simp: gsi_entry_def entry_fields bit_put_field m flag_bits vector_bits INTR_DEV_OFFSET_def bit_simps)
qed

section \<open>Changing an entry\<close>

text \<open>A controller whose window shows the selected register as it was last written.\<close>

definition io_reads_back :: "ioapic_t \<Rightarrow> (mmio_op list \<Rightarrow> addr \<Rightarrow> u32) \<Rightarrow> bool" where
  "io_reads_back io dev \<longleftrightarrow>
     (\<forall>h v. io_regs io h (fst (io_view (ioregsel io) (iowin io) h)) = Some v \<longrightarrow> dev h (iowin io) = v)"

lemma ioapic_read_back:
  assumes "is_registered i st" "io_reads_back (ioapics st ! unat i) (mmio_device st)"
    "io_regs (ioapics st ! unat i) (mmio st) (ucast reg) = Some v"
  shows "fst (ioapic_read i reg st) = v" "io_regs (ioapics st ! unat i) (mmio (snd (ioapic_read i reg st))) = io_regs (ioapics st ! unat i) (mmio st)"
proof -
  let ?io = "ioapics st ! unat i"
  let ?h = "mmio st @ [Mmio_write (ioregsel ?io) (ucast reg)]"
  have "io_regs ?io ?h (fst (io_view (ioregsel ?io) (iowin ?io) ?h)) = Some v" using assms(3) by (simp add: io_regs_def)
  then show "fst (ioapic_read i reg st) = v" using assms(2) by (simp only: ioapic_read_simps[OF assms(1)] io_reads_back_def)
  show "io_regs ?io (mmio (snd (ioapic_read i reg st))) = io_regs ?io (mmio st)"
    by (simp add: ioapic_read_simps[OF assms(1)] io_regs_def io_view_append io_step_def)
qed

definition quick_entry :: "u8 \<Rightarrow> u8 \<Rightarrow> u64 \<Rightarrow> u64" where
  "quick_entry lapic vector entry =
     set_vector (ucast vector) (set_delivery_mode IOAPIC_FIXED (set_dest_mode IOAPIC_PHYS_MODE (set_interrupt_mask IOAPIC_UNMASK
       (set_destination (ucast (lapic AND 0xf)) entry))))"

lemma quick_entry_bits:
  assumes "n < 64"
  shows "bit (quick_entry lapic vector entry) n =
    (if n < 8 then bit vector n else if n \<in> {8, 9, 10, 11, 16} then False else if 56 \<le> n then n < 60 \<and> bit lapic (n - 56) else bit entry n)"
proof -
  have m: "\<not> bit IOAPIC_UNMASK k" "\<not> bit IOAPIC_FIXED k" "\<not> bit IOAPIC_PHYS_MODE k" for k
    by (auto simp: IOAPIC_UNMASK_def IOAPIC_FIXED_def IOAPIC_PHYS_MODE_def)
  have low4: "lapic AND 0xf = take_bit 4 lapic" by (simp add: take_bit_eq_mask mask_eq_exp_minus_1)
  have d: "bit (ucast (lapic AND 0xf) :: u64) k \<longleftrightarrow> k < 4 \<and> bit lapic k" "bit (ucast vector :: u64) k \<longleftrightarrow> bit vector k" for k
    unfolding low4 by (auto simp: bit_simps dest: bit_imp_le_length)
  have "n < 8 \<or> n \<in> {8, 9, 10, 11} \<or> 11 < n \<and> n < 16 \<or> n = 16 \<or> 16 < n \<and> n < 56 \<or> 56 \<le> n" by auto
  then show ?thesis using assms
    by (elim disjE) (auto simp: quick_entry_def entry_fields bit_put_field m d)
qed

section \<open>The start\<close>

definition apic_same :: "'a apic_state_scheme \<Rightarrow> 'a apic_state_scheme \<Rightarrow> bool" where
  "apic_same st st' \<longleftrightarrow> same_machine st st' \<and> bsp_lapic_id_var st' = bsp_lapic_id_var st \<and>
     bsp_lapic_id_valid st' = bsp_lapic_id_valid st \<and> io_apic_valid st' = io_apic_valid st"

lemma apic_same_trans: "apic_same a b \<Longrightarrow> apic_same b c \<Longrightarrow> apic_same a c"
  by (simp add: apic_same_def same_machine_def)

lemma apic_same_simps [simp]:
  "apic_same st st" "apic_same st (mmio_write a v st') = apic_same st st'" "apic_same st (snd (mmio_read a st')) = apic_same st st'"
  "apic_same st (log_msg l s st') = apic_same st st'" "apic_same st (st'\<lparr>ioapics := x\<rparr>) = apic_same st st'"
  by (auto simp: apic_same_def same_machine_def mmio_write_def mmio_read_def log_msg_def)

lemma ioapic_same [simp]:
  "apic_same st (ioapic_write i r v st')= apic_same st st'" "apic_same st (snd (ioapic_read i r st')) = apic_same st st'"
  "apic_same st (ioapic_set_irq i irq e st') = apic_same st st'"
  "ioapics (ioapic_write i r v st') = ioapics st'" "ioapics (snd (ioapic_read i r st')) = ioapics st'" "ioapics (ioapic_set_irq i irq e st') = ioapics st'"
  by (simp_all add: ioapic_write_def ioapic_read_def ioapic_set_irq_def Let_def)

lemma ioapic_set_gsi_same: "apic_same st (ioapic_set_gsi e junk st)" "ioapics (ioapic_set_gsi e junk st) = ioapics st"
  by (simp_all add: ioapic_set_gsi_def bsp_lapic_id_def Let_def)

text \<open>The table's entry for a controller of the MADT.\<close>

definition io_entry :: "mem \<Rightarrow> addr \<Rightarrow> ioapic_t \<Rightarrow> bool" where
  "io_entry m e io \<longleftrightarrow> present io \<and> ioapic_id io = io_apic_id m e \<and> ioregsel io = ucast (io_apic_addr m e) \<and>
     iowin io = ucast (io_apic_addr m e + 0x10) \<and> gsi_base io = io_apic_gsi_base m e"

lemma ioapic_register_step:
  assumes "length (ioapics st) = 16" "unat (io_apic_id (kmem st) e) < 16"
  obtains st' where "ioapic_register e st = Inr st'" "apic_same st st'" "length (ioapics st') = 16"
    "io_entry (kmem st) e (ioapics st' ! unat (io_apic_id (kmem st) e))"
    "\<forall>k. k \<noteq> unat (io_apic_id (kmem st) e) \<longrightarrow> ioapics st' ! k = ioapics st ! k"
proof -
  let ?i = "io_apic_id (kmem st) e" and ?a = "io_apic_addr (kmem st) e"
  let ?st1 = "st\<lparr>ioapics := (ioapics st)[unat ?i := (ioapics st ! unat ?i)\<lparr>present := True, ioapic_id := ?i, ioregsel := ucast ?a,
                 iowin := ucast (?a + IOWIN), gsi_base := io_apic_gsi_base (kmem st) e\<rparr>]\<rparr>"
  let ?r = "ioapic_read ?i IOAPICVER ?st1"
  let ?st2 = "(snd ?r)\<lparr>ioapics := (ioapics (snd ?r))[unat ?i := (ioapics (snd ?r) ! unat ?i)\<lparr>redtbl_entries := take_field 16 8 (fst ?r) + 1\<rparr>]\<rparr>"
  have "ioapic_register e st = Inr ?st2" using assms by (simp add: ioapic_register_def case_prod_beta Let_def)
  then show thesis by (rule that) (use assms in \<open>simp_all add: io_entry_def IOWIN_def\<close>)
qed

lemma register_loop:
  fixes st :: "'a apic_state_scheme"
  assumes len: "length (ioapics st) = 16" and es: "madt_listed (kmem st) info MADT_IOAPIC es" "0 \<notin> set es"
    "distinct (map (io_apic_id (kmem st)) es)" "\<forall>e\<in>set es. unat (io_apic_id (kmem st) e) < 16" and n: "n \<le> length es"
  defines "body \<equiv> (\<lambda>i (st :: 'a apic_state_scheme). if io_apics info = 0 then Inl Null_deref
     else if read64 (kmem st) (io_apics info + 8 * i) = 0 then Inl Null_deref
     else ioapic_register (read64 (kmem st) (io_apics info + 8 * i)) st)"
  shows "\<exists>st'. for_natE n body st = Inr st' \<and> apic_same st st' \<and> length (ioapics st') = 16 \<and>
    (\<forall>e\<in>set (take n es). io_entry (kmem st) e (ioapics st' ! unat (io_apic_id (kmem st) e)))"
  using n
proof (induction n)
  case 0
  then show ?case using len by simp
next
  case (Suc n)
  then have n: "n < length es" by simp
  let ?e = "es ! n" and ?i = "\<lambda>e. unat (io_apic_id (kmem st) e)"
  obtain st1 where r: "for_natE n body st = Inr st1" "apic_same st st1" "length (ioapics st1) = 16"
    "\<forall>e\<in>set (take n es). io_entry (kmem st) e (ioapics st1 ! ?i e)" using Suc n by auto
  have m: "kmem st1 = kmem st" using r(2) by (simp add: apic_same_def same_machine_def)
  have e: "read64 (kmem st1) (io_apics info + 8 * of_nat n) = ?e" "io_apics info \<noteq> 0" "?e \<noteq> 0" "?e \<in> set es"
    using madt_listed_nth[OF es(1,2) n] m n by (simp_all add: ptrs_of_def madt_types)
  obtain st2 where s: "ioapic_register ?e st1 = Inr st2" "apic_same st1 st2" "length (ioapics st2) = 16"
    "io_entry (kmem st) ?e (ioapics st2 ! ?i ?e)" "\<forall>k. k \<noteq> ?i ?e \<longrightarrow> ioapics st2 ! k = ioapics st1 ! k"
    by (rule ioapic_register_step[OF r(3), of ?e, unfolded m]) (use es(4) e(4) in auto)
  have other: "?i e \<noteq> ?i ?e" if e: "e \<in> set (take n es)" for e
  proof -
    obtain j where "j < n" "e = es ! j" using e n by (auto simp: in_set_conv_nth)
    then have "io_apic_id (kmem st) e \<noteq> io_apic_id (kmem st) ?e" using nth_eq_iff_index_eq[OF es(3), of j n] n by simp
    then show ?thesis by (simp add: word_unat_eq_iff)
  qed
  have "for_natE (Suc n) body st = Inr st2" using r(1) s(1) e by (simp add: body_def)
  moreover have "apic_same st st2" by (rule apic_same_trans[OF r(2) s(2)])
  moreover have "\<forall>e\<in>set (take (Suc n) es). io_entry (kmem st) e (ioapics st2 ! ?i e)"
    using r(4) s(4,5) other by (auto simp: take_Suc_conv_app_nth[OF n])
  ultimately show ?case using s(3) by blast
qed

lemma override_loop:
  fixes st :: "'a apic_state_scheme" and junk :: "u64 \<Rightarrow> u64"
  assumes es: "madt_listed (kmem st) info MADT_INTR_SRC_OVERRIDE es" "0 \<notin> set es" and n: "n \<le> length es"
  defines "body \<equiv> (\<lambda>i (st :: 'a apic_state_scheme). if intr_src_overrides info = 0 then Inl Null_deref
     else if read64 (kmem st) (intr_src_overrides info + 8 * i) = 0 then Inl Null_deref
     else Inr (ioapic_set_gsi (read64 (kmem st) (intr_src_overrides info + 8 * i)) (junk i) st))"
  shows "\<exists>st'. for_natE n body st = Inr st' \<and> apic_same st st' \<and> ioapics st' = ioapics st"
  using n
proof (induction n)
  case (Suc n)
  then obtain st1 where r: "for_natE n body st = Inr st1" "apic_same st st1" "ioapics st1 = ioapics st" by auto
  have m: "kmem st1 = kmem st" using r(2) by (simp add: apic_same_def same_machine_def)
  have e: "read64 (kmem st1) (intr_src_overrides info + 8 * of_nat n) = es ! n" "intr_src_overrides info \<noteq> 0" "es ! n \<noteq> 0"
    using madt_listed_nth[OF es, of n] Suc.prems m by (simp_all add: ptrs_of_def madt_types)
  let ?st2 = "ioapic_set_gsi (es ! n) (junk (of_nat n)) st1"
  have "for_natE (Suc n) body st = Inr ?st2" using r(1) e by (simp add: body_def)
  moreover have "apic_same st ?st2" by (rule apic_same_trans[OF r(2) ioapic_set_gsi_same(1)])
  moreover have "ioapics ?st2 = ioapics st" using r(3) by (simp add: ioapic_set_gsi_same)
  ultimately show ?case by blast
qed simp

lemma lapic_same [simp]:
  "apic_same st (lapic_write r v st') = apic_same st st'" "apic_same st (snd (lapic_read r st')) = apic_same st st'"
  "ioapics (lapic_write r v st') = ioapics st'" "ioapics (snd (lapic_read r st')) = ioapics st'"
  by (simp_all add: lapic_write_def lapic_read_def)

lemma configure_nmi_same: "configure_nmi_entry i st = Inr st' \<Longrightarrow> apic_same st st' \<and> ioapics st' = ioapics st"
  by (auto simp: configure_nmi_entry_def Let_def case_prod_beta lapic_id_eq split: if_splits)

lemma lapic_enable_same:
  assumes "lapic_enable st = Inr st'"
  shows "apic_same st st' \<and> ioapics st' = ioapics st"
proof -
  obtain st1 where a: "configure_nmi st = Inr st1" "st' = lapic_write LAPIC_SPR_INTR_VEC_REG (fst (lapic_read LAPIC_SPR_INTR_VEC_REG st1) OR push_bit 8 1)
      (snd (lapic_read LAPIC_SPR_INTR_VEC_REG st1))"
    using assms by (auto simp: lapic_enable_def case_prod_beta elim!: kbind_InrE)
  have "apic_same st st1 \<and> ioapics st1 = ioapics st"
    by (rule for_natE_invariant[where P = "\<lambda>_ s. apic_same st s \<and> ioapics s = ioapics st", OF a(1)[unfolded configure_nmi_def for_u64E_def]])
       (auto dest: configure_nmi_same intro: apic_same_trans)
  then show ?thesis using a(2) by simp
qed

section \<open>A machine with one controller\<close>

text \<open>A device that keeps its registers; the controller with number 0 is registered and line 1 is masked. The lists
  of the MADT have one controller with number 2, one override (line 0, interrupt 2) and one NMI entry.\<close>

definition demo_dev :: "mmio_op list \<Rightarrow> addr \<Rightarrow> u32" where
  "demo_dev h a =
     (if a = 0xfec00010 then
        case snd (io_view 0xfec00000 0xfec00010 h) (fst (io_view 0xfec00000 0xfec00010 h)) of None \<Rightarrow> 0 | Some v \<Rightarrow> v
      else 0)"

definition demo_io :: ioapic_t where
  "demo_io = \<lparr>present = True, ioapic_id = 0, ioregsel = 0xfec00000, iowin = 0xfec00010, gsi_base = 0, redtbl_entries = 24\<rparr>"

definition no_io :: ioapic_t where
  "no_io = \<lparr>present = False, ioapic_id = 0, ioregsel = 0, iowin = 0x10, gsi_base = 0, redtbl_entries = 0\<rparr>"

definition demo_ioapic :: apic_state where
  "demo_ioapic = demo_lapic\<lparr>kmem := (kmem demo_lapic)(0x4101 := 0x51, 0x4201 := 0x52, 0x5102 := 2, 0x5106 := 0xc0, 0x5107 := 0xfe, 0x5204 := 2),
     madt_info := (madt_info demo_lapic)\<lparr>num_io_apic := 1, io_apics := 0x4100, num_intr_src_override := 1, intr_src_overrides := 0x4200\<rparr>,
     mmio := [Mmio_write 0xfec00000 0x13, Mmio_write 0xfec00010 0, Mmio_write 0xfec00000 0x12, Mmio_write 0xfec00010 0x10000],
     mmio_device := demo_dev, ioapics := demo_io # replicate 15 no_io\<rparr>"

lemma demo_upts: "[0..<8] = [0, 1, 2, 3, 4, 5, 6, 7]" "[0..<4] = [0, 1, 2, 3]" "[0..<2] = [0, 1]"
  by (simp_all add: upt_rec)

lemma demo_ioapic_regs: "io_regs demo_io (mmio demo_ioapic) = [0x13 \<mapsto> 0, 0x12 \<mapsto> 0x10000]"
  by (simp add: io_regs_def demo_io_def demo_ioapic_def io_view_def io_step_def)

lemma demo_ioapics: "ioapics demo_ioapic = demo_io # replicate 15 no_io" "mmio_device demo_ioapic = demo_dev" "length (ioapics demo_ioapic) = 16"
  by (simp_all add: demo_ioapic_def)

lemma demo_ioapic_lists:
  "madt_listed (kmem demo_ioapic) (madt_info demo_ioapic) MADT_IOAPIC [0x5100]"
  "madt_listed (kmem demo_ioapic) (madt_info demo_ioapic) MADT_INTR_SRC_OVERRIDE [0x5200]"
  "madt_listed (kmem demo_ioapic) (madt_info demo_ioapic) MADT_LAPIC_NMI [0x5000]"
  by (simp_all add: madt_listed_def num_of_def ptrs_of_def madt_types demo_ioapic_def demo_lapic_def madt_info_0_def load_def demo_upts)

lemma apic_init_run:
  assumes "length (ioapics st) = 16" "\<not> bsp_lapic_id_valid st" "\<not> io_apic_valid st" "lapic_is st pid"
    "madt_listed (kmem st) (madt_info st) MADT_IOAPIC ios" "madt_listed (kmem st) (madt_info st) MADT_INTR_SRC_OVERRIDE ovs"
    "madt_listed (kmem st) (madt_info st) MADT_LAPIC_NMI nmis" "0 \<notin> set ios \<union> set ovs \<union> set nmis"
    "length ios < 2 ^ 64" "length ovs < 2 ^ 64" "length nmis < 2 ^ 64"
    "distinct (map (io_apic_id (kmem st)) ios)" "\<forall>e\<in>set ios. unat (io_apic_id (kmem st) e) < 16" "\<forall>e\<in>set nmis. lint_ok (kmem st) pid e"
  shows "\<exists>st' h v. apic_init (Some b) junk st = Inr st' \<and> same_machine st st' \<and> length (ioapics st') = 16 \<and> bsp_lapic_id st' = (b, st') \<and> io_apic_valid st' \<and>
      (\<forall>e\<in>set ios. io_entry (kmem st) e (ioapics st' ! unat (io_apic_id (kmem st) e))) \<and>
      mmio st' = h @ [Mmio_write (lapic_paddr (madt_info st) + 0xF0) (put_field 8 1 1 v)]"
proof -
  let ?st0 = "log_msg NONE ''[apic_init] enabling io apics ...'' (st\<lparr>bsp_lapic_id_var := b, bsp_lapic_id_valid := True\<rparr>)"
  have z: "0 \<notin> set ios" "0 \<notin> set ovs" "0 \<notin> set nmis" using assms(8) by auto
  have n: "unat (num_io_apic (madt_info st)) = length ios" "unat (num_intr_src_override (madt_info st)) = length ovs"
    using assms(5,6,9,10) by (simp_all add: madt_listed_def num_of_def madt_types)
  have s0: "kmem ?st0 = kmem st" "madt_info ?st0 = madt_info st" "mmio_device ?st0 = mmio_device st" "ioapics ?st0 = ioapics st"
    by (simp_all add: log_msg_def)
  note reg = register_loop[of ?st0 "madt_info st" ios, unfolded s0, OF assms(1,5) z(1) assms(12,13) le_refl]
  obtain st1 where r: "for_natE (length ios) (\<lambda>i st. if io_apics (madt_info ?st0) = 0 then Inl Null_deref
        else if read64 (kmem st) (io_apics (madt_info ?st0) + 8 * i) = 0 then Inl Null_deref
        else ioapic_register (read64 (kmem st) (io_apics (madt_info ?st0) + 8 * i)) st) ?st0 = Inr st1"
    "apic_same ?st0 st1" "length (ioapics st1) = 16"
    "\<forall>e\<in>set ios. io_entry (kmem st) e (ioapics st1 ! unat (io_apic_id (kmem st) e))"
    using reg unfolding s0 take_all[OF le_refl] by blast
  have s1: "kmem st1 = kmem st" "madt_info st1 = madt_info st" "mmio_device st1 = mmio_device st" "bsp_lapic_id_var st1 = b" "bsp_lapic_id_valid st1"
    using r(2) by (auto simp: apic_same_def same_machine_def log_msg_def)
  note over = override_loop[of st1 "madt_info st" ovs "length ovs" junk, unfolded s1, OF assms(6) z(2) le_refl]
  obtain st2 where o: "for_natE (length ovs) (\<lambda>i st. if intr_src_overrides (madt_info ?st0) = 0 then Inl Null_deref
        else if read64 (kmem st) (intr_src_overrides (madt_info ?st0) + 8 * i) = 0 then Inl Null_deref
        else Inr (ioapic_set_gsi (read64 (kmem st) (intr_src_overrides (madt_info ?st0) + 8 * i)) (junk i) st)) st1 = Inr st2"
    "apic_same st1 st2" "ioapics st2 = ioapics st1"
    using over unfolding s0 by blast
  let ?st3 = "log_msg NONE ''[apic_init] enabling local apic with id %u ... '' (snd (lapic_read LAPIC_ID_REG (st2\<lparr>io_apic_valid := True\<rparr>)))"
  have s3: "kmem ?st3 = kmem st" "madt_info ?st3 = madt_info st" "mmio_device ?st3 = mmio_device st" "bsp_lapic_id_var ?st3 = b" "bsp_lapic_id_valid ?st3"
    "io_apic_valid ?st3" "ioapics ?st3 = ioapics st1"
    using s1 o(2,3) by (auto simp: apic_same_def same_machine_def log_msg_def lapic_read_def mmio_read_def)
  have id: "lapic_is ?st3 pid" using assms(4) unfolding lapic_is_def s3 .
  obtain st' v h where e: "lapic_enable ?st3 = Inr st'"
    "mmio st' = h @ [Mmio_read (lapic_paddr (madt_info st) + 0xF0), Mmio_write (lapic_paddr (madt_info st) + 0xF0) (put_field 8 1 1 v)]"
    using lapic_enable_run[OF id, unfolded s3, OF assms(7) z(3) assms(11)] unfolding if_P[OF assms(14)] by blast
  have same: "apic_same ?st3 st'" "ioapics st' = ioapics st1" using lapic_enable_same[OF e(1)] s3(7) by auto
  have "apic_init (Some b) junk st = lapic_enable ?st3"
    using assms(2,3) r(1) o(1) by (simp add: apic_init_def get_madt_info_def for_u64E_def s0 n lapic_id_eq Let_def)
  moreover have "bsp_lapic_id st' = (b, st')" "io_apic_valid st'" using same(1) s3(4-6) by (auto simp: apic_same_def bsp_lapic_id_def)
  moreover have "same_machine st st'" using same(1) o(2) r(2) by (simp add: apic_same_def same_machine_def log_msg_def lapic_read_def mmio_read_def)
  ultimately show ?thesis using e r(3,4) same(2) by (metis append.assoc append_Cons append_Nil)
qed

section \<open>Properties\<close>

text \<open>\<open>ioapic_set_irq\<close> puts the two halves of an entry into the two registers of its line and changes no other
  register of the controller; a controller that is not registered gives an error and no access.\<close>

theorem ioapic_set_irq_correct:
  assumes "ioregsel (ioapics st ! unat i) \<noteq> iowin (ioapics st ! unat i)" "unat irq < 120"
  shows "if is_registered i st then
      io_regs (ioapics st ! unat i) (mmio (ioapic_set_irq i irq entry st)) =
        (io_regs (ioapics st ! unat i) (mmio st))(redir irq + 1 \<mapsto> high_raw entry, redir irq \<mapsto> low_raw entry) \<and>
      raw_entry (low_raw entry) (high_raw entry) = entry
    else mmio (ioapic_set_irq i irq entry st) = mmio st \<and> (\<exists>msg. klog (ioapic_set_irq i irq entry st) = klog st @ [(ERROR, msg)])"
proof (cases "is_registered i st")
  case True
  then show ?thesis using ioapic_set_irq_regs[OF True assms] raw_halves(1) by simp
qed (simp add: ioapic_set_irq_def log_msg_def)

theorem ioapic_set_irq_correct_witness:
  "io_regs demo_io (mmio (ioapic_set_irq 0 1 0x21 demo_ioapic)) = [0x13 \<mapsto> 0, 0x12 \<mapsto> 0x21]"
proof -
  have "is_registered 0 demo_ioapic" by (simp add: is_registered_def MAX_IOAPICS_def demo_ioapics demo_io_def)
  moreover have "ioregsel (ioapics demo_ioapic ! unat (0 :: u8)) \<noteq> iowin (ioapics demo_ioapic ! unat (0 :: u8))"
    by (simp add: demo_ioapics demo_io_def)
  ultimately show ?thesis using ioapic_set_irq_correct[of demo_ioapic 0 1 "0x21"]
    by (simp add: demo_ioapics(1) demo_ioapic_regs redir_def low_raw_def high_raw_def)
qed



text \<open>\<open>ioapic_quickset_irq\<close>, on a controller that reads back what was written: it sets the vector of a line's entry,
  unmasks it, makes it fixed and physical and sends it to the processor with the low four bits of the given number;
  it keeps all other bits of the entry and all other registers.\<close>

theorem ioapic_quickset_irq_correct:
  assumes "is_registered i st" "io = ioapics st ! unat i" "ioregsel io \<noteq> iowin io" "unat irq < 120" "io_reads_back io (mmio_device st)"
    "io_regs io (mmio st) (redir irq) = Some (low_raw e)" "io_regs io (mmio st) (redir irq + 1) = Some (high_raw e)"
  shows "\<exists>e'. io_regs io (mmio (ioapic_quickset_irq i irq lapic vector st)) =
      (io_regs io (mmio st))(redir irq + 1 \<mapsto> high_raw e', redir irq \<mapsto> low_raw e') \<and>
    (\<forall>n<64. bit e' n = (if n < 8 then bit vector n else if n \<in> {8, 9, 10, 11, 16} then False
       else if 56 \<le> n then n < 60 \<and> bit lapic (n - 56) else bit e n))"
proof -
  note regs = redir_regs[OF assms(4)]
  let ?st1 = "snd (ioapic_read i (IOREDTBL_REG_HIGH irq) st)"
  let ?st2 = "snd (ioapic_read i (IOREDTBL_REG_LOW irq) ?st1)"
  note rb = ioapic_read_back[OF assms(1), folded assms(2), OF assms(5)]
  have h: "fst (ioapic_read i (IOREDTBL_REG_HIGH irq) st) = high_raw e" "io_regs io (mmio ?st1) = io_regs io (mmio st)"
    using rb[of "IOREDTBL_REG_HIGH irq"] assms(7) by (simp_all add: regs)
  have s1: "is_registered i ?st1" "ioapics ?st1 = ioapics st" "mmio_device ?st1 = mmio_device st"
    using assms(1) by (simp_all add: ioapic_read_simps[OF assms(1)])
  have l: "fst (ioapic_read i (IOREDTBL_REG_LOW irq) ?st1) = low_raw e" "io_regs io (mmio ?st2) = io_regs io (mmio st)"
    using ioapic_read_back[OF s1(1), unfolded s1(2,3), folded assms(2), OF assms(5), of "IOREDTBL_REG_LOW irq"] assms(6) h(2)
    by (simp_all add: regs)
  have s2: "is_registered i ?st2" "ioapics ?st2 = ioapics st" using s1 by (simp_all add: ioapic_read_simps[OF s1(1)])
  have "ioapic_quickset_irq i irq lapic vector st = ioapic_set_irq i irq (quick_entry lapic vector e) ?st2"
    using assms(1) h(1) l(1) by (simp add: ioapic_quickset_irq_def case_prod_beta Let_def quick_entry_def raw_halves)
  then have "io_regs io (mmio (ioapic_quickset_irq i irq lapic vector st)) =
      (io_regs io (mmio st))(redir irq + 1 \<mapsto> high_raw (quick_entry lapic vector e), redir irq \<mapsto> low_raw (quick_entry lapic vector e))"
    using ioapic_set_irq_regs(1)[OF s2(1), unfolded s2(2), folded assms(2), OF assms(3,4)] l(2) by simp
  then show ?thesis using quick_entry_bits by blast
qed

theorem ioapic_quickset_irq_correct_witness:
  "\<exists>e. io_regs demo_io (mmio (ioapic_quickset_irq 0 1 3 0x21 demo_ioapic)) 0x12 = Some (low_raw e) \<and> \<not> bit e 16"
proof -
  have "is_registered 0 demo_ioapic" by (simp add: is_registered_def MAX_IOAPICS_def demo_ioapics demo_io_def)
  moreover have "demo_io = ioapics demo_ioapic ! unat (0 :: u8)" "ioregsel demo_io \<noteq> iowin demo_io" by (simp_all add: demo_ioapics demo_io_def)
  moreover have "io_reads_back demo_io (mmio_device demo_ioapic)"
    by (auto simp: io_reads_back_def io_regs_def demo_io_def demo_ioapics demo_dev_def)
  ultimately show ?thesis using ioapic_quickset_irq_correct[of 0 demo_ioapic demo_io 1 "0x10000" 3 "0x21"]
    by (auto simp: demo_ioapic_regs redir_def low_raw_def high_raw_def)
qed

text \<open>C27. The first \<open>apic_init\<close>, on the lists that the MADT parser leaves, with distinct controller numbers below 16 and
  valid pins: it succeeds, records the number of the boot processor, enters every controller of the table with its
  registers and its base, and enables the local APIC last. Without the boot loader's tag it panics.\<close>

theorem apic_init_correct:
  assumes "length (ioapics st) = 16" "\<not> bsp_lapic_id_valid st" "\<not> io_apic_valid st" "lapic_is st pid"
    "madt_listed (kmem st) (madt_info st) MADT_IOAPIC ios" "madt_listed (kmem st) (madt_info st) MADT_INTR_SRC_OVERRIDE ovs"
    "madt_listed (kmem st) (madt_info st) MADT_LAPIC_NMI nmis" "0 \<notin> set ios \<union> set ovs \<union> set nmis"
    "length ios < 2 ^ 64" "length ovs < 2 ^ 64" "length nmis < 2 ^ 64"
    "distinct (map (io_apic_id (kmem st)) ios)" "\<forall>e\<in>set ios. unat (io_apic_id (kmem st) e) < 16" "\<forall>e\<in>set nmis. lint_ok (kmem st) pid e"
  shows "(\<exists>msg. apic_init None junk st = Inl (Panic msg)) \<and>
    (\<exists>st' h v. apic_init (Some b) junk st = Inr st' \<and> bsp_lapic_id st' = (b, st') \<and> io_apic_valid st' \<and>
      (\<forall>e\<in>set ios. io_entry (kmem st) e (ioapics st' ! unat (io_apic_id (kmem st) e))) \<and>
      mmio st' = h @ [Mmio_write (lapic_paddr (madt_info st) + 0xF0) (put_field 8 1 1 v)])"
proof
  show "\<exists>msg. apic_init None junk st = Inl (Panic msg)" using assms(2) by (simp add: apic_init_def)
qed (use apic_init_run[OF assms] in blast)

theorem apic_init_correct_witness:
  "\<exists>st'. apic_init (Some 0) (\<lambda>_. 0) demo_ioapic = Inr st' \<and> ioregsel (ioapics st' ! 2) = 0xfec00000"
proof -
  have m: "io_apic_id (kmem demo_ioapic) 0x5100 = 2" "io_apic_addr (kmem demo_ioapic) 0x5100 = 0xfec00000"
    "nmi_applies (kmem demo_ioapic) 0 0x5000" "nmi_lint (kmem demo_ioapic) 0x5000 = 1"
    by (simp_all add: io_apic_id_def io_apic_addr_def load_def demo_upts demo_ioapic_def demo_lapic_def nmi_applies_def nmi_processor_id_def nmi_lint_def)
  have "lapic_is demo_ioapic 0" by (simp add: lapic_is_def demo_ioapics demo_dev_def) (simp add: demo_ioapic_def demo_lapic_def)
  moreover have "\<not> bsp_lapic_id_valid demo_ioapic" "\<not> io_apic_valid demo_ioapic" by (simp_all add: demo_ioapic_def demo_lapic_def)
  ultimately show ?thesis using apic_init_correct[OF demo_ioapics(3) _ _ _ demo_ioapic_lists, of 0 "\<lambda>_. 0" 0] m
    by (auto simp: lint_ok_def io_entry_def)
qed

end
