(* ===== verification/Ports.thy ===== *)
theory Ports
  imports Kernel_Prelude
begin

text \<open>
  Port input and output of lib/include/sys/io.h. Every access to a port is recorded, in order. What a
  read returns is up to the devices: the state carries a function that gives the answer of a port
  after a history of accesses. The devices are not part of the kernel, so this function is a
  parameter; statements about what is read back assume it of the device concerned.
\<close>

datatype port_op =
    Outb u16 u8
  | Outw u16 u16
  | Outl u16 u32
  | Inb u16
  | Inw u16
  | Inl_port u16

record io_state =
  trace :: "port_op list"
  device :: "port_op list \<Rightarrow> u16 \<Rightarrow> u32"

definition port_access :: "port_op \<Rightarrow> 'a io_state_scheme \<Rightarrow> 'a io_state_scheme" where
  "port_access acc st = st\<lparr>trace := trace st @ [acc]\<rparr>"

definition inb :: "u16 \<Rightarrow> 'a io_state_scheme \<Rightarrow> u8 \<times> 'a io_state_scheme" where
  "inb port st = (ucast (device st (trace st) port), port_access (Inb port) st)"

definition inw :: "u16 \<Rightarrow> 'a io_state_scheme \<Rightarrow> u16 \<times> 'a io_state_scheme" where
  "inw port st = (ucast (device st (trace st) port), port_access (Inw port) st)"

definition inl :: "u16 \<Rightarrow> 'a io_state_scheme \<Rightarrow> u32 \<times> 'a io_state_scheme" where
  "inl port st = (device st (trace st) port, port_access (Inl_port port) st)"

definition outb :: "u16 \<Rightarrow> u8 \<Rightarrow> 'a io_state_scheme \<Rightarrow> 'a io_state_scheme" where
  "outb port data = port_access (Outb port data)"

definition outw :: "u16 \<Rightarrow> u16 \<Rightarrow> 'a io_state_scheme \<Rightarrow> 'a io_state_scheme" where
  "outw port data = port_access (Outw port data)"

definition outl :: "u16 \<Rightarrow> u32 \<Rightarrow> 'a io_state_scheme \<Rightarrow> 'a io_state_scheme" where
  "outl port data = port_access (Outl port data)"

definition io_wait :: "'a io_state_scheme \<Rightarrow> 'a io_state_scheme" where
  "io_wait = outb 0x80 0"

text \<open>The last byte written to a port.\<close>

fun last_out :: "u16 \<Rightarrow> port_op list \<Rightarrow> u8 option" where
  "last_out port [] = None"
| "last_out port (Outb p d # accs) =
     (case last_out port accs of None \<Rightarrow> if p = port then Some d else None | Some x \<Rightarrow> Some x)"
| "last_out port (_ # accs) = last_out port accs"

section \<open>Lemmas\<close>

lemma port_access_simps [simp]:
  "trace (port_access acc st) = trace st @ [acc]" "device (port_access acc st) = device st"
  by (simp_all add: port_access_def)

lemma port_simps [simp]:
  "trace (outb p d st) = trace st @ [Outb p d]" "device (outb p d st) = device st"
  "trace (io_wait st) = trace st @ [Outb 0x80 0]" "device (io_wait st) = device st"
  "fst (inb p st) = ucast (device st (trace st) p)" "trace (snd (inb p st)) = trace st @ [Inb p]"
  "device (snd (inb p st)) = device st"
  by (simp_all add: outb_def io_wait_def inb_def)

lemma last_out_append:
  "last_out port (xs @ ys) = (case last_out port ys of None \<Rightarrow> last_out port xs | Some d \<Rightarrow> Some d)"
  by (induction port xs rule: last_out.induct) (auto split: option.splits)

end
