(* ===== verification/Pic.thy ===== *)
theory Pic
  imports Ports
begin

text \<open>
  The two cascaded 8259 interrupt controllers of kernel/intr/pic.c, programmed through their ports.
\<close>

section \<open>Definitions\<close>

definition MASTER_COMMAND_PORT :: u16 where "MASTER_COMMAND_PORT = 0x20"
definition MASTER_DATA_PORT :: u16 where "MASTER_DATA_PORT = 0x21"
definition SLAVE_COMMAND_PORT :: u16 where "SLAVE_COMMAND_PORT = 0xA0"
definition SLAVE_DATA_PORT :: u16 where "SLAVE_DATA_PORT = 0xA1"
definition ICW1 :: u8 where "ICW1 = 0x11"
definition ICW2_MASTER :: u8 where "ICW2_MASTER = 0x20"
definition ICW2_SLAVE :: u8 where "ICW2_SLAVE = 0x28"
definition ICW3_MASTER :: u8 where "ICW3_MASTER = 0x04"
definition ICW3_SLAVE :: u8 where "ICW3_SLAVE = 0x02"
definition ICW4 :: u8 where "ICW4 = 0x01"
definition SLAVE_LINE :: u8 where "SLAVE_LINE = 0x02"
definition EOI :: u8 where "EOI = 0x20"

text \<open>A write and the pause after it.\<close>

definition outb_wait :: "u16 \<Rightarrow> u8 \<Rightarrow> 'a io_state_scheme \<Rightarrow> 'a io_state_scheme" where
  "outb_wait port data st = io_wait (outb port data st)"

definition pic_remap :: "'a io_state_scheme \<Rightarrow> 'a io_state_scheme" where
  "pic_remap st =
     fold (\<lambda>(port, data). outb_wait port data)
       [(MASTER_COMMAND_PORT, ICW1), (SLAVE_COMMAND_PORT, ICW1),
        (MASTER_DATA_PORT, ICW2_MASTER), (SLAVE_DATA_PORT, ICW2_SLAVE),
        (MASTER_DATA_PORT, ICW3_MASTER), (SLAVE_DATA_PORT, ICW3_SLAVE),
        (MASTER_DATA_PORT, ICW4), (SLAVE_DATA_PORT, ICW4),
        (MASTER_DATA_PORT, 0xFF), (SLAVE_DATA_PORT, 0xFF)] st"

definition pic_disable_all :: "'a io_state_scheme \<Rightarrow> 'a io_state_scheme" where
  "pic_disable_all st = outb_wait SLAVE_DATA_PORT 0xFF (outb_wait MASTER_DATA_PORT 0xFF st)"

definition pic_disable :: "'a io_state_scheme \<Rightarrow> 'a io_state_scheme" where
  "pic_disable st = pic_disable_all (pic_remap st)"

text \<open>The port of a line's controller and the line's bit there.\<close>

definition pic_line :: "u8 \<Rightarrow> u16 \<times> u8" where
  "pic_line irq =
     (if irq < 8 then (MASTER_DATA_PORT, push_bit (unat irq) 1)
      else (SLAVE_DATA_PORT, push_bit (unat (irq - 8)) 1))"

definition pic_enable_irq :: "u8 \<Rightarrow> 'a io_state_scheme \<Rightarrow> 'a io_state_scheme" where
  "pic_enable_irq irq st =
     (if irq > 15 then st
      else
        let (port, bit) = pic_line irq;
            (old, st) = inb port st;
            mask = old AND NOT bit;
            st = io_wait st
        in outb_wait port mask st)"

definition pic_disable_irq :: "u8 \<Rightarrow> 'a io_state_scheme \<Rightarrow> 'a io_state_scheme" where
  "pic_disable_irq irq st =
     (if irq > 15 then st
      else
        let (port, bit) = pic_line irq;
            (old, st) = inb port st;
            mask = old OR bit;
            st = io_wait st
        in outb_wait port mask st)"

definition pic_eoi :: "u8 \<Rightarrow> 'a io_state_scheme \<Rightarrow> 'a io_state_scheme" where
  "pic_eoi irq st =
     (if irq > 15 then st
      else
        let st = (if irq \<ge> 8 \<or> irq \<le> 15 then outb_wait SLAVE_COMMAND_PORT EOI st else st)
        in outb_wait MASTER_COMMAND_PORT EOI st)"

definition pic_init :: "'a io_state_scheme \<Rightarrow> 'a io_state_scheme" where
  "pic_init st = pic_enable_irq SLAVE_LINE (pic_disable_all (pic_remap st))"

section \<open>The mask of the lines\<close>

text \<open>The controllers' documented behaviour the code relies on: a read of a data port returns the byte
  last written there.\<close>

definition pic_reads_back :: "(port_op list \<Rightarrow> u16 \<Rightarrow> u32) \<Rightarrow> bool" where
  "pic_reads_back dev \<longleftrightarrow>
     (\<forall>h d. \<forall>p\<in>{MASTER_DATA_PORT, SLAVE_DATA_PORT}. last_out p h = Some d \<longrightarrow> ucast (dev h p) = d)"

text \<open>Line \<open>irq\<close> is masked, according to the last byte written to its controller.\<close>

definition masked :: "port_op list \<Rightarrow> u8 \<Rightarrow> bool" where
  "masked h irq \<longleftrightarrow> (case last_out (fst (pic_line irq)) h of None \<Rightarrow> True | Some d \<Rightarrow> d AND snd (pic_line irq) \<noteq> 0)"

lemmas pic_consts = MASTER_COMMAND_PORT_def MASTER_DATA_PORT_def SLAVE_COMMAND_PORT_def SLAVE_DATA_PORT_def
  ICW1_def ICW2_MASTER_def ICW2_SLAVE_def ICW3_MASTER_def ICW3_SLAVE_def ICW4_def SLAVE_LINE_def EOI_def

lemma outb_wait_simps [simp]:
  "trace (outb_wait p d st) = trace st @ [Outb p d, Outb 0x80 0]" "device (outb_wait p d st) = device st"
  by (simp_all add: outb_wait_def)

lemma pic_line_port: "fst (pic_line irq) \<in> {MASTER_DATA_PORT, SLAVE_DATA_PORT}" "fst (pic_line irq) \<noteq> 0x80"
  by (simp_all add: pic_line_def pic_consts)

text \<open>A line's bit among the lines of its controller.\<close>

definition line_bit :: "u8 \<Rightarrow> nat" where
  "line_bit irq = (if irq < 8 then unat irq else unat (irq - 8))"

lemma line_bit_less: "irq \<le> 15 \<Longrightarrow> line_bit irq < 8"
  by (auto simp: line_bit_def word_less_nat_alt word_le_nat_alt unat_sub_if')

lemma snd_pic_line: "snd (pic_line irq) = push_bit (line_bit irq) 1"
  by (simp add: pic_line_def line_bit_def)

lemma line_bit_inj:
  assumes "irq \<le> 15" "j \<le> 15" "fst (pic_line irq) = fst (pic_line j)"
  shows "line_bit irq = line_bit j \<longleftrightarrow> irq = j"
  using assms by (auto simp: pic_line_def line_bit_def pic_consts word_unat_eq_iff word_less_nat_alt word_le_nat_alt
      unat_sub_if' split: if_splits)

lemma and_line_bit: "k < 8 \<Longrightarrow> d AND push_bit k 1 \<noteq> 0 \<longleftrightarrow> bit (d :: u8) k"
  by (simp add: and_exp_eq_0_iff_not_bit)

lemma masked_Some:
  assumes "last_out (fst (pic_line j)) h = Some d" "j \<le> 15"
  shows "masked h j \<longleftrightarrow> bit d (line_bit j)"
  using assms and_line_bit[OF line_bit_less[OF assms(2)], of d] by (simp add: masked_def snd_pic_line)

text \<open>Rewriting the mask of one controller: \<open>f\<close> is what the code does to the byte it has read.\<close>

lemma masked_rewrite:
  fixes f :: "u8 \<Rightarrow> u8"
  assumes dev: "pic_reads_back (device st)" and irq: "irq \<le> 15" and j: "j \<le> 15"
    and init: "last_out (fst (pic_line irq)) (trace st) = Some d" "last_out (fst (pic_line j)) (trace st) = Some e"
  defines "h \<equiv> trace st @ [Inb (fst (pic_line irq)), Outb 0x80 0, Outb (fst (pic_line irq)) (f (ucast (device st (trace st) (fst (pic_line irq))))), Outb 0x80 0]"
  shows "masked h j \<longleftrightarrow> (if fst (pic_line j) = fst (pic_line irq) then bit (f d) (line_bit j) else masked (trace st) j)"
proof -
  have read: "ucast (device st (trace st) (fst (pic_line irq))) = d"
    using dev pic_line_port(1)[of irq] init(1) unfolding pic_reads_back_def by blast
  have "last_out (fst (pic_line j)) h = Some (if fst (pic_line j) = fst (pic_line irq) then f d else e)"
    using init pic_line_port(2)[of j] by (auto simp: h_def last_out_append read)
  then show ?thesis using masked_Some[OF _ j, of h] masked_Some[OF init(2) j] by auto
qed

lemma pic_enable_trace:
  "irq \<le> 15 \<Longrightarrow> trace (pic_enable_irq irq st) = trace st @ [Inb (fst (pic_line irq)), Outb 0x80 0,
     Outb (fst (pic_line irq)) (ucast (device st (trace st) (fst (pic_line irq))) AND NOT (snd (pic_line irq))), Outb 0x80 0]"
  by (auto simp: pic_enable_irq_def inb_def split: prod.splits)

lemma pic_disable_trace:
  "irq \<le> 15 \<Longrightarrow> trace (pic_disable_irq irq st) = trace st @ [Inb (fst (pic_line irq)), Outb 0x80 0,
     Outb (fst (pic_line irq)) (ucast (device st (trace st) (fst (pic_line irq))) OR snd (pic_line irq)), Outb 0x80 0]"
  by (auto simp: pic_disable_irq_def inb_def split: prod.splits)

lemma pic_remap_masks:
  "last_out MASTER_DATA_PORT (trace (pic_disable_all (pic_remap st))) = Some 0xFF"
  "last_out SLAVE_DATA_PORT (trace (pic_disable_all (pic_remap st))) = Some 0xFF"
  "device (pic_disable_all (pic_remap st)) = device st"
  by (simp_all add: pic_disable_all_def pic_remap_def last_out_append pic_consts)

text \<open>The end of an interrupt of either controller is signalled to both: the test for the second one always
  succeeds.\<close>

lemma pic_eoi_both:
  "irq \<le> 15 \<Longrightarrow> pic_eoi irq st = outb_wait MASTER_COMMAND_PORT EOI (outb_wait SLAVE_COMMAND_PORT EOI st)"
  by (simp add: pic_eoi_def)

section \<open>Properties\<close>

text \<open>Masking and unmasking lines: on controllers that read back the mask last written, \<open>pic_enable_irq\<close>
  unmasks exactly its line, \<open>pic_disable_irq\<close> masks exactly its line, and after \<open>pic_init\<close> the line of
  the second controller is the only one that is not masked.\<close>

theorem pic_masks_correct:
  assumes "pic_reads_back (device st)" "irq \<le> 15" "j \<le> 15"
    and "last_out MASTER_DATA_PORT (trace st) \<noteq> None" "last_out SLAVE_DATA_PORT (trace st) \<noteq> None"
  shows "(masked (trace (pic_enable_irq irq st)) j \<longleftrightarrow> masked (trace st) j \<and> j \<noteq> irq) \<and>
    (masked (trace (pic_disable_irq irq st)) j \<longleftrightarrow> masked (trace st) j \<or> j = irq) \<and>
    (masked (trace (pic_init st)) j \<longleftrightarrow> j \<noteq> SLAVE_LINE)"
proof -
  have enable: "masked (trace (pic_enable_irq i s)) j \<longleftrightarrow> masked (trace s) j \<and> j \<noteq> i"
    if i: "i \<le> 15" and dev: "pic_reads_back (device s)"
      and de: "last_out (fst (pic_line i)) (trace s) = Some d" "last_out (fst (pic_line j)) (trace s) = Some e" for i s d e
    using masked_rewrite[OF dev i assms(3) de, of "\<lambda>x. x AND NOT (snd (pic_line i))"] masked_Some[OF de(2) assms(3)] de
      line_bit_inj[OF i assms(3)] line_bit_less[OF assms(3)]
    by (auto simp: pic_enable_trace[OF i] snd_pic_line bit_simps)
  have disable: "masked (trace (pic_disable_irq i s)) j \<longleftrightarrow> masked (trace s) j \<or> j = i"
    if i: "i \<le> 15" and dev: "pic_reads_back (device s)"
      and de: "last_out (fst (pic_line i)) (trace s) = Some d" "last_out (fst (pic_line j)) (trace s) = Some e" for i s d e
    using masked_rewrite[OF dev i assms(3) de, of "\<lambda>x. x OR snd (pic_line i)"] masked_Some[OF de(2) assms(3)] de
      line_bit_inj[OF i assms(3)] line_bit_less[OF assms(3)]
    by (auto simp: pic_disable_trace[OF i] snd_pic_line bit_simps)
  have ports: "\<exists>d. last_out (fst (pic_line i)) (trace st) = Some d" for i
    using pic_line_port(1)[of i] assms(4,5) by auto
  let ?s = "pic_disable_all (pic_remap st)"
  have last: "last_out (fst (pic_line i)) (trace ?s) = Some 0xFF" for i
    using pic_line_port(1)[of i] pic_remap_masks by auto
  have "masked (trace ?s) j" using masked_Some[OF last assms(3)] line_bit_less[OF assms(3)]
    by (auto simp: less_Suc_eq numeral_eq_Suc)
  then have "masked (trace (pic_init st)) j \<longleftrightarrow> j \<noteq> SLAVE_LINE"
    unfolding pic_init_def
    using enable[of SLAVE_LINE ?s "0xFF" "0xFF"] last assms(1) by (simp add: pic_remap_masks(3), simp add: pic_consts)
  then show ?thesis using enable[OF assms(2,1)] disable[OF assms(2,1)] ports by meson
qed

text \<open>A device that returns what was written last.\<close>

definition demo_device :: "port_op list \<Rightarrow> u16 \<Rightarrow> u32" where
  "demo_device h port = (case last_out port h of None \<Rightarrow> 0 | Some d \<Rightarrow> ucast d)"

lemma demo_device_reads_back: "pic_reads_back demo_device"
  by (auto simp: pic_reads_back_def demo_device_def intro!: bit_word_eqI) (auto simp: bit_simps)

theorem pic_masks_correct_witness:
  "\<not> masked (trace (pic_enable_irq 12 (pic_init \<lparr>trace = [Outb 0x21 0, Outb 0xA1 0], device = demo_device\<rparr>))) 12"
proof -
  let ?st = "\<lparr>trace = [Outb 0x21 0, Outb 0xA1 0], device = demo_device\<rparr>"
  have "device (pic_init ?st) = demo_device"
    by (simp add: pic_init_def pic_enable_irq_def pic_disable_all_def pic_remap_def inb_def outb_wait_def split: prod.splits)
  moreover have "last_out MASTER_DATA_PORT (trace (pic_init ?st)) \<noteq> None" "last_out SLAVE_DATA_PORT (trace (pic_init ?st)) \<noteq> None"
    by (simp_all add: pic_init_def pic_enable_irq_def pic_disable_all_def pic_remap_def pic_line_def inb_def pic_consts last_out_append)
  ultimately show ?thesis
    using pic_masks_correct[of "pic_init ?st" 12 12] demo_device_reads_back by simp
qed

end
