(* ===== verification/Logging.thy ===== *)
theory Logging
  imports Ports Kernel_Memory
begin

text \<open>
  Serial output (kernel/dev/com.c) and the formatted log on top of it (log/log.c).

  A \<^verbatim>\<open>char*\<close> is the list of the bytes of the object it points to, up to the object's end: reading
  past them is \<open>Out_of_bounds\<close>, also when no NUL has been met. The local buffers of the printing
  routines are lists of their declared length; a write below index 0 is \<open>Out_of_bounds\<close>. The variable
  arguments are a list of values tagged with their C type; taking one of another type, or one too
  many, is \<open>Bad_va_arg\<close>.
\<close>

section \<open>Serial output\<close>

definition SERIAL_COM1 :: u16 where "SERIAL_COM1 = 0x3F8"

definition SERIAL_DATA_PORT :: "u16 \<Rightarrow> u16" where "SERIAL_DATA_PORT base = base"
definition SERIAL_DIVISOR_HIGH_PORT :: "u16 \<Rightarrow> u16" where "SERIAL_DIVISOR_HIGH_PORT base = base + 1"
definition SERIAL_FIFO_COMMAND_PORT :: "u16 \<Rightarrow> u16" where "SERIAL_FIFO_COMMAND_PORT base = base + 2"
definition SERIAL_LINE_COMMAND_PORT :: "u16 \<Rightarrow> u16" where "SERIAL_LINE_COMMAND_PORT base = base + 3"
definition SERIAL_MODEM_COMMAND_PORT :: "u16 \<Rightarrow> u16" where "SERIAL_MODEM_COMMAND_PORT base = base + 4"
definition SERIAL_ENABLE_DLB :: u8 where "SERIAL_ENABLE_DLB = 0x80"

definition com_putc :: "u16 \<Rightarrow> byte \<Rightarrow> 'a io_state_scheme \<Rightarrow> 'a io_state_scheme" where
  "com_putc com c = outb (SERIAL_DATA_PORT com) c"

text \<open>\<^verbatim>\<open>__com_putc\<close>, \<^verbatim>\<open>__com_puts\<close> and \<^verbatim>\<open>__com_init\<close>, which C allows to begin with underscores.\<close>

definition com1_putc :: "byte \<Rightarrow> 'a io_state_scheme \<Rightarrow> 'a io_state_scheme" where
  "com1_putc c = com_putc SERIAL_COM1 c"

definition com_write :: "u16 \<Rightarrow> byte list \<Rightarrow> u32 \<Rightarrow> 'a io_state_scheme \<Rightarrow> 'a io_state_scheme kres" where
  "com_write com buf len st =
     for_natE (unat len)
       (\<lambda>i st. if unat i < length buf then Inr (com_putc com (buf ! unat i) st) else Inl Out_of_bounds) st"

function com1_puts_loop :: "byte list \<Rightarrow> nat \<Rightarrow> 'a io_state_scheme \<Rightarrow> 'a io_state_scheme kres" where
  "com1_puts_loop buf i st =
     (if i \<ge> length buf then Inl Out_of_bounds
      else if buf ! i = 0 then Inr st
      else if i + 1 \<ge> 2 ^ 31 then Inl Int_overflow
      else com1_puts_loop buf (i + 1) (com1_putc (buf ! i) st))"
  by pat_completeness auto
termination by (relation "measure (\<lambda>(buf, i, st). length buf - i)") auto

declare com1_puts_loop.simps [simp del]

definition com1_puts :: "byte list \<Rightarrow> 'a io_state_scheme \<Rightarrow> 'a io_state_scheme kres" where
  "com1_puts buf st = com1_puts_loop buf 0 st"

definition com_init_at :: "u16 \<Rightarrow> u16 \<Rightarrow> 'a io_state_scheme \<Rightarrow> 'a io_state_scheme" where
  "com_init_at com divisor st =
     (let st = outb (SERIAL_LINE_COMMAND_PORT com) SERIAL_ENABLE_DLB st;
          st = outb (SERIAL_DATA_PORT com) (ucast (divisor AND 0xFF)) st;
          st = outb (SERIAL_DIVISOR_HIGH_PORT com) (ucast (drop_bit 8 divisor AND 0xFF)) st;
          st = outb (SERIAL_LINE_COMMAND_PORT com) 0x03 st;
          st = outb (SERIAL_FIFO_COMMAND_PORT com) 0xC7 st
      in outb (SERIAL_MODEM_COMMAND_PORT com) 0x03 st)"

definition com_init :: "'a io_state_scheme \<Rightarrow> 'a io_state_scheme" where
  "com_init = com_init_at SERIAL_COM1 3"

section \<open>Printing numbers\<close>

text \<open>The bytes of the characters of a literal, and the object a string literal is.\<close>

definition chars :: "string \<Rightarrow> byte list" where
  "chars s = map of_char s"

definition literal_obj :: "string \<Rightarrow> byte list" where
  "literal_obj s = chars s @ [0]"

definition digits :: "byte list" where
  "digits = literal_obj ''0123456789abcdef''"

text \<open>\<^verbatim>\<open>for (int i = k - 1; i >= 0; i--) { buf[i] = digits[val & 0xF]; val >>= 4; }\<close>, where
  \<^verbatim>\<open>>>=\<close> on a signed value copies the sign.\<close>

primrec hex_loop :: "nat \<Rightarrow> 'a::len word \<Rightarrow> byte list \<Rightarrow> byte list" where
  "hex_loop 0 val buf = buf"
| "hex_loop (Suc i) val buf =
     hex_loop i (signed_drop_bit 4 val) (buf[i := digits ! unat (val AND 0xF)])"

definition print_x :: "u32 \<Rightarrow> 'a io_state_scheme \<Rightarrow> 'a io_state_scheme kres" where
  "print_x val st = com1_puts (hex_loop 8 val ((replicate 9 0)[8 := 0])) st"

definition print_lx :: "u64 \<Rightarrow> 'a io_state_scheme \<Rightarrow> 'a io_state_scheme kres" where
  "print_lx val st = com1_puts (hex_loop 16 val ((replicate 17 0)[16 := 0])) st"

text \<open>\<^verbatim>\<open>while (val) { buf[--i] = (val % 10) + ascii_offset; val /= 10; }\<close>, on a value that is not
  negative.\<close>

fun dec_loop :: "nat \<Rightarrow> nat \<Rightarrow> byte list \<Rightarrow> (nat \<times> byte list) kres" where
  "dec_loop i val buf =
     (if val = 0 then Inr (i, buf)
      else case i of
        0 \<Rightarrow> Inl Out_of_bounds
      | Suc j \<Rightarrow> dec_loop j (val div 10) (buf[j := of_nat (val mod 10) + of_char (CHR ''0'')]))"

declare dec_loop.simps [simp del]

definition print_u :: "u32 \<Rightarrow> 'a io_state_scheme \<Rightarrow> 'a io_state_scheme kres" where
  "print_u val st =
     (if val = 0 then Inr (com1_putc (of_char (CHR ''0'')) st)
      else kbind (dec_loop 10 (unat val) ((replicate 11 0)[10 := 0]))
        (\<lambda>(i, buf). com1_puts (drop i buf) st))"

definition print_lu :: "u64 \<Rightarrow> 'a io_state_scheme \<Rightarrow> 'a io_state_scheme kres" where
  "print_lu val st =
     (if val = 0 then Inr (com1_putc (of_char (CHR ''0'')) st)
      else kbind (dec_loop 20 (unat val) ((replicate 21 0)[20 := 0]))
        (\<lambda>(i, buf). com1_puts (drop i buf) st))"

text \<open>\<^verbatim>\<open>if (neg) buf[--i] = '-';\<close> and the call after it.\<close>

definition put_sign :: "bool \<Rightarrow> nat \<Rightarrow> byte list \<Rightarrow> (nat \<times> byte list) kres" where
  "put_sign neg i buf =
     (if neg then (case i of 0 \<Rightarrow> Inl Out_of_bounds | Suc j \<Rightarrow> Inr (j, buf[j := of_char (CHR ''-'')]))
      else Inr (i, buf))"

text \<open>The negation of the least value overflows.\<close>

definition print_d :: "u32 \<Rightarrow> 'a io_state_scheme \<Rightarrow> 'a io_state_scheme kres" where
  "print_d val st =
     (let neg = sint val < 0 in
      if val = 0 then Inr (com1_putc (of_char (CHR ''0'')) st)
      else if neg \<and> - sint val \<ge> 2 ^ 31 then Inl Int_overflow
      else kbind (dec_loop 11 (nat (if neg then - sint val else sint val)) ((replicate 12 0)[11 := 0]))
        (\<lambda>(i, buf). kbind (put_sign neg i buf) (\<lambda>(i, buf). com1_puts (drop i buf) st)))"

definition print_ld :: "u64 \<Rightarrow> 'a io_state_scheme \<Rightarrow> 'a io_state_scheme kres" where
  "print_ld val st =
     (let neg = sint val < 0 in
      if val = 0 then Inr (com1_putc (of_char (CHR ''0'')) st)
      else if neg \<and> - sint val \<ge> 2 ^ 63 then Inl Int_overflow
      else kbind (dec_loop 20 (nat (if neg then - sint val else sint val)) ((replicate 21 0)[20 := 0]))
        (\<lambda>(i, buf). kbind (put_sign neg i buf) (\<lambda>(i, buf). com1_puts (drop i buf) st)))"

section \<open>The formatted log\<close>

definition print_level :: "log_level_t \<Rightarrow> 'a io_state_scheme \<Rightarrow> 'a io_state_scheme kres" where
  "print_level level st =
     (case level of
        INFO \<Rightarrow> com1_puts (literal_obj ''[INFO]: '') st
      | TODO \<Rightarrow> com1_puts (literal_obj ''[TODO]: '') st
      | ERROR \<Rightarrow> com1_puts (literal_obj ''[ERROR]: '') st
      | WARNING \<Rightarrow> com1_puts (literal_obj ''[WARNING]: '') st
      | NONE \<Rightarrow> Inr st)"

text \<open>An argument: a 32-bit or a 64-bit integer, or a pointer to characters.\<close>

datatype va_value = V_int u32 | V_long u64 | V_str "byte list"

type_synonym va_list = "va_value list"

definition va_int :: "va_list \<Rightarrow> (u32 \<times> va_list) kres" where
  "va_int args = (case args of V_int v # rest \<Rightarrow> Inr (v, rest) | _ \<Rightarrow> Inl Bad_va_arg)"

definition va_long :: "va_list \<Rightarrow> (u64 \<times> va_list) kres" where
  "va_long args = (case args of V_long v # rest \<Rightarrow> Inr (v, rest) | _ \<Rightarrow> Inl Bad_va_arg)"

definition va_str :: "va_list \<Rightarrow> (byte list \<times> va_list) kres" where
  "va_str args = (case args of V_str s # rest \<Rightarrow> Inr (s, rest) | _ \<Rightarrow> Inl Bad_va_arg)"

text \<open>Take an argument and print it.\<close>

definition print_arg :: "(va_list \<Rightarrow> ('v \<times> va_list) kres) \<Rightarrow> ('v \<Rightarrow> 'a io_state_scheme \<Rightarrow> 'a io_state_scheme kres)
    \<Rightarrow> va_list \<Rightarrow> 'a io_state_scheme \<Rightarrow> (va_list \<times> 'a io_state_scheme) option kres" where
  "print_arg take_arg print_val args st =
     kbind (take_arg args) (\<lambda>(v, args). kbind (print_val v st) (\<lambda>st. Inr (Some (args, st))))"

text \<open>The two inner \<^verbatim>\<open>switch\<close> statements, on the byte after \<^verbatim>\<open>%\<close> and the byte after \<^verbatim>\<open>%l\<close>; \<open>None\<close> is
  \<^verbatim>\<open>return -1\<close>.\<close>

definition log_short :: "byte \<Rightarrow> va_list \<Rightarrow> 'a io_state_scheme \<Rightarrow> (va_list \<times> 'a io_state_scheme) option kres" where
  "log_short c args st =
     (if c = of_char (CHR ''%'') then Inr (Some (args, com1_putc (of_char (CHR ''%'')) st))
      else if c = of_char (CHR ''c'') then print_arg va_int (\<lambda>v st. Inr (com1_putc (ucast v) st)) args st
      else if c = of_char (CHR ''s'') then print_arg va_str com1_puts args st
      else if c = of_char (CHR ''x'') then print_arg va_int print_x args st
      else if c = of_char (CHR ''u'') then print_arg va_int print_u args st
      else if c = of_char (CHR ''d'') then print_arg va_int print_d args st
      else Inr None)"

definition log_long :: "byte \<Rightarrow> va_list \<Rightarrow> 'a io_state_scheme \<Rightarrow> (va_list \<times> 'a io_state_scheme) option kres" where
  "log_long c args st =
     (if c = of_char (CHR ''x'') then print_arg va_long print_lx args st
      else if c = of_char (CHR ''u'') then print_arg va_long print_lu args st
      else if c = of_char (CHR ''d'') then print_arg va_long print_ld args st
      else Inr None)"

text \<open>One round of the loop on a format that does not start with NUL: what is left of the format and
  of the arguments, or \<open>None\<close> for \<^verbatim>\<open>return -1\<close>, where the output stays what it was.\<close>

definition log_round :: "byte list \<Rightarrow> va_list \<Rightarrow> 'a io_state_scheme
    \<Rightarrow> (byte list \<times> va_list \<times> 'a io_state_scheme) option kres" where
  "log_round buf args st =
     (let next = \<lambda>buf. map_sum id (map_option (\<lambda>(args, st). (buf, args, st))) in
      case buf of
        [] \<Rightarrow> Inl Out_of_bounds
      | c # buf \<Rightarrow>
          if c \<noteq> of_char (CHR ''%'') then Inr (Some (buf, args, com1_putc c st))
          else (case buf of
              [] \<Rightarrow> Inl Out_of_bounds
            | c # buf \<Rightarrow>
                if c = 0 then Inr None
                else if c \<noteq> of_char (CHR ''l'') then next buf (log_short c args st)
                else (case buf of
                    [] \<Rightarrow> Inl Out_of_bounds
                  | c # buf \<Rightarrow>
                      if c = 0 then Inr None
                      else next buf (log_long c args st))))"

lemma log_round_shorter: "log_round buf args st = Inr (Some (buf', args', st')) \<Longrightarrow> length buf' < length buf"
  by (auto simp: log_round_def Let_def map_sum_def map_option_case
      split: list.splits if_splits sum.splits option.splits)

function log_loop :: "byte list \<Rightarrow> va_list \<Rightarrow> 'a io_state_scheme \<Rightarrow> (int \<times> 'a io_state_scheme) kres" where
  "log_loop buf args st =
     (if buf = [] then Inl Out_of_bounds
      else if hd buf = 0 then Inr (0, st)
      else case log_round buf args st of
        Inl e \<Rightarrow> Inl e
      | Inr None \<Rightarrow> Inr (-1, st)
      | Inr (Some (buf, args, st)) \<Rightarrow> log_loop buf args st)"
  by pat_completeness auto
termination
  by (relation "measure (\<lambda>(buf, args, st). length buf)") (auto intro: log_round_shorter)

declare log_loop.simps [simp del]

definition log_impl :: "log_level_t \<Rightarrow> byte list \<Rightarrow> va_list \<Rightarrow> 'a io_state_scheme \<Rightarrow> (int \<times> 'a io_state_scheme) kres" where
  "log_impl level format args st = kbind (print_level level st) (log_loop format args)"

section \<open>What is printed\<close>

text \<open>The state after the bytes \<open>bs\<close> have gone to the first serial port, in order.\<close>

definition emit :: "byte list \<Rightarrow> 'a io_state_scheme \<Rightarrow> 'a io_state_scheme" where
  "emit bs st = st\<lparr>trace := trace st @ map (Outb SERIAL_COM1) bs\<rparr>"

text \<open>Numbers in base 10 and base 16, and the values such strings denote.\<close>

fun dec_digits :: "nat \<Rightarrow> byte list" where
  "dec_digits n = (if n = 0 then [] else dec_digits (n div 10) @ [of_nat (n mod 10) + 48])"

declare dec_digits.simps [simp del]

definition dec_string :: "int \<Rightarrow> byte list" where
  "dec_string v = (if v = 0 then [48] else (if v < 0 then [45] else []) @ dec_digits (nat \<bar>v\<bar>))"

primrec hex_string :: "nat \<Rightarrow> nat \<Rightarrow> byte list" where
  "hex_string 0 n = []"
| "hex_string (Suc k) n = hex_string k (n div 16) @ [digits ! (n mod 16)]"

definition dec_digit_value :: "byte \<Rightarrow> nat" where
  "dec_digit_value b = unat b - 48"

definition hex_digit_value :: "byte \<Rightarrow> nat" where
  "hex_digit_value b = (if b \<ge> 97 then unat b - 87 else unat b - 48)"

definition dec_value :: "byte list \<Rightarrow> int" where
  "dec_value bs =
     (let val = \<lambda>bs. int (foldl (\<lambda>v b. 10 * v + dec_digit_value b) 0 bs) in
      case bs of [] \<Rightarrow> 0 | b # rest \<Rightarrow> if b = 45 then - val rest else val bs)"

definition hex_value :: "byte list \<Rightarrow> nat" where
  "hex_value = foldl (\<lambda>v b. 16 * v + hex_digit_value b) 0"

lemma of_char_digits [simp]:
  "of_char (CHR ''0'') = (48 :: byte)" "of_char (CHR ''-'') = (45 :: byte)" "of_char (CHR ''%'') = (37 :: byte)"
  "of_char (CHR ''c'') = (99 :: byte)" "of_char (CHR ''s'') = (115 :: byte)" "of_char (CHR ''x'') = (120 :: byte)"
  "of_char (CHR ''u'') = (117 :: byte)" "of_char (CHR ''d'') = (100 :: byte)" "of_char (CHR ''l'') = (108 :: byte)"
  by (simp_all add: of_char_def)

lemma emit_simps [simp]:
  "trace (emit bs st) = trace st @ map (Outb SERIAL_COM1) bs" "device (emit bs st) = device st"
  by (simp_all add: emit_def)

lemma emit_emit [simp]: "emit bs (emit as st) = emit (as @ bs) st"
  by (simp add: emit_def)

lemma emit_Nil [simp]: "emit [] st = st"
  by (simp add: emit_def)

lemma emit_inj: "emit as st = emit bs st \<longleftrightarrow> as = bs"
  by (metis emit_simps(1) list.inj_map_strong port_op.inject(1) same_append_eq)

lemma com1_putc_emit [simp]: "com1_putc c st = emit [c] st"
  by (simp add: com1_putc_def com_putc_def outb_def port_access_def emit_def SERIAL_DATA_PORT_def)

text \<open>A string is printed up to its NUL.\<close>

lemma com1_puts_loop_run:
  assumes "i \<le> length bs" "0 \<notin> set bs" "length bs < 2 ^ 31"
  shows "com1_puts_loop (bs @ 0 # rest) i st = Inr (emit (drop i bs) st)"
  using assms(1)
proof (induction arbitrary: st rule: inc_induct)
  case base
  then show ?case by (subst com1_puts_loop.simps) simp
next
  case (step i)
  have "bs ! i \<noteq> 0" using step.hyps assms(2) by (metis nth_mem)
  then show ?case
    using step assms(3) by (subst com1_puts_loop.simps) (simp add: nth_append Cons_nth_drop_Suc[symmetric])
qed

lemma com1_puts_emit:
  assumes "0 \<notin> set bs" "length bs < 2 ^ 31"
  shows "com1_puts (bs @ 0 # rest) st = Inr (emit bs st)"
  using com1_puts_loop_run[OF _ assms, of 0] by (simp add: com1_puts_def)

lemma com1_puts_no_nul:
  assumes "0 \<notin> set bs" "length bs < 2 ^ 31"
  shows "com1_puts bs st = Inl Out_of_bounds"
proof -
  have "i \<le> length bs \<Longrightarrow> com1_puts_loop bs i st = Inl Out_of_bounds" for i
  proof (induction arbitrary: st rule: inc_induct)
    case base
    then show ?case by (subst com1_puts_loop.simps) simp
  next
    case (step i)
    moreover have "bs ! i \<noteq> 0" using step.hyps assms(1) by (metis nth_mem)
    ultimately show ?case using assms by (subst com1_puts_loop.simps) auto
  qed
  then show ?thesis by (simp add: com1_puts_def)
qed

section \<open>Decimal\<close>

lemma dec_digits_length: "n < 10 ^ k \<Longrightarrow> length (dec_digits n) \<le> k"
proof (induction k arbitrary: n)
  case 0
  then show ?case by (subst dec_digits.simps) simp
next
  case (Suc k)
  then have "n div 10 < 10 ^ k" by (simp add: less_mult_imp_div_less mult.commute)
  with Suc.IH show ?case by (subst dec_digits.simps) simp
qed

lemma dec_byte: "d < 10 \<Longrightarrow> unat (of_nat d + 48 :: byte) = d + 48"
  by (simp add: unat_add_lem[THEN iffD1])

lemma dec_digits_range: "b \<in> set (dec_digits n) \<Longrightarrow> 48 \<le> unat b \<and> unat b < 58"
proof (induction n rule: dec_digits.induct)
  case (1 n)
  show ?case
  proof (cases "n = 0")
    case False
    then have "b \<in> set (dec_digits (n div 10)) \<or> b = of_nat (n mod 10) + 48"
      using "1.prems" by (subst (asm) dec_digits.simps) auto
    then show ?thesis using "1.IH"[OF False] dec_byte[of "n mod 10"] by auto
  qed (use "1.prems" in \<open>simp add: dec_digits.simps\<close>)
qed

lemma dec_digits_no_nul: "0 \<notin> set (dec_digits n)" "45 \<notin> set (dec_digits n)"
  using dec_digits_range[of 0 n] dec_digits_range[of 45 n] by auto

lemma dec_digits_value: "foldl (\<lambda>v b. 10 * v + dec_digit_value b) 0 (dec_digits n) = n"
proof (induction n rule: dec_digits.induct)
  case (1 n)
  then show ?case
    by (cases "n = 0") (subst dec_digits.simps, simp add: dec_digit_value_def dec_byte)+
qed

lemma dec_string_value: "dec_value (dec_string v) = v"
proof (cases "v = 0")
  case False
  have "dec_digits (nat \<bar>v\<bar>) \<noteq> []" using False by (subst dec_digits.simps) simp
  then obtain b bs where eq: "dec_digits (nat \<bar>v\<bar>) = b # bs" by (cases "dec_digits (nat \<bar>v\<bar>)") auto
  then have "b \<noteq> 45" using dec_digits_no_nul(2)[of "nat \<bar>v\<bar>"] by auto
  then show ?thesis
    using False dec_digits_value[of "nat \<bar>v\<bar>"] eq by (auto simp: dec_value_def dec_string_def)
qed (simp add: dec_value_def dec_string_def dec_digit_value_def)

lemma dec_string_no_nul: "0 \<notin> set (dec_string v)"
  using dec_digits_no_nul by (auto simp: dec_string_def)

text \<open>The loop writes the digits right before index \<open>i\<close>.\<close>

lemma dec_loop_digits:
  assumes "length (dec_digits n) \<le> i" "i \<le> length buf"
  shows "\<exists>pre. dec_loop i n buf = Inr (i - length (dec_digits n), pre @ dec_digits n @ drop i buf) \<and>
    length pre = i - length (dec_digits n)"
  using assms
proof (induction n arbitrary: i buf rule: dec_digits.induct)
  case (1 n)
  show ?case
  proof (cases "n = 0")
    case True
    then show ?thesis using "1.prems"
      by (subst dec_loop.simps) (auto simp: dec_digits.simps intro!: exI[of _ "take i buf"])
  next
    case False
    define b :: byte where "b = of_nat (n mod 10) + 48"
    have dd: "dec_digits n = dec_digits (n div 10) @ [b]" using False by (subst dec_digits.simps) (simp add: b_def)
    then obtain j where i: "i = Suc j" using "1.prems"(1) by (cases i) auto
    have step: "dec_loop i n buf = dec_loop j (n div 10) (buf[j := b])"
      using False i by (subst dec_loop.simps) (simp add: b_def)
    obtain pre where pre: "dec_loop j (n div 10) (buf[j := b]) =
        Inr (j - length (dec_digits (n div 10)), pre @ dec_digits (n div 10) @ drop j (buf[j := b]))"
      "length pre = j - length (dec_digits (n div 10))"
      using "1.IH"[OF False, of j "buf[j := b]"] "1.prems" i dd by auto
    have "drop j (buf[j := b]) = b # drop i buf"
      using "1.prems"(2) i by (simp add: drop_update_swap Cons_nth_drop_Suc[symmetric])
    then show ?thesis using step pre dd i by auto
  qed
qed

lemma fresh_buffer: "(replicate (Suc k) 0)[k := 0] = (replicate k 0 @ [0] :: byte list)"
  by (metis list_update_id nth_replicate lessI replicate_append_same replicate_Suc)

lemma print_dec:
  assumes "n < 10 ^ k" "n \<noteq> 0" "k < 100"
  shows "kbind (dec_loop k n ((replicate (Suc k) 0)[k := 0])) (\<lambda>(i, buf). com1_puts (drop i buf) st)
    = Inr (emit (dec_string (int n)) st)"
proof -
  have len: "length (dec_digits n) \<le> k" by (rule dec_digits_length) fact
  then obtain pre where "dec_loop k n ((replicate (Suc k) 0)[k := 0]) =
      Inr (k - length (dec_digits n), pre @ dec_digits n @ [0])" "length pre = k - length (dec_digits n)"
    using dec_loop_digits[of n k "replicate k 0 @ [0]"] by (auto simp: fresh_buffer simp del: replicate_Suc)
  then show ?thesis
    using assms(2,3) len com1_puts_emit[OF dec_digits_no_nul(1)[of n], of "[]"] by (simp add: dec_string_def)
qed

lemma print_dec_signed:
  assumes "n < 10 ^ k" "n \<noteq> 0" "k < 100"
  shows "kbind (dec_loop (Suc k) n ((replicate (Suc (Suc k)) 0)[Suc k := 0])) (\<lambda>(i, buf).
      kbind (put_sign neg i buf) (\<lambda>(i, buf). com1_puts (drop i buf) st))
    = Inr (emit (dec_string (if neg then - int n else int n)) st)"
proof -
  have len: "length (dec_digits n) \<le> k" by (rule dec_digits_length) fact
  then obtain pre where loop: "dec_loop (Suc k) n ((replicate (Suc (Suc k)) 0)[Suc k := 0]) =
      Inr (Suc k - length (dec_digits n), pre @ dec_digits n @ [0])"
    and pre: "length pre = Suc k - length (dec_digits n)"
    using dec_loop_digits[of n "Suc k" "replicate (Suc k) 0 @ [0]"] by (auto simp: fresh_buffer simp del: replicate_Suc)
  show ?thesis
  proof (cases neg)
    case False
    then show ?thesis
      using loop pre assms(2,3) len com1_puts_emit[OF dec_digits_no_nul(1)[of n], of "[]"]
      by (simp add: dec_string_def put_sign_def)
  next
    case True
    define j where "j = k - length (dec_digits n)"
    have j: "Suc k - length (dec_digits n) = Suc j" using len by (simp add: j_def)
    have upd: "drop j ((pre @ dec_digits n @ [0])[j := 45]) = (45 # dec_digits n) @ [0]"
      using pre j by (simp add: list_update_append Cons_nth_drop_Suc[symmetric] drop_update_swap)
    have "com1_puts ((45 # dec_digits n) @ 0 # []) st = Inr (emit (45 # dec_digits n) st)"
      using dec_digits_no_nul(1)[of n] assms(3) len by (intro com1_puts_emit) auto
    then show ?thesis
      using loop upd True assms(2) by (simp add: j put_sign_def dec_string_def)
  qed
qed

lemma unat_u32_bound: "unat (v :: u32) < 2 ^ 32"
  using unsigned_less[of v] by simp

lemma unat_dec_bounds: "unat (v :: u32) < 10 ^ 10" "unat (w :: u64) < 10 ^ 20"
  using unat_u64_bound[of w] unat_u32_bound[of v] by simp_all

lemma print_u_emit: "print_u val st = Inr (emit (dec_string (int (unat val))) st)"
  using print_dec[OF unat_dec_bounds(1), of val st]
  by (auto simp: print_u_def unat_eq_zero dec_string_def eval_nat_numeral)

lemma print_lu_emit: "print_lu val st = Inr (emit (dec_string (int (unat val))) st)"
  using print_dec[OF unat_dec_bounds(2), of val st]
  by (auto simp: print_lu_def unat_eq_zero dec_string_def eval_nat_numeral)

lemma print_d_emit:
  "print_d val st = (if sint val = - (2 ^ 31) then Inl Int_overflow else Inr (emit (dec_string (sint val)) st))"
proof (cases "val = 0 \<or> sint val = - (2 ^ 31)")
  case False
  have range: "- (2 ^ 31) < sint val" "sint val < 2 ^ 31" "sint val \<noteq> 0"
    using False sint_ge[of val] sint_lt[of val] by (simp_all add: signed_eq_0_iff)
  have "kbind (dec_loop (Suc 10) (nat \<bar>sint val\<bar>) ((replicate (Suc (Suc 10)) 0)[Suc 10 := 0])) (\<lambda>(i, buf).
      kbind (put_sign (sint val < 0) i buf) (\<lambda>(i, buf). com1_puts (drop i buf) st))
    = Inr (emit (dec_string (sint val)) st)"
    using range by (subst print_dec_signed) auto
  then show ?thesis
    using False range by (simp add: print_d_def eval_nat_numeral abs_if)
qed (auto simp: print_d_def dec_string_def)

lemma print_ld_emit:
  "print_ld val st = (if sint val = - (2 ^ 63) then Inl Int_overflow else Inr (emit (dec_string (sint val)) st))"
proof (cases "val = 0 \<or> sint val = - (2 ^ 63)")
  case False
  have range: "- (2 ^ 63) < sint val" "sint val < 2 ^ 63" "sint val \<noteq> 0"
    using False sint_ge[of val] sint_lt[of val] by (simp_all add: signed_eq_0_iff)
  have "kbind (dec_loop (Suc 19) (nat \<bar>sint val\<bar>) ((replicate (Suc (Suc 19)) 0)[Suc 19 := 0])) (\<lambda>(i, buf).
      kbind (put_sign (sint val < 0) i buf) (\<lambda>(i, buf). com1_puts (drop i buf) st))
    = Inr (emit (dec_string (sint val)) st)"
    using range by (subst print_dec_signed) auto
  then show ?thesis
    using False range by (simp add: print_ld_def eval_nat_numeral abs_if)
qed (auto simp: print_ld_def dec_string_def)

section \<open>Hexadecimal\<close>

lemma digits_nth: "d < 16 \<Longrightarrow> digits ! d \<noteq> 0 \<and> hex_digit_value (digits ! d) = d"
proof -
  have "\<forall>d\<in>set [0..<16]. digits ! d \<noteq> 0 \<and> hex_digit_value (digits ! d) = d" by code_simp
  moreover assume "d < 16"
  ultimately show ?thesis by simp
qed

lemma hex_string_props:
  "length (hex_string k n) = k" "0 \<notin> set (hex_string k n)" "hex_value (hex_string k n) = n mod 16 ^ k"
proof (induction k arbitrary: n)
  case (Suc k)
  {
    case 3
    have "16 * (n div 16 mod 16 ^ k) + n mod 16 = n mod 16 ^ Suc k"
      by (simp add: mod_mult2_eq)
    then show ?case using Suc(3) digits_nth[of "n mod 16"] by (simp add: hex_value_def)
  }
qed (auto simp: digits_nth hex_value_def dest: sym)

text \<open>The low digit after \<open>j\<close> shifts: the copies of the sign have not reached it.\<close>

lemma shifted_digit:
  fixes w :: "'a::len word"
  assumes "4 * j + 4 \<le> LENGTH('a)"
  shows "unat (signed_drop_bit (4 * j) w AND 0xF) = unat w div 16 ^ j mod 16"
proof -
  have "(0xF :: 'a word) = mask 4" by (simp add: mask_eq_exp_minus_1)
  moreover have "signed_drop_bit (4 * j) w AND mask 4 = take_bit 4 (drop_bit (4 * j) w)"
    using assms by (intro bit_word_eqI) (auto simp: bit_simps simp del: take_bit_eq_mask)
  ultimately have "signed_drop_bit (4 * j) w AND 0xF = take_bit 4 (drop_bit (4 * j) w)" by metis
  then show ?thesis
    by (simp only: unat_take_bit unat_drop_bit_eq) (simp add: drop_bit_eq_div power_mult)
qed

lemma hex_loop_digits:
  fixes w :: "'a::len word"
  assumes "4 * (k + j) \<le> LENGTH('a)" "k \<le> length buf"
  shows "hex_loop k (signed_drop_bit (4 * j) w) buf = hex_string k (unat w div 16 ^ j) @ drop k buf"
  using assms
proof (induction k arbitrary: j buf)
  case (Suc k)
  have "hex_loop (Suc k) (signed_drop_bit (4 * j) w) buf =
    hex_loop k (signed_drop_bit (4 * Suc j) w) (buf[k := digits ! (unat w div 16 ^ j mod 16)])"
    using Suc.prems(1) by (simp add: shifted_digit signed_drop_bit_signed_drop_bit add.commute)
  also have "\<dots> = hex_string k (unat w div 16 ^ Suc j) @ drop k (buf[k := digits ! (unat w div 16 ^ j mod 16)])"
    using Suc.prems by (intro Suc.IH) auto
  also have "unat w div 16 ^ Suc j = unat w div 16 ^ j div 16" by (simp add: div_mult2_eq[symmetric] mult.commute)
  finally show ?case
    using Suc.prems(2) by (simp add: drop_update_swap Cons_nth_drop_Suc[symmetric])
qed simp

lemma print_hex:
  assumes "4 * k \<le> LENGTH('a)" "k < 100"
  shows "com1_puts (hex_loop k (val :: 'a::len word) ((replicate (Suc k) 0)[k := 0])) st = Inr (emit (hex_string k (unat val)) st)"
proof -
  have "hex_loop k val (replicate k 0 @ [0]) = hex_string k (unat val) @ 0 # []"
    using hex_loop_digits[of k 0 "replicate k 0 @ [0]" val] assms(1) by simp
  then show ?thesis
    using com1_puts_emit[of "hex_string k (unat val)" "[]" st] assms(2)
    by (simp add: fresh_buffer hex_string_props del: replicate_Suc)
qed

lemma print_x_emit: "print_x val st = Inr (emit (hex_string 8 (unat val)) st)"
  using print_hex[of 8 val st] by (simp add: print_x_def del: replicate.simps hex_string.simps hex_loop.simps)

lemma print_lx_emit: "print_lx val st = Inr (emit (hex_string 16 (unat val)) st)"
  using print_hex[of 16 val st] by (simp add: print_lx_def del: replicate.simps hex_string.simps hex_loop.simps)

section \<open>Formats\<close>

text \<open>A format that the logger accepts is a sequence of items: a plain character or a conversion with
  its argument.\<close>

datatype item =
    Plain byte
  | Percent
  | Conv_c u32
  | Conv_s "byte list"
  | Conv_x u32
  | Conv_u u32
  | Conv_d u32
  | Conv_lx u64
  | Conv_lu u64
  | Conv_ld u64

fun item_format :: "item \<Rightarrow> byte list" where
  "item_format (Plain b) = [b]"
| "item_format Percent = chars ''%%''"
| "item_format (Conv_c _) = chars ''%c''"
| "item_format (Conv_s _) = chars ''%s''"
| "item_format (Conv_x _) = chars ''%x''"
| "item_format (Conv_u _) = chars ''%u''"
| "item_format (Conv_d _) = chars ''%d''"
| "item_format (Conv_lx _) = chars ''%lx''"
| "item_format (Conv_lu _) = chars ''%lu''"
| "item_format (Conv_ld _) = chars ''%ld''"

fun item_args :: "item \<Rightarrow> va_list" where
  "item_args (Conv_c v) = [V_int v]"
| "item_args (Conv_s s) = [V_str (s @ [0])]"
| "item_args (Conv_x v) = [V_int v]"
| "item_args (Conv_u v) = [V_int v]"
| "item_args (Conv_d v) = [V_int v]"
| "item_args (Conv_lx v) = [V_long v]"
| "item_args (Conv_lu v) = [V_long v]"
| "item_args (Conv_ld v) = [V_long v]"
| "item_args _ = []"

fun item_text :: "item \<Rightarrow> byte list" where
  "item_text (Plain b) = [b]"
| "item_text Percent = chars ''%''"
| "item_text (Conv_c v) = [ucast v]"
| "item_text (Conv_s s) = s"
| "item_text (Conv_x v) = hex_string 8 (unat v)"
| "item_text (Conv_u v) = dec_string (int (unat v))"
| "item_text (Conv_d v) = dec_string (sint v)"
| "item_text (Conv_lx v) = hex_string 16 (unat v)"
| "item_text (Conv_lu v) = dec_string (int (unat v))"
| "item_text (Conv_ld v) = dec_string (sint v)"

fun item_ok :: "item \<Rightarrow> bool" where
  "item_ok (Plain b) \<longleftrightarrow> b \<noteq> 0 \<and> b \<noteq> of_char (CHR ''%'')"
| "item_ok (Conv_s s) \<longleftrightarrow> 0 \<notin> set s \<and> length s < 2 ^ 31"
| "item_ok (Conv_d v) \<longleftrightarrow> sint v \<noteq> - (2 ^ 31)"
| "item_ok (Conv_ld v) \<longleftrightarrow> sint v \<noteq> - (2 ^ 63)"
| "item_ok _ \<longleftrightarrow> True"

definition level_text :: "log_level_t \<Rightarrow> string" where
  "level_text level =
     (case level of INFO \<Rightarrow> ''[INFO]: '' | TODO \<Rightarrow> ''[TODO]: '' | ERROR \<Rightarrow> ''[ERROR]: ''
      | WARNING \<Rightarrow> ''[WARNING]: '' | NONE \<Rightarrow> [])"

lemmas print_emit = print_x_emit print_lx_emit print_u_emit print_lu_emit print_d_emit print_ld_emit

lemma log_round_item:
  assumes "item_ok it"
  shows "log_round (item_format it @ buf) (item_args it @ args) st = Inr (Some (buf, args, emit (item_text it) st))"
  using assms
  by (cases it)
    (simp_all add: log_round_def log_short_def log_long_def print_arg_def va_int_def va_long_def va_str_def chars_def
      print_emit com1_puts_emit del: hex_string.simps)

lemma item_format_hd: "item_ok it \<Longrightarrow> \<exists>c cs. item_format it = c # cs \<and> c \<noteq> 0"
  by (cases it) (simp_all add: chars_def)

lemma log_loop_items:
  assumes "list_all item_ok its"
  shows "log_loop (concat (map item_format its) @ buf) (concat (map item_args its) @ args) st
    = log_loop buf args (emit (concat (map item_text its)) st)"
  using assms
proof (induction its arbitrary: st)
  case (Cons it its)
  from Cons.prems have ok: "item_ok it" "list_all item_ok its" by simp_all
  then obtain c cs where fmt: "item_format it = c # cs" "c \<noteq> 0" using item_format_hd by blast
  have "log_loop (concat (map item_format (it # its)) @ buf) (concat (map item_args (it # its)) @ args) st =
    log_loop (concat (map item_format its) @ buf) (concat (map item_args its) @ args) (emit (item_text it) st)"
    using log_round_item[OF ok(1), of "concat (map item_format its) @ buf" "concat (map item_args its) @ args" st] fmt
    by (subst log_loop.simps) simp
  also have "\<dots> = log_loop buf args (emit (concat (map item_text its)) (emit (item_text it) st))"
    by (rule Cons.IH[OF ok(2)])
  finally show ?case by simp
qed simp

lemma print_level_emit: "print_level level st = Inr (emit (chars (level_text level)) st)"
proof -
  have "com1_puts (literal_obj (level_text level)) st = Inr (emit (chars (level_text level)) st)"
    unfolding literal_obj_def
    by (rule com1_puts_emit) (cases level; simp add: level_text_def chars_def of_char_def)+
  then show ?thesis
    by (cases level) (simp_all add: print_level_def level_text_def chars_def)
qed

lemma log_impl_items:
  assumes "list_all item_ok its"
  shows "log_impl level (concat (map item_format its) @ buf) (concat (map item_args its) @ args) st
    = log_loop buf args (emit (chars (level_text level) @ concat (map item_text its)) st)"
  by (simp add: log_impl_def print_level_emit log_loop_items[OF assms])

section \<open>Properties\<close>


text \<open>A message with a negative number.\<close>

definition demo_items :: "item list" where
  "demo_items = map (Plain \<circ> of_char) ''id '' @ [Conv_ld (- 7), Percent]"

lemma demo_items_format: "concat (map item_format demo_items) = chars ''id %ld%%''"
  by (simp add: demo_items_def chars_def)

lemma demo_items_ok: "list_all item_ok demo_items"
  by (simp add: demo_items_def of_char_def)

lemma demo_items_text: "concat (map item_text demo_items) = chars ''id -7%''"
  by (simp add: demo_items_def chars_def dec_string_def dec_digits.simps of_char_def)


text \<open>C30. Malformed formats: after any well-formed items, a \<^verbatim>\<open>%\<close> or a \<^verbatim>\<open>%l\<close> that ends the format, or that is
  followed by a character that is no conversion, makes the logger return -1, with exactly what precedes
  it printed.\<close>

theorem log_impl_malformed:
  fixes st :: "'a io_state_scheme"
  assumes "list_all item_ok its"
    and "(c \<notin> set (chars ''%csxudl'') \<and> bad = chars ''%'' @ [c]) \<or> (c \<notin> set (chars ''xud'') \<and> bad = chars ''%l'' @ [c])"
  shows "log_impl level (concat (map item_format its) @ bad @ rest) (concat (map item_args its) @ args) st
    = Inr (-1, st\<lparr>trace := trace st @ map (Outb SERIAL_COM1) (chars (level_text level) @ concat (map item_text its))\<rparr>)"
proof -
  have "log_round (bad @ rest) args s = Inr None" for s :: "'a io_state_scheme"
    using assms(2) by (auto simp: log_round_def log_short_def log_long_def chars_def)
  moreover have "bad \<noteq> [] \<and> hd bad \<noteq> 0" using assms(2) by (auto simp: chars_def)
  ultimately show ?thesis
    using log_impl_items[OF assms(1), of level "bad @ rest" args st] by (simp add: log_loop.simps emit_def)
qed

theorem log_impl_malformed_witness:
  "log_impl NONE (literal_obj ''id %ld%%%l'') [V_long (- 7)] \<lparr>trace = [], device = \<lambda>h p. 0\<rparr>
    = Inr (-1, \<lparr>trace = map (Outb SERIAL_COM1) (chars ''id -7%''), device = \<lambda>h p. 0\<rparr>)"
proof -
  have "0 \<notin> set (chars ''xud'')" by (simp add: chars_def)
  then show ?thesis
    using log_impl_malformed[OF demo_items_ok, of 0 "chars ''%l'' @ [0]" NONE "[]" "[]" "\<lparr>trace = [], device = \<lambda>h p. 0\<rparr>"]
    unfolding demo_items_format demo_items_text literal_obj_def
    by (simp add: demo_items_def level_text_def chars_def)
qed


end
