(* ===== verification/Gdt.thy ===== *)
theory Gdt
  imports Kernel_Prelude "HOL-Library.Numeral_Type"
begin

text \<open>
  The global descriptor table of kernel/mm/gdt.c. A bit field of w bits is a \<open>w word\<close>. The addresses
  of the objects \<^verbatim>\<open>tss\<close> and \<^verbatim>\<open>gdt\<close> are chosen by the linker. \<^verbatim>\<open>gdt_load\<close> of gdt.S loads the register
  GDTR and the segment registers. What the processor reads in a descriptor is spelt out by the \<open>seg_\<close>
  and \<open>tss_\<close> functions.
\<close>

section \<open>Definitions\<close>

definition GDT_ENTRIES :: nat where "GDT_ENTRIES = 5"
definition GDT_ACCESS_PRESENT :: u8 where "GDT_ACCESS_PRESENT = 0x80"
definition GDT_ACCESS_PL3 :: u8 where "GDT_ACCESS_PL3 = 0x60"
definition GDT_ACCESS_SEG_SYS :: u8 where "GDT_ACCESS_SEG_SYS = 0x10"
definition GDT_ACCESS_EXEC :: u8 where "GDT_ACCESS_EXEC = 0x08"
definition GDT_ACCESS_RW :: u8 where "GDT_ACCESS_RW = 0x02"
definition GDT_FLAGS_LONG_MODE :: u8 where "GDT_FLAGS_LONG_MODE = 0x2"

text \<open>The size of the packed structure \<^verbatim>\<open>tss_t\<close>: its fields take 4, 3 * 8, 8, 7 * 8, 8, 2 and 2 bytes.\<close>

definition sizeof_tss :: u64 where "sizeof_tss = 4 + 3 * 8 + 8 + 7 * 8 + 8 + 2 + 2"

record tss_desc_t =
  limit_15_0 :: u16
  base_15_0 :: u16
  base_23_16 :: u8
  tss_type :: "4 word"
  zeroes1 :: "1 word"
  dpl :: "2 word"
  tss_present :: "1 word"
  limit_19_16 :: "4 word"
  avl :: "1 word"
  zeroes2 :: "2 word"
  granularity :: "1 word"
  base_31_24 :: u8
  base_63_32 :: u32
  tss_reserve1 :: u8
  zeroes3 :: "5 word"
  tss_reserve2 :: "19 word"

record gdtr_t =
  gdtr_size :: u16
  gdtr_address :: u64

record seg_desc_t =
  limit_low :: u16
  base_low :: u16
  base_mid :: u8
  access :: u8
  limit_high :: "4 word"
  flags :: "4 word"
  base_high :: u8

record gdt_t =
  gdt_entries :: "seg_desc_t list"
  tss_desc :: tss_desc_t

text \<open>The static objects, and the registers that \<^verbatim>\<open>gdt_load\<close> sets.\<close>

record gdt_state =
  gdt :: gdt_t
  gdt_info :: gdtr_t
  gdtr :: gdtr_t
  code_segment :: u16
  data_segments :: u16

text \<open>C's \<^verbatim>\<open>&&\<close> as an integer: 1 when both operands are not 0.\<close>

definition logical_and :: "'a::len word \<Rightarrow> 'a word \<Rightarrow> u32" where
  "logical_and a b = (if a \<noteq> 0 \<and> b \<noteq> 0 then 1 else 0)"

definition gdt_create_entry :: "u32 \<Rightarrow> u32 \<Rightarrow> u8 \<Rightarrow> u8 \<Rightarrow> seg_desc_t" where
  "gdt_create_entry limit base acc flgs =
     \<lparr>limit_low = ucast (limit AND 0xFFFF),
      base_low = ucast (base AND 0xFFFF),
      base_mid = ucast (drop_bit 16 base AND 0xFF),
      access = acc,
      limit_high = ucast (logical_and (drop_bit 16 limit) 0x0F),
      flags = ucast flgs,
      base_high = ucast (logical_and (drop_bit 24 base) 0xFF)\<rparr>"

definition gdt_create_tss_entry :: "addr \<Rightarrow> tss_desc_t" where
  "gdt_create_tss_entry tss_ptr =
     (let limit = sizeof_tss; base = tss_ptr in
      \<lparr>limit_15_0 = ucast (limit AND 0xFFFF),
       base_15_0 = ucast (base AND 0xFFFF),
       base_23_16 = ucast (drop_bit 16 base AND 0xFF),
       tss_type = 0b1001,
       zeroes1 = 0,
       dpl = 0,
       tss_present = 1,
       limit_19_16 = ucast (drop_bit 16 limit AND 0x0F),
       avl = 0,
       zeroes2 = 0,
       granularity = 0,
       base_31_24 = ucast (drop_bit 24 base AND 0xFF),
       base_63_32 = ucast (logical_and (drop_bit 32 base) 0xFFFFFFFF),
       tss_reserve1 = 0,
       zeroes3 = 0,
       tss_reserve2 = 0\<rparr>)"

text \<open>\<^verbatim>\<open>lgdt [gdt_info]\<close>, selector 0x10 for the data segments and a far return to selector 0x8.\<close>

definition gdt_load :: "'a gdt_state_scheme \<Rightarrow> 'a gdt_state_scheme" where
  "gdt_load st = st\<lparr>gdtr := gdt_info st, data_segments := 0x10, code_segment := 0x8\<rparr>"

text \<open>A segment descriptor takes 8 bytes and the descriptor of the task state segment 16.\<close>

definition gdt_init :: "addr \<Rightarrow> addr \<Rightarrow> 'a gdt_state_scheme \<Rightarrow> 'a gdt_state_scheme" where
  "gdt_init tss_addr gdt_addr st =
     (let es = gdt_entries (gdt st);
          es = es[0 := gdt_create_entry 0 0 0 0];
          es = es[1 := gdt_create_entry 0 0 (GDT_ACCESS_PRESENT OR GDT_ACCESS_SEG_SYS OR GDT_ACCESS_EXEC OR GDT_ACCESS_RW)
                         GDT_FLAGS_LONG_MODE];
          es = es[2 := gdt_create_entry 0 0 (GDT_ACCESS_PRESENT OR GDT_ACCESS_SEG_SYS OR GDT_ACCESS_RW) 0];
          es = es[3 := gdt_create_entry 0 0 (GDT_ACCESS_PRESENT OR GDT_ACCESS_PL3 OR GDT_ACCESS_SEG_SYS OR
                         GDT_ACCESS_EXEC OR GDT_ACCESS_RW) GDT_FLAGS_LONG_MODE];
          es = es[4 := gdt_create_entry 0 0 (GDT_ACCESS_PRESENT OR GDT_ACCESS_PL3 OR GDT_ACCESS_SEG_SYS OR GDT_ACCESS_RW) 0];
          st = st\<lparr>gdt := \<lparr>gdt_entries = es, tss_desc = gdt_create_tss_entry tss_addr\<rparr>\<rparr>;
          st = st\<lparr>gdt_info := \<lparr>gdtr_size = of_nat (8 * GDT_ENTRIES + 16 - 1), gdtr_address = gdt_addr\<rparr>\<rparr>
      in gdt_load st)"

section \<open>The processor's reading of a descriptor\<close>

definition seg_limit :: "seg_desc_t \<Rightarrow> u32" where
  "seg_limit d = ucast (limit_low d) OR push_bit 16 (ucast (limit_high d))"

definition seg_base :: "seg_desc_t \<Rightarrow> u32" where
  "seg_base d = ucast (base_low d) OR push_bit 16 (ucast (base_mid d)) OR push_bit 24 (ucast (base_high d))"

definition seg_present :: "seg_desc_t \<Rightarrow> bool" where "seg_present d = bit (access d) 7"
definition seg_dpl :: "seg_desc_t \<Rightarrow> u8" where "seg_dpl d = drop_bit 5 (access d) AND 3"
definition seg_ordinary :: "seg_desc_t \<Rightarrow> bool" where "seg_ordinary d = bit (access d) 4"
definition seg_code :: "seg_desc_t \<Rightarrow> bool" where "seg_code d = bit (access d) 3"
definition seg_rw :: "seg_desc_t \<Rightarrow> bool" where "seg_rw d = bit (access d) 1"
definition seg_long :: "seg_desc_t \<Rightarrow> bool" where "seg_long d = bit (flags d) 1"
definition seg_32 :: "seg_desc_t \<Rightarrow> bool" where "seg_32 d = bit (flags d) 2"

definition tss_limit :: "tss_desc_t \<Rightarrow> u32" where
  "tss_limit d = ucast (limit_15_0 d) OR push_bit 16 (ucast (limit_19_16 d))"

definition tss_base :: "tss_desc_t \<Rightarrow> u64" where
  "tss_base d = ucast (base_15_0 d) OR push_bit 16 (ucast (base_23_16 d)) OR push_bit 24 (ucast (base_31_24 d))
     OR push_bit 32 (ucast (base_63_32 d))"

text \<open>A present code or data segment of a privilege level, flat in 64-bit mode.\<close>

definition flat_segment :: "bool \<Rightarrow> u8 \<Rightarrow> seg_desc_t \<Rightarrow> bool" where
  "flat_segment code pl d \<longleftrightarrow>
     seg_present d \<and> seg_ordinary d \<and> seg_rw d \<and> seg_dpl d = pl \<and> seg_base d = 0 \<and>
     (seg_code d \<longleftrightarrow> code) \<and> (seg_long d \<longleftrightarrow> code) \<and> \<not> seg_32 d"

section \<open>Lemmas\<close>

lemma split_at_bit:
  fixes a x :: "'a::len word"
  assumes "x \<le> 1" "Suc n < LENGTH('a)"
  shows "take_bit n a OR push_bit n x = a \<longleftrightarrow> x = drop_bit n a"
proof
  have x: "x = 0 \<or> x = 1" using assms(1) by (metis le_less less_one word_less_1)
  assume eq: "take_bit n a OR push_bit n x = a"
  have "drop_bit n (push_bit n x) = x" using x assms(2) by (auto intro!: bit_word_eqI simp: bit_simps)
  moreover have "drop_bit n a = drop_bit n (push_bit n x)"
    by (subst eq[symmetric]) (auto intro!: bit_word_eqI simp: bit_simps)
  ultimately show "x = drop_bit n a" by simp
next
  assume "x = drop_bit n a"
  then show "take_bit n a OR push_bit n x = a" by (auto intro!: bit_word_eqI simp: bit_simps)
qed

lemma drop_bit_le_1: "(if drop_bit n a \<noteq> 0 then 1 else 0) = drop_bit n a \<longleftrightarrow> unat a < 2 ^ Suc n" for a :: "'a::len word"
proof -
  have "(if drop_bit n a \<noteq> 0 then 1 else 0) = drop_bit n a \<longleftrightarrow> unat (drop_bit n a) \<le> 1"
    by (auto simp: word_unat_eq_iff)
  moreover have "unat (drop_bit n a) = unat a div 2 ^ n"
    by (simp only: unat_drop_bit_eq) (rule drop_bit_eq_div)
  moreover have "unat a div 2 ^ n \<le> 1 \<longleftrightarrow> unat a < 2 ^ Suc n"
    by (simp add: div_less_iff_less_mult mult_2 flip: less_Suc_eq_le)
  ultimately show ?thesis by (simp only:)
qed

lemma kept_high_bit:
  fixes a :: "'a::len word"
  assumes "Suc n < LENGTH('a)"
  shows "take_bit n a OR push_bit n (if drop_bit n a \<noteq> 0 then 1 else 0) = a \<longleftrightarrow> unat a < 2 ^ Suc n"
proof -
  have "(if drop_bit n a \<noteq> 0 then 1 else 0) \<le> (1 :: 'a word)" by simp
  then show ?thesis using split_at_bit[OF _ assms] drop_bit_le_1[of n a] by blast
qed

text \<open>The fields of a descriptor put together: the low part is complete, the high one is a single bit.\<close>

lemma tss_base_entry: "tss_base (gdt_create_tss_entry a) = take_bit 32 a OR push_bit 32 (if drop_bit 32 a \<noteq> 0 then 1 else 0)"
proof -
  have m: "(0xFFFF :: u64) = mask 16" "(0xFF :: u64) = mask 8" by (simp_all add: mask_eq_exp_minus_1)
  have "ucast (ucast (a AND 0xFFFF) :: u16) OR push_bit 16 (ucast (ucast (drop_bit 16 a AND 0xFF) :: u8))
      OR push_bit 24 (ucast (ucast (drop_bit 24 a AND 0xFF) :: u8)) = take_bit 32 a"
    unfolding m
  proof (rule bit_word_eqI)
    show "bit (ucast (ucast (a AND mask 16) :: u16) OR push_bit 16 (ucast (ucast (drop_bit 16 a AND mask 8) :: u8))
      OR push_bit 24 (ucast (ucast (drop_bit 24 a AND mask 8) :: u8)) :: u64) n \<longleftrightarrow> bit (take_bit 32 a) n" for n
      by (cases "n < 24") (auto simp: bit_simps)
  qed
  then show ?thesis
    by (simp add: tss_base_def gdt_create_tss_entry_def logical_and_def flip: or.assoc)
qed

lemma seg_base_entry:
  "seg_base (gdt_create_entry l b acc f) = take_bit 24 b OR push_bit 24 (if drop_bit 24 b \<noteq> 0 then 1 else 0)"
proof -
  have m: "(0xFFFF :: u32) = mask 16" "(0xFF :: u32) = mask 8" by (simp_all add: mask_eq_exp_minus_1)
  have "ucast (ucast (b AND 0xFFFF) :: u16) OR push_bit 16 (ucast (ucast (drop_bit 16 b AND 0xFF) :: u8)) = take_bit 24 b"
    unfolding m by (rule bit_word_eqI) (auto simp: bit_simps)
  then show ?thesis
    by (simp add: seg_base_def gdt_create_entry_def logical_and_def flip: or.assoc)
qed

lemma seg_limit_entry:
  "seg_limit (gdt_create_entry l b acc f) = take_bit 16 l OR push_bit 16 (if drop_bit 16 l \<noteq> 0 then 1 else 0)"
proof -
  have m: "(0xFFFF :: u32) = mask 16" by (simp add: mask_eq_exp_minus_1)
  have "ucast (ucast (l AND 0xFFFF) :: u16) = take_bit 16 l"
    unfolding m by (rule bit_word_eqI) (auto simp: bit_simps)
  then show ?thesis
    by (simp add: seg_limit_def gdt_create_entry_def logical_and_def)
qed

lemmas seg_defs = seg_present_def seg_ordinary_def seg_rw_def seg_dpl_def seg_code_def seg_long_def seg_32_def

section \<open>Properties\<close>

text \<open>C32. After \<open>gdt_init\<close> the table holds the null descriptor, flat kernel code and data segments, flat user
  code and data segments and an available task state segment of 104 bytes; GDTR describes the whole table, and the
  segment registers select the kernel's code and data descriptors.\<close>

theorem gdt_init_correct:
  assumes "length (gdt_entries (gdt st)) = GDT_ENTRIES"
  shows "\<exists>null kcode kdata ucode udata tss. let st' = gdt_init tss_addr gdt_addr st in
      gdt st' = \<lparr>gdt_entries = [null, kcode, kdata, ucode, udata], tss_desc = tss\<rparr> \<and>
      \<not> seg_present null \<and>
      flat_segment True 0 kcode \<and> flat_segment False 0 kdata \<and>
      flat_segment True 3 ucode \<and> flat_segment False 3 udata \<and>
      tss_present tss = 1 \<and> tss_type tss = 0b1001 \<and> tss_limit tss = 104 \<and>
      gdtr st' = \<lparr>gdtr_size = 55, gdtr_address = gdt_addr\<rparr> \<and>
      gdt_entries (gdt st') ! (unat (code_segment st') div 8) = kcode \<and>
      gdt_entries (gdt st') ! (unat (data_segments st') div 8) = kdata"
proof -
  obtain a b c d e where es: "gdt_entries (gdt st) = [a, b, c, d, e]"
    using assms by (auto simp: GDT_ENTRIES_def eval_nat_numeral length_Suc_conv)
  let ?st = "gdt_init tss_addr gdt_addr st"
  have gdt: "gdt ?st = \<lparr>gdt_entries = [gdt_create_entry 0 0 0 0, gdt_create_entry 0 0 0x9A 2, gdt_create_entry 0 0 0x92 0,
      gdt_create_entry 0 0 0xFA 2, gdt_create_entry 0 0 0xF2 0], tss_desc = gdt_create_tss_entry tss_addr\<rparr>"
    by (simp add: gdt_init_def Let_def gdt_load_def es GDT_ACCESS_PRESENT_def GDT_ACCESS_PL3_def
        GDT_ACCESS_SEG_SYS_def GDT_ACCESS_EXEC_def GDT_ACCESS_RW_def GDT_FLAGS_LONG_MODE_def)
  have regs: "gdtr ?st = \<lparr>gdtr_size = 55, gdtr_address = gdt_addr\<rparr>" "code_segment ?st = 8" "data_segments ?st = 16"
    by (simp_all add: gdt_init_def Let_def gdt_load_def GDT_ENTRIES_def)
  have tss: "tss_limit (gdt_create_tss_entry tss_addr) = 104" "tss_present (gdt_create_tss_entry tss_addr) = 1"
    "tss_type (gdt_create_tss_entry tss_addr) = 0b1001"
    by (simp_all add: tss_limit_def gdt_create_tss_entry_def sizeof_tss_def)
  have base: "seg_base (gdt_create_entry 0 0 acc f) = 0" for acc f by (simp add: seg_base_entry)
  have acc: "access (gdt_create_entry l b acc f) = acc" "flags (gdt_create_entry l b acc f) = ucast f" for l b acc f
    by (simp_all add: gdt_create_entry_def)
  have segs: "\<not> seg_present (gdt_create_entry 0 0 0 0)"
    "flat_segment True 0 (gdt_create_entry 0 0 0x9A 2)" "flat_segment False 0 (gdt_create_entry 0 0 0x92 0)"
    "flat_segment True 3 (gdt_create_entry 0 0 0xFA 2)" "flat_segment False 3 (gdt_create_entry 0 0 0xF2 0)"
    by (simp_all add: flat_segment_def base seg_defs acc)
  show ?thesis
    by (intro exI[of _ "gdt_create_entry 0 0 0 0"] exI[of _ "gdt_create_entry 0 0 0x9A 2"]
        exI[of _ "gdt_create_entry 0 0 0x92 0"] exI[of _ "gdt_create_entry 0 0 0xFA 2"]
        exI[of _ "gdt_create_entry 0 0 0xF2 0"] exI[of _ "gdt_create_tss_entry tss_addr"])
      (simp add: Let_def gdt segs tss regs)
qed


definition demo_gdt :: gdt_state where
  "demo_gdt =
     \<lparr>gdt = \<lparr>gdt_entries = replicate 5 (gdt_create_entry 0 0 0 0), tss_desc = gdt_create_tss_entry 0\<rparr>,
      gdt_info = \<lparr>gdtr_size = 0, gdtr_address = 0\<rparr>, gdtr = \<lparr>gdtr_size = 0, gdtr_address = 0\<rparr>,
      code_segment = 0, data_segments = 0\<rparr>"

theorem gdt_init_correct_witness:
  "gdtr (gdt_init 0x9000 0x8000 demo_gdt) = \<lparr>gdtr_size = 55, gdtr_address = 0x8000\<rparr>"
proof -
  have "length (gdt_entries (gdt demo_gdt)) = GDT_ENTRIES" by (simp add: demo_gdt_def GDT_ENTRIES_def)
  from gdt_init_correct[OF this, of "0x9000" "0x8000"] show ?thesis by (auto simp: Let_def)
qed

text \<open>C33. What a descriptor keeps of the base and the limit it is made from: because the high parts are built with
  \<^verbatim>\<open>&&\<close>, exactly bases below 2^25 and limits below 2^17 survive in a segment descriptor, and exactly addresses below 2^33
  in the descriptor of the task state segment.\<close>

theorem gdt_descriptor_values:
  "(seg_base (gdt_create_entry limit base acc flgs) = base \<longleftrightarrow> unat base < 2 ^ 25) \<and>
   (seg_limit (gdt_create_entry limit base acc flgs) = limit \<longleftrightarrow> unat limit < 2 ^ 17) \<and>
   (tss_base (gdt_create_tss_entry tss_ptr) = tss_ptr \<longleftrightarrow> unat tss_ptr < 2 ^ 33)"
  using kept_high_bit[of 24 base] kept_high_bit[of 16 limit] kept_high_bit[of 32 tss_ptr]
  by (simp only: seg_base_entry seg_limit_entry tss_base_entry) simp

end
