(* ===== verification/Boot.thy ===== *)
theory Boot
  imports Memory_Start Ioapic Pic Logging Gdt
begin

text \<open>
  The start of the kernel and its devices: the search for a boot loader structure (kernel/boot/stivale2.c), the start
  of the other processors (kernel/cpu/smp.c), the text screen (kernel/dev/text.c), the keyboard (kernel/dev/kbd.c) and
  the entry point (kernel/boot/boot.c). The addresses that the linker chooses are arguments. Waiting in \<^verbatim>\<open>hlt\<close> for ever
  is the end of a routine: the result is the state in which it waits.
\<close>

section \<open>Definitions\<close>

subsection \<open>The structures of the boot loader\<close>

text \<open>\<open>identifier\<close> and \<open>next_tag\<close> read the fields of a \<^verbatim>\<open>stivale2_tag\<close>. The chain may be cyclic, so the search may not
  end.\<close>

partial_function (option) get_tag_loop :: "(addr \<Rightarrow> u64) \<Rightarrow> (addr \<Rightarrow> addr) \<Rightarrow> u64 \<Rightarrow> addr \<Rightarrow> addr option" where
  "get_tag_loop identifier next_tag i current_tag =
     (if current_tag = 0 then Some 0
      else if identifier current_tag = i then Some current_tag
      else get_tag_loop identifier next_tag i (next_tag current_tag))"

definition stivale2_get_tag :: "(addr \<Rightarrow> addr) \<Rightarrow> (addr \<Rightarrow> u64) \<Rightarrow> (addr \<Rightarrow> addr) \<Rightarrow> addr \<Rightarrow> u64 \<Rightarrow> addr option" where
  "stivale2_get_tag tags identifier next_tag stivale2_struct i = get_tag_loop identifier next_tag i (tags stivale2_struct)"

subsection \<open>The text screen\<close>

definition TEXT_ADDR :: addr where "TEXT_ADDR = 0xB8000 + VA_HHDM"
definition TEXT_CMD_PORT :: u16 where "TEXT_CMD_PORT = 0x3D4"
definition TEXT_DATA_PORT :: u16 where "TEXT_DATA_PORT = 0x3D5"
definition HIGH_BYTE_CMD :: u8 where "HIGH_BYTE_CMD = 14"
definition LOW_BYTE_CMD :: u8 where "LOW_BYTE_CMD = 15"

datatype text_color_t = BLACK | BLUE | GREEN | CYAN | RED | MAGENTA | BROWN | LIGHT_GREY
  | DARK_GREY | LIGHT_BLUE | LIGHT_GREEN | LIGHT_CYAN | LIGHT_RED | LIGHT_MAGENTA | LIGHT_BROWN | WHITE

fun color_value :: "text_color_t \<Rightarrow> u8" where
  "color_value BLACK = 0" | "color_value BLUE = 1" | "color_value GREEN = 2" | "color_value CYAN = 3"
| "color_value RED = 4" | "color_value MAGENTA = 5" | "color_value BROWN = 6" | "color_value LIGHT_GREY = 7"
| "color_value DARK_GREY = 8" | "color_value LIGHT_BLUE = 9" | "color_value LIGHT_GREEN = 10" | "color_value LIGHT_CYAN = 11"
| "color_value LIGHT_RED = 12" | "color_value LIGHT_MAGENTA = 13" | "color_value LIGHT_BROWN = 14" | "color_value WHITE = 15"

definition text_write :: "u16 \<Rightarrow> u8 \<Rightarrow> u8 \<Rightarrow> u8 \<Rightarrow> 'a kstate_scheme \<Rightarrow> 'a kstate_scheme" where
  "text_write loc c fg bg st =
     st\<lparr>kmem := store 2 (kmem st) (TEXT_ADDR + 2 * ucast loc)
          (ucast c OR push_bit 8 (ucast fg) OR push_bit 12 (ucast bg) :: u16)\<rparr>"

definition move_cursor :: "u16 \<Rightarrow> 'a io_state_scheme \<Rightarrow> 'a io_state_scheme" where
  "move_cursor loc st =
     (let st = outb TEXT_CMD_PORT HIGH_BYTE_CMD st;
          st = outb TEXT_DATA_PORT (ucast (drop_bit 8 loc AND 0x00FF)) st;
          st = outb TEXT_CMD_PORT LOW_BYTE_CMD st
      in outb TEXT_DATA_PORT (ucast (loc AND 0x00FF)) st)"

subsection \<open>The state of the whole kernel\<close>

text \<open>\<open>key_temp\<close> is the static variable of kbd.c.\<close>

record kernel =
  gdt_part :: gdt_state
  io_part :: io_state
  mem_part :: apic_state
  key_temp :: u8

subsection \<open>The keyboard\<close>

definition KBD_DATA_PORT :: u16 where "KBD_DATA_PORT = 0x60"
definition KBD_IRQ :: u8 where "KBD_IRQ = 1"
definition KBD_INTR_VEC :: u8 where "KBD_INTR_VEC = KBD_IRQ + ucast INTR_DEV_OFFSET"

definition kbd_init :: "addr \<Rightarrow> 'a apic_state_scheme \<Rightarrow> 'a apic_state_scheme kres" where
  "kbd_init wrapper_kbd_intr_handler st =
     kbind (register_intr_handler wrapper_kbd_intr_handler KBD_INTR_VEC (intr st)) (\<lambda>i.
     Inr (ioapic_quickset_irq 0 KBD_IRQ 0 KBD_INTR_VEC (st\<lparr>intr := i\<rparr>)))"

definition kbd_intr_handler :: "kernel \<Rightarrow> kernel" where
  "kbd_intr_handler k =
     (let k = k\<lparr>io_part := snd (inb KBD_DATA_PORT (io_part k))\<rparr>;
          k = k\<lparr>mem_part := text_write 0 (key_temp k) (color_value RED) (color_value GREEN) (mem_part k)\<rparr>;
          k = k\<lparr>key_temp := key_temp k + 1\<rparr>
      in k\<lparr>mem_part := lapic_eoi KBD_INTR_VEC (mem_part k)\<rparr>)"

subsection \<open>The other processors\<close>

record smp_info =
  smp_lapic_id :: u32
  target_stack :: u64
  goto_address :: u64

record smp_tag_t =
  bsp_id :: u32
  smp_infos :: "smp_info list"

primrec smp_loop :: "u32 \<Rightarrow> addr \<Rightarrow> smp_info list \<Rightarrow> 'a pmm_state_scheme \<Rightarrow> (smp_info list \<times> 'a pmm_state_scheme) kres" where
  "smp_loop bsp entry [] st = Inr ([], st)"
| "smp_loop bsp entry (proc # procs) st =
     kbind (if smp_lapic_id proc \<noteq> bsp then
              kbind (pmm_alloc st PMM_ZONE_NORMAL 1) (\<lambda>(a, st).
              Inr (proc\<lparr>target_stack := a, goto_address := entry\<rparr>, st))
            else Inr (proc, st)) (\<lambda>(proc, st).
     kbind (smp_loop bsp entry procs st) (\<lambda>(procs, st).
     Inr (proc # procs, st)))"

definition smp_init :: "addr \<Rightarrow> smp_tag_t option \<Rightarrow> 'a pmm_state_scheme \<Rightarrow> (smp_info list \<times> 'a pmm_state_scheme) kres" where
  "smp_init smp_ap_entry smp st =
     (case smp of
        None \<Rightarrow> Inl (Panic ''[smp_init] smp struct from bootloader could not be found'')
      | Some tag \<Rightarrow> smp_loop (bsp_id tag) smp_ap_entry (smp_infos tag) st)"

definition smp_ap_entry :: "'a apic_state_scheme \<Rightarrow> 'a apic_state_scheme" where
  "smp_ap_entry st =
     (let (i, st) = lapic_id st;
          st = log_msg NONE ''[smp_ap_entry] enabling processor %u ...'' st;
          (i, st) = lapic_id st
      in log_msg NONE ''[smp_ap_entry] welcome to the club, processor %u!'' st)"

subsection \<open>The entry point\<close>

record boot_handover = handover +
  rsdp_tag :: "addr option"
  smp_tag :: "smp_tag_t option"

text \<open>What the linker and the headers of the boot loader fix: addresses of static objects and handlers, the string
  \<^verbatim>\<open>"APIC"\<close>, the bit of a writable range.\<close>

record linked =
  tss_at :: addr
  gdt_at :: addr
  idt_at :: addr
  page_fault_at :: addr
  kbd_at :: addr
  ap_entry_at :: addr
  apic_string_at :: addr
  pmr_writable :: u64

definition on_mem :: "kernel \<Rightarrow> apic_state kres option \<Rightarrow> kernel kres option" where
  "on_mem k r = obind r (\<lambda>s. Some (Inr (k\<lparr>mem_part := s\<rparr>)))"

text \<open>\<^verbatim>\<open>_start\<close>; \<open>junk\<close> is what uninitialised variables hold.\<close>

definition start :: "linked \<Rightarrow> (u64 \<Rightarrow> u64) \<Rightarrow> boot_handover \<Rightarrow> kernel \<Rightarrow> (smp_info list \<times> kernel) kres option" where
  "start L junk h k =
     (let k = k\<lparr>io_part := com_init (io_part k)\<rparr>;
          k = k\<lparr>gdt_part := gdt_init (tss_at L) (gdt_at L) (gdt_part k)\<rparr>
      in obind (on_mem k (Some (kbind (idt_init (idt_at L) (intr (mem_part k))) (\<lambda>i. Inr ((mem_part k)\<lparr>intr := i\<rparr>))))) (\<lambda>k.
      let k = k\<lparr>io_part := pic_disable (io_part k)\<rparr>
      in obind (on_mem k (Some (start_memory (pmr_writable L) (page_fault_at L) h (mem_part k)))) (\<lambda>k.
      obind (on_mem k (acpi_init (rsdp_tag h) (apic_string_at L) (mem_part k))) (\<lambda>k.
      obind (on_mem k (Some (apic_init (map_option bsp_id (smp_tag h)) junk (mem_part k)))) (\<lambda>k.
      obind (Some (smp_init (ap_entry_at L) (smp_tag h) (mem_part k))) (\<lambda>(procs, s).
      let k = k\<lparr>mem_part := s\<rparr>
      in obind (on_mem k (Some (kbd_init (kbd_at L) (mem_part k)))) (\<lambda>k.
      Some (Inr (procs, k)))))))))"

section \<open>The chain of tags\<close>

primrec tag_chain :: "(addr \<Rightarrow> addr) \<Rightarrow> addr \<Rightarrow> addr list \<Rightarrow> bool" where
  "tag_chain next_tag a [] \<longleftrightarrow> a = 0"
| "tag_chain next_tag a (t # ts) \<longleftrightarrow> a = t \<and> t \<noteq> 0 \<and> tag_chain next_tag (next_tag t) ts"

lemma get_tag_loop_chain:
  "tag_chain next_tag a ts \<Longrightarrow>
   get_tag_loop identifier next_tag i a = Some (case find (\<lambda>t. identifier t = i) ts of None \<Rightarrow> 0 | Some t \<Rightarrow> t)"
  by (induction ts arbitrary: a) (auto simp: get_tag_loop.simps)

lemma get_tag_loop_reaches:
  assumes "get_tag_loop ident next_tag i a = Some t"
  shows "\<exists>n. (next_tag ^^ n) a = 0 \<or> ident ((next_tag ^^ n) a) = i"
proof (rule get_tag_loop.raw_induct[OF _ assms, of "\<lambda>ident next_tag i a t. \<exists>n. (next_tag ^^ n) a = 0 \<or> ident ((next_tag ^^ n) a) = i"])
  fix loop ident next_tag i a t
  assume IH: "\<And>ident next_tag i a t. loop ident next_tag i a = Some t \<Longrightarrow> \<exists>n. (next_tag ^^ n) a = (0 :: addr) \<or> ident ((next_tag ^^ n) a) = (i :: u64)"
    and r: "(if a = 0 then Some 0 else if ident a = i then Some a else loop ident next_tag i (next_tag a)) = Some t"
  show "\<exists>n. (next_tag ^^ n) a = 0 \<or> ident ((next_tag ^^ n) a) = i"
  proof (cases "a = 0 \<or> ident a = i")
    case True
    then show ?thesis by (intro exI[of _ 0]) simp
  next
    case False
    then obtain n where "(next_tag ^^ n) (next_tag a) = 0 \<or> ident ((next_tag ^^ n) (next_tag a)) = i" using IH[of ident next_tag i "next_tag a" t] r by auto
    then show ?thesis by (intro exI[of _ "Suc n"]) (simp add: funpow_swap1)
  qed
qed

section \<open>The screen\<close>

definition screen_cell :: "mem \<Rightarrow> u16 \<Rightarrow> u16" where
  "screen_cell m loc = load 2 m (TEXT_ADDR + 2 * ucast loc)"

definition colored :: "u8 \<Rightarrow> u8 \<Rightarrow> u8 \<Rightarrow> u16" where
  "colored c fg bg = ucast c OR push_bit 8 (ucast fg) OR push_bit 12 (ucast bg)"

lemma screen_cells_apart:
  fixes loc loc' :: u16
  assumes "loc \<noteq> loc'"
  shows "apart (TEXT_ADDR + 2 * ucast loc) 2 (TEXT_ADDR + 2 * ucast loc') 2"
proof -
  have u: "unat (ucast l :: u64) = unat l" "unat l < 65536" for l :: u16
  proof -
    show "unat l < 65536" using unsigned_less[of l] by simp
    then show "unat (ucast l :: u64) = unat l" by (simp add: unsigned_ucast_eq take_bit_nat_eq_self)
  qed
  have d: "unat (2 * ucast a - 2 * ucast b :: u64) \<ge> 2" if "a \<noteq> b" for a b :: u16
  proof -
    have "unat (2 * ucast l :: u64) = 2 * unat l" for l :: u16 using u[of l] by (subst unat_mult_lem[THEN iffD1]) auto
    moreover have "unat a \<noteq> unat b" using that by (simp add: word_unat_eq_iff)
    ultimately show ?thesis using u(2)[of a] u(2)[of b] by (auto simp: unat_sub_if')
  qed
  show ?thesis using d[of loc loc'] d[of loc' loc] assms by (simp add: apart_def)
qed

lemma screen_cell_write:
  "screen_cell (kmem (text_write loc c fg bg st)) loc' = (if loc' = loc then colored c fg bg else screen_cell (kmem st) loc')"
proof (cases "loc' = loc")
  case True
  then show ?thesis by (simp add: screen_cell_def text_write_def colored_def load_store_same)
next
  case False
  then show ?thesis by (simp add: screen_cell_def text_write_def load_store_apart screen_cells_apart)
qed

lemma colored_bits:
  assumes "unat fg < 16" "unat bg < 16"
  shows "unat (colored c fg bg) = unat c + 256 * unat fg + 4096 * unat bg"
proof -
  have u: "unat (ucast x :: u16) = unat x" "unat x < 256" for x :: u8
  proof -
    show "unat x < 256" using unsigned_less[of x] by simp
    then show "unat (ucast x :: u16) = unat x" by (simp add: unsigned_ucast_eq take_bit_nat_eq_self)
  qed
  have "fg = take_bit 4 fg" "bg = take_bit 4 bg" using assms by (simp_all add: word_unat_eq_iff unsigned_take_bit_eq take_bit_nat_eq_self)
  then have b: "\<not> bit fg n" "\<not> bit bg n" if "4 \<le> n" for n using that by (metis bit_take_bit_iff linorder_not_le)+
  have "push_bit 8 (ucast fg) OR push_bit 12 (ucast bg) = (push_bit 8 (ucast fg) + push_bit 12 (ucast bg) :: u16)"
    by (rule disjunctive_add_eq_or[symmetric], rule bit_word_eqI) (auto simp: bit_simps b)
  moreover have "ucast c OR (push_bit 8 (ucast fg) OR push_bit 12 (ucast bg)) = ucast c + (push_bit 8 (ucast fg) OR push_bit 12 (ucast bg) :: u16)"
    by (rule disjunctive_add_eq_or[symmetric], rule bit_word_eqI) (auto simp: bit_simps dest: bit_imp_le_length)
  ultimately have e: "colored c fg bg = ucast c + (push_bit 8 (ucast fg) + push_bit 12 (ucast bg))"
    by (simp add: colored_def or.assoc)
  have "unat (push_bit 8 (ucast fg) :: u16) = 256 * unat fg" "unat (push_bit 12 (ucast bg) :: u16) = 4096 * unat bg"
    using assms u by (simp_all add: push_bit_eq_mult unat_word_ariths)
  then show ?thesis using assms u(2)[of c] unfolding e by (simp add: unat_word_ariths u(1))
qed

lemma u16_halves:
  "unat loc = 256 * unat (ucast (drop_bit 8 loc AND 0x00FF) :: u8) + unat (ucast (loc AND 0x00FF) :: u8)" for loc :: u16
proof -
  have m: "(0x00FF :: u16) = mask 8" by (simp add: mask_eq_exp_minus_1)
  have l: "unat loc < 65536" using unsigned_less[of loc] by simp
  have d: "unat (ucast (x AND 0x00FF) :: u8) = unat x mod 256" for x :: u16
    unfolding m by (simp add: take_bit_eq_mask[symmetric] unsigned_ucast_eq unsigned_take_bit_eq take_bit_eq_mod unat_mod)
  have "unat (drop_bit 8 loc) = unat loc div 256" by (simp add: drop_bit_eq_div unat_div)
  moreover have "unat loc div 256 mod 256 = unat loc div 256" using l by (intro mod_less) (simp add: div_less_iff_less_mult)
  ultimately show ?thesis unfolding d by simp
qed

lemma quickset_same: "apic_same st (ioapic_quickset_irq i irq lapic vector st)" "ioapics (ioapic_quickset_irq i irq lapic vector st) = ioapics st"
  by (simp_all add: ioapic_quickset_irq_def case_prod_beta Let_def)

lemma kbd_init_run:
  assumes "intr_wf (intr st)"
  obtains i where "kbd_init handler st = Inr (ioapic_quickset_irq 0 1 0 0x21 (st\<lparr>intr := i\<rparr>))" "intr (ioapic_quickset_irq 0 1 0 0x21 (st\<lparr>intr := i\<rparr>)) = i"
    "kernel_gate handler (idt i ! 33)" "\<forall>j. j \<noteq> 33 \<longrightarrow> idt i ! j = idt (intr st) ! j"
proof -
  have c: "KBD_IRQ = 1" "KBD_INTR_VEC = 0x21" by (simp_all add: KBD_IRQ_def KBD_INTR_VEC_def INTR_DEV_OFFSET_def)
  obtain i where i: "register_intr_handler handler 0x21 (intr st) = Inr i" "kernel_gate handler (idt i ! 33)" "\<forall>j. j \<noteq> 33 \<longrightarrow> idt i ! j = idt (intr st) ! j"
    using register_intr_handler_correct[OF assms, of handler "0x21"] by auto
  show thesis
  proof (rule that[OF _ _ i(2,3)])
    show "kbd_init handler st = Inr (ioapic_quickset_irq 0 1 0 0x21 (st\<lparr>intr := i\<rparr>))" using i(1) by (simp add: kbd_init_def c)
    show "intr (ioapic_quickset_irq 0 1 0 0x21 (st\<lparr>intr := i\<rparr>)) = i"
      using quickset_same(1)[of "st\<lparr>intr := i\<rparr>"] by (simp add: apic_same_def same_machine_def)
  qed
qed

lemma kbd_handler_step:
  fixes k :: kernel
  defines "p \<equiv> lapic_paddr (madt_info (mem_part k))"
  shows "trace (io_part (kbd_intr_handler k)) = trace (io_part k) @ [Inb 0x60]" "key_temp (kbd_intr_handler k) = key_temp k + 1"
    "screen_cell (kmem (mem_part (kbd_intr_handler k))) = (screen_cell (kmem (mem_part k)))(0 := ucast (key_temp k) OR 0x2400)"
    "mmio (mem_part (kbd_intr_handler k)) = mmio (mem_part k) @ Mmio_read (p + 0x110) #
       (if bit (mmio_device (mem_part k) (mmio (mem_part k)) (p + 0x110)) 1 then [Mmio_write (p + 0xB0) 1] else [])"
    "madt_info (mem_part (kbd_intr_handler k)) = madt_info (mem_part k)" "mmio_device (mem_part (kbd_intr_handler k)) = mmio_device (mem_part k)"
proof -
  have v: "KBD_INTR_VEC = 0x21" by (simp add: KBD_INTR_VEC_def KBD_IRQ_def INTR_DEV_OFFSET_def)
  have w: "mmio (text_write l c f b st) = mmio st" "mmio_device (text_write l c f b st) = mmio_device st" "madt_info (text_write l c f b st) = madt_info st"
    for l c f b and st :: apic_state by (simp_all add: text_write_def)
  have e: "kmem (lapic_eoi x st) = kmem st" "madt_info (lapic_eoi x st) = madt_info st" "mmio_device (lapic_eoi x st) = mmio_device st"
    for x and st :: apic_state by (simp_all add: lapic_eoi_def Let_def case_prod_beta)
  have c: "colored x 4 2 = ucast x OR 0x2400" for x by (simp add: colored_def or.assoc)
  show "trace (io_part (kbd_intr_handler k)) = trace (io_part k) @ [Inb 0x60]" "key_temp (kbd_intr_handler k) = key_temp k + 1"
    by (simp_all add: kbd_intr_handler_def Let_def KBD_DATA_PORT_def)
  show "screen_cell (kmem (mem_part (kbd_intr_handler k))) = (screen_cell (kmem (mem_part k)))(0 := ucast (key_temp k) OR 0x2400)"
    by (simp add: kbd_intr_handler_def Let_def e fun_eq_iff screen_cell_write c)
  show "madt_info (mem_part (kbd_intr_handler k)) = madt_info (mem_part k)" "mmio_device (mem_part (kbd_intr_handler k)) = mmio_device (mem_part k)"
    by (simp_all add: kbd_intr_handler_def Let_def e w)
  show "mmio (mem_part (kbd_intr_handler k)) = mmio (mem_part k) @ Mmio_read (p + 0x110) #
       (if bit (mmio_device (mem_part k) (mmio (mem_part k)) (p + 0x110)) 1 then [Mmio_write (p + 0xB0) 1] else [])"
    using lapic_eoi_correct[of "text_write 0 (key_temp k) (color_value RED) (color_value GREEN) (mem_part k)" "0x21"]
    by (simp add: kbd_intr_handler_def Let_def v w p_def)
qed

lemma kbd_handler_keeps:
  "madt_info (mem_part ((kbd_intr_handler ^^ n) k)) = madt_info (mem_part k)"
  "mmio_device (mem_part ((kbd_intr_handler ^^ n) k)) = mmio_device (mem_part k)"
  by (induction n) (simp_all add: kbd_handler_step)

section \<open>The frames of the other processors\<close>

abbreviation others :: "u32 \<Rightarrow> smp_info list \<Rightarrow> smp_info list" where
  "others bsp \<equiv> filter (\<lambda>p. smp_lapic_id p \<noteq> bsp)"

text \<open>What \<open>smp_init\<close> does to the entry of a processor.\<close>

definition smp_started :: "u32 \<Rightarrow> addr \<Rightarrow> smp_info \<Rightarrow> smp_info \<Rightarrow> bool" where
  "smp_started bsp entry p p' \<longleftrightarrow>
     p' = (if smp_lapic_id p = bsp then p else p\<lparr>target_stack := target_stack p', goto_address := entry\<rparr>)"

lemma smp_started_id: "smp_started bsp entry p p' \<Longrightarrow> smp_lapic_id p' = smp_lapic_id p"
  unfolding smp_started_def by (cases "smp_lapic_id p = bsp") (simp_all, metis smp_info.select_convs(1) smp_info.surjective smp_info.update_convs(2,3))

lemma smp_loop_panics:
  "pmm_wf st \<Longrightarrow> smp_loop bsp entry procs st = Inl e \<Longrightarrow> (\<exists>msg. e = Panic msg) \<and> avail st < length (others bsp procs)"
proof (induction procs arbitrary: st)
  case Nil
  then show ?case by simp
next
  case (Cons p procs)
  show ?case
  proof (cases "smp_lapic_id p = bsp")
    case True
    then show ?thesis using Cons.prems Cons.IH[of st] by (auto simp: kbind_def split: sum.splits)
  next
    case new: False
    show ?thesis
    proof (cases "pmm_alloc st PMM_ZONE_NORMAL 1")
      case (Inl e')
      then show ?thesis using Cons.prems new pmm_alloc_none[OF Cons.prems(1) Inl] by (simp add: kbind_def)
    next
      case (Inr r)
      obtain a st1 where r: "pmm_alloc st PMM_ZONE_NORMAL 1 = Inr (a, st1)" using Inr by (cases r) simp
      have "pmm_wf st1" using pmm_alloc_frame(1)[OF Cons.prems(1) NORMAL_zone one_neq_zero r] .
      moreover have "smp_loop bsp entry procs st1 = Inl e" using Cons.prems(2) new r by (auto simp: kbind_def split: sum.splits)
      ultimately show ?thesis using Cons.IH[of st1] pmm_alloc_one(5)[OF Cons.prems(1) r] new by auto
    qed
  qed
qed

lemma smp_loop_starts:
  assumes "pmm_wf st" "smp_loop bsp entry procs st = Inr (procs', st')"
  shows "pmm_wf st' \<and> list_all2 (smp_started bsp entry) procs procs' \<and> avail st = avail st' + length (others bsp procs) \<and>
    distinct (map target_stack (others bsp procs')) \<and>
    (\<forall>f. free_frame st' f \<longleftrightarrow> free_frame st f \<and> f \<notin> target_stack ` set (others bsp procs')) \<and>
    (\<forall>s\<in>target_stack ` set (others bsp procs'). free_frame st s)"
  using assms
proof (induction procs arbitrary: st procs')
  case Nil
  then show ?case by simp
next
  case (Cons p procs)
  show ?case
  proof (cases "smp_lapic_id p = bsp")
    case True
    then obtain qs where q: "smp_loop bsp entry procs st = Inr (qs, st')" "procs' = p # qs"
      using Cons.prems by (auto simp: kbind_eq_Inr)
    show ?thesis using Cons.IH[OF Cons.prems(1) q(1)] True by (simp add: q(2) smp_started_def)
  next
    case new: False
    then obtain a st1 qs where q: "pmm_alloc st PMM_ZONE_NORMAL 1 = Inr (a, st1)" "smp_loop bsp entry procs st1 = Inr (qs, st')"
      "procs' = p\<lparr>target_stack := a, goto_address := entry\<rparr> # qs"
      using Cons.prems by (auto simp: kbind_eq_Inr)
    have wf1: "pmm_wf st1" using pmm_alloc_frame(1)[OF Cons.prems(1) NORMAL_zone one_neq_zero q(1)] .
    note IH = Cons.IH[OF wf1 q(2)] and one = pmm_alloc_one[OF Cons.prems(1) q(1)]
    have "a \<notin> target_stack ` set (others bsp qs)" using IH one(2)[of a] by blast
    then show ?thesis using IH one(1,2,5) new by (auto simp: q(3) smp_started_def)
  qed
qed

section \<open>Properties\<close>

text \<open>C35. \<open>stivale2_get_tag\<close> returns the first structure of the boot loader's chain with the given identifier, and NULL if
  the chain ends without one. It returns on no other chain: on one that never reaches NULL or the identifier, such as
  a cyclic one, it searches for ever.\<close>

theorem stivale2_get_tag_correct:
  "(\<forall>ts. tag_chain next_tag (tags h) ts \<longrightarrow>
      stivale2_get_tag tags ident next_tag h i = Some (case find (\<lambda>t. ident t = i) ts of None \<Rightarrow> 0 | Some t \<Rightarrow> t)) \<and>
   ((\<forall>n. (next_tag ^^ n) (tags h) \<noteq> 0 \<and> ident ((next_tag ^^ n) (tags h)) \<noteq> i) \<longrightarrow>
      stivale2_get_tag tags ident next_tag h i = None)"
  using get_tag_loop_chain get_tag_loop_reaches[of ident next_tag i "tags h"]
  by (auto simp: stivale2_get_tag_def) (meson not_None_eq)

text \<open>A chain of two structures, and one that loops.\<close>

theorem stivale2_get_tag_correct_witness:
  "stivale2_get_tag (\<lambda>_. 8) (\<lambda>t. if t = 8 then 100 else 200) (\<lambda>t. if t = 8 then 16 else 0) 0 200 = Some 16 \<and>
   stivale2_get_tag (\<lambda>_. 8) (\<lambda>_. 100) (\<lambda>t. t) 0 200 = None"
proof
  have "tag_chain (\<lambda>t. if t = 8 then 16 else 0) 8 [8, 16]" by simp
  then show "stivale2_get_tag (\<lambda>_. 8) (\<lambda>t. if t = 8 then 100 else 200) (\<lambda>t. if t = 8 then 16 else 0) 0 200 = Some 16"
    using stivale2_get_tag_correct[THEN conjunct1, rule_format, of "\<lambda>t. if t = 8 then 16 else 0" "\<lambda>_. 8" 0 "[8, 16]" "\<lambda>t. if t = 8 then 100 else 200" 200]
    by simp
  have "((\<lambda>t. t) ^^ n) (8 :: addr) = 8" for n by (induction n) simp_all
  then show "stivale2_get_tag (\<lambda>_. 8) (\<lambda>_. 100) (\<lambda>t. t) 0 200 = None"
    by (intro stivale2_get_tag_correct[THEN conjunct2, rule_format]) simp_all
qed

text \<open>C34. \<open>smp_init\<close> on a well-formed frame allocator: it panics without the boot loader's structure, and else only if fewer
  frames are left than there are processors to start. When it returns, every processor but the boot processor has
  got a frame of its own that was free before and is used now, and the address where it is to start; nothing else
  of the structure is changed.\<close>

theorem smp_init_correct:
  assumes "pmm_wf st"
  shows "(case smp_init entry (Some tag) st of
       Inl e \<Rightarrow> (\<exists>msg. e = Panic msg) \<and> avail st < length (others (bsp_id tag) (smp_infos tag))
     | Inr (procs, st') \<Rightarrow>
         pmm_wf st' \<and> list_all2 (smp_started (bsp_id tag) entry) (smp_infos tag) procs \<and>
         avail st = avail st' + length (others (bsp_id tag) (smp_infos tag)) \<and>
         distinct (map target_stack (others (bsp_id tag) procs)) \<and>
         (\<forall>s\<in>target_stack ` set (others (bsp_id tag) procs). free_frame st s) \<and>
         (\<forall>f. free_frame st' f \<longleftrightarrow> free_frame st f \<and> f \<notin> target_stack ` set (others (bsp_id tag) procs))) \<and>
    (\<exists>msg. smp_init entry None st = Inl (Panic msg))"
proof (cases "smp_init entry (Some tag) st")
  case (Inl e)
  then show ?thesis using smp_loop_panics[OF assms, of "bsp_id tag" entry "smp_infos tag" e] by (simp add: smp_init_def)
next
  case (Inr r)
  then show ?thesis using smp_loop_starts[OF assms, of "bsp_id tag" entry "smp_infos tag" "fst r" "snd r"]
    by (cases r) (simp add: smp_init_def)
qed

definition demo_smp :: smp_tag_t where
  "demo_smp = \<lparr>bsp_id = 0, smp_infos = map (\<lambda>i. \<lparr>smp_lapic_id = i, target_stack = 0, goto_address = 0\<rparr>) [0, 1, 2]\<rparr>"

theorem smp_init_correct_witness:
  "\<exists>procs st'. smp_init 0xffffffff80204000 (Some demo_smp) demo_pmm = Inr (procs, st') \<and>
     distinct (map target_stack (others 0 procs)) \<and> avail st' = 1"
proof (cases "smp_init 0xffffffff80204000 (Some demo_smp) demo_pmm")
  case (Inl e)
  then show ?thesis using smp_init_correct[OF demo_pmm_wf, where entry = "0xffffffff80204000" and tag = demo_smp] by (simp add: demo_avail demo_smp_def)
next
  case (Inr r)
  then show ?thesis using smp_init_correct[OF demo_pmm_wf, where entry = "0xffffffff80204000" and tag = demo_smp]
    by (cases r) (simp add: demo_avail demo_smp_def)
qed

text \<open>C38. The text screen. \<open>text_write\<close> puts a character with its colours into one cell, the character in the low byte, the
  colours of the palette in the two upper half bytes; it keeps all other cells and all memory outside the cell. The
  colours do not run into each other, since each is below 16. \<open>move_cursor\<close> sends the high byte, then the low byte of
  the position to the cursor registers 14 and 15.\<close>

theorem text_correct:
  "screen_cell (kmem (text_write loc c (color_value fg) (color_value bg) st)) =
     (screen_cell (kmem st))(loc := colored c (color_value fg) (color_value bg)) \<and>
   unat (colored c (color_value fg) (color_value bg)) = unat c + 256 * unat (color_value fg) + 4096 * unat (color_value bg) \<and>
   inj color_value \<and>
   (\<exists>m. text_write loc c (color_value fg) (color_value bg) st = st\<lparr>kmem := m\<rparr> \<and>
      (\<forall>x. \<not> in_region (0xFFFF8000000B8000 + 2 * ucast loc) 2 x \<longrightarrow> m x = kmem st x)) \<and>
   (\<exists>hi lo. trace (move_cursor loc io) = trace io @ [Outb 0x3D4 14, Outb 0x3D5 hi, Outb 0x3D4 15, Outb 0x3D5 lo] \<and>
      unat loc = 256 * unat hi + unat lo)"
proof (intro conjI)
  have lt: "unat (color_value x) < 16" for x by (cases x) simp_all
  show "unat (colored c (color_value fg) (color_value bg)) = unat c + 256 * unat (color_value fg) + 4096 * unat (color_value bg)"
    using lt by (intro colored_bits)
  show "screen_cell (kmem (text_write loc c (color_value fg) (color_value bg) st)) =
     (screen_cell (kmem st))(loc := colored c (color_value fg) (color_value bg))"
    by (rule ext) (simp add: screen_cell_write)
  show "inj color_value"
  proof (rule injI)
    fix x y assume "color_value x = color_value y"
    then show "x = y" by (cases x; cases y) simp_all
  qed
  have "TEXT_ADDR = 0xFFFF8000000B8000" by (simp add: TEXT_ADDR_def VA_HHDM_def)
  then show "\<exists>m. text_write loc c (color_value fg) (color_value bg) st = st\<lparr>kmem := m\<rparr> \<and>
      (\<forall>x. \<not> in_region (0xFFFF8000000B8000 + 2 * ucast loc) 2 x \<longrightarrow> m x = kmem st x)"
    using store_outside unfolding text_write_def by metis
  show "\<exists>hi lo. trace (move_cursor loc io) = trace io @ [Outb 0x3D4 14, Outb 0x3D5 hi, Outb 0x3D4 15, Outb 0x3D5 lo] \<and>
      unat loc = 256 * unat hi + unat lo"
    by (rule exI[of _ "ucast (drop_bit 8 loc AND 0x00FF)"], rule exI[of _ "ucast (loc AND 0x00FF)"])
      (simp add: move_cursor_def TEXT_CMD_PORT_def TEXT_DATA_PORT_def HIGH_BYTE_CMD_def LOW_BYTE_CMD_def u16_halves)
qed

text \<open>C37. Keystrokes, while the local APIC reports the keyboard's interrupt as in service: \<open>n\<close> runs of the handler read the
  keyboard's port \<open>n\<close> times, end \<open>n\<close> interrupts, leave the \<open>n\<close>-th letter, counted from the first one, red on green in
  the first cell of the screen, and count the letter on by \<open>n\<close>, modulo 256. The code read from the keyboard does not
  matter.\<close>

theorem kbd_keystrokes:
  assumes "\<forall>h. bit (mmio_device (mem_part k) h (lapic_paddr (madt_info (mem_part k)) + 0x110)) 1"
  shows "trace (io_part ((kbd_intr_handler ^^ n) k)) = trace (io_part k) @ replicate n (Inb 0x60) \<and>
    key_temp ((kbd_intr_handler ^^ n) k) = key_temp k + of_nat n \<and>
    mmio (mem_part ((kbd_intr_handler ^^ n) k)) = mmio (mem_part k) @ concat (replicate n
      [Mmio_read (lapic_paddr (madt_info (mem_part k)) + 0x110), Mmio_write (lapic_paddr (madt_info (mem_part k)) + 0xB0) 1]) \<and>
    screen_cell (kmem (mem_part ((kbd_intr_handler ^^ n) k))) =
      (if n = 0 then screen_cell (kmem (mem_part k))
       else (screen_cell (kmem (mem_part k)))(0 := ucast (key_temp k + of_nat (n - 1)) OR 0x2400))"
proof (induction n)
  case 0
  then show ?case by simp
next
  case (Suc n)
  have snoc: "replicate (Suc n) x = replicate n x @ [x]" for x :: 'b by (simp add: replicate_append_same)
  note step = kbd_handler_step[of "(kbd_intr_handler ^^ n) k", unfolded kbd_handler_keeps]
  have "bit (mmio_device (mem_part k) (mmio (mem_part ((kbd_intr_handler ^^ n) k))) (lapic_paddr (madt_info (mem_part k)) + 0x110)) 1"
    using assms by blast
  note step = step[unfolded if_P[OF this]]
  have "screen_cell (kmem (mem_part ((kbd_intr_handler ^^ Suc n) k))) =
      (screen_cell (kmem (mem_part k)))(0 := ucast (key_temp k + of_nat n) OR 0x2400)"
    using Suc step(3) by (auto simp: fun_eq_iff split: if_splits)
  moreover have "trace (io_part ((kbd_intr_handler ^^ Suc n) k)) = trace (io_part k) @ replicate (Suc n) (Inb 0x60)"
    using Suc step(1) unfolding snoc by simp
  moreover have "mmio (mem_part ((kbd_intr_handler ^^ Suc n) k)) = mmio (mem_part k) @ concat (replicate (Suc n)
      [Mmio_read (lapic_paddr (madt_info (mem_part k)) + 0x110), Mmio_write (lapic_paddr (madt_info (mem_part k)) + 0xB0) 1])"
    using Suc step(4) unfolding snoc by simp
  ultimately show ?case using Suc step(2) by simp
qed

definition demo_kernel :: kernel where
  "demo_kernel = \<lparr>gdt_part = demo_gdt, io_part = \<lparr>trace = [], device = (\<lambda>_ _. 0)\<rparr>, mem_part = demo_lapic\<lparr>mmio_device := (\<lambda>_ _. - 1)\<rparr>, key_temp = 65\<rparr>"

theorem kbd_keystrokes_witness:
  "trace (io_part ((kbd_intr_handler ^^ 3) demo_kernel)) = [Inb 0x60, Inb 0x60, Inb 0x60] \<and>
   screen_cell (kmem (mem_part ((kbd_intr_handler ^^ 3) demo_kernel))) 0 = 0x2443"
  using kbd_keystrokes[of demo_kernel 3] by (simp add: demo_kernel_def demo_lapic_def numeral_3_eq_3)



theorem text_correct_witness:
  "kmem (text_write 5 65 (color_value RED) (color_value GREEN) (mem_part demo_kernel)) 0xFFFF8000000B8000 = 0 \<and>
   unat (colored 65 (color_value RED) (color_value GREEN)) = 9281"
proof
  note t = text_correct[of 5 65 RED GREEN "mem_part demo_kernel" "io_part demo_kernel"]
  obtain m where m: "text_write 5 65 (color_value RED) (color_value GREEN) (mem_part demo_kernel) = (mem_part demo_kernel)\<lparr>kmem := m\<rparr>"
    "\<forall>x. \<not> in_region (0xFFFF8000000B8000 + 2 * ucast (5 :: u16)) 2 x \<longrightarrow> m x = kmem (mem_part demo_kernel) x" using t by blast
  have "m 0xFFFF8000000B8000 = kmem (mem_part demo_kernel) 0xFFFF8000000B8000" by (rule m(2)[rule_format]) (simp add: in_region_def)
  then show "kmem (text_write 5 65 (color_value RED) (color_value GREEN) (mem_part demo_kernel)) 0xFFFF8000000B8000 = 0"
    unfolding m(1) by (simp add: demo_kernel_def demo_lapic_def)
  show "unat (colored 65 (color_value RED) (color_value GREEN)) = 9281" using t by simp
qed

end
