(* ===== verification/Boot_Run.thy ===== *)
theory Boot_Run
  imports Boot
begin

text \<open>
  The whole start: the routines that \<open>start\<close> calls one after the other, composed. Each stage hands over what the next
  one relies on: the interrupt tables, the frame allocator and the heap, the lists of the MADT, the controllers.
\<close>

section \<open>The tables of the firmware\<close>

text \<open>The part of \<open>madt_table\<close> that speaks of the contents of memory.\<close>

definition madt_bytes :: "mem \<Rightarrow> addr \<Rightarrow> nat list \<Rightarrow> nat \<Rightarrow> bool" where
  "madt_bytes m madt ks n \<longleftrightarrow>
     n \<le> 255 \<and> madt \<noteq> 0 \<and> unat madt + 44 + n < 2 ^ 64 \<and> sdt_length m madt = of_nat (44 + n) \<and> entries_at m (madt + 44) 0 ks n \<and>
     length (of_type m MADT_LAPIC_ADDR_OVERRIDE (madt_entries madt ks)) \<le> 1"

lemma madt_table_bytes:
  "madt_table st madt ks n \<longleftrightarrow> madt_bytes (kmem st) madt ks n \<and> (\<forall>x. in_region madt (44 + n) x \<longrightarrow> above_phys st x \<and> unat x < unat (kheap_max st))"
  by (auto simp: madt_table_def madt_bytes_def)

text \<open>Valid tables from the root pointer to the MADT: the controllers have distinct numbers below 16, and the
  non-maskable interrupts of processor \<open>pid\<close> go to one of its two pins.\<close>

definition tables_ok :: "mem \<Rightarrow> addr \<Rightarrow> addr \<Rightarrow> addr \<Rightarrow> nat list \<Rightarrow> nat \<Rightarrow> u8 \<Rightarrow> bool" where
  "tables_ok m rsdp apic h ks n pid \<longleftrightarrow>
     verify_rsdp_checksum m rsdp \<and> verify_sdt_checksum m (rsdt_sdt_hdr (rsdp_rsdt m rsdp)) \<and> rsdt_ok m (rsdp_rsdt m rsdp) \<and>
     str4 m apic \<and> first_table m apic (rsdp_rsdt m rsdp) = Some h \<and> madt_bytes m (P2V h) ks n \<and>
     distinct (map (io_apic_id m) (of_type m MADT_IOAPIC (madt_entries (P2V h) ks))) \<and>
     (\<forall>e\<in>set (of_type m MADT_IOAPIC (madt_entries (P2V h) ks)). unat (io_apic_id m e) < 16) \<and>
     (\<forall>e\<in>set (of_type m MADT_LAPIC_NMI (madt_entries (P2V h) ks)). lint_ok m pid e)"

text \<open>The address of the local APIC according to the tables.\<close>

definition lapic_at :: "mem \<Rightarrow> addr \<Rightarrow> nat list \<Rightarrow> u64" where
  "lapic_at m h ks = (case of_type m MADT_LAPIC_ADDR_OVERRIDE (madt_entries (P2V h) ks) of
     [] \<Rightarrow> ucast (madt_lapic_addr m (P2V h)) | e # _ \<Rightarrow> override_paddr m e)"

text \<open>The tables lie in kept memory: whatever the rest of the memory holds, they are valid and say the same.\<close>

definition tables_kept :: "(addr \<Rightarrow> bool) \<Rightarrow> mem \<Rightarrow> addr \<Rightarrow> addr \<Rightarrow> addr \<Rightarrow> nat list \<Rightarrow> nat \<Rightarrow> u8 \<Rightarrow> bool" where
  "tables_kept kept m rsdp apic h ks n pid \<longleftrightarrow>
     (\<forall>x. in_region (P2V h) (44 + n) x \<longrightarrow> kept x) \<and>
     (\<forall>m'. (\<forall>x. kept x \<longrightarrow> m' x = m x) \<longrightarrow> tables_ok m' rsdp apic h ks n pid \<and> lapic_at m' h ks = lapic_at m h ks \<and>
        (\<forall>t. of_type m' t (madt_entries (P2V h) ks) = of_type m t (madt_entries (P2V h) ks)) \<and>
        (\<forall>e\<in>set (of_type m MADT_IOAPIC (madt_entries (P2V h) ks)). \<forall>io. io_entry m' e io = io_entry m e io \<and> io_apic_id m' e = io_apic_id m e))"

lemma tables_keptD:
  assumes "tables_kept kept m rsdp apic h ks n pid" "\<forall>x. kept x \<longrightarrow> m' x = m x"
  shows "tables_ok m' rsdp apic h ks n pid" "lapic_at m' h ks = lapic_at m h ks" "of_type m' t (madt_entries (P2V h) ks) = of_type m t (madt_entries (P2V h) ks)"
    "\<forall>e\<in>set (of_type m MADT_IOAPIC (madt_entries (P2V h) ks)). \<forall>io. io_entry m' e io = io_entry m e io \<and> io_apic_id m' e = io_apic_id m e"
  using assms unfolding tables_kept_def by blast+

lemma madt_entries_nonnull:
  assumes "madt_bytes m madt ks n"
  shows "0 \<notin> set (madt_entries madt ks)" "length (madt_entries madt ks) \<le> 255"
proof -
  note b = assms[unfolded madt_bytes_def]
  show "length (madt_entries madt ks) \<le> 255" using b entries_at_length[of m "madt + 44" 0 ks n] by (simp add: madt_entries_def)
  have "madt + 44 + of_nat k \<noteq> 0" if "k \<in> set ks" for k
  proof -
    have k: "k < n" using entries_at_bounds[of m "madt + 44" 0 ks n k] b that by auto
    have "unat (of_nat (44 + k) :: u64) = 44 + k" using k b by (intro unat_of_nat_u64) auto
    then have "unat (madt + of_nat (44 + k)) = unat madt + (44 + k)" using k b by (simp add: unat_plus_if' del: of_nat_add)
    then show ?thesis by (auto simp: add.assoc)
  qed
  then show "0 \<notin> set (madt_entries madt ks)" by (auto simp: madt_entries_def)
qed

section \<open>The stages\<close>

text \<open>Memory that no stage before the devices touches.\<close>

definition start_kept :: "mmap_entry list \<Rightarrow> pmr list \<Rightarrow> 'a pmm_state_scheme \<Rightarrow> addr \<Rightarrow> bool" where
  "start_kept es pmrs st x \<longleftrightarrow> boot_kept es (alloc_ptr st) x \<and> unat x < unat (pmrs_end pmrs 0)"

text \<open>Frames and room for the heap that the start may take: those for the page tables, four for each page of the heap,
  one page of the heap at first and one for each type of MADT entry, and one for each processor.\<close>

definition start_short :: "mmap_entry list \<Rightarrow> pmr list \<Rightarrow> nat \<Rightarrow> nat \<Rightarrow> bool" where
  "start_short es pmrs types procs \<longleftrightarrow>
     card (upper_frames es) < tables_cost pmrs (entry_end (last es)) + 4 * (types + 1) + procs \<or>
     2 ^ 64 < unat (pmrs_end pmrs 0) + 4096 * (types + 1)"

abbreviation listed_types :: "mem \<Rightarrow> addr \<Rightarrow> nat list \<Rightarrow> nat" where
  "listed_types m h ks \<equiv> card (used_types m (madt_entries (P2V h) ks) list_types)"

lemma memory_and_tables:
  fixes st :: "'a acpi_state_scheme"
  assumes ok: "boot_ok es pmrs st" and h: "memmap_tag h = Some es" "kernel_base_tag h = Some kb" "pmrs_tag h = Some pmrs" "hhdm_tag h = Some hh"
    and t: "madt_info st = madt_info_0" "tables_kept (start_kept es pmrs st) (kmem st) rsdp apic mt ks n pid"
  obtains (fail) msg where "obind (Some (start_memory W w h st)) (acpi_init (Some rsdp) apic) = Some (Inl (Panic msg))"
      "start_short es pmrs (listed_types (kmem st) mt ks) 0"
  | (go) st1 st2 where "start_memory W w h st = Inr st1" "acpi_init (Some rsdp) apic st1 = Some (Inr st2)"
      "\<forall>x. start_kept es pmrs st x \<longrightarrow> kmem st2 x = kmem st x" "acpi_state.more st2 = acpi_state.more st"
      "\<forall>t\<in>list_types. madt_listed (kmem st2) (madt_info st2) t (of_type (kmem st) t (madt_entries (P2V mt) ks))"
      "lapic_paddr (madt_info st2) = lapic_at (kmem st) mt ks" "pmm_wf st2" "register_intr_handler w PAGE_FAULT_IRQ_VEC (intr st) = Inr (intr st2)"
      "card (upper_frames es) \<le> avail st2 + tables_cost pmrs (entry_end (last es)) + 4 * (listed_types (kmem st) mt ks + 1)"
proof -
  let ?c = "listed_types (kmem st) mt ks" and ?cost = "tables_cost pmrs (entry_end (last es))"
  obtain pbase vbase where kb: "kernel_base_tag h = Some (pbase, vbase)" using h(2) by (cases kb) simp
  show thesis
  proof (rule start_memory_run[OF ok h(1) kb h(3,4), of W w])
    fix msg assume "start_memory W w h st = Inl (Panic msg)" "card (upper_frames es) < ?cost + 4 \<or> 2 ^ 64 < unat (pmrs_end pmrs 0) + 4096"
    then show thesis by (intro fail) (auto simp: start_short_def)
  next
    fix st1 assume s1: "start_memory W w h st = Inr st1" "heap_rel st1 Map.empty" "unat (kheap_top st1) = 2 ^ 64 - 4096" "kheap_max st1 = pmrs_end pmrs 0"
      "kheap_state.more st1 = kheap_state.more st" "\<forall>x. boot_kept es (alloc_ptr st) x \<longrightarrow> above_phys st1 x \<and> kmem st1 x = kmem st x"
      "register_intr_handler w PAGE_FAULT_IRQ_VEC (intr st) = Inr (intr st1)" "card (upper_frames es) \<le> avail st1 + ?cost + 4"
    have m1: "\<forall>x. start_kept es pmrs st x \<longrightarrow> kmem st1 x = kmem st x" using s1(6) by (simp add: start_kept_def)
    note tk = tables_keptD[OF t(2) m1]
    note ok1 = tk(1)[unfolded tables_ok_def]
    have i1: "madt_info st1 = madt_info_0" "acpi_state.more st1 = acpi_state.more st" using s1(5) t(1) by (cases st, cases st1, simp)+
    have "above_phys st1 x \<and> unat x < unat (kheap_max st1)" if "in_region (P2V mt) (44 + n) x" for x
      using t(2) that s1(4,6) by (auto simp: tables_kept_def start_kept_def)
    then have mt: "madt_table st1 (P2V mt) ks n" using ok1 by (simp add: madt_table_bytes)
    have c: "listed_types (kmem st1) mt ks = ?c" by (simp add: used_types_def tk(3))
    have run: "panics_if_or (short_of ?c st1)
      (\<lambda>st'. (\<forall>t\<in>list_types. madt_listed (kmem st') (get_madt_info st') t (of_type (kmem st1) t (madt_entries (P2V mt) ks))) \<and>
         lapic_paddr (get_madt_info st') = lapic_at (kmem st1) mt ks \<and>
         keeps Map.empty (kmem st1) (kmem st') \<and> (\<exists>U'. heap_rel st' U') \<and> low_same st1 st' \<and> acpi_state.more st' = acpi_state.more st1 \<and> costs ?c st1 st')
      (acpi_init (Some rsdp) apic st1)"
      unfolding lapic_at_def c[symmetric] by (rule acpi_init_run[OF s1(2) i1(1)]) (use ok1 mt in blast)+
    show thesis using run unfolding panics_if_or_def
    proof (elim disjE exE conjE)
      fix msg assume "short_of ?c st1" "acpi_init (Some rsdp) apic st1 = Some (Inl (Panic msg))"
      then show thesis using s1(1,3,4,8) by (intro fail) (auto simp: start_short_def short_of_def)
    next
      fix st2 U assume s2: "acpi_init (Some rsdp) apic st1 = Some (Inr st2)"
        "\<forall>t\<in>list_types. madt_listed (kmem st2) (get_madt_info st2) t (of_type (kmem st1) t (madt_entries (P2V mt) ks))"
        "lapic_paddr (get_madt_info st2) = lapic_at (kmem st1) mt ks" "heap_rel st2 U" "low_same st1 st2"
        "acpi_state.more st2 = acpi_state.more st1" "costs ?c st1 st2"
      show thesis
      proof (rule go[OF s1(1) s2(1)])
        show "\<forall>x. start_kept es pmrs st x \<longrightarrow> kmem st2 x = kmem st x" using s2(5) s1(4,6) by (simp add: low_same_def start_kept_def)
        show "acpi_state.more st2 = acpi_state.more st" using s2(6) i1(2) by simp
        show "\<forall>t\<in>list_types. madt_listed (kmem st2) (madt_info st2) t (of_type (kmem st) t (madt_entries (P2V mt) ks))"
          using s2(2) by (simp add: tk(3) get_madt_info_def)
        show "lapic_paddr (madt_info st2) = lapic_at (kmem st) mt ks" using s2(3) by (simp add: tk(2) get_madt_info_def)
        show "pmm_wf st2" using s2(4) heap_envD(5) by (auto simp: heap_rel_def kheap_wf_def pt_wf_def)
        show "register_intr_handler w PAGE_FAULT_IRQ_VEC (intr st) = Inr (intr st2)" using s1(7) s2(5) by (simp add: low_same_def)
        show "card (upper_frames es) \<le> avail st2 + ?cost + 4 * (?c + 1)" using s1(8) s2(7) by (simp add: costs_def)
      qed
    qed
  qed
qed

text \<open>The controllers, on the lists of the tables.\<close>

definition lapic_reports :: "apic_state \<Rightarrow> u64 \<Rightarrow> u8 \<Rightarrow> bool" where
  "lapic_reports st a pid \<longleftrightarrow> (\<forall>h. ucast (drop_bit 24 (mmio_device st h (a + 0x20))) = pid)"

definition apic_fresh :: "apic_state \<Rightarrow> bool" where
  "apic_fresh st \<longleftrightarrow> length (ioapics st) = 16 \<and> \<not> bsp_lapic_id_valid st \<and> \<not> io_apic_valid st"

lemma apic_more:
  assumes "acpi_state.more st' = acpi_state.more st"
  shows "apic_fresh st' = apic_fresh st" "lapic_reports st' a pid = lapic_reports st a pid"
  using assms by (cases st, cases st', simp add: apic_fresh_def lapic_reports_def)+

lemma controllers_start:
  assumes t: "tables_kept kept (kmem st) rsdp apic mt ks n pid" "\<forall>x. kept x \<longrightarrow> kmem st2 x = kmem st x"
    and s2: "acpi_state.more st2 = acpi_state.more st" "\<forall>t\<in>list_types. madt_listed (kmem st2) (madt_info st2) t (of_type (kmem st) t (madt_entries (P2V mt) ks))"
      "lapic_paddr (madt_info st2) = lapic_at (kmem st) mt ks"
    and st: "apic_fresh st" "lapic_reports st (lapic_at (kmem st) mt ks) pid"
  obtains st3 where "apic_init (Some b) junk st2 = Inr st3" "same_machine st2 st3"
    "\<forall>e\<in>set (of_type (kmem st) MADT_IOAPIC (madt_entries (P2V mt) ks)). io_entry (kmem st) e (ioapics st3 ! unat (io_apic_id (kmem st) e))"
    "\<exists>g v. mmio st3 = g @ [Mmio_write (lapic_at (kmem st) mt ks + 0xF0) (put_field 8 1 1 v)]"
proof -
  let ?es = "madt_entries (P2V mt) ks"
  note tk = tables_keptD[OF t]
  note ok = tk(1)[unfolded tables_ok_def tk(3)]
  have nn: "0 \<notin> set ?es" "length ?es \<le> 255" using ok madt_entries_nonnull by blast+
  have of: "set (of_type m t ?es) \<subseteq> set ?es" "length (of_type m t ?es) < 2 ^ 64" for m t
    using le_trans[OF length_filter_le nn(2), of "\<lambda>e. entry_type m e = t"] by (auto simp: of_type_def)
  have tys: "MADT_IOAPIC \<in> list_types" "MADT_INTR_SRC_OVERRIDE \<in> list_types" "MADT_LAPIC_NMI \<in> list_types" by (simp_all add: list_types_def)
  have f2: "length (ioapics st2) = 16" "\<not> bsp_lapic_id_valid st2" "\<not> io_apic_valid st2" "lapic_is st2 pid"
    using apic_more[OF s2(1)] st s2(3) by (auto simp: apic_fresh_def lapic_reports_def lapic_is_def)
  have "\<exists>st' h v. apic_init (Some b) junk st2 = Inr st' \<and> same_machine st2 st' \<and> length (ioapics st') = 16 \<and> bsp_lapic_id st' = (b, st') \<and> io_apic_valid st' \<and>
      (\<forall>e\<in>set (of_type (kmem st) MADT_IOAPIC ?es). io_entry (kmem st2) e (ioapics st' ! unat (io_apic_id (kmem st2) e))) \<and>
      mmio st' = h @ [Mmio_write (lapic_paddr (madt_info st2) + 0xF0) (put_field 8 1 1 v)]"
    by (rule apic_init_run[OF f2 bspec[OF s2(2) tys(1)] bspec[OF s2(2) tys(2)] bspec[OF s2(2) tys(3)]]) (use ok of nn(1) in blast)+
  then show thesis using that tk(4) unfolding s2(3) by metis
qed

lemma pmm_same:
  assumes "same_machine st st'"
  shows "pmm_wf st' = pmm_wf st" "avail st' = avail st" "free_frame st' f = free_frame st f" "intr st' = intr st"
  using assms by (simp_all add: same_machine_def pmm_wf_def zone_base_def num_pages_def avail_def free_pages_def page_used_def free_frame_def)

lemma smp_loop_intr: "smp_loop bsp entry procs st = Inr (procs', st') \<Longrightarrow> pmm_state.more st' = pmm_state.more st"
proof (induction procs arbitrary: st procs')
  case (Cons p procs)
  have "pmm_state.more s = pmm_state.more st" if "pmm_alloc st z q = Inr (a, s)" for z q a s
    using that by (auto simp: pmm_alloc_def update_zone_def Let_def split: if_splits)
  with Cons show ?case by (fastforce simp: kbind_eq_Inr split: if_splits)
qed simp

text \<open>The devices, on a state with its frame allocator and interrupt tables in order.\<close>

lemma devices_start:
  fixes st :: apic_state and handler entry :: addr and tag :: smp_tag_t and k :: kernel
  assumes "pmm_wf st" "intr_wf (intr st)"
  defines "r \<equiv> obind (Some (smp_init entry (Some tag) st)) (\<lambda>(procs, s).
    obind (on_mem (k\<lparr>mem_part := s\<rparr>) (Some (kbd_init handler s))) (\<lambda>k. Some (Inr (procs, k))))"
  obtains (fail) msg where "r = Some (Inl (Panic msg))" "avail st < length (others (bsp_id tag) (smp_infos tag))"
  | (go) procs k' where "r = Some (Inr (procs, k'))" "gdt_part k' = gdt_part k" "io_part k' = io_part k" "ioapics (mem_part k') = ioapics st"
      "kernel_gate handler (idt (intr (mem_part k')) ! 33)" "\<forall>j. j \<noteq> 33 \<longrightarrow> idt (intr (mem_part k')) ! j = idt (intr st) ! j"
      "list_all2 (smp_started (bsp_id tag) entry) (smp_infos tag) procs" "distinct (map target_stack (others (bsp_id tag) procs))"
proof (cases "smp_loop (bsp_id tag) entry (smp_infos tag) st")
  case (Inl e)
  then show thesis using smp_loop_panics[OF assms(1) Inl] fail by (auto simp: r_def smp_init_def)
next
  case (Inr x)
  obtain procs s where s: "smp_loop (bsp_id tag) entry (smp_infos tag) st = Inr (procs, s)" using Inr by (cases x) simp
  note sm = smp_loop_starts[OF assms(1) s]
  have m: "intr s = intr st" "ioapics s = ioapics st" using smp_loop_intr[OF s] by (cases st, cases s, simp)+
  obtain i where i: "kbd_init handler s = Inr (ioapic_quickset_irq 0 1 0 0x21 (s\<lparr>intr := i\<rparr>))" "intr (ioapic_quickset_irq 0 1 0 0x21 (s\<lparr>intr := i\<rparr>)) = i"
    "kernel_gate handler (idt i ! 33)" "\<forall>j. j \<noteq> 33 \<longrightarrow> idt i ! j = idt (intr s) ! j"
    using kbd_init_run[of s handler] assms(2) m(1) by metis
  have "r = Some (Inr (procs, k\<lparr>mem_part := ioapic_quickset_irq 0 1 0 0x21 (s\<lparr>intr := i\<rparr>)\<rparr>))"
    using s i(1) by (simp add: r_def smp_init_def on_mem_def)
  then show thesis by (rule go) (use i m sm in \<open>simp_all add: quickset_same(2)\<close>)
qed

text \<open>The calls from the memory to the controllers, and the rest of \<open>start\<close> behind them.\<close>

definition machine_part :: "linked \<Rightarrow> (u64 \<Rightarrow> u64) \<Rightarrow> boot_handover \<Rightarrow> addr \<Rightarrow> u32 \<Rightarrow> apic_state \<Rightarrow> apic_state kres option" where
  "machine_part L junk h rsdp b st =
     obind (Some (start_memory (pmr_writable L) (page_fault_at L) h st)) (\<lambda>st.
     obind (acpi_init (Some rsdp) (apic_string_at L) st) (\<lambda>st. Some (apic_init (Some b) junk st)))"

lemma obind_on_mem: "obind (on_mem k r) f = obind r (\<lambda>s. f (k\<lparr>mem_part := s\<rparr>))"
  by (simp add: on_mem_def obind_def split: option.splits sum.splits)

lemma obind_obind: "obind (obind r f) g = obind r (\<lambda>x. obind (f x) g)"
  by (simp add: obind_def split: option.splits sum.splits)

lemma start_stages:
  assumes "idt_init (idt_at L) (intr (mem_part k)) = Inr i" "rsdp_tag h = Some rsdp" "smp_tag h = Some tag"
  shows "start L junk h k = obind (machine_part L junk h rsdp (bsp_id tag) ((mem_part k)\<lparr>intr := i\<rparr>)) (\<lambda>s.
    obind (Some (smp_init (ap_entry_at L) (Some tag) s)) (\<lambda>(procs, s).
    obind (on_mem (k\<lparr>gdt_part := gdt_init (tss_at L) (gdt_at L) (gdt_part k), io_part := pic_disable (com_init (io_part k)), mem_part := s\<rparr>)
      (Some (kbd_init (kbd_at L) s))) (\<lambda>k. Some (Inr (procs, k)))))"
  using assms by (simp add: start_def machine_part_def obind_obind Let_def) (simp add: obind_on_mem)

text \<open>Every vector leads to its handler in the table, vector 14 to the handler of page faults.\<close>

definition gates_ok :: "linked \<Rightarrow> addr list \<Rightarrow> intr_state \<Rightarrow> bool" where
  "gates_ok L isrs i \<longleftrightarrow> intr_wf i \<and> (\<forall>v :: u8. kernel_gate (if v = 14 then page_fault_at L else isrs ! unat v) (idt i ! unat v))"

lemma page_fault_gate:
  assumes "intr_wf i" "\<forall>v :: u8. kernel_gate (isrs ! unat v) (idt i ! unat v)" "register_intr_handler (page_fault_at L) PAGE_FAULT_IRQ_VEC i = Inr i'"
  shows "gates_ok L isrs i'"
proof -
  have i': "intr_wf i'" "kernel_gate (page_fault_at L) (idt i' ! 14)" "\<forall>j. j \<noteq> 14 \<longrightarrow> idt i' ! j = idt i ! j"
    using register_intr_handler_correct[OF assms(1), of "page_fault_at L" PAGE_FAULT_IRQ_VEC] assms(3) by (auto simp: PAGE_FAULT_IRQ_VEC_def)
  have "unat v = 14 \<longleftrightarrow> v = 14" for v :: u8 by (auto simp: word_unat_eq_iff)
  then show ?thesis using i' assms(2) by (auto simp: gates_ok_def)
qed

lemma machine_start:
  assumes ok: "boot_ok es pmrs st" and h: "memmap_tag h = Some es" "kernel_base_tag h = Some kb" "pmrs_tag h = Some pmrs" "hhdm_tag h = Some hh"
    and t: "madt_info st = madt_info_0" "tables_kept (start_kept es pmrs st) (kmem st) rsdp (apic_string_at L) mt ks n pid"
    and st: "apic_fresh st" "lapic_reports st (lapic_at (kmem st) mt ks) pid" "\<forall>v :: u8. kernel_gate (isrs ! unat v) (idt (intr st) ! unat v)"
  obtains (fail) msg where "machine_part L junk h rsdp b st = Some (Inl (Panic msg))" "start_short es pmrs (listed_types (kmem st) mt ks) 0"
  | (go) st3 where "machine_part L junk h rsdp b st = Some (Inr st3)" "pmm_wf st3" "gates_ok L isrs (intr st3)"
      "\<forall>e\<in>set (of_type (kmem st) MADT_IOAPIC (madt_entries (P2V mt) ks)). io_entry (kmem st) e (ioapics st3 ! unat (io_apic_id (kmem st) e))"
      "card (upper_frames es) \<le> avail st3 + tables_cost pmrs (entry_end (last es)) + 4 * (listed_types (kmem st) mt ks + 1)"
proof (rule memory_and_tables[OF ok h t, of "pmr_writable L" "page_fault_at L"])
  fix msg assume "obind (Some (start_memory (pmr_writable L) (page_fault_at L) h st)) (acpi_init (Some rsdp) (apic_string_at L)) = Some (Inl (Panic msg))"
    "start_short es pmrs (listed_types (kmem st) mt ks) 0"
  then show thesis using fail by (simp add: machine_part_def obind_obind[symmetric])
next
  fix st1 st2 assume s: "start_memory (pmr_writable L) (page_fault_at L) h st = Inr st1" "acpi_init (Some rsdp) (apic_string_at L) st1 = Some (Inr st2)"
    "\<forall>x. start_kept es pmrs st x \<longrightarrow> kmem st2 x = kmem st x" "acpi_state.more st2 = acpi_state.more st"
    "\<forall>t\<in>list_types. madt_listed (kmem st2) (madt_info st2) t (of_type (kmem st) t (madt_entries (P2V mt) ks))"
    "lapic_paddr (madt_info st2) = lapic_at (kmem st) mt ks" "pmm_wf st2" "register_intr_handler (page_fault_at L) PAGE_FAULT_IRQ_VEC (intr st) = Inr (intr st2)"
    "card (upper_frames es) \<le> avail st2 + tables_cost pmrs (entry_end (last es)) + 4 * (listed_types (kmem st) mt ks + 1)"
  obtain st3 where c: "apic_init (Some b) junk st2 = Inr st3" "same_machine st2 st3"
    "\<forall>e\<in>set (of_type (kmem st) MADT_IOAPIC (madt_entries (P2V mt) ks)). io_entry (kmem st) e (ioapics st3 ! unat (io_apic_id (kmem st) e))"
    by (rule controllers_start[OF t(2) s(3-6) st(1,2)])
  note p3 = pmm_same[OF c(2)]
  have "gates_ok L isrs (intr st3)" unfolding p3(4) using ok st(3) s(8) by (intro page_fault_gate[of "intr st"]) (simp_all add: boot_ok_def)
  then show thesis using go[of st3] s(1,2,7,9) c p3 by (simp add: machine_part_def)
qed

section \<open>Properties\<close>


text \<open>A machine of 32 MiB with one I/O controller and two more processors.\<close>

definition demo_machine :: kernel where
  "demo_machine = \<lparr>gdt_part = demo_gdt, io_part = \<lparr>trace = [], device = (\<lambda>_ _. 0)\<rparr>,
     mem_part = kheap_state.extend (demo_unstarted\<lparr>kmem := demo_acpi\<rparr>)
       \<lparr>madt_info = madt_info_0, rsdt = rsdt_0, mmio = [], mmio_device = (\<lambda>_ _. 0), ioapics = replicate 16 no_io,
        bsp_lapic_id_var = 0, bsp_lapic_id_valid = False, io_apic_valid = False\<rparr>,
     key_temp = 65\<rparr>"

definition demo_tags :: boot_handover where
  "demo_tags = handover.extend demo_handover \<lparr>rsdp_tag = Some demo_rsdp, smp_tag = Some demo_smp\<rparr>"

definition demo_linked :: linked where
  "demo_linked = \<lparr>tss_at = 0xffffffff80200100, gdt_at = 0xffffffff80200200, idt_at = 0xffffffff80200300, page_fault_at = 0xffffffff80112233,
     kbd_at = 0xffffffff80112299, ap_entry_at = 0xffffffff80112300, apic_string_at = demo_apic, pmr_writable = 2\<rparr>"

lemma demo_machine_simps [simp]:
  "kmem (mem_part demo_machine) = demo_acpi" "alloc_ptr (mem_part demo_machine) = 0xffffffff80201000" "intr (mem_part demo_machine) = demo_intr"
  "madt_info (mem_part demo_machine) = madt_info_0" "mmio_device (mem_part demo_machine) = (\<lambda>_ _. 0)" "apic_fresh (mem_part demo_machine)"
  "memmap_tag demo_tags = Some demo_memmap" "kernel_base_tag demo_tags = Some (0x200000, 0xffffffff80200000)" "pmrs_tag demo_tags = Some demo_pmrs"
  "hhdm_tag demo_tags = Some VA_HHDM" "rsdp_tag demo_tags = Some demo_rsdp" "smp_tag demo_tags = Some demo_smp" "apic_string_at demo_linked = demo_apic"
  by (simp_all add: demo_machine_def demo_unstarted_def kheap_state.extend_def apic_fresh_def demo_tags_def demo_handover_def handover.extend_def demo_linked_def)

lemma demo_kept:
  assumes "\<forall>x. start_kept demo_memmap demo_pmrs (mem_part demo_machine) x \<longrightarrow> m x = demo_acpi x"
  shows "demo_holds m"
  unfolding demo_holds_def
proof (intro allI impI)
  fix x :: addr assume "0x2000000 \<le> unat x \<and> unat x < unat (0xffffffff80000000 :: u64)"
  then have "start_kept demo_memmap demo_pmrs (mem_part demo_machine) x"
    by (simp add: start_kept_def boot_kept_def demo_boot_facts(2,3) area_bytes_def in_region_unat)
  then show "m x = demo_acpi x" using assms by blast
qed

lemma demo_boots: "boot_ok demo_memmap demo_pmrs (mem_part demo_machine)"
proof -
  have z: "demo_acpi x = 0" if "unat x < 0x2000000" for x
    using that by (auto simp: demo_mem)
  have "frames_zero demo_acpi (usable_frames demo_memmap)"
    unfolding frames_zero_def
  proof (intro ballI allI impI)
    fix f x assume f: "f \<in> usable_frames demo_memmap" "4096 \<le> f" "in_region (of_nat (4096 * f)) 4096 x"
    have "f < 0x2000" using usable_frames_below[OF _ f(1)] demo_boot_facts(1,3) by (simp add: boot_ok_def)
    moreover from this have "unat (of_nat (4096 * f) :: u64) = 4096 * f" by (intro unat_of_nat_u64) simp
    ultimately have "unat x < 0x2000000" using f(3) by (simp add: in_region_unat)
    then show "demo_acpi x = 0" by (rule z)
  qed
  then show ?thesis using demo_boot_facts(1) by (simp add: boot_ok_def demo_machine_def demo_unstarted_def kheap_state.extend_def pmm_boot_def)
qed

lemma demo_entry_list: "madt_entries demo_madt [0, 12] = [demo_madt + 44, demo_madt + 56]"
  by (simp add: madt_entries_def)

lemma demo_entries:
  assumes "demo_holds m"
  shows "madt_bytes m demo_madt [0, 12] 24" "of_type m t (madt_entries demo_madt [0, 12]) = filter (\<lambda>e. demo_table e = t) [demo_madt + 44, demo_madt + 56]"
    "io_entry m (demo_madt + 44) io = (present io \<and> ioapic_id io = 0 \<and> ioregsel io = 0 \<and> iowin io = 0x10 \<and> gsi_base io = 0)"
    "io_apic_id m (demo_madt + 44) = 0"
proof -
  note m = demo_holds_table[OF assms]
  note f = demo_fields[OF m]
  have "demo_madt \<noteq> 0" "unat demo_madt + 44 + 24 < 2 ^ 64" by (simp_all add: demo_madt_def)
  then show "madt_bytes m demo_madt [0, 12] 24"
    using f f[unfolded add.commute[of demo_madt]] by (simp add: madt_bytes_def of_type_def madt_entries_def madt_types)
  have e: "m (demo_madt + 44) = demo_table (demo_madt + 44)" "m (demo_madt + 56) = demo_table (demo_madt + 56)" by (rule m, simp add: in_region_def)+
  then show "of_type m t (madt_entries demo_madt [0, 12]) = filter (\<lambda>e. demo_table e = t) [demo_madt + 44, demo_madt + 56]"
    by (simp add: of_type_def demo_entry_list entry_type_def)
  show i: "io_apic_id m (demo_madt + 44) = 0" using m[of "demo_madt + 46"] by (simp add: io_apic_id_def in_region_def demo_table_def demo_madt_def)
  have "io_apic_addr m (demo_madt + 44) = 0" "io_apic_gsi_base m (demo_madt + 44) = 0"
    using m[unfolded demo_madt_def in_region_def] by (simp_all add: io_apic_addr_def io_apic_gsi_base_def load_def demo_upts demo_table_def demo_madt_def)
  then show "io_entry m (demo_madt + 44) io = (present io \<and> ioapic_id io = 0 \<and> ioregsel io = 0 \<and> iowin io = 0x10 \<and> gsi_base io = 0)"
    using i by (simp add: io_entry_def)
qed

lemma demo_values:
  assumes "demo_holds m"
  shows "tables_ok m demo_rsdp demo_apic 0x3002000 [0, 12] 24 0" "lapic_at m 0x3002000 [0, 12] = 0x700"
proof -
  have p: "P2V 0x3002000 = demo_madt" by (simp add: P2V_def VA_HHDM_def demo_madt_def)
  note l = demo_madt_lists[OF demo_holds_table[OF assms]] and f = demo_fields[OF demo_holds_table[OF assms]] and e = demo_entries[OF assms]
  have nmi: "of_type m MADT_LAPIC_NMI (madt_entries demo_madt [0, 12]) = []"
    using f(2,4) by (simp add: of_type_def demo_entry_list madt_types)
  show "tables_ok m demo_rsdp demo_apic 0x3002000 [0, 12] 24 0"
    using demo_rsdp_values[OF assms] demo_rsdt_values[OF assms] e(1,4) by (simp add: tables_ok_def p l(1) nmi)
  show "lapic_at m 0x3002000 [0, 12] = 0x700" using f(6) by (simp add: lapic_at_def p l(2))
qed

lemma demo_acpi_holds: "demo_holds demo_acpi"
  by (simp add: demo_holds_def)

lemma demo_tables_kept: "tables_kept (start_kept demo_memmap demo_pmrs (mem_part demo_machine)) demo_acpi demo_rsdp demo_apic 0x3002000 [0, 12] 24 0"
proof -
  have p: "P2V 0x3002000 = demo_madt" by (simp add: P2V_def VA_HHDM_def demo_madt_def)
  have "start_kept demo_memmap demo_pmrs (mem_part demo_machine) x" if "in_region demo_madt 68 x" for x
    using that by (simp add: start_kept_def boot_kept_def demo_boot_facts(2,3) area_bytes_def in_region_unat demo_madt_def)
  moreover have "set (of_type demo_acpi MADT_IOAPIC (madt_entries demo_madt [0, 12])) = {demo_madt + 44}"
    using demo_madt_lists(1)[OF demo_holds_table[OF demo_acpi_holds]] by simp
  ultimately show ?thesis
    unfolding tables_kept_def p using demo_kept demo_entries demo_values demo_acpi_holds by simp
qed


end
